(* ===== verification/Kernel_Base.thy ===== *)
theory Kernel_Base
  imports Main "HOL-Library.Word" "HOL-Library.Code_Target_Numeral"
begin

text \<open>
  Shared ground of the development: the error numbers of
  \<^verbatim>\<open>include/kern/errno.h\<close>, the outcome of a kernel function (a result, an error
  number, or a panic), the composition of such functions, a weakest-precondition calculus for
  them, 32-bit arithmetic on \<^typ>\<open>nat\<close> with the wrap-around written out, and list lemmas
  about overwriting part of a buffer.

  Conventions. A C function that returns an error number and changes state is a function
  \<open>'s \<Rightarrow> ('a, 's) kres\<close>: \<open>Ok x s\<close> is the return of 0 with the out-parameter \<open>x\<close>,
  \<open>Err e s\<close> the return of error \<open>e\<close>, and both carry the state the call leaves behind, because
  an error return does not undo what was done before it. \<open>Panic\<close> is a call of
  \<^verbatim>\<open>panic()\<close>, a failed \<^verbatim>\<open>KASSERT\<close> (enabled in the checked-in
  kernels; \<^verbatim>\<open>DEBUGASSERT\<close> is compiled out by \<^verbatim>\<open>lib.h\<close>) or an
  access outside an allocated object.
\<close>

unbundle bit_operations_syntax

section \<open>Error numbers and outcomes\<close>

datatype errno =
    ENOSYS | EUNIMP | ENOMEM | EAGAIN | EINTR | EFAULT | ENAMETOOLONG | EINVAL | EPERM | EACCES
  | EMPROC | ENPROC | ENOEXEC | E2BIG | ESRCH | ECHILD | ENOTDIR | EISDIR | ENOENT | ELOOP
  | ENOTEMPTY | EEXIST | EMLINK | EXDEV | ENODEV | ENXIO | EBUSY | EMFILE | ENFILE | EBADF
  | EIOCTL | EIO | ESPIPE | EPIPE | EROFS | ENOSPC | EDQUOT | EFBIG

datatype ('a, 's) kres = Ok 'a 's | Err errno 's | Panic

type_synonym ('s, 'a) kfun = "'s \<Rightarrow> ('a, 's) kres"

type_synonym u8 = "8 word"
type_synonym u16 = "16 word"
type_synonym u32 = "32 word"
type_synonym u64 = "64 word"

named_theorems wp_simps "weakest preconditions of the kernel-function combinators"

definition kret :: "'a \<Rightarrow> ('s, 'a) kfun" where
  "kret x s = Ok x s"

definition kerr :: "errno \<Rightarrow> ('s, 'a) kfun" where
  "kerr e s = Err e s"

definition kpanic :: "('s, 'a) kfun" where
  "kpanic s = Panic"

definition kassert :: "bool \<Rightarrow> ('s, unit) kfun" where
  "kassert b s = (if b then Ok () s else Panic)"

definition kget :: "('s \<Rightarrow> 'a) \<Rightarrow> ('s, 'a) kfun" where
  "kget f s = Ok (f s) s"

definition kmod :: "('s \<Rightarrow> 's) \<Rightarrow> ('s, unit) kfun" where
  "kmod f s = Ok () (f s)"

text \<open>
  \<open>kbind m f\<close> is \<^verbatim>\<open>result = m(); if (result) return result;\<close> followed by \<open>f\<close>;
  \<open>ktry m\<close> is a call whose result the caller inspects itself.
\<close>

definition kbind :: "('s, 'a) kfun \<Rightarrow> ('a \<Rightarrow> ('s, 'b) kfun) \<Rightarrow> ('s, 'b) kfun" where
  "kbind m f s = (case m s of Ok x s' \<Rightarrow> f x s' | Err e s' \<Rightarrow> Err e s' | Panic \<Rightarrow> Panic)"

definition ktry :: "('s, 'a) kfun \<Rightarrow> ('s, errno + 'a) kfun" where
  "ktry m s = (case m s of Ok x s' \<Rightarrow> Ok (Inr x) s' | Err e s' \<Rightarrow> Ok (Inl e) s' | Panic \<Rightarrow> Panic)"

lemmas kfun_defs = kret_def kerr_def kpanic_def kassert_def kget_def kmod_def kbind_def ktry_def

text \<open>Flags of \<^verbatim>\<open>open\<close> and the types of files.\<close>

definition O_RDONLY :: u32 where "O_RDONLY = 0"
definition O_WRONLY :: u32 where "O_WRONLY = 1"
definition O_RDWR :: u32 where "O_RDWR = 2"
definition O_CREAT :: u32 where "O_CREAT = 4"
definition O_EXCL :: u32 where "O_EXCL = 8"
definition O_TRUNC :: u32 where "O_TRUNC = 16"
definition O_APPEND :: u32 where "O_APPEND = 32"
definition O_ACCMODE :: u32 where "O_ACCMODE = 3"
definition S_IFREG :: nat where "S_IFREG = 4096"
definition S_IFDIR :: nat where "S_IFDIR = 8192"
definition S_IFCHR :: nat where "S_IFCHR = 24576"
definition S_IFBLK :: nat where "S_IFBLK = 28672"

section \<open>Weakest preconditions\<close>

text \<open>
  \<open>wp m Q E s\<close>: run from \<open>s\<close>, the function \<open>m\<close> does not panic, a return of 0 satisfies \<open>Q\<close> and
  an error return satisfies \<open>E\<close>.
\<close>

definition wp :: "('s, 'a) kfun \<Rightarrow> ('a \<Rightarrow> 's \<Rightarrow> bool) \<Rightarrow> (errno \<Rightarrow> 's \<Rightarrow> bool) \<Rightarrow> 's \<Rightarrow> bool" where
  "wp m Q E s = (case m s of Ok x s' \<Rightarrow> Q x s' | Err e s' \<Rightarrow> E e s' | Panic \<Rightarrow> False)"

lemma wp_kret [wp_simps]: "wp (kret x) Q E s = Q x s"
  by (simp add: wp_def kret_def)

lemma wp_kerr [wp_simps]: "wp (kerr e) Q E s = E e s"
  by (simp add: wp_def kerr_def)

lemma wp_kpanic [wp_simps]: "wp kpanic Q E s = False"
  by (simp add: wp_def kpanic_def)

lemma wp_kassert [wp_simps]: "wp (kassert b) Q E s = (b \<and> Q () s)"
  by (simp add: wp_def kassert_def)

lemma wp_kget [wp_simps]: "wp (kget f) Q E s = Q (f s) s"
  by (simp add: wp_def kget_def)

lemma wp_kmod [wp_simps]: "wp (kmod f) Q E s = Q () (f s)"
  by (simp add: wp_def kmod_def)

lemma wp_kbind [wp_simps]: "wp (kbind m f) Q E s = wp m (\<lambda>x. wp (f x) Q E) E s"
  by (simp add: wp_def kbind_def split: kres.splits)

lemma wp_ktry [wp_simps]: "wp (ktry m) Q E s = wp m (\<lambda>x. Q (Inr x)) (\<lambda>e. Q (Inl e)) s"
  by (simp add: wp_def ktry_def split: kres.splits)

lemma wp_if [wp_simps]: "wp (if b then m else m') Q E s = (if b then wp m Q E s else wp m' Q E s)"
  by simp

lemma wp_mono:
  assumes "wp m Q E s" "\<And>x s'. Q x s' \<Longrightarrow> Q' x s'" "\<And>e s'. E e s' \<Longrightarrow> E' e s'"
  shows "wp m Q' E' s"
  using assms by (auto simp: wp_def split: kres.splits)

lemma wp_conj:
  assumes "wp m Q E s" "wp m Q' E' s"
  shows "wp m (\<lambda>x s'. Q x s' \<and> Q' x s') (\<lambda>e s'. E e s' \<and> E' e s') s"
  using assms by (auto simp: wp_def split: kres.splits)

lemma wp_OkD: "wp m Q E s \<Longrightarrow> m s = Ok x s' \<Longrightarrow> Q x s'"
  by (simp add: wp_def)

lemma wp_ErrD: "wp m Q E s \<Longrightarrow> m s = Err e s' \<Longrightarrow> E e s'"
  by (simp add: wp_def)

lemma wp_no_panic: "wp m Q E s \<Longrightarrow> m s \<noteq> Panic"
  by (auto simp: wp_def)

lemma wp_I:
  assumes "m s \<noteq> Panic" "\<And>x s'. m s = Ok x s' \<Longrightarrow> Q x s'" "\<And>e s'. m s = Err e s' \<Longrightarrow> E e s'"
  shows "wp m Q E s"
  using assms by (auto simp: wp_def split: kres.splits)

lemma kres_caseE:
  assumes "case r of Ok x s \<Rightarrow> P x s | Err e s \<Rightarrow> E e s | Panic \<Rightarrow> False"
  obtains (Ok) x s where "r = Ok x s" "P x s" | (Err) e s where "r = Err e s" "E e s"
  using assms by (cases r) auto

section \<open>32-bit arithmetic on natural numbers\<close>

definition add32 :: "nat \<Rightarrow> nat \<Rightarrow> nat" where
  "add32 a b = (a + b) mod 2 ^ 32"

definition sub32 :: "nat \<Rightarrow> nat \<Rightarrow> nat" where
  "sub32 a b = (a + (2 ^ 32 - b mod 2 ^ 32)) mod 2 ^ 32"

definition mul32 :: "nat \<Rightarrow> nat \<Rightarrow> nat" where
  "mul32 a b = (a * b) mod 2 ^ 32"

lemma add32_id: "a + b < 2 ^ 32 \<Longrightarrow> add32 a b = a + b"
  by (simp add: add32_def)

lemma sub32_id: "b \<le> a \<Longrightarrow> a < 2 ^ 32 \<Longrightarrow> sub32 a b = a - b"
proof -
  assume ba: "b \<le> a" and a: "a < 2 ^ 32"
  then have "a + (2 ^ 32 - b mod 2 ^ 32) = (a - b) + 2 ^ 32"
    by simp
  then show "sub32 a b = a - b"
    using a unfolding sub32_def by (simp only: mod_add_self2) simp
qed

lemma mul32_id: "a * b < 2 ^ 32 \<Longrightarrow> mul32 a b = a * b"
  by (simp add: mul32_def)

lemma add32_less [simp]: "add32 a b < 2 ^ 32"
  by (simp add: add32_def)

lemma sub32_less [simp]: "sub32 a b < 2 ^ 32"
  by (simp add: sub32_def)

text \<open>\<^verbatim>\<open>DIVROUNDUP(a,b)\<close> of \<^verbatim>\<open>include/lib.h\<close> on \<^verbatim>\<open>unsigned\<close> operands.\<close>

definition DIVROUNDUP :: "nat \<Rightarrow> nat \<Rightarrow> nat" where
  "DIVROUNDUP a b = ((a + b - 1) mod 2 ^ 32) div b"

lemma DIVROUNDUP_id: "a + b - 1 < 2 ^ 32 \<Longrightarrow> DIVROUNDUP a b = (a + b - 1) div b"
  by (simp add: DIVROUNDUP_def)

section \<open>Overwriting part of a buffer\<close>

definition overwrite :: "nat \<Rightarrow> 'a list \<Rightarrow> 'a list \<Rightarrow> 'a list" where
  "overwrite off bs xs = take off xs @ bs @ drop (off + length bs) xs"

lemma length_overwrite [simp]:
  "off + length bs \<le> length xs \<Longrightarrow> length (overwrite off bs xs) = length xs"
  by (simp add: overwrite_def)

lemma nth_overwrite:
  assumes "off + length bs \<le> length xs" "i < length xs"
  shows "overwrite off bs xs ! i =
    (if off \<le> i \<and> i < off + length bs then bs ! (i - off) else xs ! i)"
  using assms by (auto simp: overwrite_def nth_append min_def)

lemma overwrite_Nil [simp]: "overwrite off [] xs = xs"
  by (simp add: overwrite_def)

lemma overwrite_all: "length bs = length xs \<Longrightarrow> overwrite 0 bs xs = bs"
  by (simp add: overwrite_def)

lemma overwrite_same: "overwrite off (take n (drop off xs)) xs = xs"
proof (cases "off + n \<le> length xs")
  case True
  then have "drop (off + length (take n (drop off xs))) xs = drop n (drop off xs)"
    by (simp add: add.commute)
  then show ?thesis unfolding overwrite_def by (simp only: append_take_drop_id)
next
  case False
  then show ?thesis by (simp add: overwrite_def)
qed

lemma overwrite_append:
  assumes "off + length bs + length cs \<le> length xs"
  shows "overwrite (off + length bs) cs (overwrite off bs xs) = overwrite off (bs @ cs) xs"
  using assms by (simp add: overwrite_def ac_simps)

end
