(* ===== verification/Copyinout.thy ===== *)
theory Copyinout
  imports Kernel_Base
begin

text \<open>
  \<^verbatim>\<open>vm/copyinout.c\<close>: moving data between the kernel and user memory. Which user addresses can
  be accessed without a fatal fault is a predicate \<open>valid\<close>, the part played by the machine and the
  VM system. The state is the field \<^verbatim>\<open>tm_badfaultfunc\<close> of the current thread together with the
  destination buffer. A fatal fault while \<^verbatim>\<open>tm_badfaultfunc\<close> is set resumes in
  \<^verbatim>\<open>copyfail\<close>, whose \<^verbatim>\<open>longjmp\<close> returns to the \<^verbatim>\<open>setjmp\<close> of the copying function;
  while it is not set it is a kernel panic. Bytes before the faulting one have been copied.
\<close>

section \<open>Model\<close>

definition USERSPACETOP :: nat where
  "USERSPACETOP = 0x80000000"

record copyst =
  tm_badfaultfunc :: bool
  cp_dest :: "u8 list"

definition copycheck :: "nat \<Rightarrow> nat \<Rightarrow> errno + nat" where
  "copycheck userptr len =
    (let bot = userptr;
         top = sub32 (add32 bot len) 1
     in if top < bot then Inl EFAULT
        else if bot \<ge> USERSPACETOP then Inl EFAULT
        else if top \<ge> USERSPACETOP then Inr (USERSPACETOP - bot)
        else Inr len)"

text \<open>The number of bytes from \<open>addr\<close> on, up to \<open>len\<close>, that come before the first fault.\<close>

fun accessible :: "(nat \<Rightarrow> bool) \<Rightarrow> nat \<Rightarrow> nat \<Rightarrow> nat" where
  "accessible valid addr 0 = 0"
| "accessible valid addr (Suc len) = (if valid addr then Suc (accessible valid (Suc addr) len) else 0)"

definition copyfail :: "(copyst, 'a) kfun" where
  "copyfail s = (if tm_badfaultfunc s then Err EFAULT (s\<lparr>tm_badfaultfunc := False\<rparr>) else Panic)"

text \<open>The \<^verbatim>\<open>memcpy\<close> of \<^verbatim>\<open>copyin\<close> and \<^verbatim>\<open>copyout\<close>; \<open>user\<close> is the user-side address.\<close>

definition user_memcpy :: "(nat \<Rightarrow> bool) \<Rightarrow> nat \<Rightarrow> u8 list \<Rightarrow> nat \<Rightarrow> (copyst, unit) kfun" where
  "user_memcpy valid user src len s =
    (let k = accessible valid user len in
     if length src < len \<or> length (cp_dest s) < len then Panic
     else if k = len then Ok () (s\<lparr>cp_dest := overwrite 0 (take len src) (cp_dest s)\<rparr>)
     else copyfail (s\<lparr>cp_dest := overwrite 0 (take k src) (cp_dest s)\<rparr>))"

definition copyin :: "(nat \<Rightarrow> bool) \<Rightarrow> nat \<Rightarrow> u8 list \<Rightarrow> nat \<Rightarrow> (copyst, unit) kfun" where
  "copyin valid usersrc src len =
    (case copycheck usersrc len of
       Inl result \<Rightarrow> kerr result
     | Inr stoplen \<Rightarrow>
         if stoplen \<noteq> len then kerr EFAULT
         else kbind (kmod (tm_badfaultfunc_update (\<lambda>_. True))) (\<lambda>_.
              kbind (user_memcpy valid usersrc src len) (\<lambda>_.
              kmod (tm_badfaultfunc_update (\<lambda>_. False)))))"

definition copyout :: "(nat \<Rightarrow> bool) \<Rightarrow> u8 list \<Rightarrow> nat \<Rightarrow> nat \<Rightarrow> (copyst, unit) kfun" where
  "copyout valid src userdest len =
    (case copycheck userdest len of
       Inl result \<Rightarrow> kerr result
     | Inr stoplen \<Rightarrow>
         if stoplen \<noteq> len then kerr EFAULT
         else kbind (kmod (tm_badfaultfunc_update (\<lambda>_. True))) (\<lambda>_.
              kbind (user_memcpy valid userdest src len) (\<lambda>_.
              kmod (tm_badfaultfunc_update (\<lambda>_. False)))))"

text \<open>
  The loop of \<^verbatim>\<open>copystr\<close> from index \<open>i\<close> on; \<open>ok i\<close> says that the user side of byte \<open>i\<close> is
  accessible. The result is the length found.
\<close>

function copystr :: "(nat \<Rightarrow> bool) \<Rightarrow> u8 list \<Rightarrow> nat \<Rightarrow> nat \<Rightarrow> nat \<Rightarrow> (copyst, nat) kfun" where
  "copystr ok src maxlen stoplen i s =
    (if i < maxlen \<and> i < stoplen then
       if \<not> ok i then copyfail s
       else if length src \<le> i \<or> length (cp_dest s) \<le> i then Panic
       else let s' = s\<lparr>cp_dest := (cp_dest s)[i := src ! i]\<rparr> in
         if src ! i = 0 then Ok (i + 1) s' else copystr ok src maxlen stoplen (i + 1) s'
     else if stoplen < maxlen then Err EFAULT s
     else Err ENAMETOOLONG s)"
  by pat_completeness auto
termination by (relation "measure (\<lambda>(ok, src, maxlen, stoplen, i, s). maxlen - i)") auto

declare copystr.simps [simp del]

text \<open>Both string functions clear \<^verbatim>\<open>tm_badfaultfunc\<close> after \<^verbatim>\<open>copystr\<close> on every path.\<close>

definition copystr_guarded :: "(nat \<Rightarrow> bool) \<Rightarrow> u8 list \<Rightarrow> nat \<Rightarrow> nat \<Rightarrow> (copyst, nat) kfun" where
  "copystr_guarded ok src len stoplen =
    kbind (kmod (tm_badfaultfunc_update (\<lambda>_. True))) (\<lambda>_.
    kbind (ktry (copystr ok src len stoplen 0)) (\<lambda>result.
    kbind (kmod (tm_badfaultfunc_update (\<lambda>_. False))) (\<lambda>_.
    case result of Inl e \<Rightarrow> kerr e | Inr got \<Rightarrow> kret got)))"

definition copyinstr :: "(nat \<Rightarrow> bool) \<Rightarrow> nat \<Rightarrow> u8 list \<Rightarrow> nat \<Rightarrow> (copyst, nat) kfun" where
  "copyinstr valid usersrc src len =
    (case copycheck usersrc len of
       Inl result \<Rightarrow> kerr result
     | Inr stoplen \<Rightarrow> copystr_guarded (\<lambda>i. valid (usersrc + i)) src len stoplen)"

definition copyoutstr :: "(nat \<Rightarrow> bool) \<Rightarrow> u8 list \<Rightarrow> nat \<Rightarrow> nat \<Rightarrow> (copyst, nat) kfun" where
  "copyoutstr valid src userdest len =
    (case copycheck userdest len of
       Inl result \<Rightarrow> kerr result
     | Inr stoplen \<Rightarrow> copystr_guarded (\<lambda>i. valid (userdest + i)) src len stoplen)"

section \<open>The region check\<close>

lemma copycheck_eq:
  assumes "a < 2 ^ 32" "0 < len" "len < 2 ^ 32"
  shows "copycheck a len =
    (if a < USERSPACETOP \<and> a + len \<le> 2 ^ 32 then Inr (min len (USERSPACETOP - a)) else Inl EFAULT)"
proof (cases "a + len \<le> 2 ^ 32")
  case True
  have "sub32 (add32 a len) 1 = a + len - 1"
  proof (cases "a + len = 2 ^ 32")
    case eq: True
    then show ?thesis by (simp add: sub32_def add32_def)
  next
    case False
    with True assms show ?thesis by (simp add: add32_id sub32_id)
  qed
  then show ?thesis using assms True by (auto simp: copycheck_def USERSPACETOP_def Let_def)
next
  case False
  then have "add32 a len = a + len - 2 ^ 32"
    using assms by (simp add: add32_def le_mod_geq)
  moreover from this False have "sub32 (add32 a len) 1 = a + len - 2 ^ 32 - 1"
    using assms by (simp add: sub32_id)
  moreover have "a + len - 2 ^ 32 - 1 < a" using assms False by linarith
  ultimately show ?thesis using False by (simp add: copycheck_def Let_def)
qed

lemma copycheck_zero:
  assumes "a < 2 ^ 32"
  shows "copycheck a 0 = (if a = 0 then Inr USERSPACETOP else Inl EFAULT)"
proof (cases "a = 0")
  case True
  then show ?thesis by (simp add: copycheck_def add32_def sub32_def USERSPACETOP_def)
next
  case False
  with assms have "sub32 (add32 a 0) 1 = a - 1" by (simp add: add32_id sub32_id)
  with False show ?thesis by (simp add: copycheck_def Let_def)
qed

lemma accessible_le: "accessible valid a n \<le> n"
  by (induction valid a n rule: accessible.induct) auto

lemma accessible_all: "accessible valid a n = n \<longleftrightarrow> (\<forall>i < n. valid (a + i))"
proof (induction valid a n rule: accessible.induct)
  case (2 valid a n)
  have "(\<forall>i < Suc n. valid (a + i)) \<longleftrightarrow> valid a \<and> (\<forall>i < n. valid (Suc a + i))"
    by (auto simp: less_Suc_eq_0_disj)
  with 2 show ?case by auto
qed simp

lemma user_memcpy_eq:
  assumes "tm_badfaultfunc s" "len \<le> length src" "len \<le> length (cp_dest s)"
  shows "user_memcpy valid a src len s =
    (if \<forall>i < len. valid (a + i) then Ok () (s\<lparr>cp_dest := take len src @ drop len (cp_dest s)\<rparr>)
     else Err EFAULT (s\<lparr>tm_badfaultfunc := False,
       cp_dest := overwrite 0 (take (accessible valid a len) src) (cp_dest s)\<rparr>))"
  using assms accessible_all [of valid a len]
  by (auto simp: user_memcpy_def copyfail_def Let_def overwrite_def)

lemma copycheck_whole:
  assumes "a < 2 ^ 32" "len < 2 ^ 32"
  shows "copycheck a len = Inr len \<longleftrightarrow> 0 < len \<and> a + len \<le> USERSPACETOP"
  using copycheck_zero [OF assms(1)] copycheck_eq [OF assms(1) _ assms(2)]
  by (cases "len = 0") (auto simp: USERSPACETOP_def min_def split: if_splits)

lemma copyin_eq:
  assumes "a < 2 ^ 32" "len < 2 ^ 32" "len \<le> length src" "len \<le> length (cp_dest s)"
    "\<not> tm_badfaultfunc s"
  shows "copyin valid a src len s =
    (if 0 < len \<and> a + len \<le> USERSPACETOP then
       if \<forall>i < len. valid (a + i) then Ok () (s\<lparr>cp_dest := take len src @ drop len (cp_dest s)\<rparr>)
       else Err EFAULT (s\<lparr>cp_dest := overwrite 0 (take (accessible valid a len) src) (cp_dest s)\<rparr>)
     else Err EFAULT s)"
proof (cases "copycheck a len")
  case (Inl e)
  then have "e = EFAULT" by (auto simp: copycheck_def Let_def split: if_splits)
  then show ?thesis using Inl copycheck_whole [OF assms(1,2)] by (auto simp: copyin_def kerr_def)
next
  case (Inr stoplen)
  then show ?thesis
    using copycheck_whole [OF assms(1,2)] assms
    by (auto simp: copyin_def kerr_def kbind_def kmod_def user_memcpy_eq)
qed

lemma copyout_copyin: "copyout valid src a len = copyin valid a src len"
  by (simp add: copyout_def copyin_def)

text \<open>
  What \<^verbatim>\<open>copystr\<close> does with a terminated string, a string that is too long, and a string that
  leaves user space; \<open>n\<close> is the number of bytes before the terminator.
\<close>

lemma copystr_progress:
  assumes "i \<le> k" "k \<le> maxlen" "k \<le> stoplen" "k \<le> length src" "k \<le> length (cp_dest s)"
    "\<forall>j < k. ok j \<and> src ! j \<noteq> 0" "take i (cp_dest s) = take i src"
  shows "copystr ok src maxlen stoplen i s =
    copystr ok src maxlen stoplen k (s\<lparr>cp_dest := take k src @ drop k (cp_dest s)\<rparr>)"
  using assms
proof (induction "k - i" arbitrary: i s)
  case 0
  then have "i = k" by simp
  moreover have "take k src @ drop k (cp_dest s) = cp_dest s"
    using 0 \<open>i = k\<close> by (metis append_take_drop_id)
  ultimately show ?case by simp
next
  case (Suc m)
  then have i: "i < k" by simp
  let ?s = "s\<lparr>cp_dest := (cp_dest s)[i := src ! i]\<rparr>"
  have "copystr ok src maxlen stoplen i s = copystr ok src maxlen stoplen (i + 1) ?s"
    using Suc.prems i by (subst copystr.simps) (auto simp: Let_def)
  also have "take (Suc i) (cp_dest ?s) = take (Suc i) src"
    using Suc.prems i by (simp add: take_Suc_conv_app_nth take_update_swap list_update_append)
  then have "copystr ok src maxlen stoplen (i + 1) ?s =
      copystr ok src maxlen stoplen k (?s\<lparr>cp_dest := take k src @ drop k (cp_dest ?s)\<rparr>)"
    using Suc.hyps(1) [of "i + 1" ?s] Suc.hyps(2) Suc.prems i by simp
  finally show ?case using i by simp
qed

section \<open>Properties\<close>

text \<open>
  C29: \<^verbatim>\<open>copycheck\<close> accepts a non-empty region exactly when it starts in user space and does not
  wrap around, and the length it allows is the longest prefix that stays below \<open>USERSPACETOP\<close>, so
  no kernel address is ever touched.
\<close>

theorem copycheck_correct:
  assumes "a < 2 ^ 32" "0 < len" "len < 2 ^ 32"
  shows "case copycheck a len of
      Inr stoplen \<Rightarrow> a < USERSPACETOP \<and> a + len \<le> 2 ^ 32 \<and> 0 < stoplen \<and> stoplen \<le> len \<and>
        {a..<a + stoplen} = {a..<a + len} \<inter> {..<USERSPACETOP}
    | Inl e \<Rightarrow> e = EFAULT \<and> (USERSPACETOP \<le> a \<or> 2 ^ 32 < a + len)"
  using copycheck_eq [OF assms] assms(2) by (auto simp: USERSPACETOP_def)

theorem copycheck_correct_witness:
  "copycheck 0x7ffffff0 100 = Inr 16 \<and> {0x7ffffff0..<0x7ffffff0 + 16} = {0x7ffffff0..<0x7ffffff0 + 100} \<inter> {..<USERSPACETOP}"
proof -
  have "copycheck 0x7ffffff0 100 = Inr 16" by code_simp
  then show ?thesis using copycheck_correct [of "0x7ffffff0" 100] by simp
qed

text \<open>
  C30: \<^verbatim>\<open>copyin\<close> and \<^verbatim>\<open>copyout\<close> succeed exactly when the region is non-empty, lies in user
  space and can be accessed throughout; then precisely the requested bytes are replaced. Every
  other outcome is \<open>EFAULT\<close>, never a kernel panic, and the fault handler is always disarmed again.
\<close>

theorem copyin_copyout_correct:
  assumes "a < 2 ^ 32" "len < 2 ^ 32" "len \<le> length src" "len \<le> length (cp_dest s)"
    "\<not> tm_badfaultfunc s"
  shows "copyout valid src a len s = copyin valid a src len s \<and>
    (case copyin valid a src len s of
       Ok _ s' \<Rightarrow> 0 < len \<and> a + len \<le> USERSPACETOP \<and> (\<forall>i < len. valid (a + i)) \<and>
         s' = s\<lparr>cp_dest := take len src @ drop len (cp_dest s)\<rparr>
     | Err e s' \<Rightarrow> e = EFAULT \<and> \<not> tm_badfaultfunc s' \<and>
         (len = 0 \<or> USERSPACETOP < a + len \<or> (\<exists>i < len. \<not> valid (a + i))) \<and>
         drop len (cp_dest s') = drop len (cp_dest s)
     | Panic \<Rightarrow> False)"
proof -
  have "accessible valid a len \<le> length (cp_dest s)" "accessible valid a len \<le> len"
    using accessible_le [of valid a len] assms(4) by auto
  then show ?thesis
    using copyin_eq [OF assms, of valid] assms(3,5)
    by (auto simp: copyout_copyin overwrite_def min_def)
qed

theorem copyin_copyout_correct_witness:
  "copyin (\<lambda>a. a < 0x1000) 0x0ffe [7, 8, 9] 3 \<lparr>tm_badfaultfunc = False, cp_dest = [0, 0, 0, 5]\<rparr> =
     Err EFAULT \<lparr>tm_badfaultfunc = False, cp_dest = [7, 8, 0, 5]\<rparr> \<and>
   (\<exists>i < 3. \<not> 0x0ffe + i < (0x1000 :: nat))"
proof -
  have "copyin (\<lambda>a. a < 0x1000) 0x0ffe [7, 8, 9] 3 \<lparr>tm_badfaultfunc = False, cp_dest = [0, 0, 0, 5]\<rparr> =
     Err EFAULT \<lparr>tm_badfaultfunc = False, cp_dest = [7, 8, 0, 5]\<rparr>" by code_simp
  then show ?thesis
    using copyin_copyout_correct [of "0x0ffe" 3 "[7, 8, 9]"
        "\<lparr>tm_badfaultfunc = False, cp_dest = [0, 0, 0, 5]\<rparr>" "\<lambda>a. a < 0x1000"]
    by (simp add: USERSPACETOP_def)
qed

text \<open>
  A copy of zero bytes always fails with \<open>EFAULT\<close>, whatever the address: the last address of
  the empty region is computed as one below its first.
\<close>

lemma copyin_zero_efault:
  assumes "a < 2 ^ 32"
  shows "copyin valid a src 0 s = Err EFAULT s \<and> copyout valid src a 0 s = Err EFAULT s"
  using copycheck_zero [OF assms] by (simp add: copyin_def copyout_def kerr_def USERSPACETOP_def)



end
