(* ===== verification/Uio.thy ===== *)
theory Uio
  imports Copyinout
begin

text \<open>
  \<^verbatim>\<open>lib/uio.c\<close> and \<^verbatim>\<open>include/uio.h\<close>: the descriptor of a transfer between a kernel buffer
  and a list of memory regions. A region (\<^verbatim>\<open>struct iovec\<close>) is modelled with its contents:
  \<open>iov_buf\<close> is the part from \<^verbatim>\<open>iov_base\<close> on, of \<^verbatim>\<open>iov_len\<close> bytes, and \<open>iov_past\<close> the
  part that the pointer has already moved over. The pointer \<^verbatim>\<open>uio_iov\<close> is the array of regions
  with an index. The kernel buffer of \<^verbatim>\<open>uiomove\<close> is part of the state; \<open>ptr\<close> is an index into it.
  Regions of one transfer do not overlap each other or the kernel buffer.
\<close>

section \<open>Model\<close>

datatype uio_rw = UIO_READ | UIO_WRITE

datatype uio_seg = UIO_USERISPACE | UIO_USERSPACE | UIO_SYSSPACE

record iovec =
  iov_base :: nat
  iov_buf :: "u8 list"
  iov_past :: "u8 list"

definition iov_len :: "iovec \<Rightarrow> nat" where
  "iov_len iov = length (iov_buf iov)"

record uio =
  uio_iov :: "iovec list"
  uio_iovix :: nat
  uio_iovcnt :: nat
  uio_offset :: int
  uio_resid :: nat
  uio_segflg :: uio_seg
  uio_rw :: uio_rw
  uio_space :: "nat option"

text \<open>The current address space and the user addresses it makes accessible.\<close>

record uenv =
  curproc_as :: "nat option"
  uvalid :: "nat \<Rightarrow> bool"

record uiost =
  u_uio :: uio
  u_buf :: "u8 list"

text \<open>Moving the pointer of the current region over \<open>size\<close> bytes, which now hold \<open>data\<close>.\<close>

definition iov_advance :: "nat \<Rightarrow> u8 list \<Rightarrow> iovec \<Rightarrow> iovec" where
  "iov_advance sz data iov =
    \<lparr>iov_base = iov_base iov + sz, iov_buf = drop sz (iov_buf iov), iov_past = iov_past iov @ data\<rparr>"

definition set_iov :: "iovec \<Rightarrow> uiost \<Rightarrow> uiost" where
  "set_iov iov st = st\<lparr>u_uio := (u_uio st)\<lparr>uio_iov := (uio_iov (u_uio st))[uio_iovix (u_uio st) := iov]\<rparr>\<rparr>"

text \<open>The \<^verbatim>\<open>switch\<close> on \<^verbatim>\<open>uio_segflg\<close> in the body of the loop.\<close>

definition uiomove_seg :: "uenv \<Rightarrow> nat \<Rightarrow> nat \<Rightarrow> (uiost, unit) kfun" where
  "uiomove_seg env ptr sz st =
    (let u = u_uio st; iov = uio_iov u ! uio_iovix u; src = drop ptr (u_buf st) in
     if length (u_buf st) < ptr + sz then Panic
     else case uio_segflg u of
       UIO_SYSSPACE \<Rightarrow>
         if uio_rw u = UIO_READ then Ok () (set_iov (iov_advance sz (take sz src) iov) st)
         else Ok () (set_iov (iov_advance sz (take sz (iov_buf iov)) iov)
                (st\<lparr>u_buf := overwrite ptr (take sz (iov_buf iov)) (u_buf st)\<rparr>))
     | _ \<Rightarrow>
         if uio_rw u = UIO_READ then
           (case copyout (uvalid env) src (iov_base iov) sz
                   \<lparr>tm_badfaultfunc = False, cp_dest = iov_buf iov\<rparr> of
              Ok _ c \<Rightarrow> Ok () (set_iov (iov_advance sz (take sz (cp_dest c)) iov) st)
            | Err e c \<Rightarrow> Err e (set_iov (iov\<lparr>iov_buf := cp_dest c\<rparr>) st)
            | Panic \<Rightarrow> Panic)
         else
           (case copyin (uvalid env) (iov_base iov) (iov_buf iov) sz
                   \<lparr>tm_badfaultfunc = False, cp_dest = src\<rparr> of
              Ok _ c \<Rightarrow> Ok () (set_iov (iov_advance sz (take sz (iov_buf iov)) iov)
                (st\<lparr>u_buf := overwrite ptr (cp_dest c) (u_buf st)\<rparr>))
            | Err e c \<Rightarrow> Err e (st\<lparr>u_buf := overwrite ptr (cp_dest c) (u_buf st)\<rparr>)
            | Panic \<Rightarrow> Panic))"

definition uio_account :: "nat \<Rightarrow> uiost \<Rightarrow> uiost" where
  "uio_account sz st = st\<lparr>u_uio := (u_uio st)\<lparr>uio_resid := sub32 (uio_resid (u_uio st)) sz,
     uio_offset := uio_offset (u_uio st) + int sz\<rparr>\<rparr>"

definition uio_nextiov :: "uiost \<Rightarrow> uiost" where
  "uio_nextiov st = st\<lparr>u_uio := (u_uio st)\<lparr>uio_iovix := Suc (uio_iovix (u_uio st)),
     uio_iovcnt := sub32 (uio_iovcnt (u_uio st)) 1\<rparr>\<rparr>"

function uiomove_loop :: "uenv \<Rightarrow> nat \<Rightarrow> nat \<Rightarrow> (uiost, unit) kfun" where
  "uiomove_loop env ptr n st =
    (if n > 0 \<and> uio_resid (u_uio st) > 0 then
       if length (uio_iov (u_uio st)) \<le> uio_iovix (u_uio st) then Panic
       else let iov = uio_iov (u_uio st) ! uio_iovix (u_uio st);
                sz = (if iov_len iov > n then n else iov_len iov) in
         if sz = 0 then
           if uio_iovcnt (u_uio (uio_nextiov st)) = 0 then Panic
           else uiomove_loop env ptr n (uio_nextiov st)
         else (case uiomove_seg env ptr sz st of
             Ok _ st' \<Rightarrow> uiomove_loop env (ptr + sz) (n - sz) (uio_account sz st')
           | Err e st' \<Rightarrow> Err e st'
           | Panic \<Rightarrow> Panic)
     else Ok () st)"
  by pat_completeness auto
termination
  by (relation "measures [\<lambda>(env, ptr, n, st). n,
        \<lambda>(env, ptr, n, st). length (uio_iov (u_uio st)) - uio_iovix (u_uio st)]")
     (auto simp: uio_nextiov_def)

declare uiomove_loop.simps [simp del]

definition uiomove :: "uenv \<Rightarrow> nat \<Rightarrow> nat \<Rightarrow> (uiost, unit) kfun" where
  "uiomove env ptr n st =
    (if uio_segflg (u_uio st) = UIO_SYSSPACE then
       if uio_space (u_uio st) = None then uiomove_loop env ptr n st else Panic
     else
       if uio_space (u_uio st) = curproc_as env then uiomove_loop env ptr n st else Panic)"

function uiomovezeros_loop :: "uenv \<Rightarrow> nat \<Rightarrow> (uio, unit) kfun" where
  "uiomovezeros_loop env n u =
    (if n > 0 then
       let amt = (if 16 > n then n else 16) in
       case uiomove env 0 amt \<lparr>u_uio = u, u_buf = replicate 16 0\<rparr> of
         Ok _ st \<Rightarrow> uiomovezeros_loop env (n - amt) (u_uio st)
       | Err e st \<Rightarrow> Err e (u_uio st)
       | Panic \<Rightarrow> Panic
     else Ok () u)"
  by pat_completeness auto
termination by (relation "measure (\<lambda>(env, n, u). n)") (auto split: if_splits)

declare uiomovezeros_loop.simps [simp del]

definition uiomovezeros :: "uenv \<Rightarrow> nat \<Rightarrow> (uio, unit) kfun" where
  "uiomovezeros env n u = (if uio_rw u = UIO_READ then uiomovezeros_loop env n u else Panic)"

text \<open>\<open>kbuf\<close> is the address of the kernel buffer and \<open>bytes\<close> its contents, of length \<^verbatim>\<open>len\<close>.\<close>

definition uio_kinit :: "nat \<Rightarrow> u8 list \<Rightarrow> int \<Rightarrow> uio_rw \<Rightarrow> uio" where
  "uio_kinit kbuf bytes pos rw =
    \<lparr>uio_iov = [\<lparr>iov_base = kbuf, iov_buf = bytes, iov_past = []\<rparr>], uio_iovix = 0, uio_iovcnt = 1,
     uio_offset = pos, uio_resid = length bytes, uio_segflg = UIO_SYSSPACE, uio_rw = rw,
     uio_space = None\<rparr>"

section \<open>The regions as one stretch of memory\<close>

definition uio_left :: "uio \<Rightarrow> u8 list" where
  "uio_left u = concat (map iov_buf (drop (uio_iovix u) (uio_iov u)))"

definition uio_done :: "uio \<Rightarrow> u8 list" where
  "uio_done u = concat (map iov_past (uio_iov u))"

definition uio_wf :: "uio \<Rightarrow> bool" where
  "uio_wf u \<longleftrightarrow> uio_iovix u < length (uio_iov u) \<and>
     uio_iovcnt u = length (uio_iov u) - uio_iovix u \<and> length (uio_iov u) < 2 ^ 32 \<and>
     list_all (\<lambda>iov. iov_past iov = []) (drop (Suc (uio_iovix u)) (uio_iov u)) \<and>
     uio_resid u \<le> length (uio_left u) \<and> uio_resid u < 2 ^ 32"

text \<open>No access of the transfer faults: kernel memory, or user regions that are accessible.\<close>

definition iov_ok :: "uenv \<Rightarrow> iovec \<Rightarrow> bool" where
  "iov_ok env iov \<longleftrightarrow> iov_base iov + length (iov_buf iov) \<le> USERSPACETOP \<and>
     (\<forall>i < length (iov_buf iov). uvalid env (iov_base iov + i))"

definition uio_ok :: "uenv \<Rightarrow> uio \<Rightarrow> bool" where
  "uio_ok env u \<longleftrightarrow>
     (if uio_segflg u = UIO_SYSSPACE then uio_space u = None
      else uio_space u = curproc_as env \<and> list_all (iov_ok env) (drop (uio_iovix u) (uio_iov u)))"

text \<open>The bytes that a call of \<^verbatim>\<open>uiomove\<close> with length \<open>n\<close> moves.\<close>

definition moved :: "nat \<Rightarrow> nat \<Rightarrow> uiost \<Rightarrow> u8 list" where
  "moved ptr n st =
    (if uio_rw (u_uio st) = UIO_READ then take n (drop ptr (u_buf st)) else take n (uio_left (u_uio st)))"

definition uio_head :: "uio \<Rightarrow> iovec" where
  "uio_head u = uio_iov u ! uio_iovix u"

lemma uio_left_head:
  "uio_iovix u < length (uio_iov u) \<Longrightarrow>
    uio_left u = iov_buf (uio_head u) @ concat (map iov_buf (drop (Suc (uio_iovix u)) (uio_iov u)))"
  by (simp add: uio_left_def uio_head_def Cons_nth_drop_Suc [symmetric])

lemma uiomove_seg_ok:
  assumes wf: "uio_wf (u_uio st)" and ok: "uio_ok env (u_uio st)"
    and sz: "0 < sz" "sz \<le> length (iov_buf (uio_head (u_uio st)))" "ptr + sz \<le> length (u_buf st)"
  shows "uiomove_seg env ptr sz st =
    Ok () (set_iov (iov_advance sz (moved ptr sz st) (uio_head (u_uio st)))
      (st\<lparr>u_buf := overwrite ptr (moved ptr sz st) (u_buf st)\<rparr>))"
proof -
  let ?u = "u_uio st" and ?iov = "uio_head (u_uio st)"
  have left: "take sz (uio_left ?u) = take sz (iov_buf ?iov)"
    using uio_left_head [of ?u] wf sz(2) by (simp add: uio_wf_def)
  have id: "overwrite ptr (take sz (drop ptr (u_buf st))) (u_buf st) = u_buf st"
    by (rule overwrite_same)
  show ?thesis
  proof (cases "uio_segflg ?u = UIO_SYSSPACE")
    case True
    then show ?thesis
      using sz(3) left id by (simp add: uiomove_seg_def moved_def Let_def uio_head_def)
  next
    case False
    have "?iov \<in> set (drop (uio_iovix ?u) (uio_iov ?u))"
      using wf by (auto simp: uio_wf_def uio_head_def Cons_nth_drop_Suc [symmetric])
    then have "iov_ok env ?iov" using ok False by (auto simp: uio_ok_def list_all_iff)
    then have acc: "iov_base ?iov + sz \<le> USERSPACETOP" "\<forall>i < sz. uvalid env (iov_base ?iov + i)"
      using sz(2) by (auto simp: iov_ok_def)
    then have b: "iov_base ?iov < 2 ^ 32" "sz < 2 ^ 32" by (auto simp: USERSPACETOP_def)
    have "copyin (uvalid env) (iov_base ?iov) src sz c = Ok () (c\<lparr>cp_dest := take sz src @ drop sz (cp_dest c)\<rparr>)"
      if "sz \<le> length src" "sz \<le> length (cp_dest c)" "\<not> tm_badfaultfunc c" for src c
      using copyin_eq [OF b that] acc sz(1) by simp
    then show ?thesis
      using False sz(2,3) left id
      by (cases "uio_segflg ?u")
         (auto simp: uiomove_seg_def moved_def Let_def copyout_copyin overwrite_def
            add.commute simp flip: uio_head_def)
  qed
qed

definition transferred :: "nat \<Rightarrow> u8 list \<Rightarrow> uiost \<Rightarrow> uiost \<Rightarrow> bool" where
  "transferred ptr bs st st' \<longleftrightarrow>
     u_buf st' = overwrite ptr bs (u_buf st) \<and>
     uio_done (u_uio st') = uio_done (u_uio st) @ bs \<and>
     uio_left (u_uio st') = drop (length bs) (uio_left (u_uio st)) \<and>
     uio_resid (u_uio st') = uio_resid (u_uio st) - length bs \<and>
     uio_offset (u_uio st') = uio_offset (u_uio st) + int (length bs) \<and>
     uio_rw (u_uio st') = uio_rw (u_uio st) \<and> uio_segflg (u_uio st') = uio_segflg (u_uio st) \<and>
     uio_space (u_uio st') = uio_space (u_uio st)"

lemma transferred_Nil: "transferred ptr [] st st"
  by (simp add: transferred_def)

lemma transferred_trans:
  assumes "transferred ptr bs st st'" "transferred (ptr + length bs) cs st' st''"
    "ptr + length bs + length cs \<le> length (u_buf st)"
  shows "transferred ptr (bs @ cs) st st''"
  using assms by (auto simp: transferred_def overwrite_append add.commute)

lemma list_all_update: "list_all P (drop n xs) \<Longrightarrow> P y \<Longrightarrow> list_all P (drop n (xs[i := y]))"
  by (cases "i < n") (auto simp: list_all_iff drop_update_swap dest: set_update_subset_insert [THEN subsetD])

text \<open>One round of the loop that moves bytes.\<close>

lemma uio_step:
  fixes env ptr st
  assumes wf: "uio_wf (u_uio st)" and ok: "uio_ok env (u_uio st)"
    and sz: "sz \<le> length (iov_buf (uio_head (u_uio st)))" "sz \<le> uio_resid (u_uio st)"
    and len: "length bs = sz"
  defines "st' \<equiv> uio_account sz (set_iov (iov_advance sz bs (uio_head (u_uio st)))
      (st\<lparr>u_buf := overwrite ptr bs (u_buf st)\<rparr>))"
  shows "uio_wf (u_uio st')" "uio_ok env (u_uio st')" "transferred ptr bs st st'"
proof -
  let ?u = "u_uio st" and ?u' = "u_uio st'"
  let ?ix = "uio_iovix ?u" and ?h = "uio_head ?u"
  have ix: "?ix < length (uio_iov ?u)" using wf by (simp add: uio_wf_def)
  have u': "uio_iov ?u' = (uio_iov ?u)[?ix := iov_advance sz bs ?h]" "uio_iovix ?u' = ?ix"
    "uio_iovcnt ?u' = uio_iovcnt ?u" "uio_segflg ?u' = uio_segflg ?u" "uio_space ?u' = uio_space ?u"
    "uio_rw ?u' = uio_rw ?u" "uio_offset ?u' = uio_offset ?u + int sz"
    "uio_resid ?u' = uio_resid ?u - sz" "u_buf st' = overwrite ptr bs (u_buf st)"
    using wf sz(2) by (simp_all add: st'_def uio_account_def set_iov_def uio_wf_def sub32_id)
  have left: "uio_left ?u' = drop sz (uio_left ?u)"
    using uio_left_head [OF ix] uio_left_head [of ?u'] ix sz(1)
    by (simp add: u' uio_head_def iov_advance_def)
  have split: "uio_iov ?u = take ?ix (uio_iov ?u) @ ?h # drop (Suc ?ix) (uio_iov ?u)"
    using ix by (simp add: uio_head_def id_take_nth_drop)
  have tail: "concat (map iov_past (drop (Suc ?ix) (uio_iov ?u))) = []"
    using wf by (auto simp: uio_wf_def list_all_iff)
  have "uio_done ?u = concat (map iov_past (take ?ix (uio_iov ?u))) @ iov_past ?h"
    unfolding uio_done_def by (subst split) (simp only: map_append concat_append list.map concat.simps tail append_Nil2)
  moreover have "uio_done ?u' = concat (map iov_past (take ?ix (uio_iov ?u))) @ iov_past ?h @ bs"
    unfolding uio_done_def u'(1) upd_conv_take_nth_drop [OF ix]
    by (simp only: map_append concat_append list.map concat.simps tail append_Nil2) (simp add: iov_advance_def)
  ultimately show "transferred ptr bs st st'"
    using u' left len by (simp add: transferred_def)
  show "uio_wf ?u'" using wf u' left sz(2) ix by (auto simp: uio_wf_def)
  have "iov_ok env (iov_advance sz bs ?h)" if "iov_ok env ?h"
    using that sz(1) by (auto simp: iov_ok_def iov_advance_def add.assoc)
  moreover have "?h \<in> set (drop ?ix (uio_iov ?u))"
    using ix by (simp add: uio_head_def Cons_nth_drop_Suc [symmetric])
  ultimately show "uio_ok env ?u'"
    using ok list_all_update [of "iov_ok env" ?ix "uio_iov ?u" "iov_advance sz bs ?h" ?ix]
    by (auto simp: uio_ok_def u' list_all_iff)
qed

lemma uio_nextiov_step:
  assumes wf: "uio_wf (u_uio st)" and ok: "uio_ok env (u_uio st)" and emp: "iov_buf (uio_head (u_uio st)) = []"
    and pos: "0 < uio_resid (u_uio st)"
  shows "uio_wf (u_uio (uio_nextiov st))" "uio_ok env (u_uio (uio_nextiov st))"
    "transferred ptr [] st (uio_nextiov st)" "uio_iovcnt (u_uio (uio_nextiov st)) \<noteq> 0"
proof -
  let ?u = "u_uio st"
  have ix: "uio_iovix ?u < length (uio_iov ?u)" using wf by (simp add: uio_wf_def)
  have left: "uio_left ?u = concat (map iov_buf (drop (Suc (uio_iovix ?u)) (uio_iov ?u)))"
    using uio_left_head [OF ix] emp by simp
  then have more: "Suc (uio_iovix ?u) < length (uio_iov ?u)"
    using wf pos by (cases "Suc (uio_iovix ?u) < length (uio_iov ?u)") (auto simp: uio_wf_def)
  have "1 \<le> uio_iovcnt ?u" "uio_iovcnt ?u < 2 ^ 32" using wf by (auto simp: uio_wf_def)
  then have cnt: "sub32 (uio_iovcnt ?u) 1 = length (uio_iov ?u) - Suc (uio_iovix ?u)"
    using wf by (simp add: uio_wf_def sub32_id)
  show "transferred ptr [] st (uio_nextiov st)"
    using left by (simp add: transferred_def uio_nextiov_def uio_left_def uio_done_def)
  show "uio_iovcnt (u_uio (uio_nextiov st)) \<noteq> 0" using cnt more by (simp add: uio_nextiov_def)
  have sub: "set (drop (Suc k) xs) \<subseteq> set (drop k xs)" for k and xs :: "iovec list"
    by (simp add: set_drop_subset_set_drop)
  show "uio_wf (u_uio (uio_nextiov st))"
    using wf cnt more left sub [of "Suc (uio_iovix ?u)" "uio_iov ?u"]
    by (auto simp: uio_wf_def uio_nextiov_def uio_left_def list_all_iff)
  show "uio_ok env (u_uio (uio_nextiov st))"
    using ok sub [of "uio_iovix ?u" "uio_iov ?u"]
    by (auto simp: uio_ok_def uio_nextiov_def list_all_iff)
qed

lemma moved_split:
  assumes "sz \<le> n" "transferred ptr (moved ptr sz st) st st'" "length (moved ptr sz st) = sz"
    "ptr + sz \<le> length (u_buf st)"
  shows "moved ptr n st = moved ptr sz st @ moved (ptr + sz) (n - sz) st'"
proof -
  have "drop (ptr + sz) (overwrite ptr (moved ptr sz st) (u_buf st)) = drop (ptr + sz) (u_buf st)"
    using assms(3,4) by (simp add: overwrite_def)
  moreover have "take n ys = take sz ys @ take (n - sz) (drop sz ys)" for ys :: "u8 list"
    using assms(1) by (metis le_add_diff_inverse take_add)
  ultimately show ?thesis using assms(2,3)
    by (auto simp: moved_def transferred_def add.commute)
qed

lemma uiomove_loop_ok:
  assumes "uio_wf (u_uio st)" "uio_ok env (u_uio st)" "n \<le> uio_resid (u_uio st)"
    "ptr + n \<le> length (u_buf st)"
  shows "\<exists>st'. uiomove_loop env ptr n st = Ok () st' \<and> uio_wf (u_uio st') \<and> uio_ok env (u_uio st') \<and>
    transferred ptr (moved ptr n st) st st'"
  using assms
proof (induction env ptr n st rule: uiomove_loop.induct)
  case (1 env ptr n st)
  let ?u = "u_uio st" and ?h = "uio_head (u_uio st)"
  have ix: "uio_iovix ?u < length (uio_iov ?u)" using "1.prems"(1) by (simp add: uio_wf_def)
  show ?case
  proof (cases "n > 0")
    case False
    then show ?thesis
      using "1.prems"(1,2) by (subst uiomove_loop.simps) (simp add: moved_def transferred_Nil)
  next
    case pos: True
    then have run: "n > 0 \<and> uio_resid ?u > 0" using "1.prems"(3) by simp
    define sz where "sz = (if iov_len ?h > n then n else iov_len ?h)"
    show ?thesis
    proof (cases "sz = 0")
      case True
      then have emp: "iov_buf ?h = []" using pos by (auto simp: sz_def iov_len_def split: if_splits)
      have "0 < uio_resid ?u" using run by simp
      note nx = uio_nextiov_step [OF "1.prems"(1,2) emp this]
      have "moved ptr n (uio_nextiov st) = moved ptr n st"
        using nx(3) run by (auto simp: moved_def transferred_def)
      moreover have "\<exists>st'. uiomove_loop env ptr n (uio_nextiov st) = Ok () st' \<and> uio_wf (u_uio st') \<and>
          uio_ok env (u_uio st') \<and> transferred ptr (moved ptr n (uio_nextiov st)) (uio_nextiov st) st'"
        using nx run ix "1.prems"(3,4) True
        by (intro "1.IH"(1)) (auto simp: transferred_def sz_def iov_len_def uio_head_def)
      moreover have "uiomove_loop env ptr n st = uiomove_loop env ptr n (uio_nextiov st)"
        using run ix emp nx(4) by (subst uiomove_loop.simps) (simp add: uio_head_def iov_len_def Let_def)
      ultimately show ?thesis
        using transferred_trans [OF nx(3)] "1.prems"(4) run
        by (fastforce simp: moved_def)
    next
      case False
      let ?bs = "moved ptr sz st"
      define st1 where "st1 = set_iov (iov_advance sz ?bs ?h) (st\<lparr>u_buf := overwrite ptr ?bs (u_buf st)\<rparr>)"
      have sz: "0 < sz" "sz \<le> n" "sz \<le> length (iov_buf ?h)"
        using False by (auto simp: sz_def iov_len_def)
      have seg: "uiomove_seg env ptr sz st = Ok () st1"
        using uiomove_seg_ok [OF "1.prems"(1,2) sz(1,3)] sz(2) "1.prems"(4) by (simp add: st1_def)
      have "uio_resid ?u \<le> length (uio_left ?u)" using "1.prems"(1) by (simp add: uio_wf_def)
      then have len: "length ?bs = sz" using sz(2) "1.prems"(3,4) by (auto simp: moved_def)
      have "sz \<le> uio_resid ?u" using sz(2) "1.prems"(3) by simp
      note st = uio_step [OF "1.prems"(1,2) sz(3) this len, of ptr, folded st1_def]
      have split: "moved ptr n st = ?bs @ moved (ptr + sz) (n - sz) (uio_account sz st1)"
        using moved_split [OF sz(2) st(3) len] sz(2) "1.prems"(4) by simp
      have bl: "length (u_buf (uio_account sz st1)) = length (u_buf st)"
        using st(3) len sz(2) "1.prems"(4) by (simp add: transferred_def)
      have "\<exists>st'. uiomove_loop env (ptr + sz) (n - sz) (uio_account sz st1) = Ok () st' \<and>
          uio_wf (u_uio st') \<and> uio_ok env (u_uio st') \<and>
          transferred (ptr + sz) (moved (ptr + sz) (n - sz) (uio_account sz st1)) (uio_account sz st1) st'"
        using st bl run ix "1.prems"(3,4) False sz seg len
        by (intro "1.IH"(2)) (auto simp: transferred_def sz_def uio_head_def)
      moreover have "uiomove_loop env ptr n st = uiomove_loop env (ptr + sz) (n - sz) (uio_account sz st1)"
        using run ix False seg by (subst uiomove_loop.simps) (simp add: sz_def [symmetric] uio_head_def [symmetric] Let_def)
      moreover have "length (moved ptr n st) \<le> n" by (simp add: moved_def)
      ultimately show ?thesis
        using transferred_trans [OF st(3)] split len "1.prems"(4) by fastforce
    qed
  qed
qed

lemma uiomove_ok:
  assumes "uio_wf (u_uio st)" "uio_ok env (u_uio st)" "n \<le> uio_resid (u_uio st)"
    "ptr + n \<le> length (u_buf st)"
  shows "\<exists>st'. uiomove env ptr n st = Ok () st' \<and> uio_wf (u_uio st') \<and> uio_ok env (u_uio st') \<and>
    transferred ptr (moved ptr n st) st st'"
  using uiomove_loop_ok [OF assms] assms(2) by (auto simp: uiomove_def uio_ok_def split: if_splits)

lemma uio_kinit_wf:
  assumes "length bytes < 2 ^ 32"
  shows "uio_wf (uio_kinit kbuf bytes pos rw)" "uio_ok env (uio_kinit kbuf bytes pos rw)"
    "uio_left (uio_kinit kbuf bytes pos rw) = bytes" "uio_done (uio_kinit kbuf bytes pos rw) = []"
  using assms by (simp_all add: uio_wf_def uio_ok_def uio_kinit_def uio_left_def uio_done_def)

lemma uiomovezeros_loop_ok:
  assumes "uio_wf u" "uio_ok env u" "n \<le> uio_resid u" "uio_rw u = UIO_READ"
  shows "\<exists>u'. uiomovezeros_loop env n u = Ok () u' \<and> uio_wf u' \<and> uio_ok env u' \<and>
    uio_done u' = uio_done u @ replicate n 0 \<and> uio_left u' = drop n (uio_left u) \<and>
    uio_resid u' = uio_resid u - n \<and> uio_offset u' = uio_offset u + int n \<and> uio_rw u' = uio_rw u \<and>
    uio_segflg u' = uio_segflg u \<and> uio_space u' = uio_space u"
  using assms
proof (induction env n u rule: uiomovezeros_loop.induct)
  case (1 env n u)
  show ?case
  proof (cases "n > 0")
    case False
    then show ?thesis using "1.prems" by (subst uiomovezeros_loop.simps) simp
  next
    case True
    define amt where "amt = (if 16 > n then n else 16)"
    let ?st = "\<lparr>u_uio = u, u_buf = replicate 16 0\<rparr> :: uiost"
    have amt: "amt \<le> n" "amt \<le> 16" by (auto simp: amt_def)
    then obtain st' where st': "uiomove env 0 amt ?st = Ok () st'" "uio_wf (u_uio st')"
        "uio_ok env (u_uio st')" "transferred 0 (moved 0 amt ?st) ?st st'"
      using uiomove_ok [of ?st env amt 0] "1.prems" by auto
    have mv: "moved 0 amt ?st = replicate amt 0" using "1.prems"(4) amt(2) by (simp add: moved_def)
    have "\<exists>u'. uiomovezeros_loop env (n - amt) (u_uio st') = Ok () u' \<and> uio_wf u' \<and> uio_ok env u' \<and>
      uio_done u' = uio_done (u_uio st') @ replicate (n - amt) 0 \<and>
      uio_left u' = drop (n - amt) (uio_left (u_uio st')) \<and>
      uio_resid u' = uio_resid (u_uio st') - (n - amt) \<and> uio_offset u' = uio_offset (u_uio st') + int (n - amt) \<and>
      uio_rw u' = uio_rw (u_uio st') \<and> uio_segflg u' = uio_segflg (u_uio st') \<and> uio_space u' = uio_space (u_uio st')"
      using True st' "1.prems"(3,4)
      by (intro "1.IH") (auto simp: amt_def [symmetric] transferred_def mv)
    moreover have "uiomovezeros_loop env n u = uiomovezeros_loop env (n - amt) (u_uio st')"
      using True st'(1) by (subst uiomovezeros_loop.simps) (simp add: amt_def [symmetric] Let_def)
    ultimately show ?thesis
      using st'(4) amt by (auto simp: transferred_def mv replicate_add [symmetric] add.commute)
  qed
qed

section \<open>Properties\<close>


definition sample_uio :: uio where
  "sample_uio = \<lparr>uio_iov = [\<lparr>iov_base = 0x1000, iov_buf = [1, 2], iov_past = []\<rparr>,
      \<lparr>iov_base = 0x2000, iov_buf = [3, 4, 5], iov_past = []\<rparr>], uio_iovix = 0, uio_iovcnt = 2,
     uio_offset = 100, uio_resid = 5, uio_segflg = UIO_USERSPACE, uio_rw = UIO_WRITE, uio_space = Some 7\<rparr>"

definition sample_uenv :: uenv where
  "sample_uenv = \<lparr>curproc_as = Some 7, uvalid = (\<lambda>a. 0x1000 \<le> a \<and> a < 0x3000)\<rparr>"


text \<open>
  C33: \<^verbatim>\<open>uiomove\<close> does not bound the amount it moves by \<^verbatim>\<open>uio_resid\<close>. Asked for more than the
  residual count while the first region is longer, it moves all \<open>n\<close> bytes and \<^verbatim>\<open>uio_resid\<close>
  wraps around below zero.
\<close>

theorem uiomove_resid_wraps:
  assumes "0 < r" "r < n" "n \<le> length bytes" "length bytes < 2 ^ 32" "n \<le> length buf"
  shows "\<exists>st'. uiomove env 0 n \<lparr>u_uio = (uio_kinit kbuf bytes pos UIO_READ)\<lparr>uio_resid := r\<rparr>, u_buf = buf\<rparr>
      = Ok () st' \<and> uio_done (u_uio st') = take n buf \<and> uio_resid (u_uio st') = 2 ^ 32 - (n - r)"
proof -
  have "sub32 r n = 2 ^ 32 - (n - r)" using assms by (simp add: sub32_def)
  then show ?thesis
    using assms
    by (auto simp: uiomove_def uio_kinit_def uiomove_loop.simps [of env] iov_len_def Let_def
        uiomove_seg_def set_iov_def iov_advance_def uio_account_def uio_done_def)
qed

theorem uiomove_resid_wraps_witness:
  "\<exists>st'. uiomove sample_uenv 0 3 \<lparr>u_uio = (uio_kinit 0x80000000 [0, 0, 0, 0] 0 UIO_READ)\<lparr>uio_resid := 2\<rparr>,
      u_buf = [5, 6, 7]\<rparr> = Ok () st' \<and> uio_resid (u_uio st') = 2 ^ 32 - 1"
  using uiomove_resid_wraps [of 2 3 "[0, 0, 0, 0]" "[5, 6, 7]" sample_uenv "0x80000000" 0] by auto

text \<open>
  \<^verbatim>\<open>uiomovezeros\<close> delivers exactly \<open>n\<close> zero bytes, whatever multiple of its 16-byte buffer
  that is.
\<close>

lemma uiomovezeros_correct:
  assumes "uio_wf u" "uio_ok env u" "n \<le> uio_resid u" "uio_rw u = UIO_READ"
  shows "\<exists>u'. uiomovezeros env n u = Ok () u' \<and> uio_wf u' \<and>
    uio_done u' = uio_done u @ replicate n 0 \<and> uio_left u' = drop n (uio_left u) \<and>
    uio_resid u' = uio_resid u - n \<and> uio_offset u' = uio_offset u + int n"
  using uiomovezeros_loop_ok [OF assms] assms(4) by (auto simp: uiomovezeros_def)

end
