(* ===== verification/Lhd.thy ===== *)
theory Lhd
  imports Uio
begin

text \<open>
  \<^verbatim>\<open>dev/lamebus/lhd.c\<close>: the driver of the LAMEbus disk. The disk itself is not part of the
  kernel: it is the parameter \<open>disk\<close>, which for a sector number, a direction, the contents of the
  on-card buffer and the state of the medium gives the value that the status register shows at
  completion, the contents of the buffer and the new state of the medium. The completion interrupt
  runs \<^verbatim>\<open>lhd_irq\<close>; the two semaphores are their counts. The driver is modelled for one request
  at a time, so a \<^verbatim>\<open>P\<close> on a count of 0 after the interrupt would sleep forever, and is \<open>Panic\<close>.

  The contract of a block device that the file system relies on is the locale \<open>block_device\<close>.
\<close>

section \<open>Model\<close>

definition LHD_SECTSIZE :: nat where "LHD_SECTSIZE = 512"

definition LHD_IDLE :: u32 where "LHD_IDLE = 0"
definition LHD_WORKING :: u32 where "LHD_WORKING = 1"
definition LHD_OK :: u32 where "LHD_OK = 4"
definition LHD_INVSECT :: u32 where "LHD_INVSECT = 12"
definition LHD_MEDIA :: u32 where "LHD_MEDIA = 20"
definition LHD_ISWRITE :: u32 where "LHD_ISWRITE = 2"
definition LHD_STATEMASK :: u32 where "LHD_STATEMASK = 0x1d"

lemmas lhd_codes = LHD_IDLE_def LHD_WORKING_def LHD_OK_def LHD_INVSECT_def LHD_MEDIA_def
  LHD_ISWRITE_def LHD_STATEMASK_def

type_synonym 'd disk_hw = "nat \<Rightarrow> bool \<Rightarrow> u8 list \<Rightarrow> 'd \<Rightarrow> u32 \<times> u8 list \<times> 'd"

record 'd lhd_softc =
  lh_buf :: "u8 list"
  lh_result :: "errno option"
  lh_clear :: nat
  lh_done :: nat
  d_blocks :: nat
  reg_stat :: u32
  reg_sect :: nat
  lh_disk :: 'd

definition lhd_code_to_errno :: "u32 \<Rightarrow> errno option" where
  "lhd_code_to_errno code =
    (let s = code AND LHD_STATEMASK in
     if s = LHD_OK then None
     else if s = LHD_INVSECT then Some EINVAL
     else if s = LHD_MEDIA then Some EIO
     else Some EAGAIN)"

definition lhd_iodone :: "errno option \<Rightarrow> 'd lhd_softc \<Rightarrow> 'd lhd_softc" where
  "lhd_iodone err lh = lh\<lparr>lh_result := err, lh_done := Suc (lh_done lh)\<rparr>"

definition lhd_irq :: "'d lhd_softc \<Rightarrow> 'd lhd_softc" where
  "lhd_irq lh =
    (let val = reg_stat lh; s = val AND LHD_STATEMASK in
     if s = LHD_IDLE \<or> s = LHD_WORKING then lh
     else if s = LHD_OK \<or> s = LHD_INVSECT \<or> s = LHD_MEDIA then
       lhd_iodone (lhd_code_to_errno val) (lh\<lparr>reg_stat := 0\<rparr>)
     else lh)"

definition lhd_open :: "nat \<Rightarrow> errno option" where
  "lhd_open openflags = None"

definition lhd_close :: "errno option" where
  "lhd_close = None"

definition lhd_ioctl :: "nat \<Rightarrow> errno option" where
  "lhd_ioctl op = Some EIOCTL"

text \<open>The work of the disk between the start of an operation and its interrupt.\<close>

definition disk_complete :: "'d disk_hw \<Rightarrow> 'd lhd_softc \<Rightarrow> 'd lhd_softc" where
  "disk_complete disk lh =
    (let (code, buf, d) = disk (reg_sect lh) (reg_stat lh AND LHD_ISWRITE \<noteq> 0) (lh_buf lh) (lh_disk lh)
     in lh\<lparr>reg_stat := code, lh_buf := buf, lh_disk := d\<rparr>)"

definition P_clear :: "('d lhd_softc \<times> uio, unit) kfun" where
  "P_clear = (\<lambda>(lh, u). if lh_clear lh = 0 then Panic else Ok () (lh\<lparr>lh_clear := lh_clear lh - 1\<rparr>, u))"

definition V_clear :: "('d lhd_softc \<times> uio, unit) kfun" where
  "V_clear = (\<lambda>(lh, u). Ok () (lh\<lparr>lh_clear := Suc (lh_clear lh)\<rparr>, u))"

definition P_done :: "('d lhd_softc \<times> uio, unit) kfun" where
  "P_done = (\<lambda>(lh, u). if lh_done lh = 0 then Panic else Ok () (lh\<lparr>lh_done := lh_done lh - 1\<rparr>, u))"

definition lhd_uiomove :: "uenv \<Rightarrow> ('d lhd_softc \<times> uio, unit) kfun" where
  "lhd_uiomove env = (\<lambda>(lh, u).
    case uiomove env 0 LHD_SECTSIZE \<lparr>u_uio = u, u_buf = lh_buf lh\<rparr> of
      Ok _ st \<Rightarrow> Ok () (lh\<lparr>lh_buf := u_buf st\<rparr>, u_uio st)
    | Err e st \<Rightarrow> Err e (lh\<lparr>lh_buf := u_buf st\<rparr>, u_uio st)
    | Panic \<Rightarrow> Panic)"

text \<open>The body of the loop of \<^verbatim>\<open>lhd_io\<close>, for the sector \<open>sect\<close>.\<close>

definition lhd_sector :: "uenv \<Rightarrow> 'd disk_hw \<Rightarrow> u32 \<Rightarrow> nat \<Rightarrow> ('d lhd_softc \<times> uio, unit) kfun" where
  "lhd_sector env disk statval sect =
    kbind P_clear (\<lambda>_.
    kbind (kget (\<lambda>(lh, u). uio_rw u)) (\<lambda>rw.
    kbind (if rw = UIO_WRITE then ktry (lhd_uiomove env) else kret (Inr ())) (\<lambda>moved.
    case moved of
      Inl e \<Rightarrow> kbind V_clear (\<lambda>_. kerr e)
    | Inr _ \<Rightarrow>
        kbind (kmod (\<lambda>(lh, u). (lh\<lparr>reg_sect := sect, reg_stat := statval\<rparr>, u))) (\<lambda>_.
        kbind (kmod (\<lambda>(lh, u). (lhd_irq (disk_complete disk lh), u))) (\<lambda>_.
        kbind P_done (\<lambda>_.
        kbind (kget (\<lambda>(lh, u). lh_result lh)) (\<lambda>result.
        kbind (if result = None \<and> rw = UIO_READ then ktry (lhd_uiomove env)
               else kret (case result of None \<Rightarrow> Inr () | Some e \<Rightarrow> Inl e)) (\<lambda>result.
        kbind V_clear (\<lambda>_.
        case result of Inl e \<Rightarrow> kerr e | Inr _ \<Rightarrow> kret ())))))))))"

primrec lhd_sectors :: "uenv \<Rightarrow> 'd disk_hw \<Rightarrow> u32 \<Rightarrow> nat \<Rightarrow> nat \<Rightarrow> ('d lhd_softc \<times> uio, unit) kfun" where
  "lhd_sectors env disk statval sect 0 = kret ()"
| "lhd_sectors env disk statval sect (Suc n) =
    kbind (lhd_sector env disk statval sect) (\<lambda>_. lhd_sectors env disk statval (add32 sect 1) n)"

definition lhd_io :: "'d disk_hw \<Rightarrow> uenv \<Rightarrow> ('d lhd_softc \<times> uio, unit) kfun" where
  "lhd_io disk env s =
    (let (lh, u) = s;
         sector = nat ((uio_offset u div int LHD_SECTSIZE) mod 2 ^ 32);
         sectoff = uio_offset u mod int LHD_SECTSIZE;
         len = uio_resid u div LHD_SECTSIZE;
         lenoff = uio_resid u mod LHD_SECTSIZE;
         statval = (if uio_rw u = UIO_WRITE then LHD_WORKING OR LHD_ISWRITE else LHD_WORKING)
     in if sectoff \<noteq> 0 \<or> lenoff \<noteq> 0 then Err EINVAL s
        else if add32 sector len > d_blocks lh then Err EINVAL s
        else lhd_sectors env disk statval sector len s)"

text \<open>
  The outcomes of the two \<^verbatim>\<open>sem_create\<close> calls are arguments; \<open>buf\<close> is the mapped on-card buffer
  and \<open>nsect\<close> the value of the sector-count register.
\<close>

definition config_lhd :: "bool \<Rightarrow> bool \<Rightarrow> u8 list \<Rightarrow> nat \<Rightarrow> 'd \<Rightarrow> errno + 'd lhd_softc" where
  "config_lhd ok_clear ok_done buf nsect d =
    (if \<not> ok_clear then Inl ENOMEM
     else if \<not> ok_done then Inl ENOMEM
     else Inr \<lparr>lh_buf = buf, lh_result = None, lh_clear = 1, lh_done = 0, d_blocks = nsect,
               reg_stat = 0, reg_sect = 0, lh_disk = d\<rparr>)"

section \<open>A working disk\<close>

text \<open>
  \<open>content d s\<close> is what sector \<open>s\<close> of the medium holds. A disk without media errors answers a read
  with the contents of the sector and a write by replacing them.
\<close>

definition disk_works :: "'d disk_hw \<Rightarrow> ('d \<Rightarrow> nat \<Rightarrow> u8 list) \<Rightarrow> bool" where
  "disk_works disk content \<longleftrightarrow>
    (\<forall>s buf d. length buf = 512 \<longrightarrow>
       (\<exists>d'. disk s True buf d = (LHD_OK OR LHD_ISWRITE, buf, d') \<and> content d' = (content d)(s := buf)) \<and>
       (length (content d s) = 512 \<longrightarrow> (\<exists>d'. disk s False buf d = (LHD_OK, content d s, d') \<and> content d' = content d)))"

definition lhd_ready :: "('d \<Rightarrow> nat \<Rightarrow> u8 list) \<Rightarrow> 'd lhd_softc \<Rightarrow> bool" where
  "lhd_ready content lh \<longleftrightarrow> lh_clear lh = 1 \<and> lh_done lh = 0 \<and> length (lh_buf lh) = 512 \<and>
     d_blocks lh < 2 ^ 32 \<and> (\<forall>s < d_blocks lh. length (content (lh_disk lh) s) = 512)"

text \<open>A transfer of bytes \<open>bs\<close> through a request \<open>u\<close>, which is left as \<open>u'\<close>.\<close>

definition uio_moves :: "uenv \<Rightarrow> u8 list \<Rightarrow> uio \<Rightarrow> uio \<Rightarrow> bool" where
  "uio_moves env bs u u' \<longleftrightarrow> uio_wf u' \<and> uio_ok env u' \<and> uio_done u' = uio_done u @ bs \<and>
     uio_left u' = drop (length bs) (uio_left u) \<and> uio_resid u' = uio_resid u - length bs \<and>
     uio_offset u' = uio_offset u + int (length bs) \<and> uio_rw u' = uio_rw u \<and>
     uio_segflg u' = uio_segflg u \<and> uio_space u' = uio_space u"

lemma uio_moves_trans:
  "uio_moves env bs u u' \<Longrightarrow> uio_moves env cs u' u'' \<Longrightarrow> uio_moves env (bs @ cs) u u''"
  by (auto simp: uio_moves_def add.commute)

lemma lhd_uiomove_ok:
  assumes "uio_wf u" "uio_ok env u" "512 \<le> uio_resid u" "length (lh_buf lh) = 512"
  shows "\<exists>u'. lhd_uiomove env (lh, u) =
      Ok () (lh\<lparr>lh_buf := (if uio_rw u = UIO_READ then lh_buf lh else take 512 (uio_left u))\<rparr>, u') \<and>
    uio_moves env (if uio_rw u = UIO_READ then lh_buf lh else take 512 (uio_left u)) u u'"
proof -
  let ?st = "\<lparr>u_uio = u, u_buf = lh_buf lh\<rparr> :: uiost"
  have len: "512 \<le> length (uio_left u)" using assms(1,3) by (simp add: uio_wf_def)
  have mv: "moved 0 512 ?st = (if uio_rw u = UIO_READ then lh_buf lh else take 512 (uio_left u))"
    using assms(4) by (simp add: moved_def)
  obtain st where st: "uiomove env 0 512 ?st = Ok () st" "uio_wf (u_uio st)" "uio_ok env (u_uio st)"
      "transferred 0 (moved 0 512 ?st) ?st st"
    using uiomove_ok [of ?st env 512 0] assms by auto
  have "overwrite 0 (moved 0 512 ?st) (lh_buf lh) = moved 0 512 ?st"
    using mv assms(4) len by (intro overwrite_all) auto
  with st show ?thesis
    by (auto simp: lhd_uiomove_def LHD_SECTSIZE_def uio_moves_def transferred_def mv)
qed

lemma lhd_codes_eval:
  "(LHD_OK OR LHD_ISWRITE) AND LHD_STATEMASK = LHD_OK" "LHD_OK AND LHD_STATEMASK = LHD_OK"
  "LHD_ISWRITE \<noteq> 0" "LHD_WORKING AND LHD_ISWRITE = 0"
  "LHD_OK \<noteq> LHD_IDLE" "LHD_OK \<noteq> LHD_WORKING"
  by (simp_all add: lhd_codes)

lemmas lhd_run_defs = lhd_sector_def P_clear_def V_clear_def P_done_def kfun_defs lhd_irq_def
  disk_complete_def lhd_iodone_def lhd_code_to_errno_def Let_def lhd_codes_eval

lemma lhd_sector_read:
  assumes works: "disk_works disk content" and ready: "lhd_ready content lh"
    and u: "uio_wf u" "uio_ok env u" "512 \<le> uio_resid u" "uio_rw u = UIO_READ" and s: "s < d_blocks lh"
  shows "\<exists>lh' u'. lhd_sector env disk LHD_WORKING s (lh, u) = Ok () (lh', u') \<and> lhd_ready content lh' \<and>
    d_blocks lh' = d_blocks lh \<and> content (lh_disk lh') = content (lh_disk lh) \<and>
    uio_moves env (content (lh_disk lh) s) u u'"
proof -
  have len: "length (lh_buf lh) = 512" "length (content (lh_disk lh) s) = 512"
    using ready s by (auto simp: lhd_ready_def)
  then obtain d' where d': "disk s False (lh_buf lh) (lh_disk lh) = (LHD_OK, content (lh_disk lh) s, d')"
      "content d' = content (lh_disk lh)"
    using works unfolding disk_works_def by blast
  define lh1 where "lh1 = lh\<lparr>lh_clear := 0, reg_sect := s, lh_buf := content (lh_disk lh) s,
    lh_disk := d', reg_stat := 0, lh_result := None, lh_done := 0\<rparr>"
  obtain u' where u': "lhd_uiomove env (lh1, u) = Ok () (lh1, u')" "uio_moves env (content (lh_disk lh) s) u u'"
    using lhd_uiomove_ok [OF u(1-3), of lh1] u(4) len by (auto simp: lh1_def)
  have "lhd_sector env disk LHD_WORKING s (lh, u) = Ok () (lh1\<lparr>lh_clear := 1\<rparr>, u')"
    using ready u(4) d'(1) u'(1) by (simp add: lhd_run_defs lhd_ready_def lh1_def)
  moreover have "lhd_ready content (lh1\<lparr>lh_clear := 1\<rparr>)"
    using ready len d'(2) by (simp add: lhd_ready_def lh1_def)
  ultimately show ?thesis using u'(2) d'(2) by (intro exI [of _ "lh1\<lparr>lh_clear := 1\<rparr>"] exI [of _ u'])
    (simp add: lh1_def)
qed

lemma lhd_sector_write:
  assumes works: "disk_works disk content" and ready: "lhd_ready content lh"
    and u: "uio_wf u" "uio_ok env u" "512 \<le> uio_resid u" "uio_rw u = UIO_WRITE" and s: "s < d_blocks lh"
  shows "\<exists>lh' u'. lhd_sector env disk (LHD_WORKING OR LHD_ISWRITE) s (lh, u) = Ok () (lh', u') \<and>
    lhd_ready content lh' \<and> d_blocks lh' = d_blocks lh \<and>
    content (lh_disk lh') = (content (lh_disk lh))(s := take 512 (uio_left u)) \<and>
    uio_moves env (take 512 (uio_left u)) u u'"
proof -
  let ?bs = "take 512 (uio_left u)"
  have len: "length (lh_buf lh) = 512" "length ?bs = 512"
    using ready u(1,3) by (auto simp: lhd_ready_def uio_wf_def)
  then obtain d' where d': "disk s True ?bs (lh_disk lh) = (LHD_OK OR LHD_ISWRITE, ?bs, d')"
      "content d' = (content (lh_disk lh))(s := ?bs)"
    using works unfolding disk_works_def by blast
  obtain u' where u': "lhd_uiomove env (lh\<lparr>lh_clear := 0\<rparr>, u) = Ok () (lh\<lparr>lh_clear := 0, lh_buf := ?bs\<rparr>, u')"
      "uio_moves env ?bs u u'"
    using lhd_uiomove_ok [OF u(1-3), of "lh\<lparr>lh_clear := 0\<rparr>"] u(4) len by auto
  define lh1 where "lh1 = lh\<lparr>lh_clear := 1, reg_sect := s, reg_stat := 0, lh_disk := d',
    lh_buf := ?bs, lh_result := None\<rparr>"
  have "lhd_sector env disk (LHD_WORKING OR LHD_ISWRITE) s (lh, u) = Ok () (lh1, u')"
    using ready u(4) d'(1) u'(1) by (simp add: lhd_run_defs lhd_ready_def lh1_def)
  moreover have "lhd_ready content lh1"
    using ready len d'(2) by (simp add: lhd_ready_def lh1_def)
  ultimately show ?thesis using u'(2) d'(2) by (intro exI [of _ lh1] exI [of _ u']) (simp add: lh1_def)
qed

lemma uio_moves_resid:
  "uio_moves env bs u u' \<Longrightarrow> length bs \<le> uio_resid u \<Longrightarrow> n + length bs \<le> uio_resid u \<Longrightarrow> n \<le> uio_resid u'"
  by (simp add: uio_moves_def)

lemma lhd_sectors_read:
  assumes "disk_works disk content" "lhd_ready content lh"
    "uio_wf u" "uio_ok env u" "512 * n \<le> uio_resid u" "uio_rw u = UIO_READ" "s + n \<le> d_blocks lh"
  shows "\<exists>lh' u'. lhd_sectors env disk LHD_WORKING s n (lh, u) = Ok () (lh', u') \<and> lhd_ready content lh' \<and>
    d_blocks lh' = d_blocks lh \<and> content (lh_disk lh') = content (lh_disk lh) \<and>
    uio_moves env (concat (map (content (lh_disk lh)) [s..<s + n])) u u'"
  using assms(2-)
proof (induction n arbitrary: s lh u)
  case 0
  then show ?case by (auto simp: kret_def uio_moves_def)
next
  case (Suc n)
  have s: "s < d_blocks lh" "d_blocks lh < 2 ^ 32" "512 \<le> uio_resid u"
    using Suc.prems by (auto simp: lhd_ready_def)
  from lhd_sector_read [OF assms(1) Suc.prems(1,2,3) s(3) Suc.prems(5) s(1)] obtain lh1 u1 where
    l1: "lhd_sector env disk LHD_WORKING s (lh, u) = Ok () (lh1, u1)" "lhd_ready content lh1"
      "d_blocks lh1 = d_blocks lh" "content (lh_disk lh1) = content (lh_disk lh)"
      "uio_moves env (content (lh_disk lh) s) u u1" by blast
  have "length (content (lh_disk lh) s) = 512" using Suc.prems(1) s(1) by (simp add: lhd_ready_def)
  then have u1: "uio_wf u1" "uio_ok env u1" "512 * n \<le> uio_resid u1" "uio_rw u1 = UIO_READ"
    using l1(5) Suc.prems(4,5) by (auto simp: uio_moves_def)
  have s1: "add32 s 1 = Suc s" using s by (simp add: add32_def)
  from Suc.IH [OF l1(2) u1, of "Suc s"] obtain lh2 u2 where
    l2: "lhd_sectors env disk LHD_WORKING (Suc s) n (lh1, u1) = Ok () (lh2, u2)" "lhd_ready content lh2"
      "d_blocks lh2 = d_blocks lh1" "content (lh_disk lh2) = content (lh_disk lh1)"
      "uio_moves env (concat (map (content (lh_disk lh1)) [Suc s..<Suc s + n])) u1 u2"
    using Suc.prems(6) l1(3) by auto
  have "[s..<s + Suc n] = s # [Suc s..<Suc s + n]" by (simp add: upt_conv_Cons del: upt_Suc)
  then show ?case
    using l1 l2 s1 uio_moves_trans [OF l1(5)] by (auto simp: kbind_def)
qed

lemma lhd_sectors_write:
  assumes "disk_works disk content" "lhd_ready content lh"
    "uio_wf u" "uio_ok env u" "512 * n \<le> uio_resid u" "uio_rw u = UIO_WRITE" "s + n \<le> d_blocks lh"
  shows "\<exists>lh' u'. lhd_sectors env disk (LHD_WORKING OR LHD_ISWRITE) s n (lh, u) = Ok () (lh', u') \<and>
    lhd_ready content lh' \<and> d_blocks lh' = d_blocks lh \<and>
    (\<forall>t. content (lh_disk lh') t = (if s \<le> t \<and> t < s + n then take 512 (drop (512 * (t - s)) (uio_left u))
        else content (lh_disk lh) t)) \<and>
    uio_moves env (take (512 * n) (uio_left u)) u u'"
  using assms(2-)
proof (induction n arbitrary: s lh u)
  case 0
  then show ?case by (auto simp: kret_def uio_moves_def)
next
  case (Suc n)
  have s: "s < d_blocks lh" "d_blocks lh < 2 ^ 32" "512 \<le> uio_resid u"
    using Suc.prems by (auto simp: lhd_ready_def)
  from lhd_sector_write [OF assms(1) Suc.prems(1,2,3) s(3) Suc.prems(5) s(1)] obtain lh1 u1 where
    l1: "lhd_sector env disk (LHD_WORKING OR LHD_ISWRITE) s (lh, u) = Ok () (lh1, u1)" "lhd_ready content lh1"
      "d_blocks lh1 = d_blocks lh" "content (lh_disk lh1) = (content (lh_disk lh))(s := take 512 (uio_left u))"
      "uio_moves env (take 512 (uio_left u)) u u1" by blast
  have len: "length (take 512 (uio_left u)) = 512" using Suc.prems(2) s(3) by (auto simp: uio_wf_def)
  have u1: "uio_wf u1" "uio_ok env u1" "512 * n \<le> uio_resid u1" "uio_rw u1 = UIO_WRITE"
      "uio_left u1 = drop 512 (uio_left u)"
    using l1(5) Suc.prems(4,5) len by (auto simp: uio_moves_def)
  have s1: "add32 s 1 = Suc s" using s by (simp add: add32_def)
  from Suc.IH [OF l1(2) u1(1-4), of "Suc s"] obtain lh2 u2 where
    l2: "lhd_sectors env disk (LHD_WORKING OR LHD_ISWRITE) (Suc s) n (lh1, u1) = Ok () (lh2, u2)"
      "lhd_ready content lh2" "d_blocks lh2 = d_blocks lh1"
      "\<forall>t. content (lh_disk lh2) t = (if Suc s \<le> t \<and> t < Suc s + n
        then take 512 (drop (512 * (t - Suc s)) (uio_left u1)) else content (lh_disk lh1) t)"
      "uio_moves env (take (512 * n) (uio_left u1)) u1 u2"
    using Suc.prems(6) l1(3) by auto
  have "uio_moves env (take (512 * Suc n) (uio_left u)) u u2"
    using uio_moves_trans [OF l1(5) l2(5)] u1(5) take_add [of 512 "512 * n" "uio_left u"] by simp
  moreover have "content (lh_disk lh2) t = (if s \<le> t \<and> t < s + Suc n
      then take 512 (drop (512 * (t - s)) (uio_left u)) else content (lh_disk lh) t)" for t
  proof (cases "Suc s \<le> t \<and> t < Suc s + n")
    case True
    then have "512 + 512 * (t - Suc s) = 512 * (t - s)" by auto
    then show ?thesis using l2(4) True u1(5) by (simp add: add.commute)
  next
    case False
    then show ?thesis using l2(4) l1(4) by auto
  qed
  ultimately show ?case using l1(1,3) l2(1-3) s1 by (auto simp: kbind_def)
qed

section \<open>The contract of a block device\<close>

locale block_device =
  fixes d_io :: "uenv \<Rightarrow> ('d \<times> uio, unit) kfun"
    and blk :: "'d \<Rightarrow> nat \<Rightarrow> u8 list"
    and nblk :: "'d \<Rightarrow> nat"
    and dev_ok :: "'d \<Rightarrow> bool"
  assumes blk_length: "dev_ok d \<Longrightarrow> b < nblk d \<Longrightarrow> length (blk d b) = 512"
    and nblk_bound: "dev_ok d \<Longrightarrow> nblk d < 2 ^ 32"
    and io_read: "dev_ok d \<Longrightarrow> b < nblk d \<Longrightarrow> uio_wf u \<Longrightarrow> uio_ok env u \<Longrightarrow> uio_rw u = UIO_READ \<Longrightarrow>
      uio_offset u = 512 * int b \<Longrightarrow> uio_resid u = 512 \<Longrightarrow>
      \<exists>d' u'. d_io env (d, u) = Ok () (d', u') \<and> dev_ok d' \<and> nblk d' = nblk d \<and> blk d' = blk d \<and>
        uio_moves env (blk d b) u u'"
    and io_write: "dev_ok d \<Longrightarrow> b < nblk d \<Longrightarrow> uio_wf u \<Longrightarrow> uio_ok env u \<Longrightarrow> uio_rw u = UIO_WRITE \<Longrightarrow>
      uio_offset u = 512 * int b \<Longrightarrow> uio_resid u = 512 \<Longrightarrow>
      \<exists>d' u'. d_io env (d, u) = Ok () (d', u') \<and> dev_ok d' \<and> nblk d' = nblk d \<and>
        blk d' = (blk d)(b := take 512 (uio_left u)) \<and> uio_moves env (take 512 (uio_left u)) u u'"

locale working_disk =
  fixes disk :: "'d disk_hw" and content :: "'d \<Rightarrow> nat \<Rightarrow> u8 list"
  assumes works: "disk_works disk content"

sublocale working_disk \<subseteq> lhd: block_device "lhd_io disk" "\<lambda>lh. content (lh_disk lh)" d_blocks "lhd_ready content"
proof (unfold_locales, goal_cases)
  case (1 d b)
  then show ?case by (simp add: lhd_ready_def)
next
  case (2 d)
  then show ?case by (simp add: lhd_ready_def)
next
  case (3 d b u env)
  then have "b < 2 ^ 32" "add32 b 1 = Suc b" by (auto simp: lhd_ready_def add32_def)
  then have "lhd_io disk env (d, u) = lhd_sectors env disk LHD_WORKING b 1 (d, u)"
    using 3 by (simp add: lhd_io_def LHD_SECTSIZE_def Let_def nat_mod_distrib)
  then show ?case using lhd_sectors_read [OF works, of d u env 1 b] 3 by auto
next
  case (4 d b u env)
  then have "b < 2 ^ 32" "add32 b 1 = Suc b" by (auto simp: lhd_ready_def add32_def)
  then have "lhd_io disk env (d, u) = lhd_sectors env disk (LHD_WORKING OR LHD_ISWRITE) b 1 (d, u)"
    using 4 by (simp add: lhd_io_def LHD_SECTSIZE_def Let_def nat_mod_distrib)
  then show ?case using lhd_sector_write [OF works, of d u env b] 4 by (auto simp: kbind_def kret_def)
qed

text \<open>A disk whose medium is a function from sector numbers to contents.\<close>

definition mem_disk :: "(nat \<Rightarrow> u8 list) disk_hw" where
  "mem_disk s iswrite buf d =
    (if iswrite then (LHD_OK OR LHD_ISWRITE, buf, d(s := buf)) else (LHD_OK, d s, d))"

interpretation mem: working_disk mem_disk "\<lambda>d. d"
  by unfold_locales (simp add: disk_works_def mem_disk_def)

lemma lhd_io_sectors:
  assumes "lhd_ready content lh" "uio_wf u" "uio_offset u = 512 * int s" "uio_resid u = 512 * n"
    "s + n \<le> d_blocks lh"
  shows "lhd_io disk env (lh, u) = lhd_sectors env disk
    (if uio_rw u = UIO_WRITE then LHD_WORKING OR LHD_ISWRITE else LHD_WORKING) s n (lh, u)"
proof -
  have "s < 2 ^ 32" "s + n < 2 ^ 32" using assms(1,5) by (auto simp: lhd_ready_def)
  then show ?thesis
    using assms(3-5) by (simp add: lhd_io_def LHD_SECTSIZE_def Let_def nat_mod_distrib add32_id)
qed

lemma lhd_failed_write:
  assumes "lhd_ready content lh" "uio_wf u" "uio_ok env u" "uio_rw u = UIO_WRITE"
    "uio_offset u = 512 * int s" "uio_resid u = 512" "Suc s < d_blocks lh"
    "\<And>buf d. disk s True buf d = (LHD_MEDIA OR LHD_ISWRITE, buf, d)"
  shows "\<exists>lh' u'. lhd_io disk env (lh, u) = Err EIO (lh', u') \<and> uio_resid u' = 0 \<and>
    lh_disk lh' = lh_disk lh \<and> lhd_io disk env (lh', u') = Ok () (lh', u')"
proof -
  let ?bs = "take 512 (uio_left u)"
  have b: "length (lh_buf lh) = 512" "length ?bs = 512" "lh_clear lh = 1" "lh_done lh = 0" "d_blocks lh < 2 ^ 32"
    using assms(1,2,6) by (auto simp: lhd_ready_def uio_wf_def)
  obtain u' where u': "lhd_uiomove env (lh\<lparr>lh_clear := 0\<rparr>, u) = Ok () (lh\<lparr>lh_clear := 0, lh_buf := ?bs\<rparr>, u')"
      "uio_moves env ?bs u u'"
    using lhd_uiomove_ok [OF assms(2,3), of "lh\<lparr>lh_clear := 0\<rparr>"] assms(4,6) b by auto
  have io: "lhd_io disk env (lh, u) = lhd_sector env disk (LHD_WORKING OR LHD_ISWRITE) s (lh, u)"
    using lhd_io_sectors [OF assms(1,2,5), of 1 disk env] assms(4,6,7)
    by (auto simp: kbind_def kret_def split: kres.splits)
  have code: "(LHD_MEDIA OR LHD_ISWRITE) AND LHD_STATEMASK = LHD_MEDIA" "LHD_MEDIA \<noteq> LHD_OK"
    "LHD_MEDIA \<noteq> LHD_INVSECT" "LHD_MEDIA \<noteq> LHD_IDLE" "LHD_MEDIA \<noteq> LHD_WORKING" by (simp_all add: lhd_codes)
  define lh' where "lh' = lh\<lparr>lh_clear := 1, lh_buf := ?bs, reg_sect := s, reg_stat := 0, lh_result := Some EIO\<rparr>"
  have "lhd_sector env disk (LHD_WORKING OR LHD_ISWRITE) s (lh, u) = Err EIO (lh', u')"
    using b u'(1) assms(4,8) by (simp add: lhd_run_defs code lh'_def)
  moreover have "uio_resid u' = 0" "uio_offset u' = 512 * (int s + 1)"
    using u'(2) b(2) assms(5,6) by (auto simp: uio_moves_def)
  moreover from this have "lhd_io disk env (lh', u') = Ok () (lh', u')"
    using b(5) assms(7) by (simp add: lhd_io_def LHD_SECTSIZE_def Let_def kret_def add32_def lh'_def nat_mod_distrib nat_add_distrib)
  ultimately show ?thesis using io by (auto simp: lh'_def)
qed

section \<open>Properties\<close>

text \<open>
  C35: on a disk without media errors, a sector-aligned request inside the disk is carried out
  completely: a read returns the contents of the sectors in order and changes none, a write puts
  the bytes of the request into exactly the requested sectors. No semaphore is left taken, so the
  next request can run.
\<close>

theorem lhd_io_correct:
  assumes "disk_works disk content" "lhd_ready content lh" "uio_wf u" "uio_ok env u"
    "uio_offset u = 512 * int s" "uio_resid u = 512 * n" "s + n \<le> d_blocks lh"
  shows "\<exists>lh' u'. lhd_io disk env (lh, u) = Ok () (lh', u') \<and> lhd_ready content lh' \<and> uio_resid u' = 0 \<and>
    (if uio_rw u = UIO_READ
     then content (lh_disk lh') = content (lh_disk lh) \<and>
       uio_done u' = uio_done u @ concat (map (content (lh_disk lh)) [s..<s + n])
     else \<forall>t. content (lh_disk lh') t = (if s \<le> t \<and> t < s + n
       then take 512 (drop (512 * (t - s)) (uio_left u)) else content (lh_disk lh) t))"
proof (cases "uio_rw u")
  case UIO_READ
  obtain lh' u' where r: "lhd_io disk env (lh, u) = Ok () (lh', u')" "lhd_ready content lh'"
      "content (lh_disk lh') = content (lh_disk lh)"
      "uio_moves env (concat (map (content (lh_disk lh)) [s..<s + n])) u u'"
    using lhd_io_sectors [OF assms(2,3,5-7)] lhd_sectors_read [OF assms(1-4) _ UIO_READ assms(7)] UIO_READ assms(6)
    by auto
  have eq: "map (length \<circ> content (lh_disk lh)) [s..<s + n] = map (\<lambda>_. 512) [s..<s + n]"
    using assms(2,7) by (auto simp: lhd_ready_def)
  have "length (concat (map (content (lh_disk lh)) [s..<s + n])) = 512 * n"
    by (simp only: length_concat map_map eq) (simp add: sum_list_triv)
  then show ?thesis using r UIO_READ assms(6) by (auto simp: uio_moves_def)
next
  case UIO_WRITE
  have "length (take (512 * n) (uio_left u)) = 512 * n" using assms(3,6) by (simp add: uio_wf_def)
  then show ?thesis
    using lhd_io_sectors [OF assms(2,3,5-7)] lhd_sectors_write [OF assms(1-4) _ UIO_WRITE assms(7)] UIO_WRITE assms(6)
    by (auto simp: uio_moves_def)
qed

definition sample_lhd :: "(nat \<Rightarrow> u8 list) lhd_softc" where
  "sample_lhd = \<lparr>lh_buf = replicate 512 0, lh_result = None, lh_clear = 1, lh_done = 0, d_blocks = 8,
     reg_stat = 0, reg_sect = 0, lh_disk = (\<lambda>s. replicate 512 (of_nat s))\<rparr>"

theorem lhd_io_correct_witness:
  "\<exists>lh' u'. lhd_io mem_disk sample_uenv (sample_lhd, uio_kinit 0x80001000 (replicate 1024 0) 1536 UIO_READ)
      = Ok () (lh', u') \<and> uio_done u' = replicate 512 3 @ replicate 512 4"
proof -
  let ?u = "uio_kinit 0x80001000 (replicate 1024 0) 1536 UIO_READ"
  have "lhd_ready (\<lambda>d. d) sample_lhd" by (simp add: lhd_ready_def sample_lhd_def)
  moreover have "uio_wf ?u" "uio_ok sample_uenv ?u" "uio_done ?u = []" by (simp_all add: uio_kinit_wf)
  ultimately show ?thesis
    using lhd_io_correct [OF mem.works, of sample_lhd ?u sample_uenv 3 2]
    by (fastforce simp: sample_lhd_def uio_kinit_def)
qed



text \<open>
  A write that fails with a media error returns \<open>EIO\<close> with the sector's bytes already taken
  out of the request: a caller that repeats the same request, as \<^verbatim>\<open>sfs_rwblock\<close> does, asks for a
  transfer of zero bytes, which succeeds without writing anything.
\<close>

lemma lhd_failed_write_consumes:
  assumes "lhd_ready content lh" "uio_wf u" "uio_ok env u" "uio_rw u = UIO_WRITE"
    "uio_offset u = 512 * int s" "uio_resid u = 512" "Suc s < d_blocks lh"
    "\<And>buf d. disk s True buf d = (LHD_MEDIA OR LHD_ISWRITE, buf, d)"
  shows "\<exists>lh' u'. lhd_io disk env (lh, u) = Err EIO (lh', u') \<and> uio_resid u' = 0 \<and>
    lh_disk lh' = lh_disk lh \<and> lhd_io disk env (lh', u') = Ok () (lh', u')"
  using assms by (rule lhd_failed_write)

end
