(* ===== verification/Sfs_Disk.thy ===== *)
theory Sfs_Disk
  imports Lhd
begin

text \<open>
  \<^verbatim>\<open>include/kern/sfs.h\<close>: the on-disk structures of SFS. The kernel reads and writes them as
  raw memory on a big-endian machine; here a structure is a record and a block is a list of 512
  bytes, related by an encoding and a decoding function for each structure. Block numbers and
  sizes are natural numbers that the encoding truncates to the width of their field.
\<close>

section \<open>Constants\<close>

definition SFS_MAGIC :: nat where "SFS_MAGIC = 0xabadf001"
definition SFS_BLOCKSIZE :: nat where "SFS_BLOCKSIZE = 512"
definition SFS_VOLNAME_SIZE :: nat where "SFS_VOLNAME_SIZE = 32"
definition SFS_NDIRECT :: nat where "SFS_NDIRECT = 15"
definition SFS_DBPERIDB :: nat where "SFS_DBPERIDB = 128"
definition SFS_NAMELEN :: nat where "SFS_NAMELEN = 60"
definition SFS_SB_LOCATION :: nat where "SFS_SB_LOCATION = 0"
definition SFS_ROOT_LOCATION :: nat where "SFS_ROOT_LOCATION = 1"
definition SFS_MAP_LOCATION :: nat where "SFS_MAP_LOCATION = 2"
definition SFS_NOINO :: nat where "SFS_NOINO = 0"
definition SFS_BLOCKBITS :: nat where "SFS_BLOCKBITS = SFS_BLOCKSIZE * 8"
definition SFS_TYPE_INVAL :: nat where "SFS_TYPE_INVAL = 0"
definition SFS_TYPE_FILE :: nat where "SFS_TYPE_FILE = 1"
definition SFS_TYPE_DIR :: nat where "SFS_TYPE_DIR = 2"

definition SFS_BITMAPSIZE :: "nat \<Rightarrow> nat" where
  "SFS_BITMAPSIZE nblocks = mul32 (DIVROUNDUP nblocks SFS_BLOCKBITS) SFS_BLOCKBITS"

definition SFS_BITBLOCKS :: "nat \<Rightarrow> nat" where
  "SFS_BITBLOCKS nblocks = SFS_BITMAPSIZE nblocks div SFS_BLOCKBITS"

lemmas sfs_consts = SFS_BLOCKSIZE_def SFS_VOLNAME_SIZE_def SFS_NDIRECT_def
  SFS_DBPERIDB_def SFS_NAMELEN_def SFS_SB_LOCATION_def SFS_ROOT_LOCATION_def SFS_MAP_LOCATION_def
  SFS_NOINO_def SFS_BLOCKBITS_def SFS_TYPE_INVAL_def SFS_TYPE_FILE_def SFS_TYPE_DIR_def

section \<open>Structures\<close>

record sfs_super =
  sp_magic :: nat
  sp_nblocks :: nat
  sp_volname :: "u8 list"
  sp_reserved :: "nat list"

record sfs_inode =
  sfi_size :: nat
  sfi_type :: nat
  sfi_linkcount :: nat
  sfi_direct :: "nat list"
  sfi_indirect :: nat
  sfi_waste :: "nat list"

record sfs_dir =
  sfd_ino :: nat
  sfd_name :: "u8 list"

section \<open>Integers in memory\<close>

definition put16 :: "nat \<Rightarrow> u8 list" where
  "put16 n = [of_nat (n div 2 ^ 8), of_nat n]"

definition put32 :: "nat \<Rightarrow> u8 list" where
  "put32 n = [of_nat (n div 2 ^ 24), of_nat (n div 2 ^ 16), of_nat (n div 2 ^ 8), of_nat n]"

definition get16 :: "u8 list \<Rightarrow> nat" where
  "get16 bs = unat (bs ! 0) * 2 ^ 8 + unat (bs ! 1)"

definition get32 :: "u8 list \<Rightarrow> nat" where
  "get32 bs = unat (bs ! 0) * 2 ^ 24 + unat (bs ! 1) * 2 ^ 16 + unat (bs ! 2) * 2 ^ 8 + unat (bs ! 3)"

fun get32s :: "nat \<Rightarrow> u8 list \<Rightarrow> nat list" where
  "get32s 0 bs = []"
| "get32s (Suc n) bs = get32 bs # get32s n (drop 4 bs)"

definition put32s :: "nat list \<Rightarrow> u8 list" where
  "put32s ns = concat (map put32 ns)"

section \<open>Encoding and decoding\<close>

definition super_bytes :: "sfs_super \<Rightarrow> u8 list" where
  "super_bytes sp = put32 (sp_magic sp) @ put32 (sp_nblocks sp) @ sp_volname sp @ put32s (sp_reserved sp)"

definition bytes_super :: "u8 list \<Rightarrow> sfs_super" where
  "bytes_super bs = \<lparr>sp_magic = get32 bs, sp_nblocks = get32 (drop 4 bs),
     sp_volname = take 32 (drop 8 bs), sp_reserved = get32s 118 (drop 40 bs)\<rparr>"

definition inode_bytes :: "sfs_inode \<Rightarrow> u8 list" where
  "inode_bytes i = put32 (sfi_size i) @ put16 (sfi_type i) @ put16 (sfi_linkcount i) @
     put32s (sfi_direct i) @ put32 (sfi_indirect i) @ put32s (sfi_waste i)"

definition bytes_inode :: "u8 list \<Rightarrow> sfs_inode" where
  "bytes_inode bs = \<lparr>sfi_size = get32 bs, sfi_type = get16 (drop 4 bs), sfi_linkcount = get16 (drop 6 bs),
     sfi_direct = get32s 15 (drop 8 bs), sfi_indirect = get32 (drop 68 bs),
     sfi_waste = get32s 110 (drop 72 bs)\<rparr>"

definition dir_bytes :: "sfs_dir \<Rightarrow> u8 list" where
  "dir_bytes sd = put32 (sfd_ino sd) @ sfd_name sd"

definition bytes_dir :: "u8 list \<Rightarrow> sfs_dir" where
  "bytes_dir bs = \<lparr>sfd_ino = get32 bs, sfd_name = take 60 (drop 4 bs)\<rparr>"

section \<open>Round trips\<close>

lemma unat_byte: "unat (of_nat n :: u8) = n mod 2 ^ 8"
  by (simp add: unat_of_nat)

lemma length_put [simp]: "length (put16 n) = 2" "length (put32 n) = 4"
  by (simp_all add: put16_def put32_def)

lemma length_put32s [simp]: "length (put32s ns) = 4 * length ns"
  by (induction ns) (simp_all add: put32s_def)

lemma length_get32s [simp]: "length (get32s n bs) = n"
  by (induction n bs rule: get32s.induct) simp_all

lemma digits256:
  fixes n :: nat
  assumes "n < 2 ^ 32"
  shows "n div 2 ^ 24 mod 2 ^ 8 * 2 ^ 24 + n div 2 ^ 16 mod 2 ^ 8 * 2 ^ 16 + n div 2 ^ 8 mod 2 ^ 8 * 2 ^ 8 +
    n mod 2 ^ 8 = n"
proof -
  define m1 m2 m3 where "m1 = n div 2 ^ 8" and "m2 = m1 div 2 ^ 8" and "m3 = m2 div 2 ^ 8"
  have e: "n div 2 ^ 16 = m2" "n div 2 ^ 24 = m3"
    by (simp_all add: m1_def m2_def m3_def div_mult2_eq [symmetric])
  have "n div 2 ^ 24 < 2 ^ 8" using assms by (simp add: less_mult_imp_div_less)
  then have "m3 mod 2 ^ 8 = m3" by (simp only: e mod_less)
  moreover have "m1 * 2 ^ 8 + n mod 2 ^ 8 = n" "m2 * 2 ^ 8 + m1 mod 2 ^ 8 = m1" "m3 * 2 ^ 8 + m2 mod 2 ^ 8 = m2"
    by (simp_all add: m1_def m2_def m3_def)
  then have "m3 * 2 ^ 24 + m2 mod 2 ^ 8 * 2 ^ 16 + m1 mod 2 ^ 8 * 2 ^ 8 + n mod 2 ^ 8 = n"
    by simp
  ultimately show ?thesis by (simp only: e m1_def [symmetric])
qed

lemma get32_put32 [simp]: "n < 2 ^ 32 \<Longrightarrow> get32 (put32 n @ bs) = n"
  using digits256 [of n] by (simp add: get32_def put32_def unat_byte)

lemma get16_put16 [simp]: "n < 2 ^ 16 \<Longrightarrow> get16 (put16 n @ bs) = n"
proof -
  assume "n < 2 ^ 16"
  then have "n div 2 ^ 8 mod 2 ^ 8 = n div 2 ^ 8" by (simp add: less_mult_imp_div_less)
  then show ?thesis by (simp add: get16_def put16_def unat_byte)
qed

lemma get32s_put32s [simp]:
  "list_all (\<lambda>n. n < 2 ^ 32) ns \<Longrightarrow> get32s (length ns) (put32s ns @ bs) = ns"
  by (induction ns) (simp_all add: put32s_def)

definition super_ok :: "sfs_super \<Rightarrow> bool" where
  "super_ok sp \<longleftrightarrow> sp_magic sp < 2 ^ 32 \<and> sp_nblocks sp < 2 ^ 32 \<and> length (sp_volname sp) = 32 \<and>
     length (sp_reserved sp) = 118 \<and> list_all (\<lambda>n. n < 2 ^ 32) (sp_reserved sp)"

definition inode_ok :: "sfs_inode \<Rightarrow> bool" where
  "inode_ok i \<longleftrightarrow> sfi_size i < 2 ^ 32 \<and> sfi_type i < 2 ^ 16 \<and> sfi_linkcount i < 2 ^ 16 \<and>
     length (sfi_direct i) = 15 \<and> list_all (\<lambda>n. n < 2 ^ 32) (sfi_direct i) \<and> sfi_indirect i < 2 ^ 32 \<and>
     length (sfi_waste i) = 110 \<and> list_all (\<lambda>n. n < 2 ^ 32) (sfi_waste i)"

definition dir_ok :: "sfs_dir \<Rightarrow> bool" where
  "dir_ok sd \<longleftrightarrow> sfd_ino sd < 2 ^ 32 \<and> length (sfd_name sd) = 60"

lemma get32_bound: "get32 bs < 2 ^ 32"
proof -
  have "unat (b :: u8) < 2 ^ 8" for b using unsigned_less [of b] by simp
  from this [of "bs ! 0"] this [of "bs ! 1"] this [of "bs ! 2"] this [of "bs ! 3"]
  show ?thesis by (simp add: get32_def)
qed

lemma get16_bound: "get16 bs < 2 ^ 16"
proof -
  have "unat (b :: u8) < 2 ^ 8" for b using unsigned_less [of b] by simp
  from this [of "bs ! 0"] this [of "bs ! 1"] show ?thesis by (simp add: get16_def)
qed

lemma get32s_bound: "list_all (\<lambda>n. n < 2 ^ 32) (get32s n bs)"
  by (induction n bs rule: get32s.induct) (simp_all only: get32s.simps list.pred_inject get32_bound simp_thms)

lemma bytes_inode_ok: "inode_ok (bytes_inode bs)"
  by (simp only: inode_ok_def bytes_inode_def sfs_inode.select_convs get32_bound get16_bound get32s_bound
      length_get32s simp_thms)

lemma super_roundtrip: "super_ok sp \<Longrightarrow> bytes_super (super_bytes sp) = sp"
  using get32s_put32s [of "sp_reserved sp" "[]"]
  by (simp add: super_ok_def bytes_super_def super_bytes_def)

lemma length_inode_bytes [simp]: "inode_ok i \<Longrightarrow> length (inode_bytes i) = 512"
  by (simp add: inode_ok_def inode_bytes_def)

lemma inode_roundtrip: "inode_ok i \<Longrightarrow> bytes_inode (inode_bytes i) = i"
  using get32s_put32s [of "sfi_direct i"] get32s_put32s [of "sfi_waste i" "[]"]
  by (simp add: inode_ok_def bytes_inode_def inode_bytes_def)

lemma dir_roundtrip: "dir_ok sd \<Longrightarrow> bytes_dir (dir_bytes sd) = sd"
  by (simp add: dir_ok_def bytes_dir_def dir_bytes_def)

lemma get32s_128 [simp]: "length ns = 128 \<Longrightarrow> list_all (\<lambda>n. n < 2 ^ 32) ns \<Longrightarrow> get32s 128 (put32s ns) = ns"
  using get32s_put32s [of ns "[]"] by simp

section \<open>Properties\<close>


definition sample_inode :: sfs_inode where
  "sample_inode = \<lparr>sfi_size = 1000, sfi_type = 1, sfi_linkcount = 1, sfi_direct = [7, 9] @ replicate 13 0,
     sfi_indirect = 0, sfi_waste = replicate 110 0\<rparr>"

definition sample_super :: sfs_super where
  "sample_super = \<lparr>sp_magic = SFS_MAGIC, sp_nblocks = 100, sp_volname = replicate 32 0, sp_reserved = replicate 118 0\<rparr>"

lemma list_all_replicate: "P x \<Longrightarrow> list_all P (replicate n x)"
  by (simp add: list_all_iff)

lemma sample_inode_ok: "inode_ok sample_inode"
  by (simp add: inode_ok_def sample_inode_def list_all_replicate)

lemma sample_super_ok: "super_ok sample_super"
  by (simp add: super_ok_def sample_super_def list_all_replicate SFS_MAGIC_def)


end
