(* ===== verification/Bitmap.thy ===== *)
theory Bitmap
  imports Kernel_Base
begin

text \<open>
  \<^verbatim>\<open>lib/bitmap.c\<close>: the fixed-size array of bits that SFS uses as its free-block map.
  The words of the map are bytes, as in the code. The contract it offers to a client (which
  index an allocation returns, what a mark and an unmark change, that the invariant is kept) is
  the locale \<open>block_map\<close>, interpreted on the operations below.
\<close>

section \<open>Model\<close>

record bitmap =
  nbits :: nat
  bm_v :: "u8 list"

abbreviation (input) BITS_PER_WORD :: nat where "BITS_PER_WORD \<equiv> 8"

text \<open>The two booleans are the outcomes of the two \<^verbatim>\<open>kmalloc\<close> calls.\<close>

definition bitmap_create :: "bool \<Rightarrow> bool \<Rightarrow> nat \<Rightarrow> ('s, bitmap option) kfun" where
  "bitmap_create ok_b ok_v n =
    (let words = DIVROUNDUP n BITS_PER_WORD in
     if \<not> ok_b then kret None
     else if \<not> ok_v then kret None
     else let v = replicate words 0 in
       if words > n div BITS_PER_WORD then
         let ix = words - 1; overbits = n - ix * BITS_PER_WORD in
         kbind (kassert (n div BITS_PER_WORD = words - 1)) (\<lambda>_.
         kbind (kassert (overbits > 0 \<and> overbits < BITS_PER_WORD)) (\<lambda>_.
         kret (Some \<lparr>nbits = n,
           bm_v = v[ix := fold (\<lambda>j w. w OR push_bit j 1) [overbits..<BITS_PER_WORD] (v ! ix)]\<rparr>)))
       else kret (Some \<lparr>nbits = n, bm_v = v\<rparr>))"

definition bitmap_getdata :: "bitmap \<Rightarrow> u8 list" where
  "bitmap_getdata b = bm_v b"

text \<open>The inner loop of \<^verbatim>\<open>bitmap_alloc\<close>: the first clear bit of a word from \<open>offset\<close> on.\<close>

function bitmap_alloc_offset :: "u8 \<Rightarrow> nat \<Rightarrow> nat option" where
  "bitmap_alloc_offset w offset =
    (if offset < BITS_PER_WORD then
       if w AND push_bit offset 1 = 0 then Some offset
       else bitmap_alloc_offset w (Suc offset)
     else None)"
  by pat_completeness auto
termination by (relation "measure (\<lambda>(w, offset). BITS_PER_WORD - offset)") auto

function bitmap_alloc_word :: "nat \<Rightarrow> (bitmap, nat) kfun" where
  "bitmap_alloc_word ix b =
    (if ix < DIVROUNDUP (nbits b) BITS_PER_WORD then
       if length (bm_v b) \<le> ix then Panic
       else if bm_v b ! ix \<noteq> 0xff then
         (case bitmap_alloc_offset (bm_v b ! ix) 0 of
            Some offset \<Rightarrow>
              let b' = b\<lparr>bm_v := (bm_v b)[ix := bm_v b ! ix OR push_bit offset 1]\<rparr>;
                  index = ix * BITS_PER_WORD + offset
              in if index < nbits b then Ok index b' else Panic
          | None \<Rightarrow> Panic)
       else bitmap_alloc_word (Suc ix) b
     else Err ENOSPC b)"
  by pat_completeness auto
termination by (relation "measure (\<lambda>(ix, b). DIVROUNDUP (nbits b) BITS_PER_WORD - ix)") auto

declare bitmap_alloc_offset.simps [simp del] bitmap_alloc_word.simps [simp del]

definition bitmap_alloc :: "(bitmap, nat) kfun" where
  "bitmap_alloc b = bitmap_alloc_word 0 b"

definition bitmap_translate :: "nat \<Rightarrow> nat \<times> u8" where
  "bitmap_translate bitno =
    (bitno div BITS_PER_WORD, push_bit (bitno mod BITS_PER_WORD) 1)"

definition bitmap_mark :: "nat \<Rightarrow> (bitmap, unit) kfun" where
  "bitmap_mark index b =
    (let (ix, mask) = bitmap_translate index in
     if \<not> index < nbits b then Panic
     else if length (bm_v b) \<le> ix then Panic
     else if \<not> (bm_v b ! ix AND mask) = 0 then Panic
     else Ok () (b\<lparr>bm_v := (bm_v b)[ix := bm_v b ! ix OR mask]\<rparr>))"

definition bitmap_unmark :: "nat \<Rightarrow> (bitmap, unit) kfun" where
  "bitmap_unmark index b =
    (let (ix, mask) = bitmap_translate index in
     if \<not> index < nbits b then Panic
     else if length (bm_v b) \<le> ix then Panic
     else if \<not> (bm_v b ! ix AND mask) \<noteq> 0 then Panic
     else Ok () (b\<lparr>bm_v := (bm_v b)[ix := bm_v b ! ix AND NOT mask]\<rparr>))"

definition bitmap_isset :: "nat \<Rightarrow> (bitmap, bool) kfun" where
  "bitmap_isset index b =
    (let (ix, mask) = bitmap_translate index in
     if length (bm_v b) \<le> ix then Panic
     else Ok ((bm_v b ! ix AND mask) \<noteq> 0) b)"

section \<open>Specification and invariant\<close>

definition bm_bit :: "bitmap \<Rightarrow> nat \<Rightarrow> bool" where
  "bm_bit b i \<longleftrightarrow> i div 8 < length (bm_v b) \<and> bit (bm_v b ! (i div 8)) (i mod 8)"

definition bitmap_set :: "bitmap \<Rightarrow> nat set" where
  "bitmap_set b = {i. i < nbits b \<and> bm_bit b i}"

text \<open>The bytes cover the bits, and the left-over bits of the last byte are marked in use.\<close>

definition bitmap_inv :: "bitmap \<Rightarrow> bool" where
  "bitmap_inv b \<longleftrightarrow> nbits b + 7 < 2 ^ 32 \<and> length (bm_v b) = (nbits b + 7) div 8 \<and>
     (\<forall>i \<in> {nbits b..<8 * length (bm_v b)}. bm_bit b i)"

lemma and_mask_zero_iff [simp]:
  assumes "off < 8"
  shows "(w :: u8) AND 2 ^ off = 0 \<longleftrightarrow> \<not> bit w off"
proof
  assume "w AND 2 ^ off = 0"
  then have "\<not> bit (w AND 2 ^ off) off" by simp
  then show "\<not> bit w off" using assms by (simp add: bit_simps)
next
  assume "\<not> bit w off"
  then show "w AND 2 ^ off = 0"
    by (intro bit_word_eqI) (auto simp: bit_simps)
qed

lemma byte_not_full: "(w :: u8) \<noteq> 0xff \<longleftrightarrow> (\<exists>off < 8. \<not> bit w off)"
proof -
  have full: "bit (0xff :: u8) off" if "off < 8" for off
  proof -
    have "(0xff :: u8) = mask 8" by (simp add: mask_eq_exp_minus_1)
    with that show ?thesis by (simp only: bit_mask_iff) simp
  qed
  then have "w = 0xff \<longleftrightarrow> (\<forall>off < 8. bit w off)"
    by (auto intro!: bit_word_eqI)
  then show ?thesis by blast
qed

lemma bitmap_alloc_offset_Some:
  "bitmap_alloc_offset w k = Some off \<longleftrightarrow>
     k \<le> off \<and> off < 8 \<and> \<not> bit w off \<and> (\<forall>j. k \<le> j \<longrightarrow> j < off \<longrightarrow> bit w j)"
proof (induction w k rule: bitmap_alloc_offset.induct)
  case (1 w k)
  show ?case
  proof (cases "k < 8 \<and> bit w k")
    case True
    then have "bitmap_alloc_offset w k = bitmap_alloc_offset w (Suc k)"
      by (subst bitmap_alloc_offset.simps) simp
    with 1 True have "bitmap_alloc_offset w k = Some off \<longleftrightarrow>
        Suc k \<le> off \<and> off < 8 \<and> \<not> bit w off \<and> (\<forall>j. Suc k \<le> j \<longrightarrow> j < off \<longrightarrow> bit w j)"
      by simp
    also have "\<dots> \<longleftrightarrow> k \<le> off \<and> off < 8 \<and> \<not> bit w off \<and> (\<forall>j. k \<le> j \<longrightarrow> j < off \<longrightarrow> bit w j)"
    proof -
      have "k \<le> j \<longleftrightarrow> j = k \<or> Suc k \<le> j" for j by auto
      then show ?thesis using True by auto
    qed
    finally show ?thesis .
  next
    case False
    show ?thesis
    proof (cases "k < 8")
      case True
      with False have "bitmap_alloc_offset w k = Some k" "\<not> bit w k"
        by (simp_all add: bitmap_alloc_offset.simps [of w k])
      moreover have "k = off" if "k \<le> off" "\<forall>j\<ge>k. j < off \<longrightarrow> bit w j"
        using that \<open>\<not> bit w k\<close> by (cases "k = off") auto
      ultimately show ?thesis using True by auto
    next
      case False
      then show ?thesis
        by (simp add: bitmap_alloc_offset.simps [of w k])
    qed
  qed
qed

lemma bitmap_alloc_offset_ex:
  assumes "\<not> bit w j" "j < 8"
  shows "\<exists>off. bitmap_alloc_offset w 0 = Some off"
proof -
  define off where "off = (LEAST i. \<not> bit w i)"
  have "\<not> bit w off" unfolding off_def using assms(1) by (rule LeastI)
  moreover have "off \<le> j" unfolding off_def using assms(1) by (rule Least_le)
  moreover have "\<forall>i<off. bit w i" unfolding off_def using not_less_Least by blast
  ultimately have "bitmap_alloc_offset w 0 = Some off"
    using assms(2) by (simp add: bitmap_alloc_offset_Some)
  then show ?thesis by blast
qed

text \<open>How the two byte updates of the code act on the bits.\<close>

lemma div_mod_8_iff: "off < 8 \<Longrightarrow> i div 8 = ix \<and> i mod 8 = off \<longleftrightarrow> i = ix * 8 + (off::nat)"
  by auto

lemma bm_bit_or:
  assumes ix: "ix < length (bm_v b)" and off: "off < 8"
  shows "bm_bit (b\<lparr>bm_v := (bm_v b)[ix := bm_v b ! ix OR push_bit off 1]\<rparr>) i
    \<longleftrightarrow> i = ix * 8 + off \<or> bm_bit b i"
proof (cases "i div 8 = ix")
  case True
  then show ?thesis using ix div_mod_8_iff [OF off, of i ix]
    by (auto simp: bm_bit_def bit_simps)
next
  case False
  then show ?thesis using div_mod_8_iff [OF off, of i ix]
    by (simp add: bm_bit_def)
qed

lemma bm_bit_andnot:
  assumes ix: "ix < length (bm_v b)" and off: "off < 8"
  shows "bm_bit (b\<lparr>bm_v := (bm_v b)[ix := bm_v b ! ix AND NOT (push_bit off 1)]\<rparr>) i
    \<longleftrightarrow> i \<noteq> ix * 8 + off \<and> bm_bit b i"
proof (cases "i div 8 = ix")
  case True
  moreover have "i mod 8 < 8" by simp
  ultimately show ?thesis using ix div_mod_8_iff [OF off, of i ix]
    by (auto simp: bm_bit_def bit_simps)
next
  case False
  then show ?thesis using div_mod_8_iff [OF off, of i ix]
    by (simp add: bm_bit_def)
qed

section \<open>Correctness of the operations\<close>

lemma bitmap_inv_length: "bitmap_inv b \<Longrightarrow> i < nbits b \<Longrightarrow> i div 8 < length (bm_v b)"
  by (auto simp: bitmap_inv_def)

lemma bitmap_alloc_word_full:
  assumes "bitmap_inv b" "\<And>i. 8 * ix \<le> i \<Longrightarrow> i < nbits b \<Longrightarrow> bm_bit b i"
  shows "bitmap_alloc_word ix b = Err ENOSPC b"
  using assms
proof (induction ix b rule: bitmap_alloc_word.induct)
  case (1 ix b)
  show ?case
  proof (cases "ix < length (bm_v b)")
    case True
    have "bm_bit b (ix * 8 + off)" if "off < 8" for off
      using that 1(2,3) True by (cases "ix * 8 + off < nbits b") (auto simp: bitmap_inv_def)
    then have "bit (bm_v b ! ix) off" if "off < 8" for off
      using that by (fastforce simp: bm_bit_def)
    then have full: "bm_v b ! ix = 0xff" using byte_not_full by blast
    with True 1 have "bitmap_alloc_word (Suc ix) b = Err ENOSPC b"
      by (simp add: bitmap_inv_def DIVROUNDUP_def)
    with True full 1(2) show ?thesis
      by (subst bitmap_alloc_word.simps) (simp add: bitmap_inv_def DIVROUNDUP_def)
  next
    case False
    with 1(2) show ?thesis
      by (subst bitmap_alloc_word.simps) (simp add: bitmap_inv_def DIVROUNDUP_def)
  qed
qed

lemma bitmap_alloc_word_found:
  assumes "bitmap_inv b" "8 * ix \<le> k" "\<And>i. 8 * ix \<le> i \<Longrightarrow> i < k \<Longrightarrow> bm_bit b i"
    "\<not> bm_bit b k" "k < nbits b"
  shows "bitmap_alloc_word ix b =
    Ok k (b\<lparr>bm_v := (bm_v b)[k div 8 := bm_v b ! (k div 8) OR push_bit (k mod 8) 1]\<rparr>)"
  using assms
proof (induction ix b rule: bitmap_alloc_word.induct)
  case (1 ix b)
  have kl: "k div 8 < length (bm_v b)" using 1(2,6) by (rule bitmap_inv_length)
  then have ixl: "ix < length (bm_v b)" using 1(3) by linarith
  show ?case
  proof (cases "k div 8 = ix")
    case True
    have "\<not> bit (bm_v b ! ix) (k mod 8)" using 1(5) kl True by (simp add: bm_bit_def)
    moreover have "bit (bm_v b ! ix) j" if "j < k mod 8" for j
    proof -
      have "j < 8" using that by simp
      moreover have "ix * 8 + j < k" using that True div_mult_mod_eq [of k 8] by linarith
      ultimately show ?thesis using 1(4) [of "ix * 8 + j"] by (simp add: bm_bit_def)
    qed
    ultimately have off: "bitmap_alloc_offset (bm_v b ! ix) 0 = Some (k mod 8)"
      by (simp add: bitmap_alloc_offset_Some)
    have "bm_v b ! ix \<noteq> 0xff"
      using \<open>\<not> bit (bm_v b ! ix) (k mod 8)\<close> byte_not_full [of "bm_v b ! ix"]
      by (metis mod_less_divisor zero_less_numeral)
    moreover have "ix * 8 + k mod 8 = k" using True by auto
    ultimately show ?thesis using off ixl 1(2,6) True
      by (subst bitmap_alloc_word.simps) (simp add: bitmap_inv_def DIVROUNDUP_def)
  next
    case False
    with 1(3) have lt: "8 * Suc ix \<le> k"
      using div_mult_mod_eq [of k 8] div_le_mono [OF 1(3), of 8] by simp
    have "bit (bm_v b ! ix) off" if "off < 8" for off
      using 1(4) [of "ix * 8 + off"] that lt by (simp add: bm_bit_def)
    then have full: "bm_v b ! ix = 0xff" using byte_not_full by blast
    have "bitmap_alloc_word (Suc ix) b =
      Ok k (b\<lparr>bm_v := (bm_v b)[k div 8 := bm_v b ! (k div 8) OR push_bit (k mod 8) 1]\<rparr>)"
      using 1 lt full ixl by (simp add: bitmap_inv_def DIVROUNDUP_def)
    with full ixl 1(2) show ?thesis
      by (subst bitmap_alloc_word.simps) (simp add: bitmap_inv_def DIVROUNDUP_def)
  qed
qed

lemma bitmap_inv_or:
  assumes "bitmap_inv b" "k < nbits b"
  shows "bitmap_inv (b\<lparr>bm_v := (bm_v b)[k div 8 := bm_v b ! (k div 8) OR push_bit (k mod 8) 1]\<rparr>)"
  using assms bm_bit_or [OF bitmap_inv_length [OF assms], of "k mod 8"]
  by (auto simp: bitmap_inv_def)

lemma bitmap_inv_andnot:
  assumes "bitmap_inv b" "k < nbits b"
  shows "bitmap_inv (b\<lparr>bm_v := (bm_v b)[k div 8 := bm_v b ! (k div 8) AND NOT (push_bit (k mod 8) 1)]\<rparr>)"
  using assms bm_bit_andnot [OF bitmap_inv_length [OF assms], of "k mod 8"]
  by (auto simp: bitmap_inv_def)

lemma bitmap_set_or:
  assumes "bitmap_inv b" "k < nbits b"
  shows "bitmap_set (b\<lparr>bm_v := (bm_v b)[k div 8 := bm_v b ! (k div 8) OR push_bit (k mod 8) 1]\<rparr>)
    = insert k (bitmap_set b)"
  using assms bm_bit_or [OF bitmap_inv_length [OF assms], of "k mod 8"]
  by (auto simp: bitmap_set_def)

lemma bitmap_set_andnot:
  assumes "bitmap_inv b" "k < nbits b"
  shows "bitmap_set (b\<lparr>bm_v := (bm_v b)[k div 8 := bm_v b ! (k div 8) AND NOT (push_bit (k mod 8) 1)]\<rparr>)
    = bitmap_set b - {k}"
  using assms bm_bit_andnot [OF bitmap_inv_length [OF assms], of "k mod 8"]
  by (auto simp: bitmap_set_def)

lemma bitmap_alloc_full:
  assumes "bitmap_inv b" "bitmap_set b = {..<nbits b}"
  shows "bitmap_alloc b = Err ENOSPC b"
  unfolding bitmap_alloc_def using assms
  by (intro bitmap_alloc_word_full) (auto simp: bitmap_set_def)

lemma bitmap_alloc_least:
  assumes inv: "bitmap_inv b" and k: "k < nbits b" "k \<notin> bitmap_set b"
    and least: "\<And>i. i < k \<Longrightarrow> i \<in> bitmap_set b"
  shows "\<exists>b'. bitmap_alloc b = Ok k b' \<and> bitmap_inv b' \<and> nbits b' = nbits b \<and>
    bitmap_set b' = insert k (bitmap_set b)"
proof -
  have "bitmap_alloc b =
    Ok k (b\<lparr>bm_v := (bm_v b)[k div 8 := bm_v b ! (k div 8) OR push_bit (k mod 8) 1]\<rparr>)"
    unfolding bitmap_alloc_def using inv k least
    by (intro bitmap_alloc_word_found) (auto simp: bitmap_set_def)
  then show ?thesis
    using bitmap_inv_or [OF inv k(1)] bitmap_set_or [OF inv k(1)] by simp
qed

lemma bitmap_alloc_cases:
  assumes "bitmap_inv b"
  obtains (full) "bitmap_set b = {..<nbits b}" "bitmap_alloc b = Err ENOSPC b"
  | (found) k b' where "k < nbits b" "k \<notin> bitmap_set b" "\<And>i. i < k \<Longrightarrow> i \<in> bitmap_set b"
      "bitmap_alloc b = Ok k b'" "bitmap_inv b'" "nbits b' = nbits b"
      "bitmap_set b' = insert k (bitmap_set b)"
proof (cases "\<exists>i < nbits b. i \<notin> bitmap_set b")
  case True
  define k where "k = (LEAST i. i < nbits b \<and> i \<notin> bitmap_set b)"
  from True have k: "k < nbits b \<and> k \<notin> bitmap_set b"
    unfolding k_def by (rule LeastI_ex)
  have "i \<in> bitmap_set b" if "i < k" for i
    using not_less_Least [OF that [unfolded k_def]] that k by simp
  with k found bitmap_alloc_least [OF assms, of k] show ?thesis by blast
next
  case False
  then have "bitmap_set b = {..<nbits b}" by (auto simp: bitmap_set_def)
  then show ?thesis using full bitmap_alloc_full [OF assms] by blast
qed

lemma bitmap_isset_eq:
  assumes "bitmap_inv b" "i < nbits b"
  shows "bitmap_isset i b = Ok (i \<in> bitmap_set b) b"
  using assms bitmap_inv_length [OF assms]
  by (simp add: bitmap_isset_def bitmap_translate_def bitmap_set_def bm_bit_def)

lemma bitmap_mark_eq:
  assumes "bitmap_inv b"
  shows "if i < nbits b \<and> i \<notin> bitmap_set b
    then \<exists>b'. bitmap_mark i b = Ok () b' \<and> bitmap_inv b' \<and> nbits b' = nbits b \<and>
           bitmap_set b' = insert i (bitmap_set b)
    else bitmap_mark i b = Panic"
proof (cases "i < nbits b")
  case True
  note l = bitmap_inv_length [OF assms True]
  show ?thesis
    using True l bitmap_inv_or [OF assms True] bitmap_set_or [OF assms True]
    by (auto simp: bitmap_mark_def bitmap_translate_def bitmap_set_def bm_bit_def)
next
  case False
  then show ?thesis by (simp add: bitmap_mark_def bitmap_translate_def)
qed

lemma bitmap_unmark_eq:
  assumes "bitmap_inv b"
  shows "if i \<in> bitmap_set b
    then \<exists>b'. bitmap_unmark i b = Ok () b' \<and> bitmap_inv b' \<and> nbits b' = nbits b \<and>
           bitmap_set b' = bitmap_set b - {i}
    else bitmap_unmark i b = Panic"
proof (cases "i < nbits b")
  case True
  note l = bitmap_inv_length [OF assms True]
  show ?thesis
    using True l bitmap_inv_andnot [OF assms True] bitmap_set_andnot [OF assms True]
    by (auto simp: bitmap_unmark_def bitmap_translate_def bitmap_set_def bm_bit_def)
next
  case False
  then show ?thesis by (simp add: bitmap_unmark_def bitmap_translate_def bitmap_set_def)
qed

lemma fold_or_bits:
  fixes w :: u8
  assumes "lo \<le> 8" "j < 8"
  shows "bit (fold (\<lambda>j w. w OR push_bit j 1) [lo..<8] w) j \<longleftrightarrow> lo \<le> j \<or> bit w j"
proof -
  have "bit (fold (\<lambda>j w. w OR push_bit j 1) [lo..<hi] w) j \<longleftrightarrow> (lo \<le> j \<and> j < hi) \<or> bit w j"
    if "lo \<le> hi" for hi using that
  proof (induction hi rule: dec_induct)
    case base
    then show ?case by auto
  next
    case (step n)
    have "bit (push_bit n (1 :: u8)) j \<longleftrightarrow> j = n" using assms(2) by (auto simp: bit_simps)
    then show ?case using step by (auto simp: bit_or_iff less_Suc_eq)
  qed
  from this [OF assms(1)] assms(2) show ?thesis by simp
qed

lemma bitmap_words:
  assumes "n + 7 < 2 ^ 32"
  shows "DIVROUNDUP n 8 = (n + 7) div 8"
    and "n mod 8 = 0 \<Longrightarrow> (n + 7) div 8 = n div 8"
    and "n mod 8 \<noteq> 0 \<Longrightarrow> (n + 7) div 8 = Suc (n div 8)"
proof -
  show "DIVROUNDUP n 8 = (n + 7) div 8" using assms by (simp add: DIVROUNDUP_id)
  show "n mod 8 = 0 \<Longrightarrow> (n + 7) div 8 = n div 8" by (simp add: div_add1_eq [of n 7])
  assume "n mod 8 \<noteq> 0"
  then obtain q r where "n div 8 = q" "n = 8 * q + r" "0 < r" "r < 8"
    by (metis mod_less_divisor mult_div_mod_eq neq0_conv zero_less_numeral)
  then show "(n + 7) div 8 = Suc (n div 8)" by (intro div_nat_eqI) simp_all
qed

lemma bitmap_create_ok:
  assumes n: "n + 7 < 2 ^ 32"
  shows "\<exists>b. bitmap_create True True n s = Ok (Some b) s \<and> bitmap_inv b \<and> nbits b = n \<and>
    bitmap_set b = {}"
proof (cases "n mod 8 = 0")
  case True
  have len: "8 * (n div 8) = n" using True by (simp add: mult.commute mod_0_imp_dvd)
  define b where "b = \<lparr>nbits = n, bm_v = replicate (n div 8) (0 :: u8)\<rparr>"
  have "bitmap_create True True n s = Ok (Some b) s"
    by (simp add: bitmap_create_def bitmap_words [OF n] True kret_def b_def)
  moreover have "bitmap_inv b"
    using n bitmap_words(2) [OF n True] len by (auto simp: bitmap_inv_def b_def)
  moreover have "bitmap_set b = {}" by (auto simp: bitmap_set_def bm_bit_def b_def)
  ultimately show ?thesis by (auto simp: b_def)
next
  case False
  define q where "q = n div 8"
  define r where "r = n - n div 8 * 8"
  define x where "x = fold (\<lambda>j w. w OR push_bit j 1) [r..<8] (0 :: u8)"
  define b where "b = \<lparr>nbits = n, bm_v = (replicate (Suc q) 0)[q := x]\<rparr>"
  have nb: "nbits b = n" "length (bm_v b) = Suc q"
    by (simp_all add: b_def del: replicate.simps list_update.simps)
  have r: "0 < r" "r < 8" "n = 8 * q + r"
    using False by (simp_all add: r_def q_def minus_div_mult_eq_mod)
  have bits: "bit x j \<longleftrightarrow> r \<le> j" if "j < 8" for j
    using fold_or_bits [of r j 0] that r by (simp add: x_def)
  have bm: "bm_bit b i \<longleftrightarrow> i div 8 = q \<and> n \<le> i" for i
  proof (cases "i div 8 = q")
    case True
    then obtain t where "i = 8 * q + t" "i mod 8 = t" by (metis mult_div_mod_eq)
    with True bits [of t] show ?thesis
      by (simp add: bm_bit_def b_def r(3) mod_less_divisor del: replicate.simps)
  next
    case False
    then show ?thesis by (auto simp: bm_bit_def b_def nth_list_update simp del: replicate.simps)
  qed
  have "bitmap_create True True n s = Ok (Some b) s"
    unfolding bitmap_create_def bitmap_words(1) [OF n] bitmap_words(3) [OF n False] b_def x_def q_def
    using r(1,2) unfolding r_def
    by (simp add: kfun_defs Let_def del: replicate.simps)
  moreover have "bitmap_inv b"
    unfolding bitmap_inv_def
  proof (intro conjI ballI)
    fix i assume "i \<in> {nbits b..<8 * length (bm_v b)}"
    then have "n \<le> i" "i < 8 * Suc q" by (simp_all add: nb)
    moreover from this r have "i div 8 = q" by (intro div_nat_eqI) simp_all
    ultimately show "bm_bit b i" by (simp add: bm)
  qed (use n bitmap_words(3) [OF n False] in \<open>simp_all add: nb q_def\<close>)
  moreover have "bitmap_set b = {}" using bm by (auto simp: bitmap_set_def b_def)
  ultimately show ?thesis by (auto simp: b_def)
qed

section \<open>The contract of a block map\<close>

locale block_map =
  fixes bmap_alloc :: "('m, nat) kfun"
    and bmap_mark :: "nat \<Rightarrow> ('m, unit) kfun"
    and bmap_unmark :: "nat \<Rightarrow> ('m, unit) kfun"
    and bmap_isset :: "nat \<Rightarrow> ('m, bool) kfun"
    and used :: "'m \<Rightarrow> nat set"
    and size_of :: "'m \<Rightarrow> nat"
    and map_inv :: "'m \<Rightarrow> bool"
  assumes used_bounded: "map_inv m \<Longrightarrow> used m \<subseteq> {..<size_of m}"
    and alloc_full: "map_inv m \<Longrightarrow> used m = {..<size_of m} \<Longrightarrow> bmap_alloc m = Err ENOSPC m"
    and alloc_found: "map_inv m \<Longrightarrow> used m \<noteq> {..<size_of m} \<Longrightarrow>
      \<exists>k m'. bmap_alloc m = Ok k m' \<and> k < size_of m \<and> k \<notin> used m \<and> map_inv m' \<and>
        size_of m' = size_of m \<and> used m' = insert k (used m)"
    and mark_ok: "map_inv m \<Longrightarrow> i < size_of m \<Longrightarrow> i \<notin> used m \<Longrightarrow>
      \<exists>m'. bmap_mark i m = Ok () m' \<and> map_inv m' \<and> size_of m' = size_of m \<and> used m' = insert i (used m)"
    and unmark_ok: "map_inv m \<Longrightarrow> i \<in> used m \<Longrightarrow>
      \<exists>m'. bmap_unmark i m = Ok () m' \<and> map_inv m' \<and> size_of m' = size_of m \<and> used m' = used m - {i}"
    and isset_ok: "map_inv m \<Longrightarrow> i < size_of m \<Longrightarrow> bmap_isset i m = Ok (i \<in> used m) m"
begin

primrec alloc_many :: "nat \<Rightarrow> ('m, nat list) kfun" where
  "alloc_many 0 = kret []"
| "alloc_many (Suc n) = kbind bmap_alloc (\<lambda>k. kbind (alloc_many n) (\<lambda>ks. kret (k # ks)))"

lemma used_finite: "map_inv m \<Longrightarrow> finite (used m)"
  using used_bounded finite_subset by blast

lemma free_count: "map_inv m \<Longrightarrow> card ({..<size_of m} - used m) = size_of m - card (used m)"
  using used_finite [of m] used_bounded [of m] by (simp add: card_Diff_subset)

lemma alloc_unmark:
  assumes "map_inv m" "bmap_alloc m = Ok k m'"
  shows "\<exists>m''. bmap_unmark k m' = Ok () m'' \<and> map_inv m'' \<and> used m'' = used m"
proof -
  have "used m \<noteq> {..<size_of m}" using assms alloc_full [of m] by auto
  with alloc_found [OF assms(1)] assms(2)
  have "k \<notin> used m" "map_inv m'" "used m' = insert k (used m)" by auto
  then show ?thesis using unmark_ok [of m' k] by auto
qed

lemma alloc_many_ok:
  assumes "map_inv m" "n + card (used m) \<le> size_of m"
  shows "\<exists>ks m'. alloc_many n m = Ok ks m' \<and> length ks = n \<and> distinct ks \<and>
    set ks \<inter> used m = {} \<and> used m' = used m \<union> set ks \<and> map_inv m' \<and> size_of m' = size_of m"
  using assms
proof (induction n arbitrary: m)
  case 0
  then show ?case by (simp add: kret_def)
next
  case (Suc n)
  have "card (used m) \<noteq> size_of m" using Suc.prems(2) by simp
  then have "used m \<noteq> {..<size_of m}" by (metis card_lessThan)
  from alloc_found [OF Suc.prems(1) this] obtain k m1 where
    k: "bmap_alloc m = Ok k m1" "k \<notin> used m" "map_inv m1"
      "size_of m1 = size_of m" "used m1 = insert k (used m)" by blast
  have "n + card (used m1) \<le> size_of m1"
    using Suc.prems(2) used_finite [OF Suc.prems(1)] k by simp
  from Suc.IH [OF k(3) this] obtain ks m' where
    ks: "alloc_many n m1 = Ok ks m'" "length ks = n" "distinct ks" "set ks \<inter> used m1 = {}"
      "used m' = used m1 \<union> set ks" "map_inv m'" "size_of m' = size_of m1" by blast
  have "alloc_many (Suc n) m = Ok (k # ks) m'" using k(1) ks(1) by (simp add: kbind_def kret_def)
  moreover have "set (k # ks) \<inter> used m = {}" "used m' = used m \<union> set (k # ks)" "distinct (k # ks)"
    using k(2,5) ks(3-5) by auto
  ultimately show ?case using ks(2,6,7) k(4) by (metis length_Cons)
qed

lemma alloc_many_exhausted:
  assumes "map_inv m" "n + card (used m) = size_of m" "alloc_many n m = Ok ks m'"
  shows "bmap_alloc m' = Err ENOSPC m'"
proof -
  from alloc_many_ok [OF assms(1), of n] assms(2,3)
  have m': "length ks = n" "distinct ks" "set ks \<inter> used m = {}" "used m' = used m \<union> set ks"
      "map_inv m'" "size_of m' = size_of m" by auto
  then have "card (used m') = size_of m'"
    using assms(1,2) used_finite
    by (simp add: card_Un_disjoint distinct_card Int_commute)
  then have "used m' = {..<size_of m'}"
    using used_bounded [OF m'(5)] by (simp add: card_subset_eq)
  then show ?thesis using alloc_full m'(5) by simp
qed

end

interpretation fm: block_map bitmap_alloc bitmap_mark bitmap_unmark bitmap_isset
  bitmap_set nbits bitmap_inv
proof (unfold_locales, goal_cases)
  case 1 then show ?case by (auto simp: bitmap_set_def)
next
  case 2 then show ?case by (rule bitmap_alloc_full)
next
  case (3 m)
  from 3(1) show ?case
  proof (cases rule: bitmap_alloc_cases)
    case full
    with 3(2) show ?thesis by simp
  next
    case (found k b')
    then show ?thesis by blast
  qed
next
  case (4 m i) then show ?case using bitmap_mark_eq [of m i] by simp
next
  case (5 m i) then show ?case using bitmap_unmark_eq [of m i] by simp
next
  case 6 then show ?case by (rule bitmap_isset_eq)
qed

section \<open>Properties\<close>

text \<open>
  C24: on a well-formed map \<^verbatim>\<open>bitmap_alloc\<close> never hits one of its assertions. It returns the
  smallest index that is not in use and marks exactly that index, or, when every index is in
  use, returns \<open>ENOSPC\<close> and changes nothing.
\<close>

theorem bitmap_alloc_correct:
  assumes "bitmap_inv b"
  shows "case bitmap_alloc b of
      Ok k b' \<Rightarrow> k < nbits b \<and> k \<notin> bitmap_set b \<and> {..<k} \<subseteq> bitmap_set b \<and>
        bitmap_inv b' \<and> nbits b' = nbits b \<and> bitmap_set b' = insert k (bitmap_set b)
    | Err e b' \<Rightarrow> e = ENOSPC \<and> b' = b \<and> bitmap_set b = {..<nbits b}
    | Panic \<Rightarrow> False"
  using assms by (cases rule: bitmap_alloc_cases) auto

definition sample_map :: bitmap where
  "sample_map = \<lparr>nbits = 11, bm_v = [0xff, 0xf9]\<rparr>"

lemma sample_map_inv: "bitmap_inv sample_map"
  by code_simp

theorem bitmap_alloc_correct_witness:
  "bitmap_inv sample_map \<and> bitmap_alloc sample_map = Ok 9 \<lparr>nbits = 11, bm_v = [0xff, 0xfb]\<rparr> \<and>
   {..<9} \<subseteq> bitmap_set sample_map"
proof -
  have "bitmap_alloc sample_map = Ok 9 \<lparr>nbits = 11, bm_v = [0xff, 0xfb]\<rparr>" by code_simp
  then show ?thesis using bitmap_alloc_correct [OF sample_map_inv] sample_map_inv by simp
qed

text \<open>
  C25: a map created for \<open>n\<close> bits is well formed and empty, and \<open>n\<close> allocations in a row return
  every index below \<open>n\<close> exactly once; the next one fails with \<open>ENOSPC\<close>. The padding bits of the
  last byte are never handed out.
\<close>

theorem bitmap_create_exhausts:
  assumes "n + 7 < 2 ^ 32"
  shows "\<exists>b ks b'. bitmap_create True True n s = Ok (Some b) s \<and> bitmap_inv b \<and> bitmap_set b = {} \<and>
    fm.alloc_many n b = Ok ks b' \<and> distinct ks \<and> set ks = {..<n} \<and> bitmap_alloc b' = Err ENOSPC b'"
proof -
  from bitmap_create_ok [OF assms, of s] obtain b where
    b: "bitmap_create True True n s = Ok (Some b) s" "bitmap_inv b" "nbits b = n" "bitmap_set b = {}"
    by blast
  have "n + card (bitmap_set b) \<le> nbits b" by (simp add: b(3,4))
  from fm.alloc_many_ok [OF b(2) this] b(3,4) obtain ks b' where
    ks: "fm.alloc_many n b = Ok ks b'" "length ks = n" "distinct ks" "bitmap_set b' = set ks"
      "bitmap_inv b'" "nbits b' = n"
    by auto
  have "set ks \<subseteq> {..<n}" using fm.used_bounded [OF ks(5)] ks(4,6) by simp
  moreover have "card (set ks) = card {..<n}" using ks(2,3) by (simp add: distinct_card)
  ultimately have "set ks = {..<n}" by (simp add: card_subset_eq)
  moreover have "bitmap_alloc b' = Err ENOSPC b'"
    using fm.alloc_many_exhausted [OF b(2) _ ks(1)] b(3,4) by simp
  ultimately show ?thesis using b ks by blast
qed

theorem bitmap_create_exhausts_witness:
  "\<exists>b ks b'. bitmap_create True True 11 () = Ok (Some b) () \<and> fm.alloc_many 11 b = Ok ks b' \<and>
    set ks = {..<11} \<and> bitmap_alloc b' = Err ENOSPC b'"
  using bitmap_create_exhausts [of 11 "()"] by auto

text \<open>
  Marking succeeds exactly on a free index below \<open>nbits\<close> and unmarking exactly on one in use;
  anything else is a kernel panic. Both change only that index and keep the map well formed, so
  unmarking a freshly marked index gives back the same set.
\<close>

lemma bitmap_mark_unmark:
  assumes "bitmap_inv b"
  shows "case bitmap_mark i b of
      Ok _ b' \<Rightarrow> i < nbits b \<and> i \<notin> bitmap_set b \<and> bitmap_inv b' \<and>
        bitmap_set b' = insert i (bitmap_set b) \<and> bitmap_isset i b' = Ok True b' \<and>
        (\<exists>b''. bitmap_unmark i b' = Ok () b'' \<and> bitmap_inv b'' \<and> bitmap_set b'' = bitmap_set b)
    | Err _ _ \<Rightarrow> False
    | Panic \<Rightarrow> i \<ge> nbits b \<or> (i \<in> bitmap_set b \<and>
        (\<exists>b''. bitmap_unmark i b = Ok () b'' \<and> bitmap_inv b'' \<and> bitmap_set b'' = bitmap_set b - {i}))"
proof (cases "i < nbits b \<and> i \<notin> bitmap_set b")
  case True
  then obtain b' where b': "bitmap_mark i b = Ok () b'" "bitmap_inv b'" "nbits b' = nbits b"
      "bitmap_set b' = insert i (bitmap_set b)"
    using bitmap_mark_eq [OF assms, of i] by auto
  moreover obtain b'' where "bitmap_unmark i b' = Ok () b''" "bitmap_inv b''"
      "bitmap_set b'' = bitmap_set b"
    using bitmap_unmark_eq [OF b'(2), of i] b'(4) True by auto
  moreover have "bitmap_isset i b' = Ok True b'"
    using bitmap_isset_eq [OF b'(2)] b'(3,4) True by simp
  ultimately show ?thesis using True by auto
next
  case False
  then show ?thesis using bitmap_mark_eq [OF assms, of i] bitmap_unmark_eq [OF assms, of i] by auto
qed

end
