(* ===== verification/Sfs_Core.thy ===== *)
theory Sfs_Core
  imports Sfs_Disk Bitmap
begin

text \<open>
  The lower half of SFS: the state of a mounted volume (\<^verbatim>\<open>include/sfs.h\<close>), the big VFS lock
  (\<^verbatim>\<open>vfs/vfslist.c\<close>), block I/O (\<^verbatim>\<open>fs/sfs/sfs_io.c\<close>), space allocation and block
  mapping (\<^verbatim>\<open>fs/sfs/sfs_vnode.c\<close>). The device is used through its \<^verbatim>\<open>d_io\<close> function, a
  parameter of the operations; the lemmas assume the contract \<open>block_device\<close>.

  In-memory vnodes live in a heap indexed by pointer values. The outcomes of the \<^verbatim>\<open>kmalloc\<close> calls
  to come are the list \<open>sfs_kmalloc\<close>, an empty list standing for success.
\<close>

section \<open>State\<close>

datatype vnode_ops = Sfs_fileops | Sfs_dirops | Null_ops

record sfs_vnode =
  vn_refcount :: nat
  vn_opencount :: nat
  vn_ops :: vnode_ops
  sv_i :: sfs_inode
  sv_ino :: nat
  sv_dirty :: bool

record 'd sfs_fs =
  sfs_super :: sfs_super
  sfs_superdirty :: bool
  sfs_device :: 'd
  sfs_vnodes :: "nat list"
  sfs_freemap :: bitmap
  sfs_freemapdirty :: bool
  sfs_heap :: "nat \<Rightarrow> sfs_vnode option"
  sfs_nextptr :: nat
  sfs_kmalloc :: "bool list"
  vfs_biglock_depth :: nat

record 'd sfs_env =
  env_dio :: "uenv \<Rightarrow> ('d \<times> uio, unit) kfun"
  env_u :: uenv

text \<open>The address of the kernel buffers that the file system hands to the device.\<close>

definition SFS_KBUF :: nat where "SFS_KBUF = 0x80000000"

section \<open>The big lock\<close>

definition vfs_biglock_acquire :: "('d sfs_fs, unit) kfun" where
  "vfs_biglock_acquire s = Ok () (s\<lparr>vfs_biglock_depth := Suc (vfs_biglock_depth s)\<rparr>)"

definition vfs_biglock_release :: "('d sfs_fs, unit) kfun" where
  "vfs_biglock_release s =
    (if vfs_biglock_depth s > 0 then Ok () (s\<lparr>vfs_biglock_depth := vfs_biglock_depth s - 1\<rparr>) else Panic)"

definition vfs_biglock_do_i_hold :: "'d sfs_fs \<Rightarrow> bool" where
  "vfs_biglock_do_i_hold s \<longleftrightarrow> vfs_biglock_depth s > 0"

section \<open>Block I/O\<close>

definition sfs_dio :: "'d sfs_env \<Rightarrow> ('d sfs_fs \<times> uio, unit) kfun" where
  "sfs_dio env = (\<lambda>(s, u).
    case env_dio env (env_u env) (sfs_device s, u) of
      Ok _ (d, u') \<Rightarrow> Ok () (s\<lparr>sfs_device := d\<rparr>, u')
    | Err e (d, u') \<Rightarrow> Err e (s\<lparr>sfs_device := d\<rparr>, u')
    | Panic \<Rightarrow> Panic)"

text \<open>The part of \<^verbatim>\<open>sfs_rwblock\<close> after the label \<^verbatim>\<open>retry\<close>; \<open>n\<close> is the number of retries left.\<close>

primrec sfs_rwblock_retry :: "'d sfs_env \<Rightarrow> nat \<Rightarrow> ('d sfs_fs \<times> uio, unit) kfun" where
  "sfs_rwblock_retry env 0 = (\<lambda>su.
    case sfs_dio env su of Err e su' \<Rightarrow> (if e = EINVAL then Panic else Err e su') | r \<Rightarrow> r)"
| "sfs_rwblock_retry env (Suc n) = (\<lambda>su.
    case sfs_dio env su of
      Err e su' \<Rightarrow> (if e = EINVAL then Panic
        else if e = EIO then sfs_rwblock_retry env n su' else Err e su')
    | r \<Rightarrow> r)"

definition sfs_rwblock :: "'d sfs_env \<Rightarrow> ('d sfs_fs \<times> uio, unit) kfun" where
  "sfs_rwblock env su =
    (if vfs_biglock_do_i_hold (fst su) then sfs_rwblock_retry env 10 su else Panic)"

definition SFSUIO :: "u8 list \<Rightarrow> nat \<Rightarrow> uio_rw \<Rightarrow> uio" where
  "SFSUIO bytes block rw = uio_kinit SFS_KBUF bytes (int block * int SFS_BLOCKSIZE) rw"

text \<open>The result of \<^verbatim>\<open>sfs_rblock\<close> is the new contents of the buffer.\<close>

definition sfs_rblock :: "'d sfs_env \<Rightarrow> u8 list \<Rightarrow> nat \<Rightarrow> ('d sfs_fs, u8 list) kfun" where
  "sfs_rblock env buf block s =
    (case sfs_rwblock env (s, SFSUIO buf block UIO_READ) of
       Ok _ (s', u) \<Rightarrow> Ok (uio_done u @ uio_left u) s'
     | Err e (s', u) \<Rightarrow> Err e s'
     | Panic \<Rightarrow> Panic)"

definition sfs_wblock :: "'d sfs_env \<Rightarrow> u8 list \<Rightarrow> nat \<Rightarrow> ('d sfs_fs, unit) kfun" where
  "sfs_wblock env buf block s =
    (case sfs_rwblock env (s, SFSUIO buf block UIO_WRITE) of
       Ok _ (s', u) \<Rightarrow> Ok () s'
     | Err e (s', u) \<Rightarrow> Err e s'
     | Panic \<Rightarrow> Panic)"

definition zeros :: "u8 list" where
  "zeros = replicate 512 0"

definition sfs_clearblock :: "'d sfs_env \<Rightarrow> nat \<Rightarrow> ('d sfs_fs, unit) kfun" where
  "sfs_clearblock env block = sfs_wblock env zeros block"

section \<open>Vnodes in memory\<close>

definition get_sv :: "nat \<Rightarrow> ('d sfs_fs, sfs_vnode) kfun" where
  "get_sv v s = (case sfs_heap s v of None \<Rightarrow> Panic | Some sv \<Rightarrow> Ok sv s)"

definition put_sv :: "nat \<Rightarrow> sfs_vnode \<Rightarrow> ('d sfs_fs, unit) kfun" where
  "put_sv v sv s = Ok () (s\<lparr>sfs_heap := (sfs_heap s)(v := Some sv)\<rparr>)"

definition mod_sv :: "nat \<Rightarrow> (sfs_vnode \<Rightarrow> sfs_vnode) \<Rightarrow> ('d sfs_fs, unit) kfun" where
  "mod_sv v f = kbind (get_sv v) (\<lambda>sv. put_sv v (f sv))"

definition sfs_sync_inode :: "'d sfs_env \<Rightarrow> nat \<Rightarrow> ('d sfs_fs, unit) kfun" where
  "sfs_sync_inode env v =
    kbind (get_sv v) (\<lambda>sv.
    if sv_dirty sv then
      kbind (sfs_wblock env (inode_bytes (sv_i sv)) (sv_ino sv)) (\<lambda>_.
      mod_sv v (sv_dirty_update (\<lambda>_. False)))
    else kret ())"

section \<open>Space allocation\<close>

definition on_freemap :: "(bitmap, 'a) kfun \<Rightarrow> ('d sfs_fs, 'a) kfun" where
  "on_freemap m s =
    (case m (sfs_freemap s) of
       Ok x b \<Rightarrow> Ok x (s\<lparr>sfs_freemap := b\<rparr>)
     | Err e b \<Rightarrow> Err e (s\<lparr>sfs_freemap := b\<rparr>)
     | Panic \<Rightarrow> Panic)"

definition sfs_balloc :: "'d sfs_env \<Rightarrow> ('d sfs_fs, nat) kfun" where
  "sfs_balloc env =
    kbind (on_freemap bitmap_alloc) (\<lambda>diskblock.
    kbind (kmod (sfs_freemapdirty_update (\<lambda>_. True))) (\<lambda>_.
    kbind (kget (\<lambda>s. sp_nblocks (sfs_super s))) (\<lambda>nblocks.
    if diskblock \<ge> nblocks then kpanic
    else kbind (sfs_clearblock env diskblock) (\<lambda>_. kret diskblock))))"

definition sfs_bfree :: "nat \<Rightarrow> ('d sfs_fs, unit) kfun" where
  "sfs_bfree diskblock =
    kbind (on_freemap (bitmap_unmark diskblock)) (\<lambda>_.
    kmod (sfs_freemapdirty_update (\<lambda>_. True)))"

definition sfs_bused :: "nat \<Rightarrow> ('d sfs_fs, bool) kfun" where
  "sfs_bused diskblock =
    kbind (kget (\<lambda>s. sp_nblocks (sfs_super s))) (\<lambda>nblocks.
    if diskblock \<ge> nblocks then kpanic else on_freemap (bitmap_isset diskblock))"

section \<open>Block mapping\<close>

text \<open>The check that a block about to be handed back is marked in use.\<close>

definition sfs_checkused :: "nat \<Rightarrow> ('d sfs_fs, unit) kfun" where
  "sfs_checkused block =
    (if block \<noteq> 0 then kbind (sfs_bused block) (\<lambda>used. if used then kret () else kpanic)
     else kret ())"

definition sfs_bmap_direct :: "'d sfs_env \<Rightarrow> nat \<Rightarrow> nat \<Rightarrow> bool \<Rightarrow> ('d sfs_fs, nat) kfun" where
  "sfs_bmap_direct env v fileblock doalloc =
    kbind (get_sv v) (\<lambda>sv.
    let block = sfi_direct (sv_i sv) ! fileblock in
    kbind (if block = 0 \<and> doalloc then
             kbind (sfs_balloc env) (\<lambda>block.
             kbind (mod_sv v (\<lambda>sv. sv\<lparr>sv_i := (sv_i sv)\<lparr>sfi_direct := (sfi_direct (sv_i sv))[fileblock := block]\<rparr>,
                                      sv_dirty := True\<rparr>)) (\<lambda>_.
             kret block))
           else kret block) (\<lambda>block.
    kbind (sfs_checkused block) (\<lambda>_. kret block)))"

text \<open>The indirect block: its number and the contents of \<^verbatim>\<open>idbuf\<close>, allocating it if needed.\<close>

definition sfs_idload :: "'d sfs_env \<Rightarrow> nat \<Rightarrow> ('d sfs_fs, nat \<times> nat list) kfun" where
  "sfs_idload env v =
    kbind (get_sv v) (\<lambda>sv.
    let idblock = sfi_indirect (sv_i sv) in
    if idblock = 0 then
      kbind (sfs_balloc env) (\<lambda>idblock.
      kbind (mod_sv v (\<lambda>sv. sv\<lparr>sv_i := (sv_i sv)\<lparr>sfi_indirect := idblock\<rparr>, sv_dirty := True\<rparr>)) (\<lambda>_.
      kret (idblock, replicate SFS_DBPERIDB 0)))
    else
      kbind (sfs_rblock env zeros idblock) (\<lambda>bytes.
      kret (idblock, get32s SFS_DBPERIDB bytes)))"

definition sfs_bmap_indirect :: "'d sfs_env \<Rightarrow> nat \<Rightarrow> nat \<Rightarrow> bool \<Rightarrow> ('d sfs_fs, nat) kfun" where
  "sfs_bmap_indirect env v fileblock doalloc =
    (let idnum = fileblock div SFS_DBPERIDB; idoff = fileblock mod SFS_DBPERIDB in
     if idnum > 0 then kerr EFBIG
     else
       kbind (get_sv v) (\<lambda>sv.
       if sfi_indirect (sv_i sv) = 0 \<and> \<not> doalloc then kret 0
       else
         kbind (sfs_idload env v) (\<lambda>(idblock, idbuf).
         let block = idbuf ! idoff in
         kbind (if block = 0 \<and> doalloc then
                  kbind (sfs_balloc env) (\<lambda>block.
                  kbind (sfs_wblock env (put32s (idbuf[idoff := block])) idblock) (\<lambda>_.
                  kret block))
                else kret block) (\<lambda>block.
         kbind (sfs_checkused block) (\<lambda>_. kret block)))))"

definition sfs_bmap :: "'d sfs_env \<Rightarrow> nat \<Rightarrow> nat \<Rightarrow> bool \<Rightarrow> ('d sfs_fs, nat) kfun" where
  "sfs_bmap env v fileblock doalloc =
    (if fileblock < SFS_NDIRECT then sfs_bmap_direct env v fileblock doalloc
     else sfs_bmap_indirect env v (fileblock - SFS_NDIRECT) doalloc)"

section \<open>The files of a volume\<close>

text \<open>
  \<open>B\<close> is the contents of the blocks of the disk. The block map of an inode, the blocks it owns,
  and its contents block by block, where a hole reads as zeros.
\<close>

definition sfs_used :: "'d sfs_fs \<Rightarrow> nat set" where
  "sfs_used s = bitmap_set (sfs_freemap s)"

definition fmap :: "(nat \<Rightarrow> u8 list) \<Rightarrow> sfs_inode \<Rightarrow> nat \<Rightarrow> nat" where
  "fmap B i fb =
    (if fb < 15 then sfi_direct i ! fb
     else if fb < 143 \<and> sfi_indirect i \<noteq> 0 then get32s 128 (B (sfi_indirect i)) ! (fb - 15)
     else 0)"

definition file_blocks :: "(nat \<Rightarrow> u8 list) \<Rightarrow> sfs_inode \<Rightarrow> nat set" where
  "file_blocks B i = (insert (sfi_indirect i) (fmap B i ` {..<143})) - {0}"

definition fblock :: "(nat \<Rightarrow> u8 list) \<Rightarrow> sfs_inode \<Rightarrow> nat \<Rightarrow> u8 list" where
  "fblock B i fb = (if fmap B i fb = 0 then zeros else B (fmap B i fb))"

text \<open>
  A sound file: the fields have their width, every block it owns is inside the volume and marked
  in use, and no block is used twice.
\<close>

definition file_ok :: "nat set \<Rightarrow> nat \<Rightarrow> (nat \<Rightarrow> u8 list) \<Rightarrow> sfs_inode \<Rightarrow> bool" where
  "file_ok U n B i \<longleftrightarrow> inode_ok i \<and> file_blocks B i \<subseteq> U \<inter> {..<n} \<and>
     (\<forall>fb < 143. fmap B i fb \<noteq> 0 \<longrightarrow> fmap B i fb \<noteq> sfi_indirect i) \<and>
     (\<forall>fb < 143. \<forall>fb' < 143. fmap B i fb = fmap B i fb' \<longrightarrow> fmap B i fb \<noteq> 0 \<longrightarrow> fb = fb')"

text \<open>
  The invariant of a mounted volume: the device works and is large enough, the byte offsets of the
  volume fit the 32-bit product in \<^verbatim>\<open>sfs_blockio\<close>, the free map covers the volume, its tail and the
  superblock are marked in use, and the big lock is held.
\<close>

definition sfs_inv :: "('d \<Rightarrow> nat) \<Rightarrow> ('d \<Rightarrow> bool) \<Rightarrow> 'd sfs_fs \<Rightarrow> bool" where
  "sfs_inv nblk dev_ok s \<longleftrightarrow> dev_ok (sfs_device s) \<and> sp_nblocks (sfs_super s) \<le> nblk (sfs_device s) \<and>
     bitmap_inv (sfs_freemap s) \<and> 0 < sp_nblocks (sfs_super s) \<and> sp_nblocks (sfs_super s) \<le> 2 ^ 23 \<and>
     sp_nblocks (sfs_super s) \<le> nbits (sfs_freemap s) \<and>
     {sp_nblocks (sfs_super s)..<nbits (sfs_freemap s)} \<subseteq> sfs_used s \<and> 0 \<in> sfs_used s \<and>
     0 < vfs_biglock_depth s"

lemma zeros_length [simp]: "length zeros = 512"
  by (simp add: zeros_def)

lemma get32_zeros: "get32 (replicate n 0) = (if 4 \<le> n then 0 else get32 (replicate n 0))"
  by (simp add: get32_def nth_replicate)

lemma get32s_zeros: "4 * n \<le> m \<Longrightarrow> get32s n (replicate m 0) = replicate n 0"
proof (induction n arbitrary: m)
  case (Suc n)
  then have "get32 (replicate m 0) = 0" "get32s n (replicate (m - 4) 0) = replicate n 0"
    by (simp_all add: get32_def nth_replicate)
  then show ?case by simp
qed simp

lemma get32s_zeros_128 [simp]: "get32s 128 zeros = replicate 128 0"
  unfolding zeros_def by (rule get32s_zeros) simp

lemma file_blocksI:
  "fb < 143 \<Longrightarrow> fmap B i fb \<noteq> 0 \<Longrightarrow> fmap B i fb \<in> file_blocks B i"
  "sfi_indirect i \<noteq> 0 \<Longrightarrow> sfi_indirect i \<in> file_blocks B i"
  by (auto simp: file_blocks_def)

lemma file_okD:
  assumes "file_ok U n B i"
  shows "inode_ok i" "b \<in> file_blocks B i \<Longrightarrow> b \<in> U" "b \<in> file_blocks B i \<Longrightarrow> b < n"
    "fb < 143 \<Longrightarrow> fmap B i fb \<noteq> 0 \<Longrightarrow> fmap B i fb \<noteq> sfi_indirect i"
    "fb < 143 \<Longrightarrow> fb' < 143 \<Longrightarrow> fmap B i fb = fmap B i fb' \<Longrightarrow> fmap B i fb \<noteq> 0 \<Longrightarrow> fb = fb'"
  using assms unfolding file_ok_def by auto

lemma file_okI:
  assumes "inode_ok i" "file_blocks B i \<subseteq> U \<inter> {..<n}"
    "\<And>fb. fb < 143 \<Longrightarrow> fmap B i fb \<noteq> 0 \<Longrightarrow> fmap B i fb \<noteq> sfi_indirect i"
    "\<And>fb fb'. fb < 143 \<Longrightarrow> fb' < 143 \<Longrightarrow> fmap B i fb = fmap B i fb' \<Longrightarrow> fmap B i fb \<noteq> 0 \<Longrightarrow> fb = fb'"
  shows "file_ok U n B i"
  using assms unfolding file_ok_def by simp

lemma fmap_cong: "B (sfi_indirect i) = B' (sfi_indirect i) \<Longrightarrow> fmap B i fb = fmap B' i fb"
  by (simp add: fmap_def)

text \<open>Installing a fresh block in a hole of a file, directly or through the indirect block.\<close>

lemma fmap_direct:
  assumes "inode_ok i" "fb < 15" "B' (sfi_indirect i) = B (sfi_indirect i)"
  shows "fmap B' (i\<lparr>sfi_direct := (sfi_direct i)[fb := b]\<rparr>) = (fmap B i)(fb := b)"
  using assms by (auto simp: fmap_def inode_ok_def fun_eq_iff)

lemma fmap_indirect:
  assumes "15 \<le> fb" "fb < 143" "sfi_indirect i \<noteq> 0" "b < 2 ^ 32"
    "B' (sfi_indirect i) = put32s ((get32s 128 (B (sfi_indirect i)))[fb - 15 := b])"
  shows "fmap B' i = (fmap B i)(fb := b)"
proof -
  let ?ns = "(get32s 128 (B (sfi_indirect i)))[fb - 15 := b]"
  have "list_all (\<lambda>n. n < 2 ^ 32) ?ns"
    using get32s_bound [of 128 "B (sfi_indirect i)"] assms(4)
    by (auto simp: list_all_iff dest: set_update_subset_insert [THEN subsetD])
  then have "get32s 128 (B' (sfi_indirect i)) = ?ns" using assms(5) by simp
  then show ?thesis using assms(1-3) by (auto simp: fmap_def fun_eq_iff nth_list_update)
qed

lemma fmap_newindirect:
  assumes "sfi_indirect i = 0" "B' x = zeros" "x \<noteq> 0"
  shows "fmap B' (i\<lparr>sfi_indirect := x\<rparr>) = fmap B i"
  using assms by (auto simp: fmap_def fun_eq_iff)

lemma fblock_write:
  assumes "fmap B' i' = fmap B i" "B' = B(b := x)" "b \<noteq> 0"
  shows "fblock B' i' k = (if fmap B i k = b then x else fblock B i k)"
  using assms(3) unfolding fblock_def assms(1) by (auto simp: assms(2))

lemma fblock_hole:
  assumes "fmap B' i' = (fmap B i)(fb := b)" "fmap B i fb = 0" "b \<noteq> 0" "B' b = zeros"
    "fmap B i k \<noteq> 0 \<Longrightarrow> B' (fmap B i k) = B (fmap B i k)"
  shows "fblock B' i' k = fblock B i k"
  using assms(2-) unfolding fblock_def assms(1) by auto

lemma fresh_not_mapped:
  assumes "file_ok U n B i" "b \<notin> U" "k < 143" "fmap B i k \<noteq> 0"
  shows "fmap B i k \<noteq> b"
  using file_okD(2) [OF assms(1) file_blocksI(1) [OF assms(3,4)]] assms(2) by auto

lemma fresh_not_indirect:
  assumes "file_ok U n B i" "b \<notin> U" "b \<noteq> 0"
  shows "b \<noteq> sfi_indirect i"
  using file_okD(2) [OF assms(1) file_blocksI(2)] assms(2,3) by (cases "sfi_indirect i = 0") auto

text \<open>
  The changes that a block map may undergo when a hole is filled: the new map agrees with the old
  one except for blocks that were not in use.
\<close>

lemma file_ok_grow:
  assumes ok: "file_ok U n B i" and f: "fmap B' i' = (fmap B i)(fb := b)" "sfi_indirect i' = sfi_indirect i"
    and b: "b \<notin> U" "b < n" "b \<noteq> 0" and U: "U' = insert b U" and i: "inode_ok i'"
    and hole: "fb < 143" "fmap B i fb = 0"
  shows "file_ok U' n B' i'" "file_blocks B' i' = insert b (file_blocks B i)"
proof -
  show blocks: "file_blocks B' i' = insert b (file_blocks B i)"
    using f b(3) hole by (auto simp: file_blocks_def image_iff)
  have nb: "b \<noteq> fmap B i k" if "k < 143" "fmap B i k \<noteq> 0" for k
    using file_okD(2) [OF ok file_blocksI(1) [OF that]] b(1) by auto
  have ni: "b \<noteq> sfi_indirect i"
    using file_okD(2) [OF ok file_blocksI(2)] b(1,3) by (cases "sfi_indirect i = 0") auto
  show "file_ok U' n B' i'"
  proof (rule file_okI)
    show "file_blocks B' i' \<subseteq> U' \<inter> {..<n}"
      using ok b(2) U by (auto simp: blocks file_ok_def)
    show "fmap B' i' k \<noteq> sfi_indirect i'" if "k < 143" "fmap B' i' k \<noteq> 0" for k
      using file_okD(4) [OF ok that(1)] that(2) ni f by (auto split: if_splits)
    show "k = k'" if "k < 143" "k' < 143" "fmap B' i' k = fmap B' i' k'" "fmap B' i' k \<noteq> 0" for k k'
      using file_okD(5) [OF ok that(1,2)] that nb hole f(1) by (auto split: if_splits)
  qed (rule i)
qed

lemma file_ok_newindirect:
  assumes ok: "file_ok U n B i" and f: "fmap B' i' = fmap B i" "sfi_indirect i = 0" "sfi_indirect i' = x"
    and x: "x \<notin> U" "x < n" "x \<noteq> 0" and U: "U' = insert x U" and i: "inode_ok i'"
  shows "file_ok U' n B' i'" "file_blocks B' i' = insert x (file_blocks B i)"
proof -
  show blocks: "file_blocks B' i' = insert x (file_blocks B i)"
    using f x(3) by (auto simp: file_blocks_def)
  have nx: "x \<noteq> fmap B i k" if "k < 143" "fmap B i k \<noteq> 0" for k
    using file_okD(2) [OF ok file_blocksI(1) [OF that]] x(1) by auto
  show "file_ok U' n B' i'"
  proof (rule file_okI)
    show "file_blocks B' i' \<subseteq> U' \<inter> {..<n}"
      using ok x(2) U by (auto simp: blocks file_ok_def)
    show "fmap B' i' k \<noteq> sfi_indirect i'" if "k < 143" "fmap B' i' k \<noteq> 0" for k
      using nx [OF that(1)] that(2) f by simp
    show "k = k'" if "k < 143" "k' < 143" "fmap B' i' k = fmap B' i' k'" "fmap B' i' k \<noteq> 0" for k k'
      using file_okD(5) [OF ok that(1,2)] that(3,4) f(1) by simp
  qed (rule i)
qed

lemma file_ok_cong:
  assumes "file_ok U n B i" "fmap B' i = fmap B i" "U \<subseteq> U'"
  shows "file_ok U' n B' i"
  using assms unfolding file_ok_def file_blocks_def by auto

section \<open>Block I/O and allocation on a working device\<close>

lemma sfs_rwblock_Ok:
  assumes "sfs_dio env su = Ok x su'" "0 < vfs_biglock_depth (fst su)"
  shows "sfs_rwblock env su = Ok x su'"
proof -
  have "sfs_rwblock_retry env n su = Ok x su'" for n using assms(1) by (cases n) simp_all
  then show ?thesis using assms(2) by (simp add: sfs_rwblock_def vfs_biglock_do_i_hold_def)
qed

lemma SFSUIO_wf:
  assumes "length buf = 512"
  shows "uio_wf (SFSUIO buf b rw)" "uio_ok env (SFSUIO buf b rw)" "uio_left (SFSUIO buf b rw) = buf"
    "uio_done (SFSUIO buf b rw) = []" "uio_rw (SFSUIO buf b rw) = rw" "uio_resid (SFSUIO buf b rw) = 512"
    "uio_offset (SFSUIO buf b rw) = 512 * int b"
  using uio_kinit_wf [of buf] assms
  by (simp_all add: SFSUIO_def) (simp_all add: uio_kinit_def SFS_BLOCKSIZE_def)

lemma sfs_invD:
  assumes "sfs_inv nblk dev_ok s"
  shows "dev_ok (sfs_device s)" "sp_nblocks (sfs_super s) \<le> nblk (sfs_device s)" "bitmap_inv (sfs_freemap s)"
    "0 \<in> sfs_used s" "0 < vfs_biglock_depth s" "b < nbits (sfs_freemap s) \<Longrightarrow> b \<notin> sfs_used s \<Longrightarrow> b < sp_nblocks (sfs_super s)"
    "sp_nblocks (sfs_super s) \<le> nbits (sfs_freemap s)" "sp_nblocks (sfs_super s) \<le> 2 ^ 23"
  using assms by (auto simp: sfs_inv_def subset_iff not_less [symmetric])

lemma sfs_inv_dev:
  assumes "sfs_inv nblk dev_ok s" "dev_ok d'" "nblk d' = nblk (sfs_device s)"
  shows "sfs_inv nblk dev_ok (s\<lparr>sfs_device := d'\<rparr>)"
  using assms by (simp add: sfs_inv_def sfs_used_def)

lemma sfs_inv_alloc:
  assumes "sfs_inv nblk dev_ok s" "dev_ok d'" "nblk d' = nblk (sfs_device s)" "bitmap_inv m"
    "nbits m = nbits (sfs_freemap s)" "sfs_used s \<subseteq> bitmap_set m"
  shows "sfs_inv nblk dev_ok (s\<lparr>sfs_freemap := m, sfs_freemapdirty := True, sfs_device := d'\<rparr>)"
  using assms by (auto simp: sfs_inv_def sfs_used_def)

lemma sfs_inv_heap [simp]:
  "sfs_inv nblk dev_ok (s\<lparr>sfs_heap := h\<rparr>) = sfs_inv nblk dev_ok s"
  by (simp add: sfs_inv_def sfs_used_def)

lemma sfs_used_simps [simp]:
  "sfs_used (s\<lparr>sfs_heap := h\<rparr>) = sfs_used s" "sfs_used (s\<lparr>sfs_device := d\<rparr>) = sfs_used s"
  "sfs_used (s\<lparr>sfs_freemapdirty := f\<rparr>) = sfs_used s" "sfs_used (s\<lparr>sfs_freemap := m\<rparr>) = bitmap_set m"
  by (simp_all add: sfs_used_def)

lemma sfs_bused_ok:
  assumes "sfs_inv nblk dev_ok s" "b < sp_nblocks (sfs_super s)"
  shows "sfs_bused b s = Ok (b \<in> sfs_used s) s"
  using assms bitmap_isset_eq [of "sfs_freemap s" b]
  by (auto simp: sfs_bused_def kfun_defs on_freemap_def sfs_inv_def sfs_used_def)

lemma sfs_checkused_ok:
  assumes "sfs_inv nblk dev_ok s" "b < sp_nblocks (sfs_super s)" "b \<in> sfs_used s"
  shows "sfs_checkused b s = Ok () s"
  using sfs_bused_ok [OF assms(1,2)] assms(3) by (simp add: sfs_checkused_def kfun_defs)

lemma sfs_checkused_0 [simp]: "sfs_checkused 0 = kret ()"
  by (simp add: sfs_checkused_def)

context block_device
begin

lemma sfs_rblock_dev:
  assumes env: "env_dio env = d_io" and dev: "dev_ok (sfs_device s)" "b < nblk (sfs_device s)" "0 < vfs_biglock_depth s"
    and buf: "length buf = 512"
  shows "\<exists>d'. sfs_rblock env buf b s = Ok (blk (sfs_device s) b) (s\<lparr>sfs_device := d'\<rparr>) \<and> dev_ok d' \<and>
    nblk d' = nblk (sfs_device s) \<and> blk d' = blk (sfs_device s)"
proof -
  let ?u = "SFSUIO buf b UIO_READ"
  from io_read [OF dev(1,2) SFSUIO_wf(1,2,5,7,6) [OF buf], of "env_u env"] obtain d' u' where
    io: "d_io (env_u env) (sfs_device s, ?u) = Ok () (d', u')" "dev_ok d'" "nblk d' = nblk (sfs_device s)"
      "blk d' = blk (sfs_device s)" "uio_moves (env_u env) (blk (sfs_device s) b) ?u u'" by blast
  have "uio_done u' @ uio_left u' = blk (sfs_device s) b"
    using io(5) blk_length [OF dev(1,2)] buf by (simp add: uio_moves_def SFSUIO_wf)
  moreover have "sfs_rwblock env (s, ?u) = Ok () (s\<lparr>sfs_device := d'\<rparr>, u')"
    using io(1) env dev(3) by (intro sfs_rwblock_Ok) (simp_all add: sfs_dio_def)
  ultimately show ?thesis using io(2-4) by (auto simp: sfs_rblock_def)
qed

lemma sfs_wblock_dev:
  assumes env: "env_dio env = d_io" and dev: "dev_ok (sfs_device s)" "b < nblk (sfs_device s)" "0 < vfs_biglock_depth s"
    and buf: "length buf = 512"
  shows "\<exists>d'. sfs_wblock env buf b s = Ok () (s\<lparr>sfs_device := d'\<rparr>) \<and> dev_ok d' \<and>
    nblk d' = nblk (sfs_device s) \<and> blk d' = (blk (sfs_device s))(b := buf)"
proof -
  let ?u = "SFSUIO buf b UIO_WRITE"
  from io_write [OF dev(1,2) SFSUIO_wf(1,2,5,7,6) [OF buf], of "env_u env"] obtain d' u' where
    io: "d_io (env_u env) (sfs_device s, ?u) = Ok () (d', u')" "dev_ok d'" "nblk d' = nblk (sfs_device s)"
      "blk d' = (blk (sfs_device s))(b := take 512 (uio_left ?u))" by blast
  have "sfs_rwblock env (s, ?u) = Ok () (s\<lparr>sfs_device := d'\<rparr>, u')"
    using io(1) env dev(3) by (intro sfs_rwblock_Ok) (simp_all add: sfs_dio_def)
  then show ?thesis using io(2-4) buf by (auto simp: sfs_wblock_def SFSUIO_wf)
qed

lemma sfs_rblock_ok:
  assumes "env_dio env = d_io" "sfs_inv nblk dev_ok s" "b < sp_nblocks (sfs_super s)" "length buf = 512"
  shows "\<exists>d'. sfs_rblock env buf b s = Ok (blk (sfs_device s) b) (s\<lparr>sfs_device := d'\<rparr>) \<and> dev_ok d' \<and>
    nblk d' = nblk (sfs_device s) \<and> blk d' = blk (sfs_device s)"
  using sfs_rblock_dev [OF assms(1) sfs_invD(1) [OF assms(2)] _ sfs_invD(5) [OF assms(2)] assms(4), of b]
    sfs_invD(2) [OF assms(2)] assms(3) by simp

lemma sfs_wblock_ok:
  assumes "env_dio env = d_io" "sfs_inv nblk dev_ok s" "b < sp_nblocks (sfs_super s)" "length buf = 512"
  shows "\<exists>d'. sfs_wblock env buf b s = Ok () (s\<lparr>sfs_device := d'\<rparr>) \<and> dev_ok d' \<and>
    nblk d' = nblk (sfs_device s) \<and> blk d' = (blk (sfs_device s))(b := buf)"
  using sfs_wblock_dev [OF assms(1) sfs_invD(1) [OF assms(2)] _ sfs_invD(5) [OF assms(2)] assms(4), of b]
    sfs_invD(2) [OF assms(2)] assms(3) by simp

lemma sfs_balloc_cases:
  assumes env: "env_dio env = d_io" and inv: "sfs_inv nblk dev_ok s"
  obtains (full) "sfs_used s = {..<nbits (sfs_freemap s)}" "sfs_balloc env s = Err ENOSPC s"
  | (found) b m d' where "sfs_balloc env s = Ok b (s\<lparr>sfs_freemap := m, sfs_freemapdirty := True, sfs_device := d'\<rparr>)"
      "b \<noteq> 0" "b < sp_nblocks (sfs_super s)" "b \<notin> sfs_used s" "bitmap_inv m" "nbits m = nbits (sfs_freemap s)"
      "bitmap_set m = insert b (sfs_used s)" "dev_ok d'" "nblk d' = nblk (sfs_device s)"
      "blk d' = (blk (sfs_device s))(b := zeros)"
      "sfs_inv nblk dev_ok (s\<lparr>sfs_freemap := m, sfs_freemapdirty := True, sfs_device := d'\<rparr>)"
proof (cases rule: bitmap_alloc_cases [OF sfs_invD(3) [OF inv]])
  case 1
  then show ?thesis
    by (intro full) (simp_all add: sfs_balloc_def kbind_def on_freemap_def sfs_used_def)
next
  case (2 b m)
  let ?s = "s\<lparr>sfs_freemap := m, sfs_freemapdirty := True\<rparr>"
  have b: "b < sp_nblocks (sfs_super s)" "b \<noteq> 0"
    using sfs_invD(4) [OF inv] sfs_invD(6) [OF inv, of b] 2(1,2) by (auto simp: sfs_used_def intro: gr0I)
  have "sfs_inv nblk dev_ok ?s"
    using sfs_inv_alloc [OF inv sfs_invD(1) [OF inv] refl 2(5)] 2 by (auto simp: sfs_used_def)
  from sfs_wblock_ok [OF env this, of b zeros] b(1) obtain d' where
    d': "sfs_wblock env zeros b ?s = Ok () (?s\<lparr>sfs_device := d'\<rparr>)" "dev_ok d'" "nblk d' = nblk (sfs_device s)"
      "blk d' = (blk (sfs_device s))(b := zeros)" by auto
  have "sfs_balloc env s = Ok b (?s\<lparr>sfs_device := d'\<rparr>)"
    using 2(4) b(1) d'(1) by (simp add: sfs_balloc_def kfun_defs on_freemap_def sfs_clearblock_def)
  moreover have "sfs_inv nblk dev_ok (?s\<lparr>sfs_device := d'\<rparr>)"
    using sfs_inv_alloc [OF inv d'(2,3) 2(5,6)] 2(7) by (auto simp: sfs_used_def)
  ultimately show ?thesis
    using found [where b = b and m = m and d' = d'] b 2 d' by (simp add: sfs_used_def)
qed

end

section \<open>Steps that work on one file\<close>

text \<open>
  \<open>file_at\<close>: the volume is sound and \<open>v\<close> is a vnode of a sound file. \<open>file_step\<close>: what an
  operation on this file may have done to the volume. It leaves every block alone that was in use
  and did not belong to the file, and takes new blocks only from the free ones.
\<close>

definition file_at ::
    "('d \<Rightarrow> nat \<Rightarrow> u8 list) \<Rightarrow> ('d \<Rightarrow> nat) \<Rightarrow> ('d \<Rightarrow> bool) \<Rightarrow> nat \<Rightarrow> sfs_vnode \<Rightarrow> 'd sfs_fs \<Rightarrow> bool" where
  "file_at blk nblk dev_ok v sv s \<longleftrightarrow> sfs_inv nblk dev_ok s \<and> sfs_heap s v = Some sv \<and>
     file_ok (sfs_used s) (sp_nblocks (sfs_super s)) (blk (sfs_device s)) (sv_i sv)"

definition file_step ::
    "('d \<Rightarrow> nat \<Rightarrow> u8 list) \<Rightarrow> nat \<Rightarrow> sfs_vnode \<Rightarrow> 'd sfs_fs \<Rightarrow> sfs_vnode \<Rightarrow> 'd sfs_fs \<Rightarrow> bool" where
  "file_step blk v sv s sv' s' \<longleftrightarrow>
     sfs_super s' = sfs_super s \<and> sfs_superdirty s' = sfs_superdirty s \<and> sfs_vnodes s' = sfs_vnodes s \<and>
     sfs_nextptr s' = sfs_nextptr s \<and> sfs_kmalloc s' = sfs_kmalloc s \<and>
     vfs_biglock_depth s' = vfs_biglock_depth s \<and>
     (\<forall>w. w \<noteq> v \<longrightarrow> sfs_heap s' w = sfs_heap s w) \<and>
     vn_refcount sv' = vn_refcount sv \<and> vn_opencount sv' = vn_opencount sv \<and> vn_ops sv' = vn_ops sv \<and>
     sv_ino sv' = sv_ino sv \<and> sfi_type (sv_i sv') = sfi_type (sv_i sv) \<and>
     sfi_linkcount (sv_i sv') = sfi_linkcount (sv_i sv) \<and>
     sfs_used s \<subseteq> sfs_used s' \<and>
     file_blocks (blk (sfs_device s')) (sv_i sv') \<inter> sfs_used s = file_blocks (blk (sfs_device s)) (sv_i sv) \<and>
     (\<forall>x \<in> sfs_used s - file_blocks (blk (sfs_device s)) (sv_i sv). blk (sfs_device s') x = blk (sfs_device s) x)"

lemma file_step_refl:
  assumes "file_at blk nblk dev_ok v sv s"
  shows "file_step blk v sv s sv s"
  using assms by (auto simp: file_step_def file_at_def dest: file_okD(2))

lemma file_step_trans:
  assumes 1: "file_step blk v sv s sv' s'" and 2: "file_step blk v sv' s' sv'' s''"
  shows "file_step blk v sv s sv'' s''"
proof -
  let ?F = "\<lambda>s sv. file_blocks (blk (sfs_device s)) (sv_i sv)"
  have u: "sfs_used s \<subseteq> sfs_used s'" "sfs_used s' \<subseteq> sfs_used s''"
    using 1 2 by (simp_all add: file_step_def)
  have f: "?F s' sv' \<inter> sfs_used s = ?F s sv" "?F s'' sv'' \<inter> sfs_used s' = ?F s' sv'"
    using 1 2 by (simp_all add: file_step_def)
  have b: "\<And>x. x \<in> sfs_used s - ?F s sv \<Longrightarrow> blk (sfs_device s') x = blk (sfs_device s) x"
    "\<And>x. x \<in> sfs_used s' - ?F s' sv' \<Longrightarrow> blk (sfs_device s'') x = blk (sfs_device s') x"
    using 1 2 by (simp_all add: file_step_def)
  have "?F s'' sv'' \<inter> sfs_used s = ?F s sv" using u(1) f by blast
  moreover have "\<forall>x \<in> sfs_used s - ?F s sv. blk (sfs_device s'') x = blk (sfs_device s) x"
  proof
    fix x assume x: "x \<in> sfs_used s - ?F s sv"
    then have "x \<in> sfs_used s' - ?F s' sv'" using u(1) f(1) by blast
    then show "blk (sfs_device s'') x = blk (sfs_device s) x" using b x by simp
  qed
  moreover have "sfs_used s \<subseteq> sfs_used s''" using u by simp
  ultimately show ?thesis using 1 2 by (simp add: file_step_def)
qed

text \<open>Changes to the device that keep every block.\<close>

lemma file_step_dev:
  assumes "file_at blk nblk dev_ok v sv s" "dev_ok d" "nblk d = nblk (sfs_device s)"
    "blk d = blk (sfs_device s)"
  shows "file_at blk nblk dev_ok v sv (s\<lparr>sfs_device := d\<rparr>)"
    "file_step blk v sv s sv (s\<lparr>sfs_device := d\<rparr>)"
  using assms file_step_refl [OF assms(1)] sfs_inv_dev [of nblk dev_ok s d]
  by (simp_all add: file_at_def file_step_def)

text \<open>Writing blocks of the file without changing its block map.\<close>

lemma file_step_write:
  assumes at: "file_at blk nblk dev_ok v sv s" and d: "dev_ok d" "nblk d = nblk (sfs_device s)"
    and f: "fmap (blk d) (sv_i sv) = fmap (blk (sfs_device s)) (sv_i sv)"
    and B: "\<And>x. x \<notin> file_blocks (blk (sfs_device s)) (sv_i sv) \<Longrightarrow> blk d x = blk (sfs_device s) x"
  shows "file_at blk nblk dev_ok v sv (s\<lparr>sfs_device := d\<rparr>) \<and> file_step blk v sv s sv (s\<lparr>sfs_device := d\<rparr>)"
proof -
  have ok: "file_ok (sfs_used s) (sp_nblocks (sfs_super s)) (blk (sfs_device s)) (sv_i sv)"
    using at by (simp add: file_at_def)
  have fb: "file_blocks (blk d) (sv_i sv) = file_blocks (blk (sfs_device s)) (sv_i sv)"
    by (simp add: file_blocks_def f)
  have "file_at blk nblk dev_ok v sv (s\<lparr>sfs_device := d\<rparr>)"
    using at sfs_inv_dev [of nblk dev_ok s d] d file_ok_cong [OF ok f order_refl] by (simp add: file_at_def)
  moreover have "file_step blk v sv s sv (s\<lparr>sfs_device := d\<rparr>)"
    using file_step_refl [OF at] B by (simp add: file_step_def fb)
  ultimately show ?thesis by simp
qed

text \<open>Filling a hole of the file, or giving it an indirect block.\<close>

lemma file_step_grow:
  assumes at: "file_at blk nblk dev_ok v sv s"
    and s': "sfs_inv nblk dev_ok s'" "sfs_heap s' = (sfs_heap s)(v := Some sv')" "sfs_super s' = sfs_super s"
      "sfs_superdirty s' = sfs_superdirty s" "sfs_vnodes s' = sfs_vnodes s" "sfs_nextptr s' = sfs_nextptr s"
      "sfs_kmalloc s' = sfs_kmalloc s" "vfs_biglock_depth s' = vfs_biglock_depth s"
    and sv': "vn_refcount sv' = vn_refcount sv" "vn_opencount sv' = vn_opencount sv" "vn_ops sv' = vn_ops sv"
      "sv_ino sv' = sv_ino sv" "sfi_type (sv_i sv') = sfi_type (sv_i sv)"
      "sfi_linkcount (sv_i sv') = sfi_linkcount (sv_i sv)"
    and ok: "file_ok (sfs_used s') (sp_nblocks (sfs_super s)) (blk (sfs_device s')) (sv_i sv')"
    and new: "sfs_used s' = insert x (sfs_used s)" "x \<notin> sfs_used s"
      "file_blocks (blk (sfs_device s')) (sv_i sv') = insert x (file_blocks (blk (sfs_device s)) (sv_i sv))"
    and B: "\<And>y. y \<in> sfs_used s \<Longrightarrow> y \<notin> file_blocks (blk (sfs_device s)) (sv_i sv) \<Longrightarrow>
      blk (sfs_device s') y = blk (sfs_device s) y"
  shows "file_at blk nblk dev_ok v sv' s' \<and> file_step blk v sv s sv' s'"
proof -
  have "file_blocks (blk (sfs_device s)) (sv_i sv) \<subseteq> sfs_used s"
    using at by (auto simp: file_at_def dest: file_okD(2))
  then show ?thesis using assms by (auto simp: file_at_def file_step_def)
qed

text \<open>A step that keeps the size and the contents of the file.\<close>

definition file_same ::
    "('d \<Rightarrow> nat \<Rightarrow> u8 list) \<Rightarrow> ('d \<Rightarrow> nat) \<Rightarrow> ('d \<Rightarrow> bool) \<Rightarrow> nat \<Rightarrow> sfs_vnode \<Rightarrow> 'd sfs_fs \<Rightarrow>
      sfs_vnode \<Rightarrow> 'd sfs_fs \<Rightarrow> bool" where
  "file_same blk nblk dev_ok v sv s sv' s' \<longleftrightarrow>
     file_at blk nblk dev_ok v sv' s' \<and> file_step blk v sv s sv' s' \<and>
     sfi_size (sv_i sv') = sfi_size (sv_i sv) \<and>
     (\<forall>k < 143. fblock (blk (sfs_device s')) (sv_i sv') k = fblock (blk (sfs_device s)) (sv_i sv) k)"

lemma file_same_refl: "file_at blk nblk dev_ok v sv s \<Longrightarrow> file_same blk nblk dev_ok v sv s sv s"
  by (simp add: file_same_def file_step_refl)

lemma file_same_trans:
  "file_same blk nblk dev_ok v sv s sv' s' \<Longrightarrow> file_same blk nblk dev_ok v sv' s' sv'' s'' \<Longrightarrow>
    file_same blk nblk dev_ok v sv s sv'' s''"
  unfolding file_same_def using file_step_trans [of blk v sv s sv' s' sv'' s''] by simp

lemma file_same_dev:
  assumes "file_at blk nblk dev_ok v sv s" "dev_ok d" "nblk d = nblk (sfs_device s)"
    "blk d = blk (sfs_device s)"
  shows "file_same blk nblk dev_ok v sv s sv (s\<lparr>sfs_device := d\<rparr>)"
  using file_step_dev [where blk = blk and nblk = nblk and dev_ok = dev_ok, OF assms] assms(4)
  by (simp add: file_same_def)

text \<open>A step that at most turns the disk to another state with the same blocks.\<close>

definition dev_same ::
    "('d \<Rightarrow> nat \<Rightarrow> u8 list) \<Rightarrow> ('d \<Rightarrow> nat) \<Rightarrow> ('d \<Rightarrow> bool) \<Rightarrow> 'd sfs_fs \<Rightarrow> 'd sfs_fs \<Rightarrow> bool" where
  "dev_same blk nblk dev_ok s s' \<longleftrightarrow> s' = s\<lparr>sfs_device := sfs_device s'\<rparr> \<and> dev_ok (sfs_device s') \<and>
     nblk (sfs_device s') = nblk (sfs_device s) \<and> blk (sfs_device s') = blk (sfs_device s)"

lemma dev_same_refl: "sfs_inv nblk dev_ok s \<Longrightarrow> dev_same blk nblk dev_ok s s"
  by (simp add: dev_same_def sfs_inv_def)

lemma dev_same_trans:
  assumes "dev_same blk nblk dev_ok s s'" "dev_same blk nblk dev_ok s' s''"
  shows "dev_same blk nblk dev_ok s s''"
proof -
  have "s'' = s'\<lparr>sfs_device := sfs_device s''\<rparr>" "s' = s\<lparr>sfs_device := sfs_device s'\<rparr>"
    using assms by (simp_all only: dev_same_def)
  then have "s'' = s\<lparr>sfs_device := sfs_device s''\<rparr>" by (metis sfs_fs.update_convs(3) sfs_fs.surjective)
  then show ?thesis using assms unfolding dev_same_def by simp
qed

lemma dev_same_file:
  assumes "file_at blk nblk dev_ok v sv s" "dev_same blk nblk dev_ok s s'"
  shows "file_same blk nblk dev_ok v sv s sv s'"
  using file_same_dev [where blk = blk and nblk = nblk and dev_ok = dev_ok, OF assms(1), of "sfs_device s'"]
    assms(2) unfolding dev_same_def by metis

context block_device
begin

lemma balloc_bound:
  assumes "sfs_inv nblk dev_ok s" "b < sp_nblocks (sfs_super s)"
  shows "b < 2 ^ 32"
  using assms(2) sfs_invD(2) [OF assms(1)] nblk_bound [OF sfs_invD(1) [OF assms(1)]] by simp

text \<open>Writing a block of the file.\<close>

lemma sfs_wblock_file_dev:
  assumes at: "file_at blk nblk dev_ok v sv s" and fb: "fb < 143"
    and b: "fmap (blk (sfs_device s)) (sv_i sv) fb = b" "b \<noteq> 0"
    and d: "dev_ok d" "nblk d = nblk (sfs_device s)" "blk d = (blk (sfs_device s))(b := buf)" and buf: "length buf = 512"
  shows "file_at blk nblk dev_ok v sv (s\<lparr>sfs_device := d\<rparr>) \<and> file_step blk v sv s sv (s\<lparr>sfs_device := d\<rparr>) \<and>
    fmap (blk d) (sv_i sv) = fmap (blk (sfs_device s)) (sv_i sv) \<and>
    (\<forall>k < 143. fblock (blk d) (sv_i sv) k = (if k = fb then buf else fblock (blk (sfs_device s)) (sv_i sv) k))"
proof -
  let ?B = "blk (sfs_device s)" and ?i = "sv_i sv"
  have inv: "sfs_inv nblk dev_ok s" and ok: "file_ok (sfs_used s) (sp_nblocks (sfs_super s)) ?B ?i"
    using at by (auto simp: file_at_def)
  have mem: "b \<in> file_blocks ?B ?i" using file_blocksI(1) [OF fb, of ?B ?i] b by simp
  have ind: "b \<noteq> sfi_indirect ?i" using file_okD(4) [OF ok fb] b by simp
  have f: "fmap (blk d) ?i = fmap ?B ?i" using ind d(3) by (auto simp: fmap_def)
  have inj: "fmap ?B ?i k = b \<longleftrightarrow> k = fb" if "k < 143" for k
    using file_okD(5) [OF ok that fb] b by auto
  have "fblock (blk d) ?i k = (if k = fb then buf else fblock ?B ?i k)" if "k < 143" for k
    using fblock_write [OF f d(3) b(2), of k] inj [OF that] by simp
  moreover have "file_at blk nblk dev_ok v sv (s\<lparr>sfs_device := d\<rparr>) \<and> file_step blk v sv s sv (s\<lparr>sfs_device := d\<rparr>)"
    by (rule file_step_write [OF at d(1,2) f]) (use mem d(3) in auto)
  ultimately show ?thesis using f by simp
qed

lemma sfs_wblock_file:
  assumes env: "env_dio env = d_io" and at: "file_at blk nblk dev_ok v sv s" and fb: "fb < 143"
    and b: "fmap (blk (sfs_device s)) (sv_i sv) fb = b" "b \<noteq> 0" and buf: "length buf = 512"
  shows "\<exists>s'. sfs_wblock env buf b s = Ok () s' \<and> file_at blk nblk dev_ok v sv s' \<and>
    file_step blk v sv s sv s' \<and> fmap (blk (sfs_device s')) (sv_i sv) = fmap (blk (sfs_device s)) (sv_i sv) \<and>
    (\<forall>k < 143. fblock (blk (sfs_device s')) (sv_i sv) k =
      (if k = fb then buf else fblock (blk (sfs_device s)) (sv_i sv) k))"
proof -
  have inv: "sfs_inv nblk dev_ok s"
    and ok: "file_ok (sfs_used s) (sp_nblocks (sfs_super s)) (blk (sfs_device s)) (sv_i sv)"
    using at by (auto simp: file_at_def)
  have mem: "b \<in> file_blocks (blk (sfs_device s)) (sv_i sv)"
    using file_blocksI(1) [OF fb, of "blk (sfs_device s)" "sv_i sv"] b by simp
  from sfs_wblock_ok [OF env inv file_okD(3) [OF ok mem] buf] obtain d where
    d: "sfs_wblock env buf b s = Ok () (s\<lparr>sfs_device := d\<rparr>)" "dev_ok d" "nblk d = nblk (sfs_device s)"
      "blk d = (blk (sfs_device s))(b := buf)" by blast
  then show ?thesis using sfs_wblock_file_dev [OF at fb b d(2-4) buf] by auto
qed

lemma sfs_bmap_direct_alloc:
  assumes env: "env_dio env = d_io" and at: "file_at blk nblk dev_ok v sv s" and fb: "fb < 15"
    and hole: "sfi_direct (sv_i sv) ! fb = 0"
  shows "sfs_bmap_direct env v fb True s = Err ENOSPC s \<or>
    (\<exists>b s' sv'. sfs_bmap_direct env v fb True s = Ok b s' \<and> file_same blk nblk dev_ok v sv s sv' s' \<and>
      b \<noteq> 0 \<and> fmap (blk (sfs_device s')) (sv_i sv') fb = b)"
proof -
  let ?B = "blk (sfs_device s)" and ?i = "sv_i sv"
  have inv: "sfs_inv nblk dev_ok s" and h: "sfs_heap s v = Some sv"
    and ok: "file_ok (sfs_used s) (sp_nblocks (sfs_super s)) ?B ?i"
    using at by (auto simp: file_at_def)
  show ?thesis
  proof (cases rule: sfs_balloc_cases [OF env inv])
    case 1
    then show ?thesis using h hole by (simp add: sfs_bmap_direct_def kfun_defs get_sv_def)
  next
    case (2 b m d)
    define sv' where "sv' = sv\<lparr>sv_i := ?i\<lparr>sfi_direct := (sfi_direct ?i)[fb := b]\<rparr>, sv_dirty := True\<rparr>"
    define s1 where "s1 = s\<lparr>sfs_freemap := m, sfs_freemapdirty := True, sfs_device := d\<rparr>"
    define s' where "s' = s1\<lparr>sfs_heap := (sfs_heap s)(v := Some sv')\<rparr>"
    have i': "inode_ok (sv_i sv')"
      using file_okD(1) [OF ok] balloc_bound [OF inv 2(3)]
      by (auto simp: inode_ok_def sv'_def list_all_iff dest: set_update_subset_insert [THEN subsetD])
    have hole': "fmap ?B ?i fb = 0" using fb hole by (simp add: fmap_def)
    have f: "fmap (blk d) (sv_i sv') = (fmap ?B ?i)(fb := b)"
      using fmap_direct [OF file_okD(1) [OF ok] fb, of "blk d" ?B b] fresh_not_indirect [OF ok 2(4,2)] 2(10)
      by (simp add: sv'_def)
    have fb143: "fb < 143" using fb by simp
    have ind: "sfi_indirect (sv_i sv') = sfi_indirect ?i" by (simp add: sv'_def)
    note grow = file_ok_grow [OF ok f ind 2(4,3,2) 2(7) i' fb143 hole']
    have used: "b \<in> sfs_used s'" "b < sp_nblocks (sfs_super s')" "sfs_inv nblk dev_ok s'"
      using 2(3,7,11) by (auto simp: s'_def s1_def)
    have "sfs_bmap_direct env v fb True s = Ok b s'"
      using h hole 2(1) sfs_checkused_ok [OF used(3,2,1)]
      by (simp add: sfs_bmap_direct_def kfun_defs get_sv_def mod_sv_def put_sv_def s'_def s1_def sv'_def)
    moreover have "file_at blk nblk dev_ok v sv' s' \<and> file_step blk v sv s sv' s'"
      by (rule file_step_grow [OF at, of s' sv' b])
         (use used(3) grow 2(4,7,10) in \<open>auto simp: s'_def s1_def sv'_def\<close>)
    moreover have "fblock (blk d) (sv_i sv') k = fblock ?B ?i k" if "k < 143" for k
      using fresh_not_mapped [OF ok 2(4) that] 2(10) by (intro fblock_hole [OF f hole' 2(2)]) simp_all
    ultimately show ?thesis
      using 2(2) f
      by (intro disjI2 exI [of _ b] exI [of _ s'] exI [of _ sv']) (simp add: file_same_def s'_def s1_def sv'_def)
  qed
qed

lemma sfs_idload_cases:
  assumes env: "env_dio env = d_io" and at: "file_at blk nblk dev_ok v sv s"
  obtains (nospace) "sfs_idload env v s = Err ENOSPC s" "sfi_indirect (sv_i sv) = 0"
  | (loaded) s' sv' where "sfs_idload env v s =
        Ok (sfi_indirect (sv_i sv'), get32s 128 (blk (sfs_device s') (sfi_indirect (sv_i sv')))) s'"
      "file_same blk nblk dev_ok v sv s sv' s'" "sfi_indirect (sv_i sv') \<noteq> 0"
      "fmap (blk (sfs_device s')) (sv_i sv') = fmap (blk (sfs_device s)) (sv_i sv)"
proof -
  let ?B = "blk (sfs_device s)" and ?i = "sv_i sv"
  have inv: "sfs_inv nblk dev_ok s" and h: "sfs_heap s v = Some sv"
    and ok: "file_ok (sfs_used s) (sp_nblocks (sfs_super s)) ?B ?i"
    using at by (auto simp: file_at_def)
  show thesis
  proof (cases "sfi_indirect ?i = 0")
    case False
    have "sfi_indirect ?i < sp_nblocks (sfs_super s)" using file_okD(3) [OF ok file_blocksI(2) [OF False]] .
    from sfs_rblock_ok [OF env inv this zeros_length] obtain d where
      d: "sfs_rblock env zeros (sfi_indirect ?i) s = Ok (?B (sfi_indirect ?i)) (s\<lparr>sfs_device := d\<rparr>)"
        "dev_ok d" "nblk d = nblk (sfs_device s)" "blk d = ?B" by blast
    show thesis
      using file_same_dev [where blk = blk and nblk = nblk and dev_ok = dev_ok, OF at d(2-4)] d(1,4) False h
      by (intro loaded [where s' = "s\<lparr>sfs_device := d\<rparr>" and sv' = sv])
         (simp_all add: sfs_idload_def kfun_defs get_sv_def SFS_DBPERIDB_def Let_def)
  next
    case True
    show thesis
    proof (cases rule: sfs_balloc_cases [OF env inv])
      case 1
      then show thesis using h True by (intro nospace) (simp_all add: sfs_idload_def kfun_defs get_sv_def)
    next
      case (2 x m d)
      define sv' where "sv' = sv\<lparr>sv_i := ?i\<lparr>sfi_indirect := x\<rparr>, sv_dirty := True\<rparr>"
      define s' where "s' = s\<lparr>sfs_freemap := m, sfs_freemapdirty := True, sfs_device := d,
        sfs_heap := (sfs_heap s)(v := Some sv')\<rparr>"
      have i': "inode_ok (sv_i sv')"
        using file_okD(1) [OF ok] balloc_bound [OF inv 2(3)] by (simp add: inode_ok_def sv'_def)
      have f: "fmap (blk d) (sv_i sv') = fmap ?B ?i"
        using fmap_newindirect [OF True, of "blk d" x ?B] 2(2,10) by (simp add: sv'_def)
      have ind: "sfi_indirect (sv_i sv') = x" by (simp add: sv'_def)
      note grow = file_ok_newindirect [OF ok f True ind 2(4,3,2) 2(7) i']
      have "file_at blk nblk dev_ok v sv' s' \<and> file_step blk v sv s sv' s'"
        by (rule file_step_grow [OF at, of s' sv' x])
           (use 2(11) grow 2(4,7,10) in \<open>auto simp: s'_def sv'_def\<close>)
      moreover have "fblock (blk d) (sv_i sv') k = fblock ?B ?i k" if "k < 143" for k
        using fblock_write [OF f 2(10,2), of k] fresh_not_mapped [OF ok 2(4) that] 2(2) by auto
      ultimately have same: "file_same blk nblk dev_ok v sv s sv' s'"
        by (simp add: file_same_def s'_def sv'_def)
      have "sfs_idload env v s = Ok (x, replicate 128 0) s'"
        using h True 2(1)
        by (simp add: sfs_idload_def kfun_defs get_sv_def mod_sv_def put_sv_def SFS_DBPERIDB_def s'_def sv'_def)
      then show thesis
        using same f ind 2(2,10) by (intro loaded [where s' = s' and sv' = sv']) (simp_all add: s'_def)
    qed
  qed
qed

text \<open>The second half of the indirect case: filling a hole through the loaded indirect block.\<close>

lemma sfs_indirect_fill:
  assumes env: "env_dio env = d_io" and at: "file_at blk nblk dev_ok v sv s"
    and fb: "15 \<le> fb" "fb < 143" and ind: "sfi_indirect (sv_i sv) = x" "x \<noteq> 0"
    and hole: "fmap (blk (sfs_device s)) (sv_i sv) fb = 0"
    and ids: "ids = get32s 128 (blk (sfs_device s) x)"
  obtains (nospace) "sfs_balloc env s = Err ENOSPC s"
  | (filled) b s1 s' where "sfs_balloc env s = Ok b s1"
      "sfs_wblock env (put32s (ids[fb - 15 := b])) x s1 = Ok () s'"
      "file_same blk nblk dev_ok v sv s sv s'" "b \<noteq> 0" "fmap (blk (sfs_device s')) (sv_i sv) fb = b"
proof -
  let ?B = "blk (sfs_device s)" and ?i = "sv_i sv"
  have inv: "sfs_inv nblk dev_ok s" and h: "sfs_heap s v = Some sv"
    and ok: "file_ok (sfs_used s) (sp_nblocks (sfs_super s)) ?B ?i"
    using at by (auto simp: file_at_def)
  show thesis
  proof (cases rule: sfs_balloc_cases [OF env inv])
    case 1
    then show thesis by (intro nospace)
  next
    case (2 b m d)
    let ?s1 = "s\<lparr>sfs_freemap := m, sfs_freemapdirty := True, sfs_device := d\<rparr>"
    let ?buf = "put32s (ids[fb - 15 := b])"
    have x: "x \<in> file_blocks ?B ?i" "x < sp_nblocks (sfs_super ?s1)"
      using file_blocksI(2) [of ?i ?B] file_okD(3) [OF ok file_blocksI(2)] ind by auto
    have "length ?buf = 512" using ids by simp
    from sfs_wblock_ok [OF env 2(11) x(2) this] obtain d' where
      d': "sfs_wblock env ?buf x ?s1 = Ok () (?s1\<lparr>sfs_device := d'\<rparr>)" "dev_ok d'" "nblk d' = nblk d"
        "blk d' = (blk d)(x := ?buf)" by auto
    let ?s' = "?s1\<lparr>sfs_device := d'\<rparr>"
    have xb: "x \<noteq> b" using fresh_not_indirect [OF ok 2(4,2)] ind by simp
    have B': "blk d' y = (if y = x then ?buf else if y = b then zeros else ?B y)" for y
      using d'(4) 2(10) by simp
    have f: "fmap (blk d') ?i = (fmap ?B ?i)(fb := b)"
      using fmap_indirect [OF fb _ balloc_bound [OF inv 2(3)], of ?i "blk d'" ?B] ind ids B' by simp
    note grow = file_ok_grow [OF ok f refl 2(4,3,2) 2(7) file_okD(1) [OF ok] fb(2) hole]
    have "sfs_inv nblk dev_ok ?s'" using sfs_inv_alloc [OF inv d'(2) _ 2(5,6)] d'(3) 2(7,9) by auto
    then have "file_at blk nblk dev_ok v sv ?s' \<and> file_step blk v sv s sv ?s'"
      by (intro file_step_grow [OF at, of ?s' sv b]) (use grow 2(4,7) B' x(1) h in auto)
    moreover have "fblock (blk d') ?i k = fblock ?B ?i k" if "k < 143" for k
    proof (rule fblock_hole [OF f hole 2(2)])
      show "blk d' b = zeros" using B' xb by simp
      assume "fmap ?B ?i k \<noteq> 0"
      then show "blk d' (fmap ?B ?i k) = ?B (fmap ?B ?i k)"
        using B' fresh_not_mapped [OF ok 2(4) that] file_okD(4) [OF ok that] ind(1) by simp
    qed
    ultimately have "file_same blk nblk dev_ok v sv s sv ?s'" by (simp add: file_same_def)
    then show thesis using 2(1,2) d'(1) f by (intro filled [where b = b and s' = ?s']) simp_all
  qed
qed

lemma sfs_bmap_alloc:
  assumes env: "env_dio env = d_io" and at: "file_at blk nblk dev_ok v sv s" and fb: "fb < 143"
  obtains (nospace) s' sv' where "sfs_bmap env v fb True s = Err ENOSPC s'" "file_same blk nblk dev_ok v sv s sv' s'"
  | (mapped) b s' sv' where "sfs_bmap env v fb True s = Ok b s'" "file_same blk nblk dev_ok v sv s sv' s'"
      "b \<noteq> 0" "fmap (blk (sfs_device s')) (sv_i sv') fb = b"
proof (cases "fb < 15")
  case direct: True
  have inv: "sfs_inv nblk dev_ok s" and h: "sfs_heap s v = Some sv"
    and ok: "file_ok (sfs_used s) (sp_nblocks (sfs_super s)) (blk (sfs_device s)) (sv_i sv)"
    using at by (auto simp: file_at_def)
  have eq: "sfs_bmap env v fb True = sfs_bmap_direct env v fb True"
    using direct by (simp add: sfs_bmap_def SFS_NDIRECT_def)
  let ?b = "sfi_direct (sv_i sv) ! fb"
  show thesis
  proof (cases "?b = 0")
    case True
    from sfs_bmap_direct_alloc [OF env at direct True] show thesis
      using nospace [OF _ file_same_refl [OF at]] mapped eq by metis
  next
    case False
    have m: "fmap (blk (sfs_device s)) (sv_i sv) fb = ?b" using direct by (simp add: fmap_def)
    then have "?b \<in> file_blocks (blk (sfs_device s)) (sv_i sv)" using file_blocksI(1) [OF fb] False by metis
    then have "sfs_checkused ?b s = Ok () s"
      using sfs_checkused_ok [OF inv] file_okD(2,3) [OF ok] by simp
    then have "sfs_bmap env v fb True s = Ok ?b s"
      using h False by (simp add: eq sfs_bmap_direct_def kfun_defs get_sv_def Let_def)
    then show thesis using mapped [OF _ file_same_refl [OF at] False m] by simp
  qed
next
  case False
  then have off: "15 \<le> fb" "(fb - 15) div 128 = 0" "(fb - 15) mod 128 = fb - 15" using fb by auto
  have h: "sfs_heap s v = Some sv" using at by (simp add: file_at_def)
  have eq: "sfs_bmap env v fb True s =
    kbind (sfs_idload env v) (\<lambda>(idblock, idbuf).
      kbind (if idbuf ! (fb - 15) = 0 then
               kbind (sfs_balloc env) (\<lambda>block.
               kbind (sfs_wblock env (put32s (idbuf[fb - 15 := block])) idblock) (\<lambda>_. kret block))
             else kret (idbuf ! (fb - 15))) (\<lambda>block.
      kbind (sfs_checkused block) (\<lambda>_. kret block))) s"
    using off h by (simp add: sfs_bmap_def sfs_bmap_indirect_def SFS_NDIRECT_def SFS_DBPERIDB_def
        kbind_def get_sv_def Let_def)
  show thesis
  proof (cases rule: sfs_idload_cases [OF env at])
    case 1
    then show thesis using nospace [OF _ file_same_refl [OF at]] eq by (simp add: kbind_def)
  next
    case (2 s1 sv1)
    let ?x = "sfi_indirect (sv_i sv1)" and ?B = "blk (sfs_device s1)"
    let ?ids = "get32s 128 (?B ?x)"
    have at1: "file_at blk nblk dev_ok v sv1 s1" using 2(2) by (simp add: file_same_def)
    then have inv1: "sfs_inv nblk dev_ok s1"
      and ok1: "file_ok (sfs_used s1) (sp_nblocks (sfs_super s1)) ?B (sv_i sv1)" by (auto simp: file_at_def)
    have m: "fmap ?B (sv_i sv1) fb = ?ids ! (fb - 15)" using off(1) fb 2(3) by (simp add: fmap_def)
    have used: "sfs_checkused (fmap (blk (sfs_device s')) (sv_i sv') fb) s' = Ok () s'"
      if "file_at blk nblk dev_ok v sv' s'" "fmap (blk (sfs_device s')) (sv_i sv') fb \<noteq> 0" for s' sv'
    proof -
      have inv': "sfs_inv nblk dev_ok s'"
        and ok': "file_ok (sfs_used s') (sp_nblocks (sfs_super s')) (blk (sfs_device s')) (sv_i sv')"
        using that(1) by (auto simp: file_at_def)
      show ?thesis using sfs_checkused_ok [OF inv'] file_okD(2,3) [OF ok' file_blocksI(1) [OF fb that(2)]] by simp
    qed
    show thesis
    proof (cases "?ids ! (fb - 15) = 0")
      case False
      then have "sfs_bmap env v fb True s = Ok (?ids ! (fb - 15)) s1"
        using m used [OF at1] eq 2(1) by (simp add: kbind_def kret_def)
      then show thesis using 2(2) False m by (rule mapped)
    next
      case hole: True
      have hole': "fmap ?B (sv_i sv1) fb = 0" using m hole by simp
      show thesis
      proof (cases rule: sfs_indirect_fill [OF env at1 off(1) fb refl 2(3) hole' refl])
        case 1
        then show thesis using nospace [OF _ 2(2)] eq 2(1) hole by (simp add: kbind_def)
      next
        case 3: (2 b s2 s3)
        have at3: "file_at blk nblk dev_ok v sv1 s3" using 3(3) by (simp add: file_same_def)
        then show thesis
          using mapped [OF _ file_same_trans [OF 2(2) 3(3)] 3(4,5)] eq 2(1) hole 3(1,2) used [OF at3] 3(4,5)
          by (simp add: kbind_def kret_def)
      qed
    qed
  qed
qed

lemma sfs_bmap_get:
  assumes env: "env_dio env = d_io" and at: "file_at blk nblk dev_ok v sv s" and fb: "fb < 143"
  shows "\<exists>s'. sfs_bmap env v fb False s = Ok (fmap (blk (sfs_device s)) (sv_i sv) fb) s' \<and>
    dev_same blk nblk dev_ok s s'"
proof -
  let ?B = "blk (sfs_device s)" and ?i = "sv_i sv"
  have inv: "sfs_inv nblk dev_ok s" and h: "sfs_heap s v = Some sv"
    and ok: "file_ok (sfs_used s) (sp_nblocks (sfs_super s)) ?B ?i"
    using at by (auto simp: file_at_def)
  have used: "sfs_checkused (fmap ?B ?i fb) s' = Ok () s'"
    if "sfs_inv nblk dev_ok s'" "sfs_super s' = sfs_super s" "sfs_used s' = sfs_used s" for s'
    using sfs_checkused_ok [OF that(1)] file_okD(2,3) [OF ok file_blocksI(1) [OF fb]] that(2,3)
    by (cases "fmap ?B ?i fb = 0") (simp_all add: kret_def)
  show ?thesis
  proof (cases "fb < 15")
    case True
    then have "sfs_bmap env v fb False s = Ok (fmap ?B ?i fb) s"
      using h used [OF inv refl refl]
      by (simp add: sfs_bmap_def SFS_NDIRECT_def sfs_bmap_direct_def kfun_defs get_sv_def Let_def fmap_def)
    then show ?thesis using dev_same_refl [OF inv] by blast
  next
    case False
    then have off: "15 \<le> fb" "(fb - 15) div 128 = 0" "(fb - 15) mod 128 = fb - 15" using fb by auto
    show ?thesis
    proof (cases "sfi_indirect ?i = 0")
      case True
      then have "sfs_bmap env v fb False s = Ok (fmap ?B ?i fb) s"
        using h off fb by (simp add: sfs_bmap_def SFS_NDIRECT_def sfs_bmap_indirect_def SFS_DBPERIDB_def
            kfun_defs get_sv_def Let_def fmap_def)
      then show ?thesis using dev_same_refl [OF inv] by blast
    next
      case ind: False
      have "sfi_indirect ?i < sp_nblocks (sfs_super s)" using file_okD(3) [OF ok file_blocksI(2) [OF ind]] .
      from sfs_rblock_ok [OF env inv this zeros_length] obtain d where
        d: "sfs_rblock env zeros (sfi_indirect ?i) s = Ok (?B (sfi_indirect ?i)) (s\<lparr>sfs_device := d\<rparr>)"
          "dev_ok d" "nblk d = nblk (sfs_device s)" "blk d = ?B" by blast
      have "sfs_bmap env v fb False s = Ok (fmap ?B ?i fb) (s\<lparr>sfs_device := d\<rparr>)"
        using h off fb ind d(1) used [OF sfs_inv_dev [OF inv d(2,3)]]
        by (simp add: sfs_bmap_def SFS_NDIRECT_def sfs_bmap_indirect_def sfs_idload_def SFS_DBPERIDB_def
            kfun_defs get_sv_def Let_def fmap_def)
      then show ?thesis using d by (auto simp: dev_same_def)
    qed
  qed
qed

lemma sfs_bmap_lookup:
  assumes "env_dio env = d_io" "file_at blk nblk dev_ok v sv s" "fb < 143"
  shows "\<exists>s'. sfs_bmap env v fb False s = Ok (fmap (blk (sfs_device s)) (sv_i sv) fb) s' \<and>
    file_same blk nblk dev_ok v sv s sv s' \<and> blk (sfs_device s') = blk (sfs_device s)"
  using sfs_bmap_get [OF assms] dev_same_file [OF assms(2)] by (auto simp: dev_same_def)

end

lemma sfs_bmap_big: "143 \<le> fb \<Longrightarrow> sfs_bmap env v fb doalloc s = Err EFBIG s"
proof -
  assume "143 \<le> fb"
  then have "0 < (fb - 15) div 128" by (simp add: div_greater_zero_iff)
  then show ?thesis using \<open>143 \<le> fb\<close>
    by (simp add: sfs_bmap_def SFS_NDIRECT_def sfs_bmap_indirect_def SFS_DBPERIDB_def Let_def kerr_def)
qed

section \<open>A small volume\<close>

text \<open>
  A volume of eight blocks on a disk without errors: the superblock, the root directory, the free
  map, an inode in block 3 and the two data blocks 4 and 5 of that file. Block \<open>k\<close> of the disk is
  filled with the byte \<open>k\<close>.
\<close>

definition sample_sv :: sfs_vnode where
  "sample_sv = \<lparr>vn_refcount = 1, vn_opencount = 0, vn_ops = Sfs_fileops,
     sv_i = \<lparr>sfi_size = 1000, sfi_type = 1, sfi_linkcount = 1, sfi_direct = 4 # 5 # replicate 13 0,
       sfi_indirect = 0, sfi_waste = replicate 110 0\<rparr>, sv_ino = 3, sv_dirty = False\<rparr>"

definition sample_vol :: "(nat \<Rightarrow> u8 list) lhd_softc sfs_fs" where
  "sample_vol = \<lparr>sfs_super = sample_super\<lparr>sp_nblocks := 8\<rparr>, sfs_superdirty = False, sfs_device = sample_lhd,
     sfs_vnodes = [1], sfs_freemap = \<lparr>nbits = 8, bm_v = [0x3f]\<rparr>, sfs_freemapdirty = False,
     sfs_heap = [1 \<mapsto> sample_sv], sfs_nextptr = 2, sfs_kmalloc = [], vfs_biglock_depth = 1\<rparr>"

definition sample_env :: "(nat \<Rightarrow> u8 list) lhd_softc sfs_env" where
  "sample_env = \<lparr>env_dio = lhd_io mem_disk, env_u = sample_uenv\<rparr>"

abbreviation (input) "lhd_blk \<equiv> \<lambda>lh :: (nat \<Rightarrow> u8 list) lhd_softc. lh_disk lh"

lemma sample_env_dio: "env_dio sample_env = lhd_io mem_disk"
  by (simp add: sample_env_def)

lemma sample_used: "sfs_used sample_vol = {..<6}"
proof -
  have "bm_bit \<lparr>nbits = 8, bm_v = [0x3f]\<rparr> k \<longleftrightarrow> k < 6" if "k < 8" for k
  proof -
    have "(0x3f :: u8) = mask 6" by (simp add: mask_eq_exp_minus_1)
    then have "bit (0x3f :: u8) k \<longleftrightarrow> k < 6" using that by (simp only: bit_mask_iff) simp
    then show ?thesis using that by (simp add: bm_bit_def)
  qed
  then show ?thesis by (auto simp: sfs_used_def bitmap_set_def sample_vol_def)
qed

lemma sample_inv: "sfs_inv d_blocks (lhd_ready (\<lambda>d. d)) sample_vol"
proof -
  have "bitmap_inv \<lparr>nbits = 8, bm_v = [0x3f]\<rparr>" by (simp add: bitmap_inv_def)
  then show ?thesis
    by (simp add: sfs_inv_def sample_used) (simp add: sample_vol_def sample_lhd_def lhd_ready_def)
qed

lemma sample_fmap: "fmap B (sv_i sample_sv) fb = (if fb = 0 then 4 else if fb = 1 then 5 else 0)"
  by (auto simp: fmap_def sample_sv_def nth_Cons')

lemma sample_file_at: "file_at lhd_blk d_blocks (lhd_ready (\<lambda>d. d)) 1 sample_sv sample_vol"
proof -
  have "file_blocks B (sv_i sample_sv) = {4, 5}" for B
  proof -
    have "fmap B (sv_i sample_sv) ` {..<143} = {0, 4, 5}"
      unfolding sample_fmap by (auto simp: image_iff) (drule spec [of _ 2], simp)
    then show ?thesis by (auto simp: file_blocks_def sample_sv_def)
  qed
  moreover have "inode_ok (sv_i sample_sv)" by (simp add: inode_ok_def sample_sv_def list_all_replicate)
  ultimately have "file_ok (sfs_used sample_vol) 8 B (sv_i sample_sv)" for B
    unfolding file_ok_def by (auto simp: sample_used sample_fmap) (simp_all add: sample_sv_def)
  then show ?thesis using sample_inv by (simp add: file_at_def) (simp add: sample_vol_def)
qed

section \<open>Properties\<close>

text \<open>
  C11: \<^verbatim>\<open>sfs_bmap\<close> on a sound file and a block number the format can represent. Without
  allocation it returns the mapped block, or 0 for a hole, and changes nothing on disk. With
  allocation it returns a block that is mapped at that place and marked in use, or \<open>ENOSPC\<close>; either
  way the file stays sound (no block is used twice), its contents are the same as before (a fresh
  block is zeroed), and blocks that belong to anything else are untouched. It never panics.
\<close>

theorem sfs_bmap_correct:
  assumes "block_device d_io blk nblk dev_ok" "env_dio env = d_io"
    "file_at blk nblk dev_ok v sv s" "fb < 143"
  shows "(\<exists>s'. sfs_bmap env v fb False s = Ok (fmap (blk (sfs_device s)) (sv_i sv) fb) s' \<and>
      file_same blk nblk dev_ok v sv s sv s' \<and> blk (sfs_device s') = blk (sfs_device s)) \<and>
    (case sfs_bmap env v fb True s of
       Ok b s' \<Rightarrow> b \<noteq> 0 \<and> (\<exists>sv'. file_same blk nblk dev_ok v sv s sv' s' \<and>
         fmap (blk (sfs_device s')) (sv_i sv') fb = b \<and> b \<in> sfs_used s')
     | Err e s' \<Rightarrow> e = ENOSPC \<and> (\<exists>sv'. file_same blk nblk dev_ok v sv s sv' s')
     | Panic \<Rightarrow> False)"
proof (rule conjI)
  show "\<exists>s'. sfs_bmap env v fb False s = Ok (fmap (blk (sfs_device s)) (sv_i sv) fb) s' \<and>
      file_same blk nblk dev_ok v sv s sv s' \<and> blk (sfs_device s') = blk (sfs_device s)"
    using assms by (rule block_device.sfs_bmap_lookup)
  show "case sfs_bmap env v fb True s of
       Ok b s' \<Rightarrow> b \<noteq> 0 \<and> (\<exists>sv'. file_same blk nblk dev_ok v sv s sv' s' \<and>
         fmap (blk (sfs_device s')) (sv_i sv') fb = b \<and> b \<in> sfs_used s')
     | Err e s' \<Rightarrow> e = ENOSPC \<and> (\<exists>sv'. file_same blk nblk dev_ok v sv s sv' s')
     | Panic \<Rightarrow> False"
  proof (cases rule: block_device.sfs_bmap_alloc [OF assms])
    case (1 s' sv')
    then show ?thesis by auto
  next
    case (2 b s' sv')
    have "file_ok (sfs_used s') (sp_nblocks (sfs_super s')) (blk (sfs_device s')) (sv_i sv')"
      using 2(2) by (simp add: file_same_def file_at_def)
    then have "b \<in> sfs_used s'" using file_okD(2) [OF _ file_blocksI(1) [OF assms(4)]] 2(3,4) by auto
    then show ?thesis using 2 by auto
  qed
qed

theorem sfs_bmap_correct_witness:
  "(\<exists>s'. sfs_bmap sample_env 1 1 False sample_vol = Ok 5 s') \<and>
   (case sfs_bmap sample_env 1 20 True sample_vol of Ok b s' \<Rightarrow> b \<noteq> 0 | Err e s' \<Rightarrow> e = ENOSPC | Panic \<Rightarrow> False)"
proof -
  note bm = sfs_bmap_correct [OF mem.lhd.block_device_axioms sample_env_dio sample_file_at]
  have "\<exists>s'. sfs_bmap sample_env 1 1 False sample_vol = Ok 5 s'" using bm [of 1] by (auto simp: sample_fmap)
  moreover have "case sfs_bmap sample_env 1 20 True sample_vol of Ok b s' \<Rightarrow> b \<noteq> 0 | Err e s' \<Rightarrow> e = ENOSPC | Panic \<Rightarrow> False"
    using bm [of 20] by (auto split: kres.splits)
  ultimately show ?thesis by blast
qed

text \<open>
  A block number past the 15 direct and 128 indirect blocks is refused with \<open>EFBIG\<close> and nothing
  is changed.
\<close>

lemma sfs_bmap_efbig:
  assumes "143 \<le> fb"
  shows "sfs_bmap env v fb doalloc s = Err EFBIG s"
  using assms by (rule sfs_bmap_big)

text \<open>
  C38: a write that the disk reports as failed is reported to the caller as successful. The driver
  has consumed the request before the error, so the retry of \<^verbatim>\<open>sfs_rwblock\<close> transfers nothing and
  returns success; the block on disk is unchanged.
\<close>

theorem sfs_wblock_loses_error:
  assumes "env_dio env = lhd_io disk" "lhd_ready content (sfs_device s)" "0 < vfs_biglock_depth s"
    "length buf = 512" "Suc b < d_blocks (sfs_device s)"
    "\<And>bs d. disk b True bs d = (LHD_MEDIA OR LHD_ISWRITE, bs, d)"
  shows "\<exists>s'. sfs_wblock env buf b s = Ok () s' \<and> lh_disk (sfs_device s') = lh_disk (sfs_device s)"
proof -
  let ?u = "SFSUIO buf b UIO_WRITE"
  from lhd_failed_write [OF assms(2) SFSUIO_wf(1,2,5,7,6) [OF assms(4)] assms(5), of disk "env_u env"] assms(6)
  obtain lh u where r: "lhd_io disk (env_u env) (sfs_device s, ?u) = Err EIO (lh, u)"
      "lh_disk lh = lh_disk (sfs_device s)" "lhd_io disk (env_u env) (lh, u) = Ok () (lh, u)" by auto
  have "sfs_dio env (s, ?u) = Err EIO (s\<lparr>sfs_device := lh\<rparr>, u)"
    "sfs_dio env (s\<lparr>sfs_device := lh\<rparr>, u) = Ok () (s\<lparr>sfs_device := lh\<rparr>, u)"
    using r assms(1) by (simp_all add: sfs_dio_def)
  then have "sfs_rwblock_retry env 10 (s, ?u) = Ok () (s\<lparr>sfs_device := lh\<rparr>, u)"
    by (simp add: eval_nat_numeral)
  then show ?thesis
    using r(2) assms(3) by (auto simp: sfs_wblock_def sfs_rwblock_def vfs_biglock_do_i_hold_def)
qed

theorem sfs_wblock_loses_error_witness:
  "\<exists>s'. sfs_wblock \<lparr>env_dio = lhd_io (\<lambda>s w buf d. (LHD_MEDIA OR LHD_ISWRITE, buf, d)), env_u = sample_uenv\<rparr>
      (replicate 512 9) 4 sample_vol = Ok () s' \<and> lh_disk (sfs_device s') 4 = replicate 512 4"
proof -
  have "lhd_ready (\<lambda>d. d) (sfs_device sample_vol)" by (simp add: sample_vol_def sample_lhd_def lhd_ready_def)
  from sfs_wblock_loses_error [OF _ this, of "\<lparr>env_dio = lhd_io (\<lambda>s w buf d. (LHD_MEDIA OR LHD_ISWRITE, buf, d)), env_u = sample_uenv\<rparr>"
      "\<lambda>s w buf d. (LHD_MEDIA OR LHD_ISWRITE, buf, d)" "replicate 512 9" 4]
  show ?thesis by (auto simp: sample_vol_def sample_lhd_def)
qed

end
