(* ===== verification/Sfs_File.thy ===== *)
theory Sfs_File
  imports Sfs_Core "HOL-Library.Signed_Division"
begin

text \<open>
  File-level I/O of SFS (\<^verbatim>\<open>fs/sfs/sfs_vnode.c\<close>): transfers of part of a block, of a whole block,
  and of an arbitrary region. The state is the volume together with the request. A file is
  abstracted to one list of bytes, of the 143 blocks that an inode can address; reading takes a
  slice of it and writing overwrites one.
\<close>

section \<open>Model\<close>

definition on_sfs :: "('d sfs_fs, 'a) kfun \<Rightarrow> ('d sfs_fs \<times> uio, 'a) kfun" where
  "on_sfs m = (\<lambda>(s, u).
    case m s of Ok x s' \<Rightarrow> Ok x (s', u) | Err e s' \<Rightarrow> Err e (s', u) | Panic \<Rightarrow> Panic)"

definition sfs_uiomove :: "'d sfs_env \<Rightarrow> nat \<Rightarrow> nat \<Rightarrow> u8 list \<Rightarrow> ('d sfs_fs \<times> uio, u8 list) kfun" where
  "sfs_uiomove env ptr n buf = (\<lambda>(s, u).
    case uiomove (env_u env) ptr n \<lparr>u_uio = u, u_buf = buf\<rparr> of
      Ok _ st \<Rightarrow> Ok (u_buf st) (s, u_uio st)
    | Err e st \<Rightarrow> Err e (s, u_uio st)
    | Panic \<Rightarrow> Panic)"

definition sfs_uiomovezeros :: "'d sfs_env \<Rightarrow> nat \<Rightarrow> ('d sfs_fs \<times> uio, unit) kfun" where
  "sfs_uiomovezeros env n = (\<lambda>(s, u).
    case uiomovezeros (env_u env) n u of
      Ok _ u' \<Rightarrow> Ok () (s, u') | Err e u' \<Rightarrow> Err e (s, u') | Panic \<Rightarrow> Panic)"

text \<open>
  The quotient and the remainder of the signed file offset by the block size, as \<^verbatim>\<open>uint32_t\<close>.
  The division of C truncates towards zero.
\<close>

definition sfs_fileblock :: "uio \<Rightarrow> nat" where
  "sfs_fileblock u = nat ((uio_offset u sdiv int SFS_BLOCKSIZE) mod 2 ^ 32)"

definition sfs_blkoff :: "uio \<Rightarrow> nat" where
  "sfs_blkoff u = nat ((uio_offset u smod int SFS_BLOCKSIZE) mod 2 ^ 32)"

text \<open>
  The two transfer functions. \<^verbatim>\<open>sfs_partialio\<close> uses a static buffer, which is overwritten before it
  is read, so that its earlier contents do not matter.
\<close>

definition sfs_partialio :: "'d sfs_env \<Rightarrow> nat \<Rightarrow> nat \<Rightarrow> nat \<Rightarrow> ('d sfs_fs \<times> uio, unit) kfun" where
  "sfs_partialio env v skipstart len =
    kbind (kget snd) (\<lambda>u.
    let doalloc = (uio_rw u = UIO_WRITE) in
    kbind (kassert (add32 skipstart len \<le> SFS_BLOCKSIZE)) (\<lambda>_.
    kbind (on_sfs (sfs_bmap env v (sfs_fileblock u) doalloc)) (\<lambda>diskblock.
    kbind (if diskblock = 0 then kbind (kassert (uio_rw u = UIO_READ)) (\<lambda>_. kret zeros)
           else on_sfs (sfs_rblock env zeros diskblock)) (\<lambda>iobuf.
    kbind (sfs_uiomove env skipstart len iobuf) (\<lambda>iobuf.
    if uio_rw u = UIO_WRITE then on_sfs (sfs_wblock env iobuf diskblock) else kret ())))))"

definition sfs_blockio :: "'d sfs_env \<Rightarrow> nat \<Rightarrow> ('d sfs_fs \<times> uio, unit) kfun" where
  "sfs_blockio env v =
    kbind (kget snd) (\<lambda>u.
    let doalloc = (uio_rw u = UIO_WRITE) in
    kbind (on_sfs (sfs_bmap env v (sfs_fileblock u) doalloc)) (\<lambda>diskblock.
    if diskblock = 0 then
      kbind (kassert (uio_rw u = UIO_READ)) (\<lambda>_. sfs_uiomovezeros env SFS_BLOCKSIZE)
    else
      let saveoff = uio_offset u; diskoff = int (mul32 diskblock SFS_BLOCKSIZE);
          saveres = int (uio_resid u); diskres = int SFS_BLOCKSIZE in
      kbind (kassert (uio_resid u \<ge> SFS_BLOCKSIZE)) (\<lambda>_.
      kbind (kmod (\<lambda>(s, u). (s, u\<lparr>uio_offset := diskoff, uio_resid := nat diskres\<rparr>))) (\<lambda>_.
      kbind (ktry (sfs_rwblock env)) (\<lambda>result.
      kbind (kmod (\<lambda>(s, u). (s, u\<lparr>uio_offset := (uio_offset u - diskoff) + saveoff,
                                  uio_resid := nat (((int (uio_resid u) - diskres) + saveres) mod 2 ^ 32)\<rparr>))) (\<lambda>_.
      case result of Inl e \<Rightarrow> kerr e | Inr _ \<Rightarrow> kret ()))))))"

primrec sfs_blocks :: "'d sfs_env \<Rightarrow> nat \<Rightarrow> nat \<Rightarrow> ('d sfs_fs \<times> uio, unit) kfun" where
  "sfs_blocks env v 0 = kret ()"
| "sfs_blocks env v (Suc n) = kbind (sfs_blockio env v) (\<lambda>_. sfs_blocks env v n)"

text \<open>
  \<^verbatim>\<open>sfs_io\<close> after the leading partial block, and from that block up to the label \<^verbatim>\<open>out\<close>.
\<close>

definition sfs_io_tail :: "'d sfs_env \<Rightarrow> nat \<Rightarrow> ('d sfs_fs \<times> uio, unit) kfun" where
  "sfs_io_tail env v =
    kbind (kget snd) (\<lambda>u.
    if uio_resid u = 0 then kret ()
    else
      kbind (kassert (uio_offset u smod int SFS_BLOCKSIZE = 0)) (\<lambda>_.
      kbind (sfs_blocks env v (uio_resid u div SFS_BLOCKSIZE)) (\<lambda>_.
      kbind (kget snd) (\<lambda>u.
      kbind (kassert (uio_resid u < SFS_BLOCKSIZE)) (\<lambda>_.
      if uio_resid u > 0 then sfs_partialio env v 0 (uio_resid u) else kret ())))))"

definition sfs_io_body :: "'d sfs_env \<Rightarrow> nat \<Rightarrow> ('d sfs_fs \<times> uio, unit) kfun" where
  "sfs_io_body env v =
    kbind (kget snd) (\<lambda>u.
    let blkoff = sfs_blkoff u in
    kbind (if blkoff \<noteq> 0 then
             let len = sub32 SFS_BLOCKSIZE blkoff in
             sfs_partialio env v blkoff (if len > uio_resid u then uio_resid u else len)
           else kret ()) (\<lambda>_.
    sfs_io_tail env v))"

text \<open>The code after the label \<^verbatim>\<open>out\<close>.\<close>

definition sfs_io_out :: "nat \<Rightarrow> nat \<Rightarrow> ('d sfs_fs \<times> uio, unit) kfun" where
  "sfs_io_out v extraresid =
    kbind (kget snd) (\<lambda>u.
    kbind (on_sfs (get_sv v)) (\<lambda>sv.
    kbind (if uio_rw u = UIO_WRITE \<and> uio_offset u > int (sfi_size (sv_i sv)) then
             on_sfs (put_sv v (sv\<lparr>sv_i := (sv_i sv)\<lparr>sfi_size := nat (uio_offset u mod 2 ^ 32)\<rparr>, sv_dirty := True\<rparr>))
           else kret ()) (\<lambda>_.
    kmod (\<lambda>(s, u). (s, u\<lparr>uio_resid := add32 (uio_resid u) extraresid\<rparr>)))))"

definition sfs_io :: "'d sfs_env \<Rightarrow> nat \<Rightarrow> ('d sfs_fs \<times> uio, unit) kfun" where
  "sfs_io env v =
    kbind (kget snd) (\<lambda>u.
    kbind (on_sfs (get_sv v)) (\<lambda>sv.
    let fsize = int (sfi_size (sv_i sv)); endpos = uio_offset u + int (uio_resid u) in
    if uio_rw u = UIO_READ \<and> uio_offset u \<ge> fsize then kret ()
    else
      let extraresid = (if uio_rw u = UIO_READ \<and> endpos > fsize then nat (endpos - fsize) else 0) in
      kbind (kassert (extraresid = 0 \<or> uio_resid u > extraresid)) (\<lambda>_.
      kbind (kmod (\<lambda>(s, u). (s, u\<lparr>uio_resid := uio_resid u - extraresid\<rparr>))) (\<lambda>_.
      kbind (ktry (sfs_io_body env v)) (\<lambda>result.
      kbind (sfs_io_out v extraresid) (\<lambda>_.
      case result of Inl e \<Rightarrow> kerr e | Inr _ \<Rightarrow> kret ()))))))"

lemma kbind_kget: "kbind (kget f) g s = g (f s) s"
  by (simp add: kbind_def kget_def)

section \<open>A file as a list of bytes\<close>

definition slice :: "nat \<Rightarrow> nat \<Rightarrow> 'a list \<Rightarrow> 'a list" where
  "slice off n xs = take n (drop off xs)"

definition fbytes :: "(nat \<Rightarrow> u8 list) \<Rightarrow> sfs_inode \<Rightarrow> u8 list" where
  "fbytes B i = concat (map (fblock B i) [0..<143])"

definition SFS_MAXFILE :: nat where
  "SFS_MAXFILE = 143 * 512"

lemma slice_add: "slice off (m + n) xs = slice off m xs @ slice (off + m) n xs"
  by (simp add: slice_def take_add add.commute)

lemma slice_length: "off + n \<le> length xs \<Longrightarrow> length (slice off n xs) = n"
  by (simp add: slice_def)

lemma slice_slice: "skip + n \<le> c \<Longrightarrow> slice skip n (slice off c xs) = slice (off + skip) n xs"
  by (simp add: slice_def drop_take add.commute)

lemma overwrite_slice:
  assumes "skip + length bs \<le> c" "off + c \<le> length xs"
  shows "overwrite off (overwrite skip bs (slice off c xs)) xs = overwrite (off + skip) bs xs"
proof (rule nth_equalityI)
  have c: "length (slice off c xs) = c" using slice_length [OF assms(2)] .
  have o: "length (overwrite skip bs (slice off c xs)) = c" using assms(1) c by simp
  then show "length (overwrite off (overwrite skip bs (slice off c xs)) xs) = length (overwrite (off + skip) bs xs)"
    using assms by simp
  fix i assume "i < length (overwrite off (overwrite skip bs (slice off c xs)) xs)"
  then have i: "i < length xs" using o assms by simp
  have "overwrite skip bs (slice off c xs) ! (i - off) =
      (if off + skip \<le> i \<and> i < off + skip + length bs then bs ! (i - (off + skip)) else xs ! i)"
    if "off \<le> i" "i < off + c"
    using that assms c by (subst nth_overwrite) (auto simp: slice_def)
  then show "overwrite off (overwrite skip bs (slice off c xs)) xs ! i = overwrite (off + skip) bs xs ! i"
    using assms o i by (simp add: nth_overwrite)
qed

lemma length_concat_blocks:
  "(\<And>k. k < m \<Longrightarrow> length (f k) = c) \<Longrightarrow> length (concat (map f [0..<m])) = c * m"
  by (induction m) simp_all

lemma mult_next_le: "k < m \<Longrightarrow> c * k + c \<le> c * (m::nat)"
  by (metis Suc_leI add.commute mult_Suc_right mult_le_mono2)

lemma take_concat_blocks:
  assumes "\<And>k. k < m \<Longrightarrow> length (f k) = c" "k < m"
  shows "take c (drop (c * k) (concat (map f [0..<m]))) = f k"
  using assms
proof (induction m)
  case 0
  then show ?case by simp
next
  case (Suc m)
  have len: "length (concat (map f [0..<m])) = c * m" using Suc.prems by (intro length_concat_blocks) simp
  show ?case
  proof (cases "k = m")
    case True
    then show ?thesis using len Suc.prems(1) [of m] by simp
  next
    case False
    then have k: "k < m" using Suc.prems by simp
    then show ?thesis using len Suc.IH Suc.prems(1) mult_next_le [OF k, of c] by simp
  qed
qed

lemma concat_blocks_upd:
  assumes "\<And>k. k < m \<Longrightarrow> length (f k) = c" "j < m" "length x = c"
  shows "concat (map (\<lambda>k. if k = j then x else f k) [0..<m]) = overwrite (c * j) x (concat (map f [0..<m]))"
  using assms(1,2)
proof (induction m)
  case 0
  then show ?case by simp
next
  case (Suc m)
  have len: "length (concat (map f [0..<m])) = c * m"
    using Suc.prems(1) by (intro length_concat_blocks) simp
  show ?case
  proof (cases "j = m")
    case True
    have "map (\<lambda>k. if k = m then x else f k) [0..<m] = map f [0..<m]"
      by (rule map_cong) auto
    note front = arg_cong [OF this, of concat]
    show ?thesis using True len Suc.prems(1) [of m] assms(3) by (simp add: overwrite_def front)
  next
    case False
    then have j: "j < m" using Suc.prems(2) by simp
    then show ?thesis using mult_next_le [OF j, of c] Suc.IH [OF _ j] Suc.prems(1) False len assms(3) by (simp add: overwrite_def)
  qed
qed

lemma sfs_offset_nat:
  assumes "0 \<le> uio_offset u" "uio_offset u < 2 ^ 32"
  shows "sfs_fileblock u = nat (uio_offset u) div 512" "sfs_blkoff u = nat (uio_offset u) mod 512"
    "uio_offset u smod 512 = int (nat (uio_offset u) mod 512)"
proof -
  obtain k where k: "uio_offset u = int k" using assms(1) by (metis nonneg_int_cases)
  have q: "int k sdiv 512 = int (k div 512)" "int k smod 512 = int (k mod 512)"
    by (simp_all add: signed_divide_int_def signed_modulo_int_def zdiv_int zmod_int minus_div_mult_eq_mod sgn_if)
  have "k div 512 < 2 ^ 32" using assms(2) k by (simp add: div_le_dividend [THEN le_less_trans])
  then show "sfs_fileblock u = nat (uio_offset u) div 512" "sfs_blkoff u = nat (uio_offset u) mod 512"
    "uio_offset u smod 512 = int (nat (uio_offset u) mod 512)"
    using k q by (simp_all add: sfs_fileblock_def sfs_blkoff_def SFS_BLOCKSIZE_def nat_mod_as_int)
qed

lemma sfs_fileblock_eq:
  assumes "0 \<le> uio_offset u" "nat (uio_offset u) = 512 * k + skip" "skip < 512" "k < 143"
  shows "sfs_fileblock u = k"
proof -
  have "uio_offset u < 2 ^ 32" using assms by simp
  then show ?thesis using sfs_offset_nat(1) [OF assms(1)] assms(2,3) by simp
qed

section \<open>Transfers\<close>

text \<open>
  The bytes that a request moves when \<open>n\<close> bytes are transferred at its offset, between a file with the
  contents \<open>F\<close> and its regions; and the effect of such a transfer on the file and on the request. For
  a read the bytes are those of the file, so that overwriting the file with them changes nothing.
\<close>

definition uio_bytes :: "nat \<Rightarrow> u8 list \<Rightarrow> uio \<Rightarrow> u8 list" where
  "uio_bytes n F u = (if uio_rw u = UIO_READ then slice (nat (uio_offset u)) n F else take n (uio_left u))"

definition sfs_request :: "uenv \<Rightarrow> nat \<Rightarrow> uio \<Rightarrow> bool" where
  "sfs_request env n u \<longleftrightarrow> uio_wf u \<and> uio_ok env u \<and> 0 \<le> uio_offset u \<and> n \<le> uio_resid u \<and>
     nat (uio_offset u) + n \<le> SFS_MAXFILE"

definition file_xfer ::
    "('d \<Rightarrow> nat \<Rightarrow> u8 list) \<Rightarrow> ('d \<Rightarrow> nat) \<Rightarrow> ('d \<Rightarrow> bool) \<Rightarrow> uenv \<Rightarrow> nat \<Rightarrow> nat \<Rightarrow>
      sfs_vnode \<Rightarrow> 'd sfs_fs \<Rightarrow> uio \<Rightarrow> sfs_vnode \<Rightarrow> 'd sfs_fs \<Rightarrow> uio \<Rightarrow> bool" where
  "file_xfer blk nblk dev_ok env v n sv s u sv' s' u' \<longleftrightarrow>
     (let F = fbytes (blk (sfs_device s)) (sv_i sv); bs = uio_bytes n F u in
      file_at blk nblk dev_ok v sv' s' \<and> file_step blk v sv s sv' s' \<and>
      sfi_size (sv_i sv') = sfi_size (sv_i sv) \<and>
      fbytes (blk (sfs_device s')) (sv_i sv') = overwrite (nat (uio_offset u)) bs F \<and>
      uio_moves env bs u u' \<and> (uio_rw u = UIO_READ \<longrightarrow> sv' = sv \<and> dev_same blk nblk dev_ok s s'))"

lemma uio_bytes_length:
  assumes "sfs_request env n u" "length F = SFS_MAXFILE"
  shows "length (uio_bytes n F u) = n"
  using assms by (auto simp: sfs_request_def uio_bytes_def slice_def uio_wf_def)

lemma uio_bytes_moves:
  assumes r: "sfs_request env (m + n) u" and F: "length F = SFS_MAXFILE"
    and mv: "uio_moves env (uio_bytes m F u) u u'"
  shows "uio_bytes (m + n) F u =
    uio_bytes m F u @ uio_bytes n (overwrite (nat (uio_offset u)) (uio_bytes m F u) F) u'"
proof -
  have m: "length (uio_bytes m F u) = m"
    using r by (intro uio_bytes_length [OF _ F, of env]) (simp add: sfs_request_def)
  have off: "nat (uio_offset u') = nat (uio_offset u) + m"
    using mv m r by (simp add: uio_moves_def sfs_request_def nat_add_distrib)
  show ?thesis
  proof (cases "uio_rw u = UIO_READ")
    case True
    then have "overwrite (nat (uio_offset u)) (uio_bytes m F u) F = F"
      using overwrite_same by (simp add: uio_bytes_def slice_def)
    then show ?thesis using True mv off by (simp add: uio_bytes_def slice_add uio_moves_def)
  next
    case False
    then show ?thesis using mv m by (simp add: uio_bytes_def uio_moves_def take_add)
  qed
qed

lemma request_moves:
  assumes "sfs_request env (m + n) u" "uio_moves env bs u u'" "length bs = m"
  shows "sfs_request env n u'" "nat (uio_offset u') = nat (uio_offset u) + m"
  using assms by (auto simp: sfs_request_def uio_moves_def)

lemma request_le: "sfs_request env n u \<Longrightarrow> m \<le> n \<Longrightarrow> sfs_request env m u"
  by (simp add: sfs_request_def)

lemma request_offset:
  assumes "sfs_request env n u"
  shows "0 \<le> uio_offset u" "uio_offset u < 2 ^ 32"
proof -
  have "nat (uio_offset u) < 2 ^ 32" "0 \<le> uio_offset u"
    using assms by (auto simp: sfs_request_def SFS_MAXFILE_def)
  then show "0 \<le> uio_offset u" "uio_offset u < 2 ^ 32" by (simp_all add: nat_less_iff)
qed

lemma file_same_fbytes:
  "file_same blk nblk dev_ok v sv s sv' s' \<Longrightarrow>
    fbytes (blk (sfs_device s')) (sv_i sv') = fbytes (blk (sfs_device s)) (sv_i sv)"
  unfolding fbytes_def file_same_def by (intro arg_cong [of _ _ concat] map_cong) auto

lemma file_xfer_0:
  assumes "file_same blk nblk dev_ok v sv s sv' s'" "uio_wf u" "uio_ok env u"
    "uio_rw u = UIO_READ \<Longrightarrow> sv' = sv \<and> dev_same blk nblk dev_ok s s'"
  shows "file_xfer blk nblk dev_ok env v 0 sv s u sv' s' u"
  using assms file_same_fbytes [OF assms(1)]
  by (simp add: file_xfer_def file_same_def uio_moves_def uio_bytes_def slice_def Let_def)

text \<open>The outcome of a transfer of \<open>n\<close> bytes: all of them, or an initial part and \<open>ENOSPC\<close>.\<close>

definition xfer_res ::
    "('d \<Rightarrow> nat \<Rightarrow> u8 list) \<Rightarrow> ('d \<Rightarrow> nat) \<Rightarrow> ('d \<Rightarrow> bool) \<Rightarrow> uenv \<Rightarrow> nat \<Rightarrow> nat \<Rightarrow>
      sfs_vnode \<Rightarrow> 'd sfs_fs \<Rightarrow> uio \<Rightarrow> (unit, 'd sfs_fs \<times> uio) kres \<Rightarrow> bool" where
  "xfer_res blk nblk dev_ok env v n sv s u r \<longleftrightarrow>
     (\<exists>m sv' s' u'. m \<le> n \<and> file_xfer blk nblk dev_ok env v m sv s u sv' s' u' \<and>
        (r = Ok () (s', u') \<and> m = n \<or> r = Err ENOSPC (s', u') \<and> uio_rw u = UIO_WRITE))"

lemma xfer_done:
  "file_xfer blk nblk dev_ok env v n sv s u sv' s' u' \<Longrightarrow> xfer_res blk nblk dev_ok env v n sv s u (Ok () (s', u'))"
  by (auto simp: xfer_res_def)

lemma xfer_nospace:
  assumes "file_same blk nblk dev_ok v sv s sv' s'" "sfs_request env n u" "uio_rw u = UIO_WRITE"
  shows "xfer_res blk nblk dev_ok env v n sv s u (Err ENOSPC (s', u))"
  unfolding xfer_res_def
  using file_xfer_0 [OF assms(1), of u env] assms(2,3) by (auto simp: sfs_request_def)

text \<open>
  The window of \<^verbatim>\<open>sfs_blockio\<close>: a request narrowed to one block at another offset, and widened again
  after the transfer.
\<close>

definition uio_window :: "int \<Rightarrow> uio \<Rightarrow> uio" where
  "uio_window off u = u\<lparr>uio_offset := off, uio_resid := 512\<rparr>"

lemma uio_window_ok:
  assumes "uio_wf u" "uio_ok env u" "512 \<le> uio_resid u"
  shows "uio_wf (uio_window off u)" "uio_ok env (uio_window off u)" "uio_rw (uio_window off u) = uio_rw u"
    "uio_offset (uio_window off u) = off" "uio_resid (uio_window off u) = 512"
    "uio_left (uio_window off u) = uio_left u"
  using assms by (auto simp: uio_window_def uio_wf_def uio_ok_def uio_left_def)

lemma uio_window_moves:
  assumes "uio_moves env bs (uio_window off u) u'" "length bs = 512" "uio_wf u" "512 \<le> uio_resid u"
  shows "uio_moves env bs u (u'\<lparr>uio_offset := uio_offset u' - off + uio_offset u,
    uio_resid := nat ((int (uio_resid u') - 512 + int (uio_resid u)) mod 2 ^ 32)\<rparr>)"
proof -
  have "nat ((int (uio_resid u) - 512) mod 2 ^ 32) = uio_resid u - 512"
    using assms(3,4) by (simp add: uio_wf_def)
  then show ?thesis using assms
    by (auto simp: uio_moves_def uio_window_def uio_wf_def uio_ok_def uio_left_def uio_done_def)
qed

context block_device
begin

lemma fblock_length:
  assumes "file_at blk nblk dev_ok v sv s" "k < 143"
  shows "length (fblock (blk (sfs_device s)) (sv_i sv) k) = 512"
proof (cases "fmap (blk (sfs_device s)) (sv_i sv) k = 0")
  case False
  have inv: "sfs_inv nblk dev_ok s"
    and ok: "file_ok (sfs_used s) (sp_nblocks (sfs_super s)) (blk (sfs_device s)) (sv_i sv)"
    using assms(1) by (auto simp: file_at_def)
  have "fmap (blk (sfs_device s)) (sv_i sv) k < nblk (sfs_device s)"
    using file_okD(3) [OF ok file_blocksI(1) [OF assms(2) False]] sfs_invD(2) [OF inv] by simp
  then show ?thesis using False blk_length [OF sfs_invD(1) [OF inv]] by (simp add: fblock_def)
qed (simp add: fblock_def)

lemma fbytes_length:
  "file_at blk nblk dev_ok v sv s \<Longrightarrow> length (fbytes (blk (sfs_device s)) (sv_i sv)) = SFS_MAXFILE"
  unfolding fbytes_def SFS_MAXFILE_def
  by (subst length_concat_blocks [of 143 _ 512]) (simp_all add: fblock_length)

lemma fbytes_block:
  assumes "file_at blk nblk dev_ok v sv s" "k < 143"
  shows "slice (512 * k) 512 (fbytes (blk (sfs_device s)) (sv_i sv)) = fblock (blk (sfs_device s)) (sv_i sv) k"
  unfolding fbytes_def slice_def
  by (rule take_concat_blocks) (simp_all add: fblock_length [OF assms(1)] assms(2))

lemma fbytes_upd:
  assumes at: "file_at blk nblk dev_ok v sv s" and k: "k < 143" "length x = 512"
    and new: "\<forall>j < 143. fblock B i j = (if j = k then x else fblock (blk (sfs_device s)) (sv_i sv) j)"
  shows "fbytes B i = overwrite (512 * k) x (fbytes (blk (sfs_device s)) (sv_i sv))"
proof -
  have "map (fblock B i) [0..<143] = map (\<lambda>j. if j = k then x else fblock (blk (sfs_device s)) (sv_i sv) j) [0..<143]"
    using new by (intro map_cong) auto
  then show ?thesis
    unfolding fbytes_def by (simp only: concat_blocks_upd [OF fblock_length [OF at] k])
qed

lemma file_xfer_trans:
  assumes at: "file_at blk nblk dev_ok v sv s" and r: "sfs_request env (m + n) u"
    and 1: "file_xfer blk nblk dev_ok env v m sv s u sv' s' u'"
    and 2: "file_xfer blk nblk dev_ok env v n sv' s' u' sv'' s'' u''"
  shows "file_xfer blk nblk dev_ok env v (m + n) sv s u sv'' s'' u''"
proof -
  let ?F = "fbytes (blk (sfs_device s)) (sv_i sv)"
  let ?o = "nat (uio_offset u)" and ?bs = "uio_bytes m ?F u"
  note F = fbytes_length [OF at]
  have mv: "uio_moves env ?bs u u'" and F': "fbytes (blk (sfs_device s')) (sv_i sv') = overwrite ?o ?bs ?F"
    using 1 by (simp_all add: file_xfer_def Let_def)
  let ?cs = "uio_bytes n (overwrite ?o ?bs ?F) u'"
  have all: "uio_bytes (m + n) ?F u = ?bs @ ?cs" using uio_bytes_moves [OF r F mv] .
  have len: "length ?bs = m" "length (?bs @ ?cs) = m + n"
    using uio_bytes_length [OF request_le [OF r] F, of m] uio_bytes_length [OF r F] all by simp_all
  have off: "nat (uio_offset u') = ?o + length ?bs" using request_moves(2) [OF r mv len(1)] len(1) by simp
  have "overwrite (?o + length ?bs) ?cs (overwrite ?o ?bs ?F) = overwrite ?o (?bs @ ?cs) ?F"
    using r F len by (intro overwrite_append) (simp add: sfs_request_def)
  moreover have "uio_moves env (?bs @ ?cs) u u''"
    using mv 2 F' by (auto simp: file_xfer_def Let_def intro: uio_moves_trans)
  moreover have "uio_rw u' = uio_rw u" using mv by (simp add: uio_moves_def)
  ultimately show ?thesis
    using 1 2 F' all off file_step_trans [of blk v sv s sv' s' sv'' s''] dev_same_trans [of blk nblk dev_ok s s' s'']
    by (simp add: file_xfer_def Let_def)
qed

lemma xfer_bind:
  assumes at: "file_at blk nblk dev_ok v sv s" and r: "sfs_request env (m + n) u"
    and 1: "xfer_res blk nblk dev_ok env v m sv s u (f (s, u))"
    and 2: "\<And>sv' s' u'. file_xfer blk nblk dev_ok env v m sv s u sv' s' u' \<Longrightarrow>
      file_at blk nblk dev_ok v sv' s' \<Longrightarrow> sfs_request env n u' \<Longrightarrow> uio_rw u' = uio_rw u \<Longrightarrow>
      nat (uio_offset u') = nat (uio_offset u) + m \<Longrightarrow> uio_resid u' = uio_resid u - m \<Longrightarrow>
      xfer_res blk nblk dev_ok env v n sv' s' u' (g () (s', u'))"
  shows "xfer_res blk nblk dev_ok env v (m + n) sv s u (kbind f g (s, u))"
proof -
  let ?F = "fbytes (blk (sfs_device s)) (sv_i sv)"
  from 1 obtain k sv' s' u' where k: "k \<le> m" "file_xfer blk nblk dev_ok env v k sv s u sv' s' u'"
      "f (s, u) = Ok () (s', u') \<and> k = m \<or> f (s, u) = Err ENOSPC (s', u') \<and> uio_rw u = UIO_WRITE"
    by (auto simp: xfer_res_def)
  show ?thesis
  proof (cases "f (s, u) = Ok () (s', u') \<and> k = m")
    case True
    have at': "file_at blk nblk dev_ok v sv' s'" and mv: "uio_moves env (uio_bytes m ?F u) u u'"
      using True k(2) by (auto simp: file_xfer_def Let_def)
    have len: "length (uio_bytes m ?F u) = m"
      using uio_bytes_length [OF request_le [OF r] fbytes_length [OF at], of m] by simp
    note req = request_moves [OF r mv len]
    have rw: "uio_rw u' = uio_rw u" "uio_resid u' = uio_resid u - m"
      using mv len by (simp_all add: uio_moves_def)
    have "xfer_res blk nblk dev_ok env v n sv' s' u' (g () (s', u'))"
      using 2 [OF _ at' req(1) rw(1) req(2) rw(2)] True k(2) by simp
    then obtain j sv'' s'' u'' where j: "j \<le> n" "file_xfer blk nblk dev_ok env v j sv' s' u' sv'' s'' u''"
      "g () (s', u') = Ok () (s'', u'') \<and> j = n \<or> g () (s', u') = Err ENOSPC (s'', u'') \<and> uio_rw u' = UIO_WRITE"
      by (auto simp: xfer_res_def)
    have "file_xfer blk nblk dev_ok env v (m + j) sv s u sv'' s'' u''"
      using file_xfer_trans [OF at request_le [OF r]] True k(2) j(1,2) by simp
    moreover have "m + j \<le> m + n" using j(1) by simp
    moreover have "kbind f g (s, u) = g () (s', u')" using True by (simp add: kbind_def)
    ultimately show ?thesis using j(3) rw(1) unfolding xfer_res_def by metis
  next
    case False
    then have "f (s, u) = Err ENOSPC (s', u')" "uio_rw u = UIO_WRITE" using k(3) False by blast+
    moreover from this have "kbind f g (s, u) = Err ENOSPC (s', u')" by (simp add: kbind_def)
    ultimately show ?thesis using trans_le_add1 [OF k(1), of n] k(2) unfolding xfer_res_def by blast
  qed
qed

text \<open>One block of the file, read into a buffer.\<close>

lemma sfs_read_mapped:
  assumes env: "env_dio env = d_io" and at: "file_at blk nblk dev_ok v sv s" and k: "k < 143"
    and b: "fmap (blk (sfs_device s)) (sv_i sv) k = b" "b \<noteq> 0"
  obtains s' where "sfs_rblock env zeros b s = Ok (fblock (blk (sfs_device s)) (sv_i sv) k) s'"
    "dev_same blk nblk dev_ok s s'"
proof -
  have inv: "sfs_inv nblk dev_ok s"
    and ok: "file_ok (sfs_used s) (sp_nblocks (sfs_super s)) (blk (sfs_device s)) (sv_i sv)"
    using at by (auto simp: file_at_def)
  have "b < sp_nblocks (sfs_super s)"
    using file_okD(3) [OF ok file_blocksI(1) [OF k]] b by metis
  from sfs_rblock_ok [OF env inv this zeros_length] obtain d where
    "sfs_rblock env zeros b s = Ok (blk (sfs_device s) b) (s\<lparr>sfs_device := d\<rparr>)" "dev_ok d"
    "nblk d = nblk (sfs_device s)" "blk d = blk (sfs_device s)" by blast
  then show thesis using b that [of "s\<lparr>sfs_device := d\<rparr>"] by (simp add: fblock_def dev_same_def)
qed

lemma sfs_uiomove_ok:
  assumes "uio_wf u" "uio_ok (env_u env) u" "n \<le> uio_resid u" "ptr + n \<le> length buf"
  obtains u' where
    "sfs_uiomove env ptr n buf (s, u) =
      Ok (overwrite ptr (if uio_rw u = UIO_READ then slice ptr n buf else take n (uio_left u)) buf) (s, u')"
    "uio_moves (env_u env) (if uio_rw u = UIO_READ then slice ptr n buf else take n (uio_left u)) u u'"
proof -
  let ?st = "\<lparr>u_uio = u, u_buf = buf\<rparr> :: uiost"
  from uiomove_ok [of ?st "env_u env" n ptr] assms obtain st where
    st: "uiomove (env_u env) ptr n ?st = Ok () st" "uio_wf (u_uio st)" "uio_ok (env_u env) (u_uio st)"
      "transferred ptr (moved ptr n ?st) ?st st" by auto
  have "moved ptr n ?st = (if uio_rw u = UIO_READ then slice ptr n buf else take n (uio_left u))"
    by (simp add: moved_def slice_def)
  then show thesis using that [of "u_uio st"] st
    by (simp add: sfs_uiomove_def transferred_def uio_moves_def)
qed

lemma sfs_partialio_read:
  assumes env: "env_dio env = d_io" and at: "file_at blk nblk dev_ok v sv s" and r: "sfs_request (env_u env) len u"
    and k: "nat (uio_offset u) = 512 * k + skip" "k < 143" "skip + len \<le> 512" "skip < 512"
    and rw: "uio_rw u = UIO_READ"
  shows "\<exists>s' u'. sfs_partialio env v skip len (s, u) = Ok () (s', u') \<and>
    file_xfer blk nblk dev_ok (env_u env) v len sv s u sv s' u'"
proof -
  let ?F = "fbytes (blk (sfs_device s)) (sv_i sv)" and ?f = "fblock (blk (sfs_device s)) (sv_i sv) k"
  have fb: "sfs_fileblock u = k"
    using sfs_fileblock_eq [OF _ k(1,4,2)] r by (simp add: sfs_request_def)
  from sfs_bmap_get [OF env at k(2)] obtain s1 where
    s1: "sfs_bmap env v k False s = Ok (fmap (blk (sfs_device s)) (sv_i sv) k) s1" "dev_same blk nblk dev_ok s s1"
    by blast
  let ?b = "fmap (blk (sfs_device s)) (sv_i sv) k"
  have "\<exists>s2. (if ?b = 0 then kbind (kassert (uio_rw u = UIO_READ)) (\<lambda>_. kret zeros)
           else on_sfs (sfs_rblock env zeros ?b)) (s1, u) = Ok ?f (s2, u) \<and> dev_same blk nblk dev_ok s s2"
  proof (cases "?b = 0")
    case True
    then show ?thesis using s1(2) rw by (simp add: kfun_defs fblock_def)
  next
    case False
    have at1: "file_at blk nblk dev_ok v sv s1" and eq: "blk (sfs_device s1) = blk (sfs_device s)"
      using dev_same_file [OF at s1(2)] s1(2) by (simp_all add: file_same_def dev_same_def)
    from sfs_read_mapped [OF env at1 k(2), of ?b] False eq obtain s2 where
      "sfs_rblock env zeros ?b s1 = Ok ?f s2" "dev_same blk nblk dev_ok s1 s2" by metis
    then show ?thesis using False dev_same_trans [OF s1(2)] by (auto simp: on_sfs_def)
  qed
  then obtain s2 where s2: "(if ?b = 0 then kbind (kassert (uio_rw u = UIO_READ)) (\<lambda>_. kret zeros)
      else on_sfs (sfs_rblock env zeros ?b)) (s1, u) = Ok ?f (s2, u)" "dev_same blk nblk dev_ok s s2" by blast
  have len: "skip + len \<le> length ?f" using fblock_length [OF at k(2)] k(3) by simp
  from sfs_uiomove_ok [of u env len skip ?f s2] r len rw obtain u' where
    u': "sfs_uiomove env skip len ?f (s2, u) = Ok (overwrite skip (slice skip len ?f) ?f) (s2, u')"
      "uio_moves (env_u env) (slice skip len ?f) u u'" by (auto simp: sfs_request_def)
  have bs: "slice skip len ?f = uio_bytes len ?F u"
    using slice_slice [OF k(3), of "512 * k" ?F] fbytes_block [OF at k(2)] k(1) rw by (simp add: uio_bytes_def)
  have "overwrite (nat (uio_offset u)) (uio_bytes len ?F u) ?F = ?F"
    using overwrite_same rw by (simp add: uio_bytes_def slice_def)
  moreover have "sfs_partialio env v skip len (s, u) = Ok () (s2, u')"
    using s1(1) s2(1) u'(1) rw fb k(3)
    by (simp add: sfs_partialio_def kbind_def kget_def kassert_def add32_id SFS_BLOCKSIZE_def Let_def on_sfs_def kret_def)
  ultimately show ?thesis
    using dev_same_file [OF at s2(2)] s2(2) u'(2) bs file_same_fbytes [OF dev_same_file [OF at s2(2)]]
    by (auto simp: file_xfer_def Let_def file_same_def)
qed

lemma sfs_partialio_mapped:
  assumes env: "env_dio env = d_io" and at: "file_at blk nblk dev_ok v sv s" and r: "sfs_request (env_u env) len u"
    and k: "nat (uio_offset u) = 512 * k + skip" "k < 143" "skip + len \<le> 512" "skip < 512"
    and rw: "uio_rw u = UIO_WRITE"
    and bm: "sfs_bmap env v k True s = Ok b s1" "file_same blk nblk dev_ok v sv s sv1 s1" "b \<noteq> 0"
      "fmap (blk (sfs_device s1)) (sv_i sv1) k = b"
  shows "\<exists>s' u'. sfs_partialio env v skip len (s, u) = Ok () (s', u') \<and>
    file_xfer blk nblk dev_ok (env_u env) v len sv s u sv1 s' u'"
proof -
  let ?F = "fbytes (blk (sfs_device s)) (sv_i sv)" and ?bs = "take len (uio_left u)"
  have fb: "sfs_fileblock u = k" using sfs_fileblock_eq [OF _ k(1,4,2)] r by (simp add: sfs_request_def)
  have at1: "file_at blk nblk dev_ok v sv1 s1" using bm(2) by (simp add: file_same_def)
  from sfs_read_mapped [OF env at1 k(2) bm(4,3)] obtain s2 where
    s2: "sfs_rblock env zeros b s1 = Ok (fblock (blk (sfs_device s1)) (sv_i sv1) k) s2" "dev_same blk nblk dev_ok s1 s2" .
  note same = file_same_trans [OF bm(2) dev_same_file [OF at1 s2(2)]]
  have at2: "file_at blk nblk dev_ok v sv1 s2" and b2: "fmap (blk (sfs_device s2)) (sv_i sv1) k = b"
    using same bm(4) s2(2) by (simp_all add: file_same_def dev_same_def)
  let ?f = "fblock (blk (sfs_device s)) (sv_i sv) k"
  have f: "fblock (blk (sfs_device s1)) (sv_i sv1) k = ?f" using bm(2) k(2) by (simp add: file_same_def)
  have lf: "length ?f = 512" using fblock_length [OF at k(2)] .
  have lb: "length ?bs = len" using uio_bytes_length [OF r fbytes_length [OF at]] rw by (simp add: uio_bytes_def)
  from sfs_uiomove_ok [of u env len skip ?f s2] r lf k(3) rw obtain u' where
    u': "sfs_uiomove env skip len ?f (s2, u) = Ok (overwrite skip ?bs ?f) (s2, u')"
      "uio_moves (env_u env) ?bs u u'" by (auto simp: sfs_request_def)
  have lo: "length (overwrite skip ?bs ?f) = 512" using lf lb k(3) by simp
  from sfs_wblock_file [OF env at2 k(2) b2 bm(3) lo] obtain s3 where
    s3: "sfs_wblock env (overwrite skip ?bs ?f) b s2 = Ok () s3" "file_at blk nblk dev_ok v sv1 s3"
      "file_step blk v sv1 s2 sv1 s3"
      "\<forall>j < 143. fblock (blk (sfs_device s3)) (sv_i sv1) j =
        (if j = k then overwrite skip ?bs ?f else fblock (blk (sfs_device s2)) (sv_i sv1) j)" by blast
  have "fbytes (blk (sfs_device s3)) (sv_i sv1) = overwrite (512 * k) (overwrite skip ?bs ?f) ?F"
    using s3(4) same by (intro fbytes_upd [OF at k(2) lo]) (simp add: file_same_def)
  also have "\<dots> = overwrite (nat (uio_offset u)) ?bs ?F"
    using overwrite_slice [of skip ?bs 512 "512 * k" ?F] fbytes_block [OF at k(2)] lb k
      fbytes_length [OF at] by (simp add: SFS_MAXFILE_def)
  finally have "file_xfer blk nblk dev_ok (env_u env) v len sv s u sv1 s3 u'"
    using same s3(2,3) u'(2) rw file_step_trans [of blk v sv s sv1 s2 sv1 s3]
    by (simp add: file_xfer_def file_same_def uio_bytes_def)
  moreover have "sfs_partialio env v skip len (s, u) = Ok () (s3, u')"
    using bm(1,3) s2(1) s3(1) u'(1) f k(3)
    by (simp add: sfs_partialio_def kbind_def kget_def kassert_def Let_def on_sfs_def rw fb add32_id SFS_BLOCKSIZE_def)
  ultimately show ?thesis by blast
qed

lemma sfs_partialio_cases:
  assumes env: "env_dio env = d_io" and at: "file_at blk nblk dev_ok v sv s" and r: "sfs_request (env_u env) len u"
    and k: "nat (uio_offset u) = 512 * k + skip" "k < 143" "skip + len \<le> 512" "skip < 512"
    and rw: "uio_rw u = UIO_WRITE"
  obtains (nospace) s1 sv1 where "sfs_partialio env v skip len (s, u) = Err ENOSPC (s1, u)"
      "file_same blk nblk dev_ok v sv s sv1 s1"
  | (written) s' u' sv1 where "sfs_partialio env v skip len (s, u) = Ok () (s', u')"
      "file_xfer blk nblk dev_ok (env_u env) v len sv s u sv1 s' u'"
proof (cases rule: sfs_bmap_alloc [OF env at k(2)])
  case (1 s1 sv1)
  have "sfs_fileblock u = k" using sfs_fileblock_eq [OF _ k(1,4,2)] r by (simp add: sfs_request_def)
  then have "sfs_partialio env v skip len (s, u) = Err ENOSPC (s1, u)"
    using 1(1) k(3) rw
    by (simp add: sfs_partialio_def kbind_def kget_def kassert_def Let_def on_sfs_def add32_id SFS_BLOCKSIZE_def)
  then show ?thesis using nospace 1(2) by blast
next
  case (2 b s1 sv1)
  from sfs_partialio_mapped [OF assms 2] show ?thesis using written by blast
qed

lemma sfs_partialio_write:
  assumes "env_dio env = d_io" "file_at blk nblk dev_ok v sv s" "sfs_request (env_u env) len u"
    "nat (uio_offset u) = 512 * k + skip" "k < 143" "skip + len \<le> 512" "skip < 512" "uio_rw u = UIO_WRITE"
  shows "xfer_res blk nblk dev_ok (env_u env) v len sv s u (sfs_partialio env v skip len (s, u))"
proof (cases rule: sfs_partialio_cases [OF assms])
  case (1 s1 sv1)
  then show ?thesis using xfer_nospace [OF 1(2) assms(3,8)] by simp
next
  case (2 s' u' sv1)
  then show ?thesis using xfer_done by simp
qed

lemma sfs_partialio_ok:
  assumes "env_dio env = d_io" "file_at blk nblk dev_ok v sv s" "sfs_request (env_u env) len u"
    "nat (uio_offset u) = 512 * k + skip" "k < 143" "skip + len \<le> 512" "skip < 512"
  shows "xfer_res blk nblk dev_ok (env_u env) v len sv s u (sfs_partialio env v skip len (s, u))"
proof (cases "uio_rw u")
  case UIO_READ
  from sfs_partialio_read [OF assms this] obtain s' u' where
    "sfs_partialio env v skip len (s, u) = Ok () (s', u')"
    "file_xfer blk nblk dev_ok (env_u env) v len sv s u sv s' u'" by blast
  then show ?thesis using xfer_done by simp
next
  case UIO_WRITE
  then show ?thesis by (rule sfs_partialio_write [OF assms])
qed

lemma sfs_blockio_hole:
  assumes env: "env_dio env = d_io" and at: "file_at blk nblk dev_ok v sv s" and r: "sfs_request (env_u env) 512 u"
    and k: "nat (uio_offset u) = 512 * k" "k < 143" and rw: "uio_rw u = UIO_READ"
    and hole: "fmap (blk (sfs_device s)) (sv_i sv) k = 0"
  shows "xfer_res blk nblk dev_ok (env_u env) v 512 sv s u (sfs_blockio env v (s, u))"
proof -
  let ?F = "fbytes (blk (sfs_device s)) (sv_i sv)"
  have fb: "sfs_fileblock u = k"
    using sfs_fileblock_eq [of u k 0] r k by (simp add: sfs_request_def)
  from sfs_bmap_get [OF env at k(2)] hole obtain s1 where
    s1: "sfs_bmap env v k False s = Ok 0 s1" "dev_same blk nblk dev_ok s s1" by auto
  have bs: "uio_bytes 512 ?F u = replicate 512 0"
    using fbytes_block [OF at k(2)] k(1) rw hole by (simp add: uio_bytes_def fblock_def zeros_def)
  from uiomovezeros_loop_ok [of u "env_u env" 512] r rw obtain u' where
    u': "uiomovezeros_loop (env_u env) 512 u = Ok () u'" "uio_moves (env_u env) (replicate 512 0) u u'"
    by (auto simp: sfs_request_def uio_moves_def)
  have "sfs_blockio env v (s, u) = Ok () (s1, u')"
    using s1(1) u'(1) fb rw
    by (simp add: sfs_blockio_def kbind_def kget_def kassert_def on_sfs_def sfs_uiomovezeros_def uiomovezeros_def
        SFS_BLOCKSIZE_def Let_def)
  moreover have "overwrite (nat (uio_offset u)) (uio_bytes 512 ?F u) ?F = ?F"
    using overwrite_same rw by (simp add: uio_bytes_def slice_def)
  ultimately show ?thesis
    using dev_same_file [OF at s1(2)] s1(2) u'(2) bs file_same_fbytes [OF dev_same_file [OF at s1(2)]]
    by (auto simp: file_xfer_def file_same_def Let_def intro!: xfer_done)
qed

text \<open>The part of \<^verbatim>\<open>sfs_blockio\<close> that talks to the disk.\<close>

lemma sfs_window_io:
  assumes env: "env_dio env = d_io" and at: "file_at blk nblk dev_ok v sv s" and r: "sfs_request (env_u env) 512 u"
    and k: "k < 143" "fmap (blk (sfs_device s)) (sv_i sv) k = b" "b \<noteq> 0"
  obtains d u' where "sfs_rwblock env (s, uio_window (512 * int b) u) = Ok () (s\<lparr>sfs_device := d\<rparr>, u')"
    "dev_ok d" "nblk d = nblk (sfs_device s)" "b < 2 ^ 23"
    "blk d = (if uio_rw u = UIO_READ then blk (sfs_device s) else (blk (sfs_device s))(b := take 512 (uio_left u)))"
    "uio_moves (env_u env) (if uio_rw u = UIO_READ then blk (sfs_device s) b else take 512 (uio_left u))
       (uio_window (512 * int b) u) u'"
proof -
  have inv: "sfs_inv nblk dev_ok s"
    and ok: "file_ok (sfs_used s) (sp_nblocks (sfs_super s)) (blk (sfs_device s)) (sv_i sv)"
    using at by (auto simp: file_at_def)
  have b: "b < sp_nblocks (sfs_super s)" using file_okD(3) [OF ok file_blocksI(1) [OF k(1)]] k(2,3) by metis
  have bn: "b < nblk (sfs_device s)" and b23: "b < 2 ^ 23"
    using b inv by (simp_all add: sfs_inv_def)
  note w = uio_window_ok [of u "env_u env" "512 * int b"]
  have u: "uio_wf u" "uio_ok (env_u env) u" "512 \<le> uio_resid u" using r by (simp_all add: sfs_request_def)
  let ?w = "uio_window (512 * int b) u"
  have "\<exists>d u'. d_io (env_u env) (sfs_device s, ?w) = Ok () (d, u') \<and> dev_ok d \<and> nblk d = nblk (sfs_device s) \<and>
      blk d = (if uio_rw u = UIO_READ then blk (sfs_device s) else (blk (sfs_device s))(b := take 512 (uio_left u))) \<and>
      uio_moves (env_u env) (if uio_rw u = UIO_READ then blk (sfs_device s) b else take 512 (uio_left u)) ?w u'"
    using io_read [OF sfs_invD(1) [OF inv] bn w(1,2) [OF u] _ w(4,5) [OF u]]
      io_write [OF sfs_invD(1) [OF inv] bn w(1,2) [OF u] _ w(4,5) [OF u]] w(3,6) [OF u]
    by (cases "uio_rw u") simp_all
  then obtain d u' where d: "d_io (env_u env) (sfs_device s, ?w) = Ok () (d, u')" "dev_ok d" "nblk d = nblk (sfs_device s)"
      "blk d = (if uio_rw u = UIO_READ then blk (sfs_device s) else (blk (sfs_device s))(b := take 512 (uio_left u)))"
      "uio_moves (env_u env) (if uio_rw u = UIO_READ then blk (sfs_device s) b else take 512 (uio_left u)) ?w u'"
    by blast
  have "sfs_rwblock env (s, ?w) = Ok () (s\<lparr>sfs_device := d\<rparr>, u')"
    using d(1) env sfs_invD(5) [OF inv] by (intro sfs_rwblock_Ok) (simp_all add: sfs_dio_def)
  then show thesis using that d(2-5) b23 by blast
qed

lemma sfs_blockio_mapped:
  assumes env: "env_dio env = d_io" and at: "file_at blk nblk dev_ok v sv s" and r: "sfs_request (env_u env) 512 u"
    and k: "nat (uio_offset u) = 512 * k" "k < 143"
    and bm: "sfs_bmap env v k (uio_rw u = UIO_WRITE) s = Ok b s1" "b \<noteq> 0"
    and same: "file_same blk nblk dev_ok v sv s sv1 s1" "fmap (blk (sfs_device s1)) (sv_i sv1) k = b"
    and rd: "uio_rw u = UIO_READ \<Longrightarrow> sv1 = sv \<and> dev_same blk nblk dev_ok s s1"
  shows "xfer_res blk nblk dev_ok (env_u env) v 512 sv s u (sfs_blockio env v (s, u))"
proof -
  let ?F = "fbytes (blk (sfs_device s)) (sv_i sv)" and ?bs = "uio_bytes 512 (fbytes (blk (sfs_device s)) (sv_i sv)) u"
  have at1: "file_at blk nblk dev_ok v sv1 s1" using same(1) by (simp add: file_same_def)
  have fb: "sfs_fileblock u = k" using sfs_fileblock_eq [of u k 0] r k by (simp add: sfs_request_def)
  from sfs_window_io [OF env at1 r k(2) same(2) bm(2)] obtain d u' where
    io: "sfs_rwblock env (s1, uio_window (512 * int b) u) = Ok () (s1\<lparr>sfs_device := d\<rparr>, u')"
      "dev_ok d" "nblk d = nblk (sfs_device s1)" "b < 2 ^ 23"
      "blk d = (if uio_rw u = UIO_READ then blk (sfs_device s1) else (blk (sfs_device s1))(b := take 512 (uio_left u)))"
      "uio_moves (env_u env) (if uio_rw u = UIO_READ then blk (sfs_device s1) b else take 512 (uio_left u))
         (uio_window (512 * int b) u) u'" .
  have "fblock (blk (sfs_device s1)) (sv_i sv1) k = fblock (blk (sfs_device s)) (sv_i sv) k"
    using same(1) k(2) by (simp add: file_same_def)
  then have "blk (sfs_device s1) b = slice (512 * k) 512 ?F"
    using fbytes_block [OF at k(2)] same(2) bm(2) by (simp add: fblock_def split: if_splits)
  then have bs: "(if uio_rw u = UIO_READ then blk (sfs_device s1) b else take 512 (uio_left u)) = ?bs"
    using k(1) by (simp add: uio_bytes_def)
  have lb: "length ?bs = 512" using uio_bytes_length [OF r fbytes_length [OF at]] .
  define u2 where "u2 = u'\<lparr>uio_offset := uio_offset u' - 512 * int b + uio_offset u,
    uio_resid := nat ((int (uio_resid u') - 512 + int (uio_resid u)) mod 2 ^ 32)\<rparr>"
  have mv: "uio_moves (env_u env) ?bs u u2"
    using uio_window_moves [OF io(6), unfolded bs, OF lb] r by (simp add: u2_def sfs_request_def)
  have ow: "overwrite (nat (uio_offset u)) ?bs ?F = ?F" if "uio_rw u = UIO_READ"
    using overwrite_same that by (simp add: uio_bytes_def slice_def)
  have "file_xfer blk nblk dev_ok (env_u env) v 512 sv s u sv1 (s1\<lparr>sfs_device := d\<rparr>) u2"
  proof (cases "uio_rw u")
    case UIO_READ
    then have "dev_same blk nblk dev_ok s1 (s1\<lparr>sfs_device := d\<rparr>)"
      using io(2,3,5) by (simp add: dev_same_def)
    then have "file_same blk nblk dev_ok v sv s sv1 (s1\<lparr>sfs_device := d\<rparr>)"
      "dev_same blk nblk dev_ok s (s1\<lparr>sfs_device := d\<rparr>)"
      using file_same_trans [OF same(1) dev_same_file [OF at1]] dev_same_trans rd UIO_READ by blast+
    then show ?thesis using mv ow UIO_READ rd file_same_fbytes
      by (fastforce simp: file_xfer_def Let_def file_same_def)
  next
    case UIO_WRITE
    then have B: "blk d = (blk (sfs_device s1))(b := ?bs)" using io(5) by (simp add: uio_bytes_def)
    from sfs_wblock_file_dev [OF at1 k(2) same(2) bm(2) io(2,3) B lb]
    have w: "file_at blk nblk dev_ok v sv1 (s1\<lparr>sfs_device := d\<rparr>)" "file_step blk v sv1 s1 sv1 (s1\<lparr>sfs_device := d\<rparr>)"
      "\<forall>j < 143. fblock (blk d) (sv_i sv1) j = (if j = k then ?bs else fblock (blk (sfs_device s1)) (sv_i sv1) j)"
      by blast+
    have "fbytes (blk d) (sv_i sv1) = overwrite (512 * k) ?bs ?F"
      using w(3) same(1) by (intro fbytes_upd [OF at k(2) lb]) (simp add: file_same_def)
    then show ?thesis
      using w(1,2) same(1) mv k(1) UIO_WRITE file_step_trans [of blk v sv s sv1 s1]
      by (simp add: file_xfer_def Let_def file_same_def)
  qed
  moreover have "sfs_blockio env v (s, u) = Ok () (s1\<lparr>sfs_device := d\<rparr>, u2)"
    using bm io(1,4) fb r
    by (simp add: sfs_blockio_def kfun_defs on_sfs_def SFS_BLOCKSIZE_def Let_def mul32_def uio_window_def u2_def
        sfs_request_def algebra_simps)
  ultimately show ?thesis using xfer_done by simp
qed

lemma sfs_blockio_ok:
  assumes env: "env_dio env = d_io" and at: "file_at blk nblk dev_ok v sv s" and r: "sfs_request (env_u env) 512 u"
    and k: "nat (uio_offset u) = 512 * k" "k < 143"
  shows "xfer_res blk nblk dev_ok (env_u env) v 512 sv s u (sfs_blockio env v (s, u))"
proof (cases "uio_rw u")
  case UIO_READ
  show ?thesis
  proof (cases "fmap (blk (sfs_device s)) (sv_i sv) k = 0")
    case True
    then show ?thesis by (rule sfs_blockio_hole [OF assms UIO_READ])
  next
    case False
    from sfs_bmap_get [OF env at k(2)] obtain s1 where
      s1: "sfs_bmap env v k False s = Ok (fmap (blk (sfs_device s)) (sv_i sv) k) s1" "dev_same blk nblk dev_ok s s1"
      by blast
    then have "fmap (blk (sfs_device s1)) (sv_i sv) k = fmap (blk (sfs_device s)) (sv_i sv) k"
      by (simp add: dev_same_def)
    then show ?thesis using sfs_blockio_mapped [OF assms _ False dev_same_file [OF at s1(2)]] s1 UIO_READ by simp
  qed
next
  case UIO_WRITE
  show ?thesis
  proof (cases rule: sfs_bmap_alloc [OF env at k(2)])
    case (1 s1 sv1)
    have "sfs_fileblock u = k" using sfs_fileblock_eq [of u k 0] r k by (simp add: sfs_request_def)
    then have "sfs_blockio env v (s, u) = Err ENOSPC (s1, u)"
      using 1(1) UIO_WRITE by (simp add: sfs_blockio_def kbind_def kget_def on_sfs_def Let_def)
    then show ?thesis using xfer_nospace [OF 1(2) r UIO_WRITE] by simp
  next
    case (2 b s1 sv1)
    then show ?thesis using sfs_blockio_mapped [OF assms _ 2(3,2,4)] UIO_WRITE by simp
  qed
qed

lemma xfer_ret:
  assumes "file_at blk nblk dev_ok v sv s" "uio_wf u" "uio_ok env u"
  shows "xfer_res blk nblk dev_ok env v 0 sv s u (kret () (s, u))"
proof -
  have d: "dev_same blk nblk dev_ok s s" using assms(1) by (auto simp: file_at_def intro: dev_same_refl)
  note 0 = file_xfer_0 [OF file_same_refl [OF assms(1)] assms(2,3)]
  show ?thesis unfolding kret_def by (rule xfer_done [OF 0]) (simp add: d)
qed

lemma sfs_blocks_ok:
  assumes "env_dio env = d_io" "file_at blk nblk dev_ok v sv s" "sfs_request (env_u env) (512 * q) u"
    "nat (uio_offset u) = 512 * k"
  shows "xfer_res blk nblk dev_ok (env_u env) v (512 * q) sv s u (sfs_blocks env v q (s, u))"
  using assms(2-)
proof (induction q arbitrary: sv s u k)
  case 0
  then show ?case using xfer_ret by (simp add: sfs_request_def)
next
  case (Suc q)
  have r: "sfs_request (env_u env) (512 + 512 * q) u" using Suc.prems(2) by simp
  have k: "k < 143" using r Suc.prems(3) by (simp add: sfs_request_def SFS_MAXFILE_def)
  have "xfer_res blk nblk dev_ok (env_u env) v (512 + 512 * q) sv s u
      (kbind (sfs_blockio env v) (\<lambda>_. sfs_blocks env v q) (s, u))"
  proof (rule xfer_bind [OF Suc.prems(1) r])
    show "xfer_res blk nblk dev_ok (env_u env) v 512 sv s u (sfs_blockio env v (s, u))"
      using sfs_blockio_ok [OF assms(1) Suc.prems(1) request_le [OF r] Suc.prems(3) k] by simp
  next
    fix sv' s' u'
    assume "file_at blk nblk dev_ok v sv' s'" "sfs_request (env_u env) (512 * q) u'"
      "nat (uio_offset u') = nat (uio_offset u) + 512"
    then show "xfer_res blk nblk dev_ok (env_u env) v (512 * q) sv' s' u' (sfs_blocks env v q (s', u'))"
      using Suc.prems(3) by (intro Suc.IH [of sv' s' u' "Suc k"]) simp_all
  qed
  then show ?case by simp
qed

lemma sfs_io_tail_ok:
  assumes env: "env_dio env = d_io" and at: "file_at blk nblk dev_ok v sv s"
    and r: "sfs_request (env_u env) (uio_resid u) u"
    and k: "0 < uio_resid u \<Longrightarrow> nat (uio_offset u) = 512 * k"
  shows "xfer_res blk nblk dev_ok (env_u env) v (uio_resid u) sv s u (sfs_io_tail env v (s, u))"
proof (cases "uio_resid u = 0")
  case True
  then show ?thesis using xfer_ret [OF at, of u] r by (simp add: sfs_io_tail_def kbind_def kget_def sfs_request_def)
next
  case False
  then have k: "nat (uio_offset u) = 512 * k" using k by simp
  define q where "q = uio_resid u div 512"
  define rr where "rr = uio_resid u mod 512"
  have n: "uio_resid u = 512 * q + rr" "rr < 512" by (simp_all add: q_def rr_def)
  have al: "uio_offset u smod 512 = 0"
    using sfs_offset_nat(3) [OF request_offset [OF r]] k by simp
  let ?last = "\<lambda>_. kbind (kget snd) (\<lambda>u. kbind (kassert (uio_resid u < SFS_BLOCKSIZE)) (\<lambda>_.
      if uio_resid u > 0 then sfs_partialio env v 0 (uio_resid u) else kret ()))"
  have "xfer_res blk nblk dev_ok (env_u env) v (512 * q + rr) sv s u (kbind (sfs_blocks env v q) ?last (s, u))"
  proof (rule xfer_bind [OF at])
    show r': "sfs_request (env_u env) (512 * q + rr) u" using r n(1) by simp
    show "xfer_res blk nblk dev_ok (env_u env) v (512 * q) sv s u (sfs_blocks env v q (s, u))"
      using sfs_blocks_ok [OF env at request_le [OF r'] k] by simp
    fix sv' s' u'
    assume at': "file_at blk nblk dev_ok v sv' s'" and r'': "sfs_request (env_u env) rr u'"
      and o: "nat (uio_offset u') = nat (uio_offset u) + 512 * q" and res: "uio_resid u' = uio_resid u - 512 * q"
    have res': "uio_resid u' = rr" using res n(1) by simp
    have o': "nat (uio_offset u') = 512 * (k + q) + 0" using o k by simp
    have "xfer_res blk nblk dev_ok (env_u env) v rr sv' s' u' (sfs_partialio env v 0 rr (s', u'))" if "0 < rr"
      using sfs_partialio_ok [OF env at' r'' o'] r'' o' n(2) that by (simp add: sfs_request_def SFS_MAXFILE_def)
    then show "xfer_res blk nblk dev_ok (env_u env) v rr sv' s' u' (?last () (s', u'))"
      using n(2) res' xfer_ret [OF at', of u'] r''
      by (simp add: kbind_def kget_def kassert_def SFS_BLOCKSIZE_def sfs_request_def)
  qed
  moreover have "sfs_io_tail env v (s, u) = kbind (sfs_blocks env v q) ?last (s, u)"
    using False al by (simp add: sfs_io_tail_def kbind_def kget_def kassert_def SFS_BLOCKSIZE_def q_def)
  ultimately show ?thesis using n(1) by simp
qed

lemma sfs_io_body_ok:
  assumes env: "env_dio env = d_io" and at: "file_at blk nblk dev_ok v sv s"
    and r: "sfs_request (env_u env) (uio_resid u) u"
  shows "xfer_res blk nblk dev_ok (env_u env) v (uio_resid u) sv s u (sfs_io_body env v (s, u))"
proof -
  define k where "k = nat (uio_offset u) div 512"
  define skip where "skip = nat (uio_offset u) mod 512"
  have off: "nat (uio_offset u) = 512 * k + skip" "skip < 512" by (simp_all add: k_def skip_def)
  have bo: "sfs_blkoff u = skip"
    using sfs_offset_nat(2) [OF request_offset [OF r]] by (simp add: skip_def)
  define m where "m = (if skip = 0 then 0 else min (512 - skip) (uio_resid u))"
  have m: "m \<le> uio_resid u" by (simp add: m_def)
  let ?first = "if skip \<noteq> 0 then let len = sub32 SFS_BLOCKSIZE skip in
      sfs_partialio env v skip (if len > uio_resid u then uio_resid u else len) else kret ()"
  have first: "?first = (if skip \<noteq> 0 then sfs_partialio env v skip m else kret ())"
    using off(2) by (auto simp: m_def sub32_id SFS_BLOCKSIZE_def Let_def min_def)
  have "xfer_res blk nblk dev_ok (env_u env) v (m + (uio_resid u - m)) sv s u
      (kbind ?first (\<lambda>_. sfs_io_tail env v) (s, u))"
  proof (rule xfer_bind [OF at])
    show "sfs_request (env_u env) (m + (uio_resid u - m)) u" using r m by simp
    show "xfer_res blk nblk dev_ok (env_u env) v m sv s u (?first (s, u))"
    proof (cases "skip = 0")
      case True
      then show ?thesis using xfer_ret [OF at, of u] r by (simp add: m_def sfs_request_def)
    next
      case False
      have "k < 143" using r off False by (simp add: sfs_request_def SFS_MAXFILE_def)
      then show ?thesis
        unfolding first using sfs_partialio_ok [OF env at request_le [OF r m] off(1)] off(2) False
        by (simp add: m_def)
    qed
    fix sv' s' u'
    assume at': "file_at blk nblk dev_ok v sv' s'" and r': "sfs_request (env_u env) (uio_resid u - m) u'"
      and o: "nat (uio_offset u') = nat (uio_offset u) + m" and res: "uio_resid u' = uio_resid u - m"
    have "\<exists>k'. 0 < uio_resid u' \<longrightarrow> nat (uio_offset u') = 512 * k'"
      using off o res
      by (intro exI [of _ "if skip = 0 then k else Suc k"]) (auto simp: m_def min_def split: if_splits)
    then show "xfer_res blk nblk dev_ok (env_u env) v (uio_resid u - m) sv' s' u' (sfs_io_tail env v (s', u'))"
      using sfs_io_tail_ok [OF env at', of u'] r' res by auto
  qed
  moreover have "sfs_io_body env v (s, u) = kbind ?first (\<lambda>_. sfs_io_tail env v) (s, u)"
    by (simp add: sfs_io_body_def kbind_kget bo Let_def)
  ultimately show ?thesis using m by simp
qed

text \<open>Changes to the inode that leave the block map alone.\<close>

lemma file_at_put:
  assumes at: "file_at blk nblk dev_ok v sv s" and ok: "inode_ok (sv_i sv')"
    and eq: "sfi_direct (sv_i sv') = sfi_direct (sv_i sv)" "sfi_indirect (sv_i sv') = sfi_indirect (sv_i sv)"
  shows "file_at blk nblk dev_ok v sv' (s\<lparr>sfs_heap := (sfs_heap s)(v := Some sv')\<rparr>)"
    "fbytes B (sv_i sv') = fbytes B (sv_i sv)" "file_blocks B (sv_i sv') = file_blocks B (sv_i sv)"
proof -
  have f: "fmap B (sv_i sv') = fmap B (sv_i sv)" for B by (rule ext) (simp add: fmap_def eq)
  have fb: "fblock B (sv_i sv') = fblock B (sv_i sv)" for B by (rule ext) (simp add: fblock_def f)
  show "fbytes B (sv_i sv') = fbytes B (sv_i sv)" by (simp add: fbytes_def fb)
  show "file_blocks B (sv_i sv') = file_blocks B (sv_i sv)" for B by (simp add: file_blocks_def f eq)
  then show "file_at blk nblk dev_ok v sv' (s\<lparr>sfs_heap := (sfs_heap s)(v := Some sv')\<rparr>)"
    using at ok by (simp add: file_at_def file_ok_def f eq sfs_inv_def sfs_used_def)
qed

lemma uio_clip_moves:
  assumes "uio_moves env bs (u\<lparr>uio_resid := n\<rparr>) u'" "length bs = n" "uio_wf u" "n \<le> uio_resid u"
  shows "uio_moves env bs u (u'\<lparr>uio_resid := uio_resid u - n\<rparr>)"
  using assms by (auto simp: uio_moves_def uio_wf_def uio_ok_def uio_left_def uio_done_def)

text \<open>Reading clips the request at the end of the file.\<close>

lemma sfs_io_read:
  assumes env: "env_dio env = d_io" and at: "file_at blk nblk dev_ok v sv s"
    and u: "uio_wf u" "uio_ok (env_u env) u" "0 \<le> uio_offset u" and rw: "uio_rw u = UIO_READ"
    and sz: "sfi_size (sv_i sv) \<le> SFS_MAXFILE"
  shows "\<exists>s' u'. sfs_io env v (s, u) = Ok () (s', u') \<and> dev_same blk nblk dev_ok s s' \<and>
    uio_moves (env_u env) (slice (nat (uio_offset u)) (uio_resid u)
      (take (sfi_size (sv_i sv)) (fbytes (blk (sfs_device s)) (sv_i sv)))) u u'"
proof -
  let ?F = "fbytes (blk (sfs_device s)) (sv_i sv)" and ?n = "sfi_size (sv_i sv)"
  have h: "sfs_heap s v = Some sv" using at by (simp add: file_at_def)
  obtain p where off: "uio_offset u = int p" using u(3) by (metis nonneg_int_cases)
  show ?thesis
  proof (cases "?n \<le> p")
    case True
    then have "sfs_io env v (s, u) = Ok () (s, u)"
      using off rw h by (simp add: sfs_io_def kbind_def kget_def on_sfs_def get_sv_def kret_def Let_def)
    moreover have "slice p (uio_resid u) (take ?n ?F) = []" using True by (simp add: slice_def)
    moreover have "dev_same blk nblk dev_ok s s" using at by (auto simp: file_at_def intro: dev_same_refl)
    ultimately show ?thesis using u off by (auto simp: uio_moves_def)
  next
    case False
    define extra where "extra = uio_resid u - (?n - p)"
    define u1 where "u1 = u\<lparr>uio_resid := uio_resid u - extra\<rparr>"
    have r1: "uio_resid u1 = min (uio_resid u) (?n - p)" by (simp add: u1_def extra_def)
    have r: "sfs_request (env_u env) (uio_resid u1) u1"
      using u r1 False sz off by (auto simp: sfs_request_def u1_def uio_wf_def uio_ok_def uio_left_def)
    from sfs_io_body_ok [OF env at r] obtain s' u' where
      body: "sfs_io_body env v (s, u1) = Ok () (s', u')"
        "file_xfer blk nblk dev_ok (env_u env) v (uio_resid u1) sv s u1 sv s' u'"
      using rw by (auto simp: xfer_res_def u1_def file_xfer_def Let_def)
    have bs: "uio_bytes (uio_resid u1) ?F u1 = slice p (uio_resid u) (take ?n ?F)"
      using rw r1 by (simp add: uio_bytes_def u1_def slice_def drop_take off)
    have ds: "dev_same blk nblk dev_ok s s'" and mv: "uio_moves (env_u env) (slice p (uio_resid u) (take ?n ?F)) u1 u'"
      and h': "sfs_heap s' v = Some sv"
      using body(2) rw bs by (auto simp: file_xfer_def Let_def u1_def file_at_def)
    have lb: "length (slice p (uio_resid u) (take ?n ?F)) = uio_resid u1"
      using uio_bytes_length [OF r fbytes_length [OF at]] bs by simp
    have wf: "uio_resid u < 2 ^ 32" "uio_resid u \<le> length (uio_left u)" using u(1) by (simp_all add: uio_wf_def)
    let ?u' = "u'\<lparr>uio_resid := add32 (uio_resid u') extra\<rparr>"
    have ex: "nat (uio_offset u + int (uio_resid u) - int ?n) = extra \<and>
        uio_offset u + int (uio_resid u) > int ?n \<and> extra < uio_resid u" if "0 < extra"
      using that off False by (auto simp: extra_def)
    have nex: "\<not> uio_offset u + int (uio_resid u) > int ?n" if "extra = 0" using that off False by (auto simp: extra_def)
    have "sfs_io env v (s, u) = Ok () (s', ?u')"
    proof (cases "extra = 0")
      case True
      then show ?thesis using nex off False rw h h' body(1) mv
        by (simp add: sfs_io_def sfs_io_out_def kbind_def kget_def on_sfs_def get_sv_def ktry_def kmod_def
            kassert_def kret_def Let_def u1_def uio_moves_def)
    next
      case extra: False
      then show ?thesis using ex off False rw h h' body(1) mv
        by (simp add: sfs_io_def sfs_io_out_def kbind_def kget_def on_sfs_def get_sv_def ktry_def kmod_def
            kassert_def kret_def Let_def u1_def uio_moves_def)
    qed
    moreover have "add32 (uio_resid u') extra = uio_resid u - uio_resid u1"
      using mv lb wf(1) r1 False by (simp add: uio_moves_def add32_id extra_def)
    moreover have "u1 = u\<lparr>uio_resid := uio_resid u1\<rparr>" by (simp add: u1_def)
    then have "uio_moves (env_u env) (slice p (uio_resid u) (take ?n ?F)) u (u'\<lparr>uio_resid := uio_resid u - uio_resid u1\<rparr>)"
      using uio_clip_moves [where env = "env_u env" and u = u and n = "uio_resid u1" and u' = u'] mv lb u(1) r1 by simp
    ultimately show ?thesis using ds off by auto
  qed
qed

lemma sfs_io_out_write:
  assumes at: "file_at blk nblk dev_ok v sv s" and rw: "uio_rw u = UIO_WRITE"
    and off: "uio_offset u = int p" "p \<le> SFS_MAXFILE" and res: "uio_resid u < 2 ^ 32"
  shows "\<exists>sv' s'. sfs_io_out v 0 (s, u) = Ok () (s', u) \<and> file_at blk nblk dev_ok v sv' s' \<and>
    file_step blk v sv s sv' s' \<and> sfi_size (sv_i sv') = max (sfi_size (sv_i sv)) p \<and>
    fbytes (blk (sfs_device s')) (sv_i sv') = fbytes (blk (sfs_device s)) (sv_i sv)"
proof (cases "p > sfi_size (sv_i sv)")
  case True
  define sv' where "sv' = sv\<lparr>sv_i := (sv_i sv)\<lparr>sfi_size := p\<rparr>, sv_dirty := True\<rparr>"
  have p: "p < 2 ^ 32" using off(2) by (simp add: SFS_MAXFILE_def)
  have "inode_ok (sv_i sv')" using at p by (simp add: file_at_def file_ok_def inode_ok_def sv'_def)
  note put = file_at_put [OF at this] file_step_refl [OF at]
  have "sfs_io_out v 0 (s, u) = Ok () (s\<lparr>sfs_heap := (sfs_heap s)(v := Some sv')\<rparr>, u)"
    using True rw off res p at
    by (simp add: sfs_io_out_def kfun_defs on_sfs_def get_sv_def put_sv_def file_at_def sv'_def add32_id)
  moreover have "file_step blk v sv s sv' (s\<lparr>sfs_heap := (sfs_heap s)(v := Some sv')\<rparr>)"
    using put(3,4) by (simp add: file_step_def sv'_def sfs_used_def)
  ultimately show ?thesis
    using put(1,2) True by (intro exI [of _ sv'] exI [of _ "s\<lparr>sfs_heap := (sfs_heap s)(v := Some sv')\<rparr>"])
      (simp add: sv'_def)
next
  case False
  then have "sfs_io_out v 0 (s, u) = Ok () (s, u)"
    using rw off res at
    by (simp add: sfs_io_out_def kfun_defs on_sfs_def get_sv_def file_at_def add32_id)
  then show ?thesis using False at file_step_refl [OF at] by (auto simp: max_def)
qed

lemma sfs_io_write_eq:
  assumes "uio_rw u = UIO_WRITE" "sfs_heap s v = Some sv"
  shows "sfs_io env v (s, u) = kbind (ktry (sfs_io_body env v)) (\<lambda>result. kbind (sfs_io_out v 0) (\<lambda>_.
      case result of Inl e \<Rightarrow> kerr e | Inr _ \<Rightarrow> kret ())) (s, u)"
  using assms by (simp add: sfs_io_def kbind_def kget_def on_sfs_def get_sv_def kassert_def kmod_def Let_def)

lemma sfs_io_write:
  assumes env: "env_dio env = d_io" and at: "file_at blk nblk dev_ok v sv s"
    and r: "sfs_request (env_u env) (uio_resid u) u" and rw: "uio_rw u = UIO_WRITE"
  shows "\<exists>m sv' s' u'. m \<le> uio_resid u \<and>
    (sfs_io env v (s, u) = Ok () (s', u') \<and> m = uio_resid u \<or> sfs_io env v (s, u) = Err ENOSPC (s', u')) \<and>
    file_at blk nblk dev_ok v sv' s' \<and> file_step blk v sv s sv' s' \<and>
    uio_moves (env_u env) (take m (uio_left u)) u u' \<and>
    sfi_size (sv_i sv') = max (sfi_size (sv_i sv)) (nat (uio_offset u) + m) \<and>
    fbytes (blk (sfs_device s')) (sv_i sv') =
      overwrite (nat (uio_offset u)) (take m (uio_left u)) (fbytes (blk (sfs_device s)) (sv_i sv))"
proof -
  have h: "sfs_heap s v = Some sv" using at by (simp add: file_at_def)
  obtain p where off: "uio_offset u = int p" using request_offset(1) [OF r] by (metis nonneg_int_cases)
  from sfs_io_body_ok [OF env at r] obtain m sv1 s1 u1 where
    body: "m \<le> uio_resid u" "file_xfer blk nblk dev_ok (env_u env) v m sv s u sv1 s1 u1"
      "sfs_io_body env v (s, u) = Ok () (s1, u1) \<and> m = uio_resid u \<or> sfs_io_body env v (s, u) = Err ENOSPC (s1, u1)"
    by (auto simp: xfer_res_def)
  have x: "file_at blk nblk dev_ok v sv1 s1" "file_step blk v sv s sv1 s1" "sfi_size (sv_i sv1) = sfi_size (sv_i sv)"
    "uio_moves (env_u env) (take m (uio_left u)) u u1"
    "fbytes (blk (sfs_device s1)) (sv_i sv1) = overwrite p (take m (uio_left u)) (fbytes (blk (sfs_device s)) (sv_i sv))"
    using body(2) rw off by (simp_all add: file_xfer_def Let_def uio_bytes_def)
  have len: "length (take m (uio_left u)) = m" using body(1) r by (simp add: sfs_request_def uio_wf_def)
  have u1: "uio_rw u1 = UIO_WRITE" "uio_offset u1 = int (p + m)" "uio_resid u1 < 2 ^ 32" "p + m \<le> SFS_MAXFILE"
    using x(4) len rw off body(1) r by (simp_all add: uio_moves_def uio_wf_def sfs_request_def)
  from sfs_io_out_write [OF x(1) u1(1,2,4,3)] obtain sv2 s2 where
    out: "sfs_io_out v 0 (s1, u1) = Ok () (s2, u1)" "file_at blk nblk dev_ok v sv2 s2" "file_step blk v sv1 s1 sv2 s2"
      "sfi_size (sv_i sv2) = max (sfi_size (sv_i sv1)) (p + m)"
      "fbytes (blk (sfs_device s2)) (sv_i sv2) = fbytes (blk (sfs_device s1)) (sv_i sv1)" by blast
  note io = sfs_io_write_eq [OF rw h, of env]
  have "sfs_io env v (s, u) = Ok () (s2, u1) \<and> m = uio_resid u \<or> sfs_io env v (s, u) = Err ENOSPC (s2, u1)"
    using body(3) out(1) unfolding io by (auto simp: kfun_defs)
  then show ?thesis
    using body(1) x out(2-5) off file_step_trans [OF x(2) out(3)]
    by (intro exI [of _ m] exI [of _ sv2] exI [of _ s2] exI [of _ u1]) simp
qed

text \<open>A write that stays inside one block is done completely or not at all.\<close>

lemma sfs_io_body_small:
  assumes off: "0 \<le> uio_offset u" "uio_offset u < 2 ^ 32" and n: "0 < uio_resid u" "uio_resid u < 512"
    "nat (uio_offset u) mod 512 + uio_resid u \<le> 512"
    and fin: "\<And>s' u'. sfs_partialio env v (nat (uio_offset u) mod 512) (uio_resid u) (s, u) = Ok () (s', u') \<Longrightarrow> uio_resid u' = 0"
  shows "sfs_io_body env v (s, u) = sfs_partialio env v (nat (uio_offset u) mod 512) (uio_resid u) (s, u)"
proof (cases "nat (uio_offset u) mod 512 = 0")
  case True
  then show ?thesis
    using sfs_offset_nat [OF off] n
    by (simp add: sfs_io_body_def sfs_io_tail_def kbind_def kget_def kret_def kassert_def Let_def SFS_BLOCKSIZE_def)
next
  case False
  then have "sub32 512 (nat (uio_offset u) mod 512) = 512 - nat (uio_offset u) mod 512"
    by (intro sub32_id) (auto intro: less_imp_le)
  moreover have "(if 512 - nat (uio_offset u) mod 512 > uio_resid u then uio_resid u
      else 512 - nat (uio_offset u) mod 512) = uio_resid u" using n(3) by auto
  ultimately have "sfs_io_body env v (s, u) =
      kbind (sfs_partialio env v (nat (uio_offset u) mod 512) (uio_resid u)) (\<lambda>_. sfs_io_tail env v) (s, u)"
    using sfs_offset_nat [OF off] False
    by (simp only: sfs_io_body_def kbind_kget snd_conv Let_def SFS_BLOCKSIZE_def) simp
  then show ?thesis
    using fin by (auto simp: kbind_def sfs_io_tail_def kget_def kret_def split: kres.splits)
qed

lemma sfs_io_small:
  assumes env: "env_dio env = d_io" and at: "file_at blk nblk dev_ok v sv s"
    and r: "sfs_request (env_u env) (uio_resid u) u" and rw: "uio_rw u = UIO_WRITE"
    and n: "0 < uio_resid u" "uio_resid u < 512" "nat (uio_offset u) mod 512 + uio_resid u \<le> 512"
    and eof: "nat (uio_offset u) \<le> sfi_size (sv_i sv)"
  obtains (nospace) s' sv' where "sfs_io env v (s, u) = Err ENOSPC (s', u)" "file_same blk nblk dev_ok v sv s sv' s'"
  | (written) s' sv' u' where "sfs_io env v (s, u) = Ok () (s', u')" "file_at blk nblk dev_ok v sv' s'"
      "file_step blk v sv s sv' s'" "uio_resid u' = 0"
      "sfi_size (sv_i sv') = max (sfi_size (sv_i sv)) (nat (uio_offset u) + uio_resid u)"
      "fbytes (blk (sfs_device s')) (sv_i sv') =
        overwrite (nat (uio_offset u)) (take (uio_resid u) (uio_left u)) (fbytes (blk (sfs_device s)) (sv_i sv))"
proof -
  let ?k = "nat (uio_offset u) div 512" and ?skip = "nat (uio_offset u) mod 512"
  have h: "sfs_heap s v = Some sv" using at by (simp add: file_at_def)
  note off = request_offset [OF r]
  have "nat (uio_offset u) < 143 * 512" using r n(1) by (simp add: sfs_request_def SFS_MAXFILE_def)
  then have k: "nat (uio_offset u) = 512 * ?k + ?skip" "?k < 143" "?skip < 512"
    by (simp_all add: less_mult_imp_div_less)
  note io = sfs_io_write_eq [OF rw h, of env]
  show thesis
  proof (cases rule: sfs_partialio_cases [OF env at r k(1,2) n(3) k(3) rw])
    case (1 s1 sv1)
    have "sfs_io_body env v (s, u) = Err ENOSPC (s1, u)" using sfs_io_body_small [OF off n, of env v s] 1(1) by simp
    moreover have "sfs_heap s1 v = Some sv1" "sfi_size (sv_i sv1) = sfi_size (sv_i sv)"
      using 1(2) by (simp_all add: file_same_def file_at_def)
    moreover have "\<not> int (sfi_size (sv_i sv)) < uio_offset u" "add32 (uio_resid u) 0 = uio_resid u"
      using eof off(1) r by (auto simp: sfs_request_def uio_wf_def add32_id)
    ultimately have "sfs_io env v (s, u) = Err ENOSPC (s1, u)"
      unfolding io by (simp add: kfun_defs sfs_io_out_def on_sfs_def get_sv_def rw)
    then show thesis using nospace 1(2) by blast
  next
    case (2 s1 u1 sv1)
    have len: "length (take (uio_resid u) (uio_left u)) = uio_resid u" using r by (simp add: sfs_request_def uio_wf_def)
    have x: "file_at blk nblk dev_ok v sv1 s1" "file_step blk v sv s sv1 s1" "sfi_size (sv_i sv1) = sfi_size (sv_i sv)"
      "uio_moves (env_u env) (take (uio_resid u) (uio_left u)) u u1"
      "fbytes (blk (sfs_device s1)) (sv_i sv1) = overwrite (nat (uio_offset u)) (take (uio_resid u) (uio_left u))
        (fbytes (blk (sfs_device s)) (sv_i sv))"
      using 2(2) rw by (simp_all add: file_xfer_def Let_def uio_bytes_def)
    have u1: "uio_rw u1 = UIO_WRITE" "uio_offset u1 = int (nat (uio_offset u) + uio_resid u)" "uio_resid u1 = 0"
      using x(4) len rw off by (simp_all add: uio_moves_def)
    have body: "sfs_io_body env v (s, u) = Ok () (s1, u1)"
      using sfs_io_body_small [OF off n, of env v s] 2(1) u1(3) by simp
    have "nat (uio_offset u) + uio_resid u \<le> SFS_MAXFILE" using r by (simp add: sfs_request_def)
    from sfs_io_out_write [OF x(1) u1(1,2) this] u1(3) obtain sv2 s2 where
      out: "sfs_io_out v 0 (s1, u1) = Ok () (s2, u1)" "file_at blk nblk dev_ok v sv2 s2" "file_step blk v sv1 s1 sv2 s2"
        "sfi_size (sv_i sv2) = max (sfi_size (sv_i sv1)) (nat (uio_offset u) + uio_resid u)"
        "fbytes (blk (sfs_device s2)) (sv_i sv2) = fbytes (blk (sfs_device s1)) (sv_i sv1)" by auto
    have "sfs_io env v (s, u) = Ok () (s2, u1)" unfolding io using body out(1) by (simp add: kfun_defs)
    then show thesis
      by (rule written) (use out x u1(3) file_step_trans [OF x(2) out(3)] in simp_all)
  qed
qed

end

section \<open>Properties\<close>

text \<open>
  C5: reading refines taking a slice of a list of bytes. On a sound file \<^verbatim>\<open>sfs_io\<close> returns 0 and
  moves into the caller's regions the bytes of the file from \<^verbatim>\<open>uio_offset\<close> on, at most
  \<^verbatim>\<open>uio_resid\<close> of them and none past the end of the file; partial blocks, whole blocks and holes
  (which read as zeros) are put together in order. What was not read stays in \<^verbatim>\<open>uio_resid\<close>, and the
  volume is unchanged.
\<close>

theorem sfs_io_read_correct:
  assumes "block_device d_io blk nblk dev_ok" "env_dio env = d_io" "file_at blk nblk dev_ok v sv s"
    "uio_wf u" "uio_ok (env_u env) u" "0 \<le> uio_offset u" "uio_rw u = UIO_READ"
    "sfi_size (sv_i sv) \<le> SFS_MAXFILE"
  shows "\<exists>s' u'. sfs_io env v (s, u) = Ok () (s', u') \<and> dev_same blk nblk dev_ok s s' \<and>
    uio_moves (env_u env) (slice (nat (uio_offset u)) (uio_resid u)
      (take (sfi_size (sv_i sv)) (fbytes (blk (sfs_device s)) (sv_i sv)))) u u'"
  using assms by (rule block_device.sfs_io_read)

theorem sfs_io_read_correct_witness:
  "\<exists>s' u'. sfs_io sample_env 1 (sample_vol, uio_kinit 0x80000000 (replicate 300 0) 900 UIO_READ) = Ok () (s', u') \<and>
    uio_resid u' = 200 \<and> uio_offset u' = 1000"
proof -
  let ?u = "uio_kinit 0x80000000 (replicate 300 0) 900 UIO_READ"
  have sz: "sfi_size (sv_i sample_sv) = 1000" by (simp add: sample_sv_def)
  have u: "uio_wf ?u" "uio_ok (env_u sample_env) ?u" using uio_kinit_wf by auto
  have "0 \<le> uio_offset ?u" "uio_rw ?u = UIO_READ" "sfi_size (sv_i sample_sv) \<le> SFS_MAXFILE"
    by (simp_all add: uio_kinit_def sz SFS_MAXFILE_def)
  from sfs_io_read_correct [OF mem.lhd.block_device_axioms sample_env_dio sample_file_at u this]
  show ?thesis
    using mem.lhd.fbytes_length [OF sample_file_at]
    by (auto simp: uio_moves_def slice_def sz uio_kinit_def SFS_MAXFILE_def)
qed

text \<open>
  C4: writing refines overwriting part of a list of bytes. On a sound file and a request within
  the 143 blocks of an inode, \<^verbatim>\<open>sfs_io\<close> moves all \<^verbatim>\<open>uio_resid\<close> bytes and returns 0, or runs out of space
  after \<open>m\<close> of them and returns \<open>ENOSPC\<close>. Either way the file differs from before exactly in these bytes, its
  size is extended to the end of what was written, the file stays sound and no block of anything else
  changes.
\<close>

theorem sfs_io_write_correct:
  assumes "block_device d_io blk nblk dev_ok" "env_dio env = d_io" "file_at blk nblk dev_ok v sv s"
    "sfs_request (env_u env) (uio_resid u) u" "uio_rw u = UIO_WRITE"
  shows "\<exists>m sv' s' u'. m \<le> uio_resid u \<and>
    (sfs_io env v (s, u) = Ok () (s', u') \<and> m = uio_resid u \<or> sfs_io env v (s, u) = Err ENOSPC (s', u')) \<and>
    file_at blk nblk dev_ok v sv' s' \<and> file_step blk v sv s sv' s' \<and>
    uio_moves (env_u env) (take m (uio_left u)) u u' \<and>
    sfi_size (sv_i sv') = max (sfi_size (sv_i sv)) (nat (uio_offset u) + m) \<and>
    fbytes (blk (sfs_device s')) (sv_i sv') =
      overwrite (nat (uio_offset u)) (take m (uio_left u)) (fbytes (blk (sfs_device s)) (sv_i sv))"
  using assms by (rule block_device.sfs_io_write)

lemma sample_write:
  "sfs_request (env_u sample_env) 700 (uio_kinit 0x80000000 (replicate 700 7) 900 UIO_WRITE)"
  using uio_kinit_wf [of "replicate 700 7"] by (simp add: sfs_request_def) (simp add: uio_kinit_def SFS_MAXFILE_def)

theorem sfs_io_write_correct_witness:
  "\<exists>m \<le> 700. \<exists>s'. sfs_heap s' 1 \<noteq> None \<and>
     (\<exists>u'. uio_offset u' = 900 + int m \<and>
        (sfs_io sample_env 1 (sample_vol, uio_kinit 0x80000000 (replicate 700 7) 900 UIO_WRITE) = Ok () (s', u') \<or>
         sfs_io sample_env 1 (sample_vol, uio_kinit 0x80000000 (replicate 700 7) 900 UIO_WRITE) = Err ENOSPC (s', u')))"
proof -
  let ?u = "uio_kinit 0x80000000 (replicate 700 7) 900 UIO_WRITE"
  have k: "uio_resid ?u = 700" "uio_rw ?u = UIO_WRITE" "uio_offset ?u = 900" by (simp_all add: uio_kinit_def)
  have left: "length (uio_left ?u) = 700" using uio_kinit_wf(3) [of "replicate 700 7"] by simp
  from sfs_io_write_correct [OF mem.lhd.block_device_axioms sample_env_dio sample_file_at, of ?u] sample_write k
  obtain m sv' s' u' where r: "m \<le> 700"
    "sfs_io sample_env 1 (sample_vol, ?u) = Ok () (s', u') \<or> sfs_io sample_env 1 (sample_vol, ?u) = Err ENOSPC (s', u')"
    "file_at lhd_blk d_blocks (lhd_ready (\<lambda>d. d)) 1 sv' s'" "uio_moves (env_u sample_env) (take m (uio_left ?u)) ?u u'"
    by auto
  moreover have "uio_offset u' = 900 + int m" using r(1,4) k(3) left by (simp add: uio_moves_def)
  moreover have "sfs_heap s' 1 \<noteq> None" using r(3) by (simp add: file_at_def)
  ultimately show ?thesis by blast
qed

text \<open>
  C23: what was written is read back. When a write returned 0, a read of the same region of the file
  returns exactly the bytes that the writer supplied.
\<close>

theorem sfs_write_read_roundtrip:
  assumes dev: "block_device d_io blk nblk dev_ok" "env_dio env = d_io" "file_at blk nblk dev_ok v sv s"
    and w: "sfs_request (env_u env) (uio_resid u) u" "uio_rw u = UIO_WRITE" "sfi_size (sv_i sv) \<le> SFS_MAXFILE"
    and r: "uio_wf r" "uio_ok (env_u env) r" "uio_rw r = UIO_READ" "uio_offset r = uio_offset u"
      "uio_resid r = uio_resid u"
    and ok: "sfs_io env v (s, u) = Ok () (s1, u1)"
  shows "\<exists>s2 r'. sfs_io env v (s1, r) = Ok () (s2, r') \<and> uio_done r' = uio_done r @ take (uio_resid u) (uio_left u)"
proof -
  let ?F = "fbytes (blk (sfs_device s)) (sv_i sv)" and ?o = "nat (uio_offset u)" and ?bs = "take (uio_resid u) (uio_left u)"
  from block_device.sfs_io_write [OF dev w(1,2)] ok obtain sv1 where
    at1: "file_at blk nblk dev_ok v sv1 s1" and sz: "sfi_size (sv_i sv1) = max (sfi_size (sv_i sv)) (?o + uio_resid u)"
    and F1: "fbytes (blk (sfs_device s1)) (sv_i sv1) = overwrite ?o ?bs ?F" by auto
  have lb: "length ?bs = uio_resid u" using w(1) by (simp add: sfs_request_def uio_wf_def)
  have o: "0 \<le> uio_offset u" "?o + uio_resid u \<le> SFS_MAXFILE" using w(1) by (simp_all add: sfs_request_def)
  have F: "length ?F = SFS_MAXFILE" using block_device.fbytes_length [OF dev(1,3)] .
  have "slice ?o (uio_resid u) (take (sfi_size (sv_i sv1)) (overwrite ?o ?bs ?F)) = ?bs"
    using lb o F sz by (simp add: slice_def drop_take overwrite_def)
  moreover have "sfi_size (sv_i sv1) \<le> SFS_MAXFILE" using sz o(2) w(3) by simp
  from block_device.sfs_io_read [OF dev(1,2) at1 r(1,2) _ r(3) this] r(4,5) o(1) F1 obtain s2 r' where
    "sfs_io env v (s1, r) = Ok () (s2, r')"
    "uio_moves (env_u env) (slice ?o (uio_resid u) (take (sfi_size (sv_i sv1)) (overwrite ?o ?bs ?F))) r r'" by auto
  ultimately show ?thesis by (auto simp: uio_moves_def)
qed

lemma sample_write_succeeds:
  "\<exists>s1 u1. sfs_io sample_env 1 (sample_vol, uio_kinit 0x80000000 (replicate 4 7) 900 UIO_WRITE) = Ok () (s1, u1)"
proof -
  let ?u = "uio_kinit 0x80000000 (replicate 4 7) 900 UIO_WRITE"
  have r: "sfs_request (env_u sample_env) 4 ?u" and u: "uio_rw ?u = UIO_WRITE" "uio_resid ?u = 4" "uio_offset ?u = 900"
    using uio_kinit_wf [of "replicate 4 7"]
    by (simp_all add: sfs_request_def)
       (simp_all add: uio_kinit_def SFS_MAXFILE_def)
  have h: "sfs_heap sample_vol 1 = Some sample_sv" by (simp add: sample_vol_def)
  have "sfs_checkused 5 sample_vol = Ok () sample_vol"
    using sfs_checkused_ok [OF sample_inv, of 5] by (simp add: sample_used) (simp add: sample_vol_def)
  then have "sfs_bmap sample_env 1 1 True sample_vol = Ok 5 sample_vol"
    using h by (simp add: sfs_bmap_def SFS_NDIRECT_def sfs_bmap_direct_def kfun_defs get_sv_def Let_def sample_sv_def)
  with mem.lhd.sfs_partialio_mapped [OF sample_env_dio sample_file_at r, of 1 388 5 sample_vol sample_sv] u
    file_same_refl [OF sample_file_at]
  obtain s' u' where p: "sfs_partialio sample_env 1 388 4 (sample_vol, ?u) = Ok () (s', u')"
      "file_xfer lhd_blk d_blocks (lhd_ready (\<lambda>d. d)) (env_u sample_env) 1 4 sample_sv sample_vol ?u sample_sv s' u'"
    by (auto simp: sample_fmap)
  have "sfs_heap s' 1 = Some sample_sv" "uio_resid u' = 0"
    using p(2) u uio_bytes_length [OF r mem.lhd.fbytes_length [OF sample_file_at]]
    by (simp_all add: file_xfer_def Let_def file_at_def uio_moves_def)
  moreover have "sfs_blkoff ?u = 388" using sfs_offset_nat(2) [OF request_offset [OF r]] u by simp
  ultimately show ?thesis
    using h u p(1)
    by (auto simp: sfs_io_def sfs_io_body_def sfs_io_tail_def sfs_io_out_def kfun_defs on_sfs_def get_sv_def put_sv_def
        Let_def sub32_def SFS_BLOCKSIZE_def)
qed

theorem sfs_write_read_roundtrip_witness:
  "\<exists>s1 u1 s2 r'.
     sfs_io sample_env 1 (sample_vol, uio_kinit 0x80000000 (replicate 4 7) 900 UIO_WRITE) = Ok () (s1, u1) \<and>
     sfs_io sample_env 1 (s1, uio_kinit 0x80001000 (replicate 4 0) 900 UIO_READ) = Ok () (s2, r') \<and>
     uio_done r' = replicate 4 7"
proof -
  let ?u = "uio_kinit 0x80000000 (replicate 4 7) 900 UIO_WRITE" and ?r = "uio_kinit 0x80001000 (replicate 4 0) 900 UIO_READ"
  obtain s1 u1 where w: "sfs_io sample_env 1 (sample_vol, ?u) = Ok () (s1, u1)" using sample_write_succeeds by blast
  have k: "sfs_request (env_u sample_env) (uio_resid ?u) ?u" "uio_rw ?u = UIO_WRITE" "sfi_size (sv_i sample_sv) \<le> SFS_MAXFILE"
    "uio_wf ?r" "uio_ok (env_u sample_env) ?r" "uio_rw ?r = UIO_READ" "uio_offset ?r = uio_offset ?u" "uio_resid ?r = uio_resid ?u"
    using uio_kinit_wf [of "replicate 4 7"] uio_kinit_wf [of "replicate 4 0"]
    by (simp_all add: sfs_request_def)
       (simp_all add: uio_kinit_def sample_sv_def SFS_MAXFILE_def)
  have "take (uio_resid ?u) (uio_left ?u) = replicate 4 7" "uio_done ?r = []"
    by (simp_all add: uio_kinit_def uio_done_def uio_left_def)
  then show ?thesis
    using sfs_write_read_roundtrip [OF mem.lhd.block_device_axioms sample_env_dio sample_file_at k w] w by auto
qed

end
