(* ===== verification/Sfs_Dir.thy ===== *)
theory Sfs_Dir
  imports Sfs_File
begin

text \<open>
  Directories of SFS (\<^verbatim>\<open>fs/sfs/sfs_vnode.c\<close>). A directory is a file of 64-byte slots. The slots
  are abstracted to a map from names to inode numbers, and the search, the insertion and the removal
  are shown to be the lookup, the update and the deletion of that map.
\<close>

section \<open>Model\<close>

text \<open>\<^verbatim>\<open>sfs_io\<close> on a kernel buffer set up by \<^verbatim>\<open>uio_kinit\<close>; the result is the request as it is left.\<close>

definition sfs_kio :: "'d sfs_env \<Rightarrow> nat \<Rightarrow> u8 list \<Rightarrow> int \<Rightarrow> uio_rw \<Rightarrow> ('d sfs_fs, uio) kfun" where
  "sfs_kio env v bytes pos rw s =
    (case sfs_io env v (s, uio_kinit SFS_KBUF bytes pos rw) of
       Ok _ (s', u) \<Rightarrow> Ok u s'
     | Err e (s', u) \<Rightarrow> Err e s'
     | Panic \<Rightarrow> Panic)"

abbreviation (input) sizeof_sfs_dir :: nat where "sizeof_sfs_dir \<equiv> 64"

definition sfs_readdir :: "'d sfs_env \<Rightarrow> nat \<Rightarrow> nat \<Rightarrow> ('d sfs_fs, sfs_dir) kfun" where
  "sfs_readdir env v slot =
    (let actualpos = int (mul32 slot sizeof_sfs_dir) in
     kbind (sfs_kio env v (replicate sizeof_sfs_dir 0) actualpos UIO_READ) (\<lambda>ku.
     if uio_resid ku > 0 then kpanic
     else kret (bytes_dir (uio_done ku @ uio_left ku))))"

definition sfs_writedir :: "'d sfs_env \<Rightarrow> nat \<Rightarrow> sfs_dir \<Rightarrow> nat \<Rightarrow> ('d sfs_fs, unit) kfun" where
  "sfs_writedir env v sd slot =
    (let actualpos = int (mul32 slot sizeof_sfs_dir) in
     kbind (sfs_kio env v (dir_bytes sd) actualpos UIO_WRITE) (\<lambda>ku.
     if uio_resid ku > 0 then kpanic else kret ()))"

definition sfs_dir_nentries :: "nat \<Rightarrow> ('d sfs_fs, nat) kfun" where
  "sfs_dir_nentries v =
    kbind (get_sv v) (\<lambda>sv.
    kbind (kassert (sfi_type (sv_i sv) = SFS_TYPE_DIR)) (\<lambda>_.
    let size = sfi_size (sv_i sv) in
    if size mod sizeof_sfs_dir \<noteq> 0 then kpanic else kret (size div sizeof_sfs_dir)))"

text \<open>
  The name in an entry as \<^verbatim>\<open>strcmp\<close> sees it after its last byte was set to 0. Names passed by the
  caller are C strings without their terminator.
\<close>

definition sfd_cname :: "sfs_dir \<Rightarrow> u8 list" where
  "sfd_cname sd = takeWhile (\<lambda>c. c \<noteq> 0) ((sfd_name sd)[SFS_NAMELEN - 1 := 0])"

text \<open>
  The search loop over the slots \<open>i\<close> to \<open>i + n - 1\<close>. The result is the inode number and the slot of
  the name, and the last free slot seen. The return of \<open>ENOENT\<close> is the result \<open>None\<close>: callers
  use the free slot then.
\<close>

primrec sfs_dir_search ::
    "'d sfs_env \<Rightarrow> nat \<Rightarrow> u8 list \<Rightarrow> nat \<Rightarrow> nat \<Rightarrow> (nat \<times> nat) option \<Rightarrow> nat option \<Rightarrow>
      ('d sfs_fs, (nat \<times> nat) option \<times> nat option) kfun" where
  "sfs_dir_search env v name 0 i found emptyslot = kret (found, emptyslot)"
| "sfs_dir_search env v name (Suc n) i found emptyslot =
    kbind (sfs_readdir env v i) (\<lambda>tsd.
    if sfd_ino tsd = SFS_NOINO then sfs_dir_search env v name n (Suc i) found (Some i)
    else if sfd_cname tsd = name then
      kbind (kassert (found = None)) (\<lambda>_.
      sfs_dir_search env v name n (Suc i) (Some (sfd_ino tsd, i)) emptyslot)
    else sfs_dir_search env v name n (Suc i) found emptyslot)"

definition sfs_dir_findname ::
    "'d sfs_env \<Rightarrow> nat \<Rightarrow> u8 list \<Rightarrow> ('d sfs_fs, (nat \<times> nat) option \<times> nat option) kfun" where
  "sfs_dir_findname env v name =
    kbind (sfs_dir_nentries v) (\<lambda>nentries. sfs_dir_search env v name nentries 0 None None)"

definition sfs_dir_link :: "'d sfs_env \<Rightarrow> nat \<Rightarrow> u8 list \<Rightarrow> nat \<Rightarrow> ('d sfs_fs, nat) kfun" where
  "sfs_dir_link env v name ino =
    kbind (sfs_dir_findname env v name) (\<lambda>(found, emptyslot).
    if found \<noteq> None then kerr EEXIST
    else if length name + 1 > SFS_NAMELEN then kerr ENAMETOOLONG
    else
      kbind (case emptyslot of Some i \<Rightarrow> kret i | None \<Rightarrow> sfs_dir_nentries v) (\<lambda>slot.
      kbind (sfs_writedir env v
        \<lparr>sfd_ino = ino, sfd_name = name @ replicate (SFS_NAMELEN - length name) 0\<rparr> slot) (\<lambda>_.
      kret slot)))"

definition sfs_dir_unlink :: "'d sfs_env \<Rightarrow> nat \<Rightarrow> nat \<Rightarrow> ('d sfs_fs, unit) kfun" where
  "sfs_dir_unlink env v slot =
    sfs_writedir env v \<lparr>sfd_ino = SFS_NOINO, sfd_name = replicate SFS_NAMELEN 0\<rparr> slot"

section \<open>A directory as a map from names to inode numbers\<close>

definition dir_slot :: "u8 list \<Rightarrow> nat \<Rightarrow> sfs_dir" where
  "dir_slot F k = bytes_dir (slice (64 * k) 64 F)"

definition dir_slots :: "(nat \<Rightarrow> u8 list) \<Rightarrow> sfs_inode \<Rightarrow> sfs_dir list" where
  "dir_slots B i = map (dir_slot (fbytes B i)) [0..<sfi_size i div 64]"

definition used_slots :: "sfs_dir list \<Rightarrow> sfs_dir list" where
  "used_slots es = filter (\<lambda>e. sfd_ino e \<noteq> 0) es"

definition dir_map :: "sfs_dir list \<Rightarrow> u8 list \<rightharpoonup> nat" where
  "dir_map es = map_of (map (\<lambda>e. (sfd_cname e, sfd_ino e)) (used_slots es))"

text \<open>Each name appears only once.\<close>

definition dir_wf :: "sfs_dir list \<Rightarrow> bool" where
  "dir_wf es \<longleftrightarrow> distinct (map sfd_cname (used_slots es))"

definition dir_at ::
    "('d \<Rightarrow> nat \<Rightarrow> u8 list) \<Rightarrow> ('d \<Rightarrow> nat) \<Rightarrow> ('d \<Rightarrow> bool) \<Rightarrow> nat \<Rightarrow> sfs_vnode \<Rightarrow> 'd sfs_fs \<Rightarrow> bool" where
  "dir_at blk nblk dev_ok v sv s \<longleftrightarrow> file_at blk nblk dev_ok v sv s \<and> sfi_type (sv_i sv) = SFS_TYPE_DIR \<and>
     64 dvd sfi_size (sv_i sv) \<and> sfi_size (sv_i sv) \<le> SFS_MAXFILE \<and>
     dir_wf (dir_slots (blk (sfs_device s)) (sv_i sv))"

lemma dir_map_Some:
  assumes "dir_wf es"
  shows "dir_map es name = Some ino \<longleftrightarrow> (\<exists>k < length es. sfd_ino (es ! k) = ino \<and> ino \<noteq> 0 \<and> sfd_cname (es ! k) = name)"
proof -
  have "distinct (map fst (map (\<lambda>e. (sfd_cname e, sfd_ino e)) (used_slots es)))"
    using assms by (simp add: dir_wf_def o_def)
  then have "dir_map es name = Some ino \<longleftrightarrow> (name, ino) \<in> (\<lambda>e. (sfd_cname e, sfd_ino e)) ` set (used_slots es)"
    by (simp add: dir_map_def)
  also have "\<dots> \<longleftrightarrow> (\<exists>e \<in> set es. sfd_ino e = ino \<and> ino \<noteq> 0 \<and> sfd_cname e = name)"
    by (auto simp: used_slots_def)
  finally show ?thesis by (metis in_set_conv_nth)
qed

lemma dir_map_None:
  "dir_map es name = None \<longleftrightarrow> (\<forall>k < length es. sfd_ino (es ! k) \<noteq> 0 \<longrightarrow> sfd_cname (es ! k) \<noteq> name)"
  by (auto simp: dir_map_def map_of_eq_None_iff used_slots_def image_iff in_set_conv_nth)

lemma dir_wf_unique:
  assumes "dir_wf es" "j < k" "k < length es" "sfd_ino (es ! j) \<noteq> 0" "sfd_ino (es ! k) \<noteq> 0"
  shows "sfd_cname (es ! j) \<noteq> sfd_cname (es ! k)"
proof -
  have "es = take k es @ es ! k # drop (Suc k) es" using assms(3) by (simp add: id_take_nth_drop)
  then have "used_slots es = used_slots (take k es) @ es ! k # used_slots (drop (Suc k) es)"
    using assms(5) by (metis (mono_tags, lifting) filter.simps(2) filter_append used_slots_def)
  then have "sfd_cname (es ! k) \<notin> sfd_cname ` set (used_slots (take k es))"
    using assms(1) by (simp add: dir_wf_def)
  moreover have "es ! j \<in> set (used_slots (take k es))"
    using assms(2-4) by (force simp: used_slots_def in_set_conv_nth)
  ultimately show ?thesis by (metis imageI)
qed

text \<open>What the search knows after the slots below \<open>i\<close>.\<close>

definition find_inv :: "u8 list \<Rightarrow> sfs_dir list \<Rightarrow> nat \<Rightarrow> (nat \<times> nat) option \<Rightarrow> nat option \<Rightarrow> bool" where
  "find_inv name es i found emptyslot \<longleftrightarrow>
     (case found of
        None \<Rightarrow> \<forall>k < i. sfd_ino (es ! k) \<noteq> 0 \<longrightarrow> sfd_cname (es ! k) \<noteq> name
      | Some (ino, slot) \<Rightarrow> slot < i \<and> ino \<noteq> 0 \<and> sfd_ino (es ! slot) = ino \<and> sfd_cname (es ! slot) = name) \<and>
     (case emptyslot of
        None \<Rightarrow> \<forall>k < i. sfd_ino (es ! k) \<noteq> 0
      | Some k \<Rightarrow> k < i \<and> sfd_ino (es ! k) = 0)"

lemma find_inv_step:
  assumes "find_inv name es i found emptyslot"
  shows "sfd_ino (es ! i) = 0 \<Longrightarrow> find_inv name es (Suc i) found (Some i)"
    "sfd_ino (es ! i) \<noteq> 0 \<Longrightarrow> sfd_cname (es ! i) = name \<Longrightarrow>
      find_inv name es (Suc i) (Some (sfd_ino (es ! i), i)) emptyslot"
    "sfd_ino (es ! i) \<noteq> 0 \<Longrightarrow> sfd_cname (es ! i) \<noteq> name \<Longrightarrow> find_inv name es (Suc i) found emptyslot"
  using assms by (auto simp: find_inv_def less_Suc_eq split: option.splits)

lemma find_inv_unique:
  assumes "find_inv name es i found emptyslot" "dir_wf es" "i < length es"
    "sfd_ino (es ! i) \<noteq> 0" "sfd_cname (es ! i) = name"
  shows "found = None"
  using assms dir_wf_unique [OF assms(2) _ assms(3) _ assms(4)]
  by (auto simp: find_inv_def split: option.splits)

lemma dir_at_dev:
  assumes "dir_at blk nblk dev_ok v sv s" "dev_same blk nblk dev_ok s s'"
  shows "dir_at blk nblk dev_ok v sv s'" "blk (sfs_device s') = blk (sfs_device s)"
  using assms dev_same_file [of blk nblk dev_ok v sv s s'] by (auto simp: dir_at_def dev_same_def file_same_def)

lemma length_dir_slots [simp]: "length (dir_slots B i) = sfi_size i div 64"
  by (simp add: dir_slots_def)

lemma nth_dir_slots: "k < sfi_size i div 64 \<Longrightarrow> dir_slots B i ! k = dir_slot (fbytes B i) k"
  by (simp add: dir_slots_def)

lemma sfs_dir_nentries_ok:
  "dir_at blk nblk dev_ok v sv s \<Longrightarrow> sfs_dir_nentries v s = Ok (sfi_size (sv_i sv) div 64) s"
  by (simp add: sfs_dir_nentries_def kfun_defs get_sv_def dir_at_def file_at_def dvd_eq_mod_eq_0)

section \<open>Changing a slot\<close>

lemma dir_slot_overwrite:
  assumes "length F = SFS_MAXFILE" "dir_ok sd" "k < 1144" "j < 1144"
  shows "dir_slot (overwrite (64 * k) (dir_bytes sd) F) j = (if j = k then sd else dir_slot F j)"
proof -
  have len: "length (dir_bytes sd) = 64" using assms(2) by (simp add: dir_bytes_def dir_ok_def)
  show ?thesis
  proof (cases "j = k")
    case True
    then have "slice (64 * j) 64 (overwrite (64 * k) (dir_bytes sd) F) = dir_bytes sd"
      using len assms(1,3) by (simp add: slice_def overwrite_def SFS_MAXFILE_def)
    then show ?thesis using True dir_roundtrip [OF assms(2)] by (simp add: dir_slot_def)
  next
    case False
    have "slice (64 * j) 64 (overwrite (64 * k) (dir_bytes sd) F) = slice (64 * j) 64 F"
    proof (rule nth_equalityI)
      show "length (slice (64 * j) 64 (overwrite (64 * k) (dir_bytes sd) F)) = length (slice (64 * j) 64 F)"
        using len assms(1,3) by (simp add: slice_def SFS_MAXFILE_def)
      fix i assume "i < length (slice (64 * j) 64 (overwrite (64 * k) (dir_bytes sd) F))"
      then have i: "i < 64" "64 * j + i < length F" using len assms(1,3,4) by (auto simp: slice_def SFS_MAXFILE_def)
      have "\<not> (64 * k \<le> 64 * j + i \<and> 64 * j + i < 64 * k + 64)" using False i(1) by presburger
      then show "slice (64 * j) 64 (overwrite (64 * k) (dir_bytes sd) F) ! i = slice (64 * j) 64 F ! i"
        using len i assms(1,3) by (auto simp: slice_def nth_overwrite SFS_MAXFILE_def)
    qed
    then show ?thesis using False by (simp add: dir_slot_def)
  qed
qed

text \<open>The slots after slot \<open>k\<close>, an old one or the one after the last, was written.\<close>

lemma dir_slots_write:
  assumes "length (fbytes B i) = SFS_MAXFILE" "dir_ok sd" "64 dvd sfi_size i" "k \<le> sfi_size i div 64" "k < 1144"
    "sfi_size i \<le> SFS_MAXFILE" "sfi_size i' = max (sfi_size i) (64 * k + 64)"
    "fbytes B' i' = overwrite (64 * k) (dir_bytes sd) (fbytes B i)"
  shows "dir_slots B' i' = (if k < sfi_size i div 64 then (dir_slots B i)[k := sd] else dir_slots B i @ [sd])"
proof -
  obtain n where n: "sfi_size i = 64 * n" using assms(3) by (auto elim: dvdE)
  have bound: "n \<le> 1144" using assms(6) n by (simp add: SFS_MAXFILE_def)
  have n': "sfi_size i' div 64 = max n (Suc k)" using assms(7) n by (auto simp: max_def)
  note slot = dir_slot_overwrite [OF assms(1,2,5)]
  show ?thesis
  proof (cases "k < n")
    case True
    then have n'': "sfi_size i' div 64 = n" using n' by simp
    have "dir_slots B' i' = (dir_slots B i)[k := sd]"
      using True n n'' bound slot assms(8) by (intro nth_equalityI) (simp_all add: dir_slots_def nth_list_update)
    then show ?thesis using True n by simp
  next
    case False
    then have "k = n" using assms(4) n by simp
    then have n'': "sfi_size i' div 64 = Suc n" using n' by simp
    have "dir_slots B' i' = dir_slots B i @ [sd]"
      using \<open>k = n\<close> n n'' slot assms(5,8)
      by (intro nth_equalityI) (auto simp: dir_slots_def nth_append less_Suc_eq)
    then show ?thesis using False n by simp
  qed
qed

lemma dir_map_insert:
  assumes us: "used_slots es = us @ vs" "used_slots es' = us @ sd # vs" and wf: "dir_wf es"
    and new: "dir_map es (sfd_cname sd) = None"
  shows "dir_wf es' \<and> dir_map es' = (dir_map es)(sfd_cname sd \<mapsto> sfd_ino sd)"
proof -
  have "sfd_cname sd \<notin> sfd_cname ` set (us @ vs)"
    using new by (auto simp: dir_map_def us(1) map_of_eq_None_iff image_iff)
  then have "dir_wf es'" using wf by (auto simp: dir_wf_def us)
  moreover have none: "map_of (map (\<lambda>e. (sfd_cname e, sfd_ino e)) us) (sfd_cname sd) = None"
    using \<open>sfd_cname sd \<notin> sfd_cname ` set (us @ vs)\<close> by (auto simp: map_of_eq_None_iff)
  have "dir_map es' = (dir_map es)(sfd_cname sd \<mapsto> sfd_ino sd)"
    by (rule ext) (auto simp: dir_map_def us map_add_def none split: option.splits)
  ultimately show ?thesis by simp
qed

lemma dir_map_delete:
  assumes us: "used_slots es = us @ e # vs" "used_slots es' = us @ vs" and wf: "dir_wf es"
  shows "dir_wf es' \<and> dir_map es' = (dir_map es)(sfd_cname e := None)"
proof -
  have fresh: "sfd_cname e \<notin> sfd_cname ` set (us @ vs)" and "dir_wf es'" using wf by (auto simp: dir_wf_def us)
  then have "dir_map es' (sfd_cname e) = None" by (auto simp: dir_map_def us map_of_eq_None_iff image_iff)
  then have "dir_wf es \<and> dir_map es = (dir_map es')(sfd_cname e \<mapsto> sfd_ino e)"
    using dir_map_insert [OF us(2,1) \<open>dir_wf es'\<close>] by simp
  then show ?thesis using \<open>dir_wf es'\<close> \<open>dir_map es' (sfd_cname e) = None\<close> by (auto simp: fun_upd_def)
qed

lemma used_slots_append [simp]: "used_slots (xs @ ys) = used_slots xs @ used_slots ys"
  by (simp add: used_slots_def)

lemma used_slots_Cons [simp]: "used_slots (e # es) = (if sfd_ino e = 0 then [] else [e]) @ used_slots es"
  by (simp add: used_slots_def)

lemma used_slots_split:
  assumes "k < length es"
  shows "used_slots es = used_slots (take k es) @ (if sfd_ino (es ! k) = 0 then [] else [es ! k]) @ used_slots (drop (Suc k) es)"
    "used_slots (es[k := sd]) = used_slots (take k es) @ (if sfd_ino sd = 0 then [] else [sd]) @ used_slots (drop (Suc k) es)"
proof -
  have "used_slots es = used_slots (take k es @ es ! k # drop (Suc k) es)"
    using id_take_nth_drop [OF assms] by (rule arg_cong)
  then show "used_slots es = used_slots (take k es) @ (if sfd_ino (es ! k) = 0 then [] else [es ! k]) @ used_slots (drop (Suc k) es)"
    by (simp only: used_slots_append used_slots_Cons)
  show "used_slots (es[k := sd]) = used_slots (take k es) @ (if sfd_ino sd = 0 then [] else [sd]) @ used_slots (drop (Suc k) es)"
    by (simp only: upd_conv_take_nth_drop [OF assms] used_slots_append used_slots_Cons)
qed

lemma sfd_cname_new:
  assumes "0 \<notin> set name" "length name < 60"
  shows "sfd_cname \<lparr>sfd_ino = ino, sfd_name = name @ replicate (60 - length name) 0\<rparr> = name"
proof -
  have "(name @ replicate (60 - length name) 0)[59 := 0] = name @ replicate (60 - length name) 0"
    using assms(2) by (intro list_update_same_conv [THEN iffD2]) (auto simp: nth_append)
  then show ?thesis
    using assms by (simp add: sfd_cname_def SFS_NAMELEN_def takeWhile_append)
qed

lemma mul32_slot: "k \<le> 1144 \<Longrightarrow> mul32 k 64 = 64 * k"
  by (simp add: mul32_def)

context block_device
begin

lemma sfs_readdir_ok:
  assumes env: "env_dio env = d_io" and at: "dir_at blk nblk dev_ok v sv s" and k: "k < sfi_size (sv_i sv) div 64"
  obtains s' where "sfs_readdir env v k s = Ok (dir_slot (fbytes (blk (sfs_device s)) (sv_i sv)) k) s'"
    "dev_same blk nblk dev_ok s s'"
proof -
  let ?F = "fbytes (blk (sfs_device s)) (sv_i sv)" and ?u = "uio_kinit SFS_KBUF (replicate 64 0) (int (64 * k)) UIO_READ"
  have fa: "file_at blk nblk dev_ok v sv s" and sz: "64 dvd sfi_size (sv_i sv)" "sfi_size (sv_i sv) \<le> SFS_MAXFILE"
    using at by (simp_all add: dir_at_def)
  have k64: "64 * k + 64 \<le> sfi_size (sv_i sv)" using k sz(1) by auto
  have u: "uio_wf ?u" "uio_ok (env_u env) ?u" "uio_left ?u = replicate 64 0" "uio_done ?u = []"
    using uio_kinit_wf [of "replicate 64 0"] by auto
  have u2: "0 \<le> uio_offset ?u" "uio_rw ?u = UIO_READ" "nat (uio_offset ?u) = 64 * k" "uio_resid ?u = 64"
    by (simp_all add: uio_kinit_def)
  from sfs_io_read [OF env fa u(1,2) u2(1,2) sz(2)] obtain s' u' where
    io: "sfs_io env v (s, ?u) = Ok () (s', u')" "dev_same blk nblk dev_ok s s'"
      "uio_moves (env_u env) (slice (64 * k) 64 (take (sfi_size (sv_i sv)) ?F)) ?u u'"
    using u2(3,4) by auto
  have sl: "slice (64 * k) 64 (take (sfi_size (sv_i sv)) ?F) = slice (64 * k) 64 ?F"
    using k64 by (simp add: slice_def drop_take min_def)
  have len: "length (slice (64 * k) 64 ?F) = 64"
    using k64 sz(2) fbytes_length [OF fa] by (simp add: slice_def)
  have u': "uio_done u' = slice (64 * k) 64 ?F" "uio_left u' = []" "uio_resid u' = 0"
    using io(3) u(3,4) u2(4) len unfolding sl by (simp_all add: uio_moves_def)
  have "mul32 k 64 = 64 * k" using k64 sz(2) by (intro mul32_slot) (simp add: SFS_MAXFILE_def)
  then have "sfs_readdir env v k s = Ok (dir_slot ?F k) s'"
    using io(1) u' by (simp add: sfs_readdir_def sfs_kio_def kfun_defs dir_slot_def)
  then show thesis using that io(2) by blast
qed

lemma sfs_dir_search_ok:
  assumes env: "env_dio env = d_io" and "dir_at blk nblk dev_ok v sv s"
    and "find_inv name (dir_slots (blk (sfs_device s)) (sv_i sv)) i found emptyslot"
    and "i + n = sfi_size (sv_i sv) div 64"
  shows "\<exists>found' emptyslot' s'. sfs_dir_search env v name n i found emptyslot s = Ok (found', emptyslot') s' \<and>
    dev_same blk nblk dev_ok s s' \<and>
    find_inv name (dir_slots (blk (sfs_device s)) (sv_i sv)) (sfi_size (sv_i sv) div 64) found' emptyslot'"
  using assms(2-)
proof (induction n arbitrary: i found emptyslot s)
  case 0
  then show ?case using dev_same_refl [of nblk dev_ok s blk] by (simp add: kret_def dir_at_def file_at_def)
next
  case (Suc n)
  let ?es = "dir_slots (blk (sfs_device s)) (sv_i sv)"
  have i: "i < sfi_size (sv_i sv) div 64" using Suc.prems(3) by simp
  from sfs_readdir_ok [OF env Suc.prems(1) i] obtain s1 where
    s1: "sfs_readdir env v i s = Ok (?es ! i) s1" "dev_same blk nblk dev_ok s s1"
    using nth_dir_slots [OF i] by metis
  note at1 = dir_at_dev [OF Suc.prems(1) s1(2)]
  have wf: "dir_wf ?es" using Suc.prems(1) by (simp add: dir_at_def)
  have IH: "find_inv name ?es (Suc i) f e \<Longrightarrow> \<exists>f' e' s'. sfs_dir_search env v name n (Suc i) f e s1 = Ok (f', e') s' \<and>
      dev_same blk nblk dev_ok s s' \<and> find_inv name ?es (sfi_size (sv_i sv) div 64) f' e'" for f e
    using Suc.IH [OF at1(1), of "Suc i" f e] at1(2) Suc.prems(3) dev_same_trans [OF s1(2)] by fastforce
  note step = find_inv_step [OF Suc.prems(2)]
  show ?case
  proof (cases "sfd_ino (?es ! i) = 0")
    case True
    then show ?thesis using IH [OF step(1) [OF True]] s1(1) by (simp add: kbind_def SFS_NOINO_def)
  next
    case used: False
    show ?thesis
    proof (cases "sfd_cname (?es ! i) = name")
      case True
      then have "found = None" using find_inv_unique [OF Suc.prems(2) wf] i used by simp
      then show ?thesis using IH [OF step(2) [OF used True]] s1(1) used True
        by (simp add: kbind_def kassert_def SFS_NOINO_def)
    next
      case False
      then show ?thesis using IH [OF step(3) [OF used False]] s1(1) used by (simp add: kbind_def SFS_NOINO_def)
    qed
  qed
qed

lemma sfs_dir_findname_ok:
  assumes "env_dio env = d_io" "dir_at blk nblk dev_ok v sv s"
  obtains found emptyslot s' where "sfs_dir_findname env v name s = Ok (found, emptyslot) s'"
    "dev_same blk nblk dev_ok s s'"
    "find_inv name (dir_slots (blk (sfs_device s)) (sv_i sv)) (sfi_size (sv_i sv) div 64) found emptyslot"
    "map_option fst found = dir_map (dir_slots (blk (sfs_device s)) (sv_i sv)) name"
proof -
  let ?es = "dir_slots (blk (sfs_device s)) (sv_i sv)"
  have "find_inv name ?es 0 None None" by (simp add: find_inv_def)
  from sfs_dir_search_ok [OF assms this] obtain found emptyslot s' where
    r: "sfs_dir_search env v name (sfi_size (sv_i sv) div 64) 0 None None s = Ok (found, emptyslot) s'"
      "dev_same blk nblk dev_ok s s'" "find_inv name ?es (sfi_size (sv_i sv) div 64) found emptyslot" by auto
  have wf: "dir_wf ?es" using assms(2) by (simp add: dir_at_def)
  have "map_option fst found = dir_map ?es name"
  proof (cases found)
    case None
    then have "dir_map ?es name = None" using r(3) by (simp add: dir_map_None find_inv_def)
    then show ?thesis using None by simp
  next
    case (Some p)
    then have "dir_map ?es name = Some (fst p)"
      using r(3) by (cases p) (auto simp: dir_map_Some [OF wf] find_inv_def)
    then show ?thesis using Some by simp
  qed
  then show thesis
    using that r sfs_dir_nentries_ok [OF assms(2)] by (simp add: sfs_dir_findname_def kbind_def)
qed

lemma sfs_writedir_cases:
  assumes env: "env_dio env = d_io" and at: "dir_at blk nblk dev_ok v sv s" and sd: "dir_ok sd"
    and k: "k \<le> sfi_size (sv_i sv) div 64"
  obtains (full) "k = 1144" "sfs_writedir env v sd k s = Err EFBIG s"
  | (nospace) s' sv' where "sfs_writedir env v sd k s = Err ENOSPC s'" "file_same blk nblk dev_ok v sv s sv' s'"
  | (written) s' sv' where "k < 1144" "sfs_writedir env v sd k s = Ok () s'" "file_at blk nblk dev_ok v sv' s'"
      "file_step blk v sv s sv' s'" "sfi_size (sv_i sv') = max (sfi_size (sv_i sv)) (64 * k + 64)"
      "fbytes (blk (sfs_device s')) (sv_i sv') = overwrite (64 * k) (dir_bytes sd) (fbytes (blk (sfs_device s)) (sv_i sv))"
proof -
  define u where "u = uio_kinit SFS_KBUF (dir_bytes sd) (int (64 * k)) UIO_WRITE"
  have fa: "file_at blk nblk dev_ok v sv s" and sz: "64 dvd sfi_size (sv_i sv)" "sfi_size (sv_i sv) \<le> SFS_MAXFILE"
    using at by (simp_all add: dir_at_def)
  have kn: "64 * k \<le> sfi_size (sv_i sv)" "k \<le> 1144" using k sz by (auto simp: SFS_MAXFILE_def)
  have len: "length (dir_bytes sd) = 64" using sd by (simp add: dir_bytes_def dir_ok_def)
  have u: "uio_wf u" "uio_ok (env_u env) u" "uio_left u = dir_bytes sd"
    using uio_kinit_wf [of "dir_bytes sd"] len by (auto simp: u_def)
  have u2: "uio_rw u = UIO_WRITE" "nat (uio_offset u) = 64 * k" "uio_resid u = 64" "0 \<le> uio_offset u" "uio_offset u < 2 ^ 32"
    "uio_offset u = int (64 * k)"
    using len kn(2) by (simp_all add: u_def uio_kinit_def)
  have wd: "sfs_writedir env v sd k s = (case sfs_io env v (s, u) of
      Ok _ (s', u) \<Rightarrow> if uio_resid u > 0 then Panic else Ok () s' | Err e (s', u) \<Rightarrow> Err e s' | Panic \<Rightarrow> Panic)"
    using mul32_slot [OF kn(2)]
    by (simp add: sfs_writedir_def sfs_kio_def kfun_defs u_def split: kres.splits)
  show thesis
  proof (cases "k < 1144")
    case False
    then have k: "k = 1144" using kn(2) by simp
    have big: "sfs_partialio env v 0 64 (s, u) = Err EFBIG (s, u)"
      using sfs_bmap_big [of 143 env v True s] k u2(1,2) sfs_offset_nat(1) [OF u2(4,5)]
      by (simp add: sfs_partialio_def kbind_def kget_def kassert_def on_sfs_def Let_def SFS_BLOCKSIZE_def add32_def)
    have "sfs_io_body env v (s, u) = Err EFBIG (s, u)"
      using sfs_io_body_small [OF u2(4,5), of env v s] big u2(2,3) k by simp
    moreover have "sfi_size (sv_i sv) = 64 * k" using kn(1) k sz(2) by (simp add: SFS_MAXFILE_def)
    ultimately have "sfs_io env v (s, u) = Err EFBIG (s, u\<lparr>uio_resid := add32 (uio_resid u) 0\<rparr>)"
      using sfs_io_write_eq [OF u2(1), of s v sv env] fa u2(6)
      by (simp add: kfun_defs sfs_io_out_def on_sfs_def get_sv_def file_at_def)
    then show thesis using full k wd by simp
  next
    case True
    have r: "sfs_request (env_u env) (uio_resid u) u" using u u2 True by (simp add: sfs_request_def SFS_MAXFILE_def)
    have "64 * k mod 512 = 64 * (k mod 8)" using mult_mod_right [of 64 k 8] by simp
    then have small: "0 < uio_resid u" "uio_resid u < 512" "nat (uio_offset u) mod 512 + uio_resid u \<le> 512"
      "nat (uio_offset u) \<le> sfi_size (sv_i sv)"
      using u2 kn(1) by simp_all
    show thesis
    proof (cases rule: sfs_io_small [OF env fa r u2(1) small])
      case (1 s' sv')
      then show thesis using nospace wd by simp
    next
      case (2 s' sv' u')
      have "sfs_writedir env v sd k s = Ok () s'" using 2(1,4) wd by simp
      then show thesis using written [OF True _ 2(2,3)] 2(5,6) u2 u(3) len by simp
    qed
  qed
qed

lemma dir_at_same:
  assumes "dir_at blk nblk dev_ok v sv s" "file_same blk nblk dev_ok v sv s sv' s'"
  shows "dir_at blk nblk dev_ok v sv' s'"
    "dir_slots (blk (sfs_device s')) (sv_i sv') = dir_slots (blk (sfs_device s)) (sv_i sv)"
    "file_step blk v sv s sv' s'"
proof -
  show eq: "dir_slots (blk (sfs_device s')) (sv_i sv') = dir_slots (blk (sfs_device s)) (sv_i sv)"
    using file_same_fbytes [OF assms(2)] assms(2) by (simp add: dir_slots_def file_same_def)
  show "file_step blk v sv s sv' s'" using assms(2) by (simp add: file_same_def)
  then show "dir_at blk nblk dev_ok v sv' s'"
    using assms eq by (simp add: dir_at_def file_same_def file_step_def)
qed

text \<open>The directory after slot \<open>k\<close> was written.\<close>

lemma dir_at_written:
  assumes at: "dir_at blk nblk dev_ok v sv s" and sd: "dir_ok sd"
    and k: "k \<le> sfi_size (sv_i sv) div 64" "k < 1144"
    and w: "file_at blk nblk dev_ok v sv' s'" "file_step blk v sv s sv' s'"
      "sfi_size (sv_i sv') = max (sfi_size (sv_i sv)) (64 * k + 64)"
      "fbytes (blk (sfs_device s')) (sv_i sv') = overwrite (64 * k) (dir_bytes sd) (fbytes (blk (sfs_device s)) (sv_i sv))"
    and es: "es = dir_slots (blk (sfs_device s)) (sv_i sv)" "es' = (if k < length es then es[k := sd] else es @ [sd])"
    and wf: "dir_wf es'"
  shows "dir_at blk nblk dev_ok v sv' s' \<and> dir_slots (blk (sfs_device s')) (sv_i sv') = es' \<and>
    k < length es' \<and> es' ! k = sd"
proof -
  have fa: "file_at blk nblk dev_ok v sv s" and sz: "64 dvd sfi_size (sv_i sv)" "sfi_size (sv_i sv) \<le> SFS_MAXFILE"
    using at by (simp_all add: dir_at_def)
  have "dir_slots (blk (sfs_device s')) (sv_i sv') = es'"
    using dir_slots_write [OF fbytes_length [OF fa] sd sz(1) k sz(2) w(3,4)] es by simp
  moreover have "64 dvd sfi_size (sv_i sv')" "sfi_size (sv_i sv') \<le> SFS_MAXFILE"
    using w(3) sz k(2) by (auto simp: max_def SFS_MAXFILE_def)
  moreover have "k < length es' \<and> es' ! k = sd" using es k(1) by (auto simp: nth_append)
  ultimately show ?thesis using w(1,2) at wf by (simp add: dir_at_def file_step_def)
qed

lemma sfs_dir_link_ok:
  assumes env: "env_dio env = d_io" and at: "dir_at blk nblk dev_ok v sv s"
    and nm: "0 \<notin> set name" and ino: "0 < ino" "ino < 2 ^ 32" and es: "es = dir_slots (blk (sfs_device s)) (sv_i sv)"
  obtains (exists) s' where "sfs_dir_link env v name ino s = Err EEXIST s'" "dir_map es name \<noteq> None" "dev_same blk nblk dev_ok s s'"
  | (toolong) s' where "sfs_dir_link env v name ino s = Err ENAMETOOLONG s'" "60 \<le> length name" "dir_map es name = None"
      "dev_same blk nblk dev_ok s s'"
  | (nospace) e s' sv' where "sfs_dir_link env v name ino s = Err e s'" "e = ENOSPC \<or> e = EFBIG" "dir_map es name = None"
      "dir_at blk nblk dev_ok v sv' s'" "file_step blk v sv s sv' s'" "dir_slots (blk (sfs_device s')) (sv_i sv') = es"
  | (linked) slot s' sv' where "sfs_dir_link env v name ino s = Ok slot s'" "dir_map es name = None" "length name < 60"
      "dir_at blk nblk dev_ok v sv' s'" "file_step blk v sv s sv' s'"
      "dir_map (dir_slots (blk (sfs_device s')) (sv_i sv')) = (dir_map es)(name \<mapsto> ino)"
      "slot < length (dir_slots (blk (sfs_device s')) (sv_i sv'))"
      "sfd_ino (dir_slots (blk (sfs_device s')) (sv_i sv') ! slot) = ino"
      "sfd_cname (dir_slots (blk (sfs_device s')) (sv_i sv') ! slot) = name"
proof -
  from sfs_dir_findname_ok [OF env at, of name] obtain found emptyslot s1 where
    f: "sfs_dir_findname env v name s = Ok (found, emptyslot) s1" "dev_same blk nblk dev_ok s s1"
      "find_inv name es (sfi_size (sv_i sv) div 64) found emptyslot" "map_option fst found = dir_map es name"
    unfolding es .
  note at1 = dir_at_dev [OF at f(2)] dev_same_file [OF _ f(2), of v sv]
  show thesis
  proof (cases "found = None \<and> length name < 60")
    case False
    then show thesis
    proof (cases "found = None")
      case True
      then show thesis using False f(1,2,4) toolong [of s1]
        by (simp add: sfs_dir_link_def kfun_defs SFS_NAMELEN_def)
    next
      case False
      then have "dir_map es name \<noteq> None" using f(4) by (metis map_option_is_None)
      then show thesis using False f(1,2) exists [of s1]
        by (simp add: sfs_dir_link_def kfun_defs)
    qed
  next
    case True
    define k where "k = (case emptyslot of Some i \<Rightarrow> i | None \<Rightarrow> sfi_size (sv_i sv) div 64)"
    define sd where "sd = \<lparr>sfd_ino = ino, sfd_name = name @ replicate (60 - length name) 0\<rparr>"
    define es' where "es' = (if k < length es then es[k := sd] else es @ [sd])"
    have sd: "dir_ok sd" "sfd_cname sd = name" "sfd_ino sd = ino"
      using ino sfd_cname_new [OF nm, of ino] True by (simp_all add: sd_def dir_ok_def)
    have none: "dir_map es name = None" using f(4) True by simp
    have k: "k \<le> sfi_size (sv_i sv) div 64" "k < length es \<Longrightarrow> sfd_ino (es ! k) = 0"
      using f(3) by (auto simp: k_def find_inv_def es split: option.splits)
    have "\<exists>us vs. used_slots es = us @ vs \<and> used_slots es' = us @ sd # vs"
    proof (cases "k < length es")
      case True
      then show ?thesis using used_slots_split [OF True] k(2) sd(3) ino(1) by (auto simp: es'_def)
    next
      case False
      then show ?thesis using sd(3) ino(1) by (intro exI [of _ "used_slots es"] exI [of _ "[]"]) (simp add: es'_def used_slots_def)
    qed
    moreover have "dir_wf es" using at es by (simp add: dir_at_def)
    ultimately have new: "dir_wf es'" "dir_map es' = (dir_map es)(name \<mapsto> ino)"
      using dir_map_insert [of es _ _ es' sd] none sd(2,3) by auto
    have link: "sfs_dir_link env v name ino s = kbind (sfs_writedir env v sd k) (\<lambda>_. kret k) s1"
      using f(1) True sfs_dir_nentries_ok [OF at1(1)]
      by (simp add: sfs_dir_link_def kfun_defs SFS_NAMELEN_def sd_def k_def split: option.splits)
    have fs1: "file_step blk v sv s sv s1" using at1(3) at by (simp add: dir_at_def file_same_def)
    show thesis
    proof (cases rule: sfs_writedir_cases [OF env at1(1) sd(1) k(1)])
      case 1
      then show thesis using link nospace [of EFBIG s1 sv] none at1(1,2) fs1 es by (simp add: kfun_defs)
    next
      case (2 s' sv')
      note same = dir_at_same [OF at1(1) 2(2)]
      show thesis using link 2(1) nospace [of ENOSPC s' sv'] none same at1(2) es file_step_trans [OF fs1 same(3)]
        by (simp add: kfun_defs)
    next
      case (3 s' sv')
      have "es = dir_slots (blk (sfs_device s1)) (sv_i sv)" using es at1(2) by simp
      from dir_at_written [OF at1(1) sd(1) k(1) 3(1,3-6) this es'_def new(1)]
      show thesis using linked [of k s' sv'] link 3(2) none True new(2) sd(2,3) file_step_trans [OF fs1 3(4)]
        by (simp add: kfun_defs)
    qed
  qed
qed

lemma sfs_dir_unlink_ok:
  assumes env: "env_dio env = d_io" and at: "dir_at blk nblk dev_ok v sv s"
    and es: "es = dir_slots (blk (sfs_device s)) (sv_i sv)" and k: "k < length es" "sfd_ino (es ! k) \<noteq> 0"
  obtains (nospace) s' sv' where "sfs_dir_unlink env v k s = Err ENOSPC s'"
      "dir_at blk nblk dev_ok v sv' s'" "file_step blk v sv s sv' s'" "dir_slots (blk (sfs_device s')) (sv_i sv') = es"
  | (unlinked) s' sv' where "sfs_dir_unlink env v k s = Ok () s'"
      "dir_at blk nblk dev_ok v sv' s'" "file_step blk v sv s sv' s'"
      "dir_map (dir_slots (blk (sfs_device s')) (sv_i sv')) = (dir_map es)(sfd_cname (es ! k) := None)"
proof -
  define sd where "sd = \<lparr>sfd_ino = 0, sfd_name = replicate 60 0 :: u8 list\<rparr>"
  have sd: "dir_ok sd" "sfd_ino sd = 0" by (simp_all add: sd_def dir_ok_def)
  have un: "sfs_dir_unlink env v k s = sfs_writedir env v sd k s"
    by (simp add: sfs_dir_unlink_def sd_def SFS_NOINO_def SFS_NAMELEN_def)
  have kn: "k \<le> sfi_size (sv_i sv) div 64" using k(1) es by simp
  have wf: "dir_wf es" and small: "k < 1144" using at es k(1) by (auto simp: dir_at_def SFS_MAXFILE_def)
  have del: "dir_wf (es[k := sd])" "dir_map (es[k := sd]) = (dir_map es)(sfd_cname (es ! k) := None)"
    using dir_map_delete [of es _ "es ! k" _ "es[k := sd]", OF _ _ wf] used_slots_split [OF k(1)] k(2) sd(2) by auto
  show thesis
  proof (cases rule: sfs_writedir_cases [OF env at sd(1) kn])
    case 1
    then show thesis using small by simp
  next
    case (2 s' sv')
    note same = dir_at_same [OF at 2(2)]
    show thesis using un 2(1) nospace [of s' sv'] same es by simp
  next
    case (3 s' sv')
    have "es[k := sd] = (if k < length es then es[k := sd] else es @ [sd])" using k(1) by simp
    from dir_at_written [OF at sd(1) kn 3(1,3-6) es this del(1)]
    show thesis using unlinked [of s' sv'] un 3(2,4) del(2) by simp
  qed
qed

end

section \<open>A small directory\<close>

text \<open>The small volume with a directory in vnode 2 whose only block, block 6, holds the entry \<open>a\<close> for inode 3.\<close>

definition sample_entry :: sfs_dir where
  "sample_entry = \<lparr>sfd_ino = 3, sfd_name = 97 # replicate 59 0\<rparr>"

definition sample_dir_sv :: sfs_vnode where
  "sample_dir_sv = \<lparr>vn_refcount = 1, vn_opencount = 0, vn_ops = Sfs_dirops,
     sv_i = \<lparr>sfi_size = 64, sfi_type = 2, sfi_linkcount = 1, sfi_direct = 6 # replicate 14 0,
       sfi_indirect = 0, sfi_waste = replicate 110 0\<rparr>, sv_ino = 1, sv_dirty = False\<rparr>"

definition sample_dvol :: "(nat \<Rightarrow> u8 list) lhd_softc sfs_fs" where
  "sample_dvol = sample_vol\<lparr>
     sfs_device := sample_lhd\<lparr>lh_disk := (lh_disk sample_lhd)(6 := dir_bytes sample_entry @ replicate 448 0)\<rparr>,
     sfs_freemap := \<lparr>nbits = 8, bm_v = [0x7f]\<rparr>, sfs_vnodes := [2, 1],
     sfs_heap := [1 \<mapsto> sample_sv, 2 \<mapsto> sample_dir_sv]\<rparr>"

lemma sample_dused: "sfs_used sample_dvol = {..<7}"
proof -
  have "bm_bit \<lparr>nbits = 8, bm_v = [0x7f]\<rparr> k \<longleftrightarrow> k < 7" if "k < 8" for k
  proof -
    have "(0x7f :: u8) = mask 7" by (simp add: mask_eq_exp_minus_1)
    then have "bit (0x7f :: u8) k \<longleftrightarrow> k < 7" using that by (simp only: bit_mask_iff) simp
    then show ?thesis using that by (simp add: bm_bit_def)
  qed
  then show ?thesis by (auto simp: sfs_used_def bitmap_set_def sample_dvol_def)
qed

lemma sample_entry_bytes: "length (dir_bytes sample_entry) = 64" "dir_ok sample_entry"
  by (simp_all add: dir_bytes_def sample_entry_def dir_ok_def)

lemma sample_dinv: "sfs_inv d_blocks (lhd_ready (\<lambda>d. d)) sample_dvol"
proof -
  have "bitmap_inv \<lparr>nbits = 8, bm_v = [0x7f]\<rparr>" by (simp add: bitmap_inv_def)
  then show ?thesis
    using sample_entry_bytes
    by (simp add: sfs_inv_def sample_dused) (simp add: sample_dvol_def sample_vol_def sample_lhd_def lhd_ready_def)
qed

lemma sample_dir_fmap: "fmap B (sv_i sample_dir_sv) fb = (if fb = 0 then 6 else 0)"
  by (auto simp: fmap_def sample_dir_sv_def nth_Cons')

lemma sample_dir_file_at: "file_at lhd_blk d_blocks (lhd_ready (\<lambda>d. d)) 2 sample_dir_sv sample_dvol"
proof -
  have "file_blocks B (sv_i sample_dir_sv) = {6}" for B
  proof -
    have "fmap B (sv_i sample_dir_sv) ` {..<143} = {0, 6}"
      unfolding sample_dir_fmap by (auto simp: image_iff) (drule spec [of _ 1], simp)
    then show ?thesis by (auto simp: file_blocks_def sample_dir_sv_def)
  qed
  moreover have "inode_ok (sv_i sample_dir_sv)" by (simp add: inode_ok_def sample_dir_sv_def list_all_replicate)
  ultimately have "file_ok (sfs_used sample_dvol) 8 B (sv_i sample_dir_sv)" for B
    unfolding file_ok_def by (auto simp: sample_dused sample_dir_fmap) (simp_all add: sample_dir_sv_def)
  then show ?thesis
    using sample_dinv by (simp add: file_at_def) (simp add: sample_dvol_def sample_vol_def)
qed

lemma sample_dir_slots: "dir_slots (lh_disk (sfs_device sample_dvol)) (sv_i sample_dir_sv) = [sample_entry]"
proof -
  let ?F = "fbytes (lh_disk (sfs_device sample_dvol)) (sv_i sample_dir_sv)"
  have "fblock (lh_disk (sfs_device sample_dvol)) (sv_i sample_dir_sv) 0 = dir_bytes sample_entry @ replicate 448 0"
    by (simp add: fblock_def sample_dir_fmap) (simp add: sample_dvol_def)
  then have "slice 0 64 (slice 0 512 ?F) = dir_bytes sample_entry"
    using mem.lhd.fbytes_block [OF sample_dir_file_at, of 0] sample_entry_bytes by (simp add: slice_def)
  then have "dir_slot ?F 0 = sample_entry"
    using slice_slice [of 0 64 512 0 ?F] dir_roundtrip [OF sample_entry_bytes(2)] by (simp add: dir_slot_def)
  then show ?thesis by (simp add: dir_slots_def sample_dir_sv_def)
qed

lemma sample_cname: "sfd_cname sample_entry = [97]"
  using sfd_cname_new [of "[97]" 3] by (simp add: sample_entry_def)

lemma sample_dir_map: "dir_map [sample_entry] = [[97] \<mapsto> 3]"
  by (auto simp: dir_map_def sample_cname) (simp_all add: sample_entry_def used_slots_def)

lemma sample_dir_at: "dir_at lhd_blk d_blocks (lhd_ready (\<lambda>d. d)) 2 sample_dir_sv sample_dvol"
  using sample_dir_file_at
  by (simp add: dir_at_def sample_dir_slots) (simp add: dir_wf_def sample_dir_sv_def SFS_TYPE_DIR_def SFS_MAXFILE_def used_slots_def)

section \<open>Properties\<close>



text \<open>
  C12: adding a name refines the update of the map. \<^verbatim>\<open>sfs_dir_link\<close> returns 0 only for a new name of
  at most 59 bytes, and then the directory maps that name to the inode and is unchanged otherwise. For a
  name that exists it returns \<open>EEXIST\<close>, for one that does not fit \<open>ENAMETOOLONG\<close>, and when the directory
  cannot grow \<open>ENOSPC\<close> or \<open>EFBIG\<close>; in all three cases the entries are those of before. The directory stays
  sound and no block of another file changes.
\<close>

theorem sfs_dir_link_correct:
  assumes "block_device d_io blk nblk dev_ok" "env_dio env = d_io" "dir_at blk nblk dev_ok v sv s"
    "0 \<notin> set name" "0 < ino" "ino < 2 ^ 32" "es = dir_slots (blk (sfs_device s)) (sv_i sv)"
  shows "case sfs_dir_link env v name ino s of
      Ok slot s' \<Rightarrow> dir_map es name = None \<and> length name < SFS_NAMELEN \<and>
        (\<exists>sv'. dir_at blk nblk dev_ok v sv' s' \<and> file_step blk v sv s sv' s' \<and>
          dir_map (dir_slots (blk (sfs_device s')) (sv_i sv')) = (dir_map es)(name \<mapsto> ino))
    | Err e s' \<Rightarrow>
        (e = EEXIST \<and> dir_map es name \<noteq> None \<or> e = ENAMETOOLONG \<and> SFS_NAMELEN \<le> length name \<or> e = ENOSPC \<or> e = EFBIG) \<and>
        (\<exists>sv'. dir_at blk nblk dev_ok v sv' s' \<and> file_step blk v sv s sv' s' \<and>
          dir_slots (blk (sfs_device s')) (sv_i sv') = es)
    | Panic \<Rightarrow> False"
proof -
  have same: "dir_at blk nblk dev_ok v sv s' \<and> file_step blk v sv s sv s' \<and> dir_slots (blk (sfs_device s')) (sv_i sv) = es"
    if "dev_same blk nblk dev_ok s s'" for s'
    using dir_at_dev [OF assms(3) that] dev_same_file [OF _ that, of v sv] assms(3,7)
    by (simp add: dir_at_def file_same_def)
  show ?thesis
  proof (cases rule: block_device.sfs_dir_link_ok [OF assms(1-7)])
    case (1 s')
    then show ?thesis using same [OF 1(3)] by auto
  next
    case (2 s')
    then show ?thesis using same [OF 2(4)] by (auto simp: SFS_NAMELEN_def)
  next
    case (3 e s' sv')
    then show ?thesis by auto
  next
    case (4 slot s' sv')
    then show ?thesis by (auto simp: SFS_NAMELEN_def)
  qed
qed

theorem sfs_dir_link_correct_witness:
  "(case sfs_dir_link sample_env 2 [97] 3 sample_dvol of Err e s' \<Rightarrow> e = EEXIST \<or> e = ENOSPC \<or> e = EFBIG | _ \<Rightarrow> False) \<and>
   (case sfs_dir_link sample_env 2 [98] 3 sample_dvol of
      Ok slot s' \<Rightarrow> (\<exists>sv'. sfs_heap s' 2 = Some sv' \<and> dir_map (dir_slots (lh_disk (sfs_device s')) (sv_i sv')) [98] = Some 3)
    | Err e s' \<Rightarrow> e = ENOSPC \<or> e = EFBIG | Panic \<Rightarrow> False)"
proof -
  note link = sfs_dir_link_correct [OF mem.lhd.block_device_axioms sample_env_dio sample_dir_at, of _ 3, OF _ _ _ refl]
  have "case sfs_dir_link sample_env 2 [97] 3 sample_dvol of Err e s' \<Rightarrow> e = EEXIST \<or> e = ENOSPC \<or> e = EFBIG | _ \<Rightarrow> False"
    using link [of "[97]"] by (auto simp: sample_dir_slots sample_dir_map SFS_NAMELEN_def split: kres.splits)
  moreover have "case sfs_dir_link sample_env 2 [98] 3 sample_dvol of
      Ok slot s' \<Rightarrow> (\<exists>sv'. sfs_heap s' 2 = Some sv' \<and> dir_map (dir_slots (lh_disk (sfs_device s')) (sv_i sv')) [98] = Some 3)
    | Err e s' \<Rightarrow> e = ENOSPC \<or> e = EFBIG | Panic \<Rightarrow> False"
    using link [of "[98]"]
    by (fastforce simp: sample_dir_slots sample_dir_map SFS_NAMELEN_def dir_at_def file_at_def split: kres.splits)
  ultimately show ?thesis by simp
qed

text \<open>
  C13: clearing a used slot refines the deletion of its name. \<^verbatim>\<open>sfs_dir_unlink\<close> removes exactly the
  name of that slot from the map, or returns \<open>ENOSPC\<close> and leaves all entries as they were; the directory
  stays sound.
\<close>

theorem sfs_dir_unlink_correct:
  assumes "block_device d_io blk nblk dev_ok" "env_dio env = d_io" "dir_at blk nblk dev_ok v sv s"
    "es = dir_slots (blk (sfs_device s)) (sv_i sv)" "slot < length es" "sfd_ino (es ! slot) \<noteq> 0"
  shows "case sfs_dir_unlink env v slot s of
      Ok _ s' \<Rightarrow> (\<exists>sv'. dir_at blk nblk dev_ok v sv' s' \<and> file_step blk v sv s sv' s' \<and>
        dir_map (dir_slots (blk (sfs_device s')) (sv_i sv')) = (dir_map es)(sfd_cname (es ! slot) := None))
    | Err e s' \<Rightarrow> e = ENOSPC \<and> (\<exists>sv'. dir_at blk nblk dev_ok v sv' s' \<and> file_step blk v sv s sv' s' \<and>
        dir_slots (blk (sfs_device s')) (sv_i sv') = es)
    | Panic \<Rightarrow> False"
proof (cases rule: block_device.sfs_dir_unlink_ok [OF assms])
  case (1 s' sv')
  then show ?thesis by auto
next
  case (2 s' sv')
  then show ?thesis by auto
qed

theorem sfs_dir_unlink_correct_witness:
  "case sfs_dir_unlink sample_env 2 0 sample_dvol of
      Ok _ s' \<Rightarrow> (\<exists>sv'. sfs_heap s' 2 = Some sv' \<and> dir_map (dir_slots (lh_disk (sfs_device s')) (sv_i sv')) [97] = None)
    | Err e s' \<Rightarrow> e = ENOSPC | Panic \<Rightarrow> False"
proof -
  have "sfd_ino sample_entry \<noteq> 0" by (simp add: sample_entry_def)
  then show ?thesis
    using sfs_dir_unlink_correct [OF mem.lhd.block_device_axioms sample_env_dio sample_dir_at refl, of 0]
    by (fastforce simp: sample_dir_slots sample_cname dir_at_def file_at_def split: kres.splits)
qed

end
