(* ===== verification/Sfs_Vnode.thy ===== *)
theory Sfs_Vnode
  imports Sfs_Dir
begin

text \<open>
  The vnode layer of SFS: the reference counts of \<^verbatim>\<open>vfs/vnode.c\<close>, the table of loaded vnodes, and the
  vnode operations with their two dispatch tables (\<^verbatim>\<open>fs/sfs/sfs_vnode.c\<close>). The vnodes are those of
  SFS; device vnodes have tables of their own and are not in this heap. The table of loaded vnodes is
  the list of pointers that the resizable array holds.
\<close>

section \<open>Shared pieces\<close>

text \<open>A function that takes the big lock at its start and releases it before each of its returns.\<close>

definition biglocked :: "('d sfs_fs, 'a) kfun \<Rightarrow> ('d sfs_fs, 'a) kfun" where
  "biglocked m =
    kbind vfs_biglock_acquire (\<lambda>_.
    kbind (ktry m) (\<lambda>result.
    kbind vfs_biglock_release (\<lambda>_.
    case result of Inl e \<Rightarrow> kerr e | Inr x \<Rightarrow> kret x)))"

lemma biglocked_Ok:
  "m (s\<lparr>vfs_biglock_depth := Suc (vfs_biglock_depth s)\<rparr>) = Ok x s' \<Longrightarrow> vfs_biglock_depth s' = Suc n \<Longrightarrow>
    biglocked m s = Ok x (s'\<lparr>vfs_biglock_depth := n\<rparr>)"
  by (simp add: biglocked_def kfun_defs vfs_biglock_acquire_def vfs_biglock_release_def)

lemma biglocked_Err:
  "m (s\<lparr>vfs_biglock_depth := Suc (vfs_biglock_depth s)\<rparr>) = Err e s' \<Longrightarrow> vfs_biglock_depth s' = Suc n \<Longrightarrow>
    biglocked m s = Err e (s'\<lparr>vfs_biglock_depth := n\<rparr>)"
  by (simp add: biglocked_def kfun_defs vfs_biglock_acquire_def vfs_biglock_release_def)

text \<open>A call whose result is dropped.\<close>

definition kignore :: "('s, 'a) kfun \<Rightarrow> ('s, unit) kfun" where
  "kignore m = kbind (ktry m) (\<lambda>result. kret ())"

lemma kignore_Ok: "m s = Ok x s' \<Longrightarrow> kignore m s = Ok () s'"
  by (simp add: kignore_def kfun_defs)

lemma kignore_Err: "m s = Err e s' \<Longrightarrow> kignore m s = Ok () s'"
  by (simp add: kignore_def kfun_defs)

definition sfs_kmalloc_try :: "('d sfs_fs, bool) kfun" where
  "sfs_kmalloc_try s =
    (case sfs_kmalloc s of [] \<Rightarrow> Ok True s | ok # oks \<Rightarrow> Ok ok (s\<lparr>sfs_kmalloc := oks\<rparr>))"

definition sfs_kfree :: "nat \<Rightarrow> ('d sfs_fs, unit) kfun" where
  "sfs_kfree v = kmod (\<lambda>s. s\<lparr>sfs_heap := (sfs_heap s)(v := None)\<rparr>)"

primrec kforeach :: "('a \<Rightarrow> ('s, unit) kfun) \<Rightarrow> 'a list \<Rightarrow> ('s, unit) kfun" where
  "kforeach f [] = kret ()"
| "kforeach f (x # xs) = kbind (f x) (\<lambda>_. kforeach f xs)"

text \<open>Adding to the table of vnodes appends, or fails when the array cannot grow.\<close>

definition vnodearray_add :: "nat \<Rightarrow> ('d sfs_fs, unit) kfun" where
  "vnodearray_add v =
    kbind sfs_kmalloc_try (\<lambda>ok.
    if ok then kmod (\<lambda>s. s\<lparr>sfs_vnodes := sfs_vnodes s @ [v]\<rparr>) else kerr ENOMEM)"

section \<open>Reference counts\<close>

definition vnode_check :: "string \<Rightarrow> nat \<Rightarrow> ('d sfs_fs, unit) kfun" where
  "vnode_check opstr v =
    kbind vfs_biglock_acquire (\<lambda>_.
    kbind (get_sv v) (\<lambda>sv.
    if vn_ops sv = Null_ops then kpanic
    else if vn_refcount sv = 0 \<and> opstr \<noteq> ''reclaim'' then kpanic
    else vfs_biglock_release))"

definition vnode_init :: "nat \<Rightarrow> vnode_ops \<Rightarrow> ('d sfs_fs, unit) kfun" where
  "vnode_init v ops =
    kbind (kassert (ops \<noteq> Null_ops)) (\<lambda>_.
    mod_sv v (\<lambda>sv. sv\<lparr>vn_ops := ops, vn_refcount := 1, vn_opencount := 0\<rparr>))"

definition vnode_cleanup :: "nat \<Rightarrow> ('d sfs_fs, unit) kfun" where
  "vnode_cleanup v =
    kbind (get_sv v) (\<lambda>sv.
    kbind (kassert (vn_refcount sv = 1)) (\<lambda>_.
    kbind (kassert (vn_opencount sv = 0)) (\<lambda>_.
    put_sv v (sv\<lparr>vn_ops := Null_ops, vn_refcount := 0, vn_opencount := 0\<rparr>))))"

definition vnode_incref :: "nat \<Rightarrow> ('d sfs_fs, unit) kfun" where
  "vnode_incref v =
    kbind vfs_biglock_acquire (\<lambda>_.
    kbind (mod_sv v (\<lambda>sv. sv\<lparr>vn_refcount := Suc (vn_refcount sv)\<rparr>)) (\<lambda>_.
    vfs_biglock_release))"

definition vnode_incopen :: "nat \<Rightarrow> ('d sfs_fs, unit) kfun" where
  "vnode_incopen v =
    kbind vfs_biglock_acquire (\<lambda>_.
    kbind (mod_sv v (\<lambda>sv. sv\<lparr>vn_opencount := Suc (vn_opencount sv)\<rparr>)) (\<lambda>_.
    vfs_biglock_release))"

text \<open>Dispatch through the table of a vnode: the entries for files and for directories.\<close>

definition vop :: "string \<Rightarrow> nat \<Rightarrow> ('d sfs_fs, 'a) kfun \<Rightarrow> ('d sfs_fs, 'a) kfun \<Rightarrow> ('d sfs_fs, 'a) kfun" where
  "vop opstr v fileop dirop =
    kbind (vnode_check opstr v) (\<lambda>_.
    kbind (get_sv v) (\<lambda>sv.
    case vn_ops sv of Sfs_fileops \<Rightarrow> fileop | Sfs_dirops \<Rightarrow> dirop | Null_ops \<Rightarrow> kpanic))"

definition sfs_notdir :: "('s, 'a) kfun" where "sfs_notdir = kerr ENOTDIR"
definition sfs_isdir :: "('s, 'a) kfun" where "sfs_isdir = kerr EISDIR"
definition sfs_unimp :: "('s, 'a) kfun" where "sfs_unimp = kerr EUNIMP"

section \<open>Truncation\<close>

definition sfs_trunc_direct :: "nat \<Rightarrow> nat \<Rightarrow> nat \<Rightarrow> ('d sfs_fs, unit) kfun" where
  "sfs_trunc_direct v blocklen i =
    kbind (get_sv v) (\<lambda>sv.
    let block = sfi_direct (sv_i sv) ! i in
    if i \<ge> blocklen \<and> block \<noteq> 0 then
      kbind (sfs_bfree block) (\<lambda>_.
      mod_sv v (\<lambda>sv. sv\<lparr>sv_i := (sv_i sv)\<lparr>sfi_direct := (sfi_direct (sv_i sv))[i := 0]\<rparr>, sv_dirty := True\<rparr>))
    else kret ())"

text \<open>The loop over the indirect block; its variables are \<^verbatim>\<open>idbuf\<close>, \<^verbatim>\<open>hasnonzero\<close> and \<^verbatim>\<open>iddirty\<close>.\<close>

primrec sfs_trunc_ids ::
    "nat \<Rightarrow> nat list \<Rightarrow> nat list \<Rightarrow> bool \<Rightarrow> bool \<Rightarrow> ('d sfs_fs, nat list \<times> bool \<times> bool) kfun" where
  "sfs_trunc_ids blocklen [] idbuf hasnonzero iddirty = kret (idbuf, hasnonzero, iddirty)"
| "sfs_trunc_ids blocklen (j # js) idbuf hasnonzero iddirty =
    (if blocklen < SFS_NDIRECT + j \<and> idbuf ! j \<noteq> 0 then
       kbind (sfs_bfree (idbuf ! j)) (\<lambda>_.
       sfs_trunc_ids blocklen js (idbuf[j := 0]) hasnonzero True)
     else sfs_trunc_ids blocklen js idbuf (hasnonzero \<or> idbuf ! j \<noteq> 0) iddirty)"

definition sfs_trunc_indirect :: "'d sfs_env \<Rightarrow> nat \<Rightarrow> nat \<Rightarrow> ('d sfs_fs, unit) kfun" where
  "sfs_trunc_indirect env v blocklen =
    kbind (get_sv v) (\<lambda>sv.
    let idblock = sfi_indirect (sv_i sv); baseblock = SFS_NDIRECT; highblock = baseblock + SFS_DBPERIDB - 1 in
    if blocklen < highblock \<and> idblock \<noteq> 0 then
      kbind (sfs_rblock env zeros idblock) (\<lambda>bytes.
      kbind (sfs_trunc_ids blocklen [0..<SFS_DBPERIDB] (get32s SFS_DBPERIDB bytes) False False) (\<lambda>(idbuf, hasnonzero, iddirty).
      if \<not> hasnonzero then
        kbind (sfs_bfree idblock) (\<lambda>_.
        mod_sv v (\<lambda>sv. sv\<lparr>sv_i := (sv_i sv)\<lparr>sfi_indirect := 0\<rparr>, sv_dirty := True\<rparr>))
      else if iddirty then sfs_wblock env (put32s idbuf) idblock
      else kret ()))
    else kret ())"

definition sfs_truncate :: "'d sfs_env \<Rightarrow> nat \<Rightarrow> int \<Rightarrow> ('d sfs_fs, unit) kfun" where
  "sfs_truncate env v len =
    (let blocklen = nat (((len + int SFS_BLOCKSIZE - 1) sdiv int SFS_BLOCKSIZE) mod 2 ^ 32) in
     biglocked (
       kbind (kforeach (sfs_trunc_direct v blocklen) [0..<SFS_NDIRECT]) (\<lambda>_.
       kbind (sfs_trunc_indirect env v blocklen) (\<lambda>_.
       mod_sv v (\<lambda>sv. sv\<lparr>sv_i := (sv_i sv)\<lparr>sfi_size := nat (len mod 2 ^ 32)\<rparr>, sv_dirty := True\<rparr>)))))"

section \<open>Loading and reclaiming vnodes\<close>

definition sfs_fsync :: "'d sfs_env \<Rightarrow> nat \<Rightarrow> ('d sfs_fs, unit) kfun" where
  "sfs_fsync env v = biglocked (sfs_sync_inode env v)"

definition VOP_FSYNC :: "'d sfs_env \<Rightarrow> nat \<Rightarrow> ('d sfs_fs, unit) kfun" where
  "VOP_FSYNC env v = vop ''fsync'' v (sfs_fsync env v) (sfs_fsync env v)"

definition VOP_TRUNCATE :: "'d sfs_env \<Rightarrow> nat \<Rightarrow> int \<Rightarrow> ('d sfs_fs, unit) kfun" where
  "VOP_TRUNCATE env v len = vop ''truncate'' v (sfs_truncate env v len) sfs_isdir"

text \<open>The search for the vnode in the table that \<^verbatim>\<open>sfs_reclaim\<close> ends with.\<close>

definition sfs_unlist :: "nat \<Rightarrow> ('d sfs_fs, unit) kfun" where
  "sfs_unlist v =
    kbind (kget sfs_vnodes) (\<lambda>vs.
    if v \<in> set vs then kmod (\<lambda>s. s\<lparr>sfs_vnodes := remove1 v (sfs_vnodes s)\<rparr>) else kpanic)"

definition sfs_reclaim :: "'d sfs_env \<Rightarrow> nat \<Rightarrow> ('d sfs_fs, unit) kfun" where
  "sfs_reclaim env v =
    kbind (biglocked (
      kbind (get_sv v) (\<lambda>sv.
      if vn_refcount sv \<noteq> 1 then
        kbind (kassert (vn_refcount sv > 1)) (\<lambda>_.
        kbind (put_sv v (sv\<lparr>vn_refcount := vn_refcount sv - 1\<rparr>)) (\<lambda>_.
        kerr EBUSY))
      else
        kbind (if sfi_linkcount (sv_i sv) = 0 then VOP_TRUNCATE env v 0 else kret ()) (\<lambda>_.
        kbind (sfs_sync_inode env v) (\<lambda>_.
        kbind (get_sv v) (\<lambda>sv.
        kbind (if sfi_linkcount (sv_i sv) = 0 then sfs_bfree (sv_ino sv) else kret ()) (\<lambda>_.
        kbind (sfs_unlist v) (\<lambda>_.
        vnode_cleanup v)))))))) (\<lambda>_.
    sfs_kfree v)"

definition VOP_RECLAIM :: "'d sfs_env \<Rightarrow> nat \<Rightarrow> ('d sfs_fs, unit) kfun" where
  "VOP_RECLAIM env v = vop ''reclaim'' v (sfs_reclaim env v) (sfs_reclaim env v)"

definition vnode_decref :: "'d sfs_env \<Rightarrow> nat \<Rightarrow> ('d sfs_fs, unit) kfun" where
  "vnode_decref env v =
    kbind vfs_biglock_acquire (\<lambda>_.
    kbind (get_sv v) (\<lambda>sv.
    kbind (kassert (vn_refcount sv > 0)) (\<lambda>_.
    kbind (if vn_refcount sv > 1 then put_sv v (sv\<lparr>vn_refcount := vn_refcount sv - 1\<rparr>)
           else kignore (VOP_RECLAIM env v)) (\<lambda>_.
    vfs_biglock_release))))"

definition sfs_close :: "'d sfs_env \<Rightarrow> nat \<Rightarrow> ('d sfs_fs, unit) kfun" where
  "sfs_close env v = VOP_FSYNC env v"

definition VOP_CLOSE :: "'d sfs_env \<Rightarrow> nat \<Rightarrow> ('d sfs_fs, unit) kfun" where
  "VOP_CLOSE env v = vop ''close'' v (sfs_close env v) (sfs_close env v)"

definition vnode_decopen :: "'d sfs_env \<Rightarrow> nat \<Rightarrow> ('d sfs_fs, unit) kfun" where
  "vnode_decopen env v =
    kbind vfs_biglock_acquire (\<lambda>_.
    kbind (get_sv v) (\<lambda>sv.
    kbind (kassert (vn_opencount sv > 0)) (\<lambda>_.
    kbind (put_sv v (sv\<lparr>vn_opencount := vn_opencount sv - 1\<rparr>)) (\<lambda>_.
    if vn_opencount sv - 1 > 0 then vfs_biglock_release
    else kbind (kignore (VOP_CLOSE env v)) (\<lambda>_. vfs_biglock_release)))))"

primrec sfs_findvnode :: "nat \<Rightarrow> nat list \<Rightarrow> ('d sfs_fs, nat option) kfun" where
  "sfs_findvnode ino [] = kret None"
| "sfs_findvnode ino (v # vs) =
    kbind (get_sv v) (\<lambda>sv.
    kbind (sfs_bused (sv_ino sv)) (\<lambda>used.
    if \<not> used then kpanic
    else if sv_ino sv = ino then kret (Some v)
    else sfs_findvnode ino vs))"

text \<open>The second half of \<^verbatim>\<open>sfs_loadvnode\<close>, for an inode that is not in memory.\<close>

definition sfs_loadinode :: "'d sfs_env \<Rightarrow> nat \<Rightarrow> nat \<Rightarrow> ('d sfs_fs, nat) kfun" where
  "sfs_loadinode env ino forcetype =
    kbind sfs_kmalloc_try (\<lambda>ok.
    if \<not> ok then kerr ENOMEM
    else
      kbind (sfs_bused ino) (\<lambda>used.
      if \<not> used then kpanic
      else
        kbind (sfs_rblock env zeros ino) (\<lambda>bytes.
        let i = bytes_inode bytes in
        kbind (if forcetype \<noteq> SFS_TYPE_INVAL then
                 kbind (kassert (sfi_type i = SFS_TYPE_INVAL)) (\<lambda>_. kret (i\<lparr>sfi_type := forcetype\<rparr>, True))
               else kret (i, False)) (\<lambda>(i, dirty).
        kbind (if sfi_type i = SFS_TYPE_FILE then kret Sfs_fileops
               else if sfi_type i = SFS_TYPE_DIR then kret Sfs_dirops
               else kpanic) (\<lambda>ops.
        kbind (kget sfs_nextptr) (\<lambda>v.
        kbind (kmod (\<lambda>s. s\<lparr>sfs_nextptr := Suc v\<rparr>)) (\<lambda>_.
        kbind (put_sv v \<lparr>vn_refcount = 0, vn_opencount = 0, vn_ops = Null_ops, sv_i = i, sv_ino = ino, sv_dirty = dirty\<rparr>) (\<lambda>_.
        kbind (vnode_init v ops) (\<lambda>_.
        kbind (ktry (vnodearray_add v)) (\<lambda>result.
        case result of
          Inl e \<Rightarrow> kbind (vnode_cleanup v) (\<lambda>_. kbind (sfs_kfree v) (\<lambda>_. kerr e))
        | Inr _ \<Rightarrow> kret v))))))))))"

definition sfs_loadvnode :: "'d sfs_env \<Rightarrow> nat \<Rightarrow> nat \<Rightarrow> ('d sfs_fs, nat) kfun" where
  "sfs_loadvnode env ino forcetype =
    kbind (kget sfs_vnodes) (\<lambda>vs.
    kbind (sfs_findvnode ino vs) (\<lambda>r.
    case r of
      Some v \<Rightarrow>
        kbind (kassert (forcetype = SFS_TYPE_INVAL)) (\<lambda>_.
        kbind (vnode_incref v) (\<lambda>_. kret v))
    | None \<Rightarrow> sfs_loadinode env ino forcetype))"

definition sfs_getroot :: "'d sfs_env \<Rightarrow> ('d sfs_fs, nat) kfun" where
  "sfs_getroot env =
    biglocked (\<lambda>s.
      case sfs_loadvnode env SFS_ROOT_LOCATION SFS_TYPE_INVAL s of Err e s' \<Rightarrow> Panic | r \<Rightarrow> r)"

section \<open>Names\<close>

definition sfs_lookonce :: "'d sfs_env \<Rightarrow> nat \<Rightarrow> u8 list \<Rightarrow> ('d sfs_fs, nat \<times> nat) kfun" where
  "sfs_lookonce env v name =
    kbind (sfs_dir_findname env v name) (\<lambda>(found, emptyslot).
    case found of
      None \<Rightarrow> kerr ENOENT
    | Some (ino, slot) \<Rightarrow>
        kbind (sfs_loadvnode env ino SFS_TYPE_INVAL) (\<lambda>f.
        kbind (get_sv f) (\<lambda>sv.
        if sfi_linkcount (sv_i sv) = 0 then kpanic else kret (f, slot))))"

definition sfs_makeobj :: "'d sfs_env \<Rightarrow> nat \<Rightarrow> ('d sfs_fs, nat) kfun" where
  "sfs_makeobj env type = kbind (sfs_balloc env) (\<lambda>ino. sfs_loadvnode env ino type)"

definition link_up :: "sfs_vnode \<Rightarrow> sfs_vnode" where
  "link_up sv = sv\<lparr>sv_i := (sv_i sv)\<lparr>sfi_linkcount := (sfi_linkcount (sv_i sv) + 1) mod 2 ^ 16\<rparr>, sv_dirty := True\<rparr>"

definition link_down :: "sfs_vnode \<Rightarrow> sfs_vnode" where
  "link_down sv = sv\<lparr>sv_i := (sv_i sv)\<lparr>sfi_linkcount := (sfi_linkcount (sv_i sv) + (2 ^ 16 - 1)) mod 2 ^ 16\<rparr>\<rparr>"

definition sfs_creat :: "'d sfs_env \<Rightarrow> nat \<Rightarrow> u8 list \<Rightarrow> bool \<Rightarrow> ('d sfs_fs, nat) kfun" where
  "sfs_creat env v name excl =
    biglocked (
      kbind (sfs_dir_findname env v name) (\<lambda>(found, emptyslot).
      case found of
        Some (ino, slot) \<Rightarrow> if excl then kerr EEXIST else sfs_loadvnode env ino SFS_TYPE_INVAL
      | None \<Rightarrow>
          kbind (sfs_makeobj env SFS_TYPE_FILE) (\<lambda>newguy.
          kbind (get_sv newguy) (\<lambda>sv.
          kbind (ktry (sfs_dir_link env v name (sv_ino sv))) (\<lambda>result.
          case result of
            Inl e \<Rightarrow> kbind (vnode_decref env newguy) (\<lambda>_. kerr e)
          | Inr _ \<Rightarrow> kbind (mod_sv newguy link_up) (\<lambda>_. kret newguy))))))"

definition sfs_link :: "'d sfs_env \<Rightarrow> nat \<Rightarrow> u8 list \<Rightarrow> nat \<Rightarrow> ('d sfs_fs, unit) kfun" where
  "sfs_link env v name f =
    biglocked (
      kbind (get_sv f) (\<lambda>sv.
      kbind (sfs_dir_link env v name (sv_ino sv)) (\<lambda>_.
      mod_sv f link_up)))"

definition sfs_remove :: "'d sfs_env \<Rightarrow> nat \<Rightarrow> u8 list \<Rightarrow> ('d sfs_fs, unit) kfun" where
  "sfs_remove env v name =
    biglocked (
      kbind (sfs_lookonce env v name) (\<lambda>(victim, slot).
      kbind (ktry (sfs_dir_unlink env v slot)) (\<lambda>result.
      kbind (case result of
               Inl e \<Rightarrow> kret ()
             | Inr _ \<Rightarrow>
                 kbind (get_sv victim) (\<lambda>sv.
                 kbind (kassert (sfi_linkcount (sv_i sv) > 0)) (\<lambda>_.
                 put_sv victim ((link_down sv)\<lparr>sv_dirty := True\<rparr>)))) (\<lambda>_.
      kbind (vnode_decref env victim) (\<lambda>_.
      case result of Inl e \<Rightarrow> kerr e | Inr _ \<Rightarrow> kret ())))))"

definition sfs_rename :: "'d sfs_env \<Rightarrow> nat \<Rightarrow> u8 list \<Rightarrow> nat \<Rightarrow> u8 list \<Rightarrow> ('d sfs_fs, unit) kfun" where
  "sfs_rename env d1 n1 d2 n2 =
    biglocked (
      kbind (kassert (d1 = d2)) (\<lambda>_.
      kbind (get_sv d1) (\<lambda>sv.
      kbind (kassert (sv_ino sv = SFS_ROOT_LOCATION)) (\<lambda>_.
      kbind (sfs_lookonce env d1 n1) (\<lambda>(g1, slot1).
      kbind (get_sv g1) (\<lambda>g.
      kbind (kassert (sfi_type (sv_i g) = SFS_TYPE_FILE)) (\<lambda>_.
      kbind (ktry (sfs_dir_link env d1 n2 (sv_ino g))) (\<lambda>linked.
      case linked of
        Inl e \<Rightarrow> kbind (vnode_decref env g1) (\<lambda>_. kerr e)
      | Inr slot2 \<Rightarrow>
          kbind (mod_sv g1 link_up) (\<lambda>_.
          kbind (ktry (sfs_dir_unlink env d1 slot1)) (\<lambda>unlinked.
          case unlinked of
            Inr _ \<Rightarrow>
              kbind (get_sv g1) (\<lambda>g.
              kbind (kassert (sfi_linkcount (sv_i g) > 0)) (\<lambda>_.
              kbind (put_sv g1 ((link_down g)\<lparr>sv_dirty := True\<rparr>)) (\<lambda>_.
              vnode_decref env g1)))
          | Inl e \<Rightarrow>
              kbind (ktry (sfs_dir_unlink env d1 slot2)) (\<lambda>undone.
              case undone of
                Inl _ \<Rightarrow> kpanic
              | Inr _ \<Rightarrow>
                  kbind (mod_sv g1 link_down) (\<lambda>_.
                  kbind (vnode_decref env g1) (\<lambda>_. kerr e)))))))))))))"

text \<open>The caller's buffer of \<open>buflen\<close> bytes receives the whole path: there are no subdirectories.\<close>

definition sfs_lookparent :: "nat \<Rightarrow> u8 list \<Rightarrow> nat \<Rightarrow> ('d sfs_fs, nat \<times> u8 list) kfun" where
  "sfs_lookparent v path buflen =
    biglocked (
      kbind (get_sv v) (\<lambda>sv.
      if sfi_type (sv_i sv) \<noteq> SFS_TYPE_DIR then kerr ENOTDIR
      else if length path + 1 > buflen then kerr ENAMETOOLONG
      else kbind (vnode_incref v) (\<lambda>_. kret (v, path))))"

definition sfs_lookup :: "'d sfs_env \<Rightarrow> nat \<Rightarrow> u8 list \<Rightarrow> ('d sfs_fs, nat) kfun" where
  "sfs_lookup env v path =
    biglocked (
      kbind (get_sv v) (\<lambda>sv.
      if sfi_type (sv_i sv) \<noteq> SFS_TYPE_DIR then kerr ENOTDIR
      else kbind (sfs_lookonce env v path) (\<lambda>(final, slot). kret final)))"

section \<open>The remaining operations\<close>

definition sfs_open :: "u32 \<Rightarrow> ('s, unit) kfun" where
  "sfs_open openflags = (if openflags AND O_APPEND \<noteq> 0 then kerr EUNIMP else kret ())"

definition sfs_opendir :: "u32 \<Rightarrow> ('s, unit) kfun" where
  "sfs_opendir openflags =
    (if openflags AND O_ACCMODE \<noteq> O_RDONLY then kerr EISDIR
     else if openflags AND O_APPEND \<noteq> 0 then kerr EISDIR
     else kret ())"

definition sfs_read :: "'d sfs_env \<Rightarrow> nat \<Rightarrow> ('d sfs_fs \<times> uio, unit) kfun" where
  "sfs_read env v =
    kbind (kget snd) (\<lambda>u.
    kbind (kassert (uio_rw u = UIO_READ)) (\<lambda>_.
    kbind (on_sfs vfs_biglock_acquire) (\<lambda>_.
    kbind (ktry (sfs_io env v)) (\<lambda>result.
    kbind (on_sfs vfs_biglock_release) (\<lambda>_.
    case result of Inl e \<Rightarrow> kerr e | Inr _ \<Rightarrow> kret ())))))"

definition sfs_write :: "'d sfs_env \<Rightarrow> nat \<Rightarrow> ('d sfs_fs \<times> uio, unit) kfun" where
  "sfs_write env v =
    kbind (kget snd) (\<lambda>u.
    kbind (kassert (uio_rw u = UIO_WRITE)) (\<lambda>_.
    kbind (on_sfs vfs_biglock_acquire) (\<lambda>_.
    kbind (ktry (sfs_io env v)) (\<lambda>result.
    kbind (on_sfs vfs_biglock_release) (\<lambda>_.
    case result of Inl e \<Rightarrow> kerr e | Inr _ \<Rightarrow> kret ())))))"

definition sfs_ioctl :: "('s, unit) kfun" where
  "sfs_ioctl = kerr EINVAL"

definition sfs_gettype :: "nat \<Rightarrow> ('d sfs_fs, nat) kfun" where
  "sfs_gettype v =
    biglocked (
      kbind (get_sv v) (\<lambda>sv.
      if sfi_type (sv_i sv) = SFS_TYPE_FILE then kret S_IFREG
      else if sfi_type (sv_i sv) = SFS_TYPE_DIR then kret S_IFDIR
      else kpanic))"

definition VOP_GETTYPE :: "nat \<Rightarrow> ('d sfs_fs, nat) kfun" where
  "VOP_GETTYPE v = vop ''gettype'' v (sfs_gettype v) (sfs_gettype v)"

text \<open>The fields of \<^verbatim>\<open>struct stat\<close> that \<^verbatim>\<open>sfs_stat\<close> stores into; the others are cleared.\<close>

record kstat =
  st_size :: int
  st_mode :: nat
  st_nlink :: nat
  st_blocks :: nat

definition sfs_stat :: "nat \<Rightarrow> ('d sfs_fs, kstat) kfun" where
  "sfs_stat v =
    kbind (VOP_GETTYPE v) (\<lambda>mode.
    kbind (get_sv v) (\<lambda>sv.
    kret \<lparr>st_size = int (sfi_size (sv_i sv)), st_mode = mode, st_nlink = 0, st_blocks = 0\<rparr>))"

definition sfs_tryseek :: "int \<Rightarrow> ('s, unit) kfun" where
  "sfs_tryseek pos = (if pos < 0 then kerr EINVAL else kret ())"

definition sfs_mmap :: "('s, unit) kfun" where
  "sfs_mmap = kerr EUNIMP"

definition sfs_namefile :: "nat \<Rightarrow> ('d sfs_fs, unit) kfun" where
  "sfs_namefile v =
    kbind (get_sv v) (\<lambda>sv. kassert (sv_ino sv = SFS_ROOT_LOCATION))"

text \<open>
  The two tables, one line per operation: the entry for files and the entry for directories. Operations
  on the pair of volume and request are dispatched in the same way.
\<close>

definition vop_uio ::
    "string \<Rightarrow> nat \<Rightarrow> ('d sfs_fs \<times> uio, 'a) kfun \<Rightarrow> ('d sfs_fs \<times> uio, 'a) kfun \<Rightarrow> ('d sfs_fs \<times> uio, 'a) kfun" where
  "vop_uio opstr v fileop dirop =
    kbind (on_sfs (vnode_check opstr v)) (\<lambda>_.
    kbind (on_sfs (get_sv v)) (\<lambda>sv.
    case vn_ops sv of Sfs_fileops \<Rightarrow> fileop | Sfs_dirops \<Rightarrow> dirop | Null_ops \<Rightarrow> kpanic))"

definition VOP_OPEN where
  "VOP_OPEN v flags = vop ''open'' v (sfs_open flags) (sfs_opendir flags)"
definition VOP_READ where
  "VOP_READ env v = vop_uio ''read'' v (sfs_read env v) sfs_isdir"
definition VOP_READLINK where
  "VOP_READLINK v = vop_uio ''readlink'' v sfs_notdir sfs_isdir"
definition VOP_GETDIRENTRY where
  "VOP_GETDIRENTRY v = vop_uio ''getdirentry'' v sfs_notdir sfs_unimp"
definition VOP_WRITE where
  "VOP_WRITE env v = vop_uio ''write'' v (sfs_write env v) sfs_isdir"
definition VOP_IOCTL where
  "VOP_IOCTL v = vop ''ioctl'' v sfs_ioctl sfs_ioctl"
definition VOP_STAT where
  "VOP_STAT v = vop ''stat'' v (sfs_stat v) (sfs_stat v)"
definition VOP_TRYSEEK where
  "VOP_TRYSEEK v pos = vop ''tryseek'' v (sfs_tryseek pos) sfs_unimp"
definition VOP_MMAP where
  "VOP_MMAP v = vop ''mmap'' v sfs_mmap sfs_isdir"
definition VOP_NAMEFILE where
  "VOP_NAMEFILE v = vop ''namefile'' v sfs_notdir (sfs_namefile v)"
definition VOP_CREAT where
  "VOP_CREAT env v name excl = vop ''creat'' v sfs_notdir (sfs_creat env v name excl)"
definition VOP_SYMLINK where
  "VOP_SYMLINK v = vop ''symlink'' v sfs_notdir sfs_unimp"
definition VOP_MKDIR where
  "VOP_MKDIR v = vop ''mkdir'' v sfs_notdir sfs_unimp"
definition VOP_LINK where
  "VOP_LINK env v name f = vop ''link'' v sfs_notdir (sfs_link env v name f)"
definition VOP_REMOVE where
  "VOP_REMOVE env v name = vop ''remove'' v sfs_notdir (sfs_remove env v name)"
definition VOP_RMDIR where
  "VOP_RMDIR v = vop ''rmdir'' v sfs_notdir sfs_unimp"
definition VOP_RENAME where
  "VOP_RENAME env v n1 w n2 = vop ''rename'' v sfs_notdir (sfs_rename env v n1 w n2)"
definition VOP_LOOKUP where
  "VOP_LOOKUP env v path = vop ''lookup'' v sfs_notdir (sfs_lookup env v path)"
definition VOP_LOOKPARENT where
  "VOP_LOOKPARENT v path buflen = vop ''lookparent'' v sfs_notdir (sfs_lookparent v path buflen)"

section \<open>Writing back inodes\<close>

lemma vop_run:
  assumes "sfs_heap s v = Some sv" "0 < vn_refcount sv" "vn_ops sv \<noteq> Null_ops"
  shows "vop opstr v f d s = (if vn_ops sv = Sfs_fileops then f else d) s"
proof -
  have "vnode_check opstr v s = Ok () s"
    using assms by (simp add: vnode_check_def kfun_defs vfs_biglock_acquire_def vfs_biglock_release_def get_sv_def)
  then show ?thesis using assms by (cases "vn_ops sv") (simp_all add: vop_def kfun_defs get_sv_def)
qed

lemma inode_bytes_length [simp]: "inode_ok i \<Longrightarrow> length (inode_bytes i) = 512"
  by (simp add: inode_bytes_def inode_ok_def)

lemma sv_clean: "\<not> sv_dirty sv \<Longrightarrow> sv\<lparr>sv_dirty := False\<rparr> = sv"
  by simp

context block_device
begin

lemma sfs_sync_inode_ok:
  assumes env: "env_dio env = d_io" and dev: "dev_ok (sfs_device s)" "sv_ino sv < nblk (sfs_device s)" "0 < vfs_biglock_depth s"
    and sv: "sfs_heap s v = Some sv" "inode_ok (sv_i sv)"
  shows "\<exists>d'. sfs_sync_inode env v s =
      Ok () (s\<lparr>sfs_device := d', sfs_heap := (sfs_heap s)(v := Some (sv\<lparr>sv_dirty := False\<rparr>))\<rparr>) \<and> dev_ok d' \<and>
    nblk d' = nblk (sfs_device s) \<and>
    blk d' = (if sv_dirty sv then (blk (sfs_device s))(sv_ino sv := inode_bytes (sv_i sv)) else blk (sfs_device s))"
proof (cases "sv_dirty sv")
  case True
  from sfs_wblock_dev [OF env dev inode_bytes_length [OF sv(2)]] obtain d' where
    "sfs_wblock env (inode_bytes (sv_i sv)) (sv_ino sv) s = Ok () (s\<lparr>sfs_device := d'\<rparr>)" "dev_ok d'"
    "nblk d' = nblk (sfs_device s)" "blk d' = (blk (sfs_device s))(sv_ino sv := inode_bytes (sv_i sv))" by blast
  then show ?thesis using True sv(1)
    by (intro exI [of _ d']) (simp add: sfs_sync_inode_def kfun_defs get_sv_def mod_sv_def put_sv_def)
next
  case False
  have "(sfs_heap s)(v := Some (sv\<lparr>sv_dirty := False\<rparr>)) = sfs_heap s"
    unfolding sv_clean [OF False] using sv(1) by (simp add: fun_upd_idem_iff)
  then show ?thesis using False sv(1) dev
    by (intro exI [of _ "sfs_device s"]) (simp add: sfs_sync_inode_def kfun_defs get_sv_def)
qed

lemma vop_fsync_ok:
  assumes env: "env_dio env = d_io" and dev: "dev_ok (sfs_device s)" "sv_ino sv < nblk (sfs_device s)"
    and sv: "sfs_heap s v = Some sv" "inode_ok (sv_i sv)" "0 < vn_refcount sv" "vn_ops sv \<noteq> Null_ops"
  shows "\<exists>d'. VOP_FSYNC env v s =
      Ok () (s\<lparr>sfs_device := d', sfs_heap := (sfs_heap s)(v := Some (sv\<lparr>sv_dirty := False\<rparr>))\<rparr>) \<and> dev_ok d' \<and>
    nblk d' = nblk (sfs_device s) \<and>
    blk d' = (if sv_dirty sv then (blk (sfs_device s))(sv_ino sv := inode_bytes (sv_i sv)) else blk (sfs_device s))"
proof -
  let ?s = "s\<lparr>vfs_biglock_depth := Suc (vfs_biglock_depth s)\<rparr>"
  from sfs_sync_inode_ok [OF env, of ?s sv v] dev sv(1,2) obtain d' where
    d': "sfs_sync_inode env v ?s = Ok () (?s\<lparr>sfs_device := d', sfs_heap := (sfs_heap s)(v := Some (sv\<lparr>sv_dirty := False\<rparr>))\<rparr>)"
      "dev_ok d'" "nblk d' = nblk (sfs_device s)"
      "blk d' = (if sv_dirty sv then (blk (sfs_device s))(sv_ino sv := inode_bytes (sv_i sv)) else blk (sfs_device s))"
    by auto
  have "sfs_fsync env v s = Ok () (s\<lparr>sfs_device := d', sfs_heap := (sfs_heap s)(v := Some (sv\<lparr>sv_dirty := False\<rparr>))\<rparr>)"
    using biglocked_Ok [of "sfs_sync_inode env v" s] d'(1) by (simp add: sfs_fsync_def)
  then show ?thesis using d'(2-4) by (intro exI [of _ d']) (simp add: VOP_FSYNC_def vop_run [OF sv(1,3,4)])
qed

end

end
