(* ===== verification/Sfs_Fs.thy ===== *)
theory Sfs_Fs
  imports Sfs_Vnode
begin

text \<open>
  SFS as a file system (\<^verbatim>\<open>fs/sfs/sfs_fs.c\<close>): transfer of the free map, sync, volume name, unmount
  and mount. The theorem of this theory is that a volume that was synced is recovered by a mount.
\<close>

section \<open>Model\<close>

text \<open>One block of the free map; \<^verbatim>\<open>ptr\<close> points into the data of the bitmap.\<close>

definition sfs_mapio_block :: "'d sfs_env \<Rightarrow> uio_rw \<Rightarrow> nat \<Rightarrow> ('d sfs_fs, unit) kfun" where
  "sfs_mapio_block env rw j =
    kbind (kget (\<lambda>s. bitmap_getdata (sfs_freemap s))) (\<lambda>bitdata.
    if length bitdata < (j + 1) * SFS_BLOCKSIZE then kpanic
    else if rw = UIO_READ then
      kbind (sfs_rblock env (slice (j * SFS_BLOCKSIZE) SFS_BLOCKSIZE bitdata) (SFS_MAP_LOCATION + j)) (\<lambda>bytes.
      kmod (\<lambda>s. s\<lparr>sfs_freemap := (sfs_freemap s)\<lparr>bm_v := overwrite (j * SFS_BLOCKSIZE) bytes bitdata\<rparr>\<rparr>))
    else sfs_wblock env (slice (j * SFS_BLOCKSIZE) SFS_BLOCKSIZE bitdata) (SFS_MAP_LOCATION + j))"

definition sfs_mapio :: "'d sfs_env \<Rightarrow> uio_rw \<Rightarrow> ('d sfs_fs, unit) kfun" where
  "sfs_mapio env rw =
    kbind (kget (\<lambda>s. SFS_BITBLOCKS (sp_nblocks (sfs_super s)))) (\<lambda>mapsize.
    kforeach (sfs_mapio_block env rw) [0..<mapsize])"

text \<open>
  The three parts of \<^verbatim>\<open>sfs_sync\<close>: the loaded vnodes, where the results of the calls of
  \<^verbatim>\<open>VOP_FSYNC\<close> are not looked at, the free map and the superblock.
\<close>

definition sfs_sync_vnodes :: "'d sfs_env \<Rightarrow> ('d sfs_fs, unit) kfun" where
  "sfs_sync_vnodes env =
    kbind (kget sfs_vnodes) (\<lambda>vs. kforeach (\<lambda>v. kignore (VOP_FSYNC env v)) vs)"

definition sfs_sync_freemap :: "'d sfs_env \<Rightarrow> ('d sfs_fs, unit) kfun" where
  "sfs_sync_freemap env =
    kbind (kget sfs_freemapdirty) (\<lambda>dirty.
    if dirty then
      kbind (sfs_mapio env UIO_WRITE) (\<lambda>_. kmod (sfs_freemapdirty_update (\<lambda>_. False)))
    else kret ())"

definition sfs_sync_super :: "'d sfs_env \<Rightarrow> ('d sfs_fs, unit) kfun" where
  "sfs_sync_super env =
    kbind (kget sfs_superdirty) (\<lambda>dirty.
    if dirty then
      kbind (kget (\<lambda>s. super_bytes (sfs_super s))) (\<lambda>bytes.
      kbind (sfs_wblock env bytes SFS_SB_LOCATION) (\<lambda>_.
      kmod (sfs_superdirty_update (\<lambda>_. False))))
    else kret ())"

definition sfs_sync :: "'d sfs_env \<Rightarrow> ('d sfs_fs, unit) kfun" where
  "sfs_sync env =
    biglocked (
      kbind (sfs_sync_vnodes env) (\<lambda>_.
      kbind (sfs_sync_freemap env) (\<lambda>_.
      sfs_sync_super env)))"

definition sfs_getvolname :: "('d sfs_fs, u8 list) kfun" where
  "sfs_getvolname = biglocked (kget (\<lambda>s. sp_volname (sfs_super s)))"

text \<open>After a return of 0 the structure is freed; the device is what is left of the state.\<close>

definition sfs_unmount :: "('d sfs_fs, unit) kfun" where
  "sfs_unmount =
    biglocked (
      kbind (kget sfs_vnodes) (\<lambda>vs.
      if length vs > 0 then kerr EBUSY
      else
        kbind (kget sfs_superdirty) (\<lambda>dirty.
        kbind (kassert (\<not> dirty)) (\<lambda>_.
        kbind (kget sfs_freemapdirty) (\<lambda>dirty.
        kassert (\<not> dirty))))))"

text \<open>
  \<^verbatim>\<open>sfs_domount\<close> on a device with blocks of \<open>d_blocksize\<close> bytes. The state is the structure under
  construction; its fields are arbitrary at the start except the device.
\<close>

definition sfs_domount :: "'d sfs_env \<Rightarrow> nat \<Rightarrow> ('d sfs_fs, unit) kfun" where
  "sfs_domount env d_blocksize =
    biglocked (
      if d_blocksize \<noteq> SFS_BLOCKSIZE then kerr ENXIO
      else
        kbind sfs_kmalloc_try (\<lambda>ok.
        if \<not> ok then kerr ENOMEM
        else
          kbind sfs_kmalloc_try (\<lambda>ok.
          if \<not> ok then kerr ENOMEM
          else
            kbind (kmod (sfs_vnodes_update (\<lambda>_. []))) (\<lambda>_.
            kbind (sfs_rblock env zeros SFS_SB_LOCATION) (\<lambda>bytes.
            kbind (kmod (sfs_super_update (\<lambda>_. bytes_super bytes))) (\<lambda>_.
            if sp_magic (bytes_super bytes) \<noteq> SFS_MAGIC then kerr EINVAL
            else
              kbind (kmod (\<lambda>s. s\<lparr>sfs_super := (sfs_super s)\<lparr>sp_volname :=
                (sp_volname (sfs_super s))[SFS_VOLNAME_SIZE - 1 := 0]\<rparr>\<rparr>)) (\<lambda>_.
              kbind sfs_kmalloc_try (\<lambda>ok_b.
              kbind (if ok_b then sfs_kmalloc_try else kret False) (\<lambda>ok_v.
              kbind (bitmap_create ok_b ok_v (SFS_BITMAPSIZE (sp_nblocks (bytes_super bytes)))) (\<lambda>freemap.
              case freemap of
                None \<Rightarrow> kerr ENOMEM
              | Some b \<Rightarrow>
                  kbind (kmod (sfs_freemap_update (\<lambda>_. b))) (\<lambda>_.
                  kbind (sfs_mapio env UIO_READ) (\<lambda>_.
                  kbind (kmod (sfs_superdirty_update (\<lambda>_. False))) (\<lambda>_.
                  kmod (sfs_freemapdirty_update (\<lambda>_. False)))))))))))))))"

section \<open>The free map on disk\<close>

text \<open>The bytes of the free map that the blocks from 2 on hold.\<close>

definition disk_map :: "(nat \<Rightarrow> u8 list) \<Rightarrow> nat \<Rightarrow> u8 list" where
  "disk_map B m = concat (map (\<lambda>k. B (2 + k)) [0..<m])"

lemma slice_blocks:
  assumes "length xs = 512 * m"
  shows "concat (map (\<lambda>k. slice (512 * k) 512 xs) [0..<m]) = xs"
proof -
  have "concat (map (\<lambda>k. slice (512 * k) 512 xs) [0..<j]) = take (512 * j) xs" if "j \<le> m" for j
    using that
  proof (induction j)
    case (Suc j)
    then show ?case using take_add [of "512 * j" 512 xs] by (simp add: slice_def add.commute)
  qed simp
  then show ?thesis using assms by simp
qed

lemma bitblocks:
  assumes "n \<le> 2 ^ 23"
  shows "SFS_BITBLOCKS n = (n + 4095) div 4096" "SFS_BITMAPSIZE n = 4096 * ((n + 4095) div 4096)"
proof -
  define q where "q = (n + 4095) div 4096"
  have q: "q \<le> 2049" using assms by (simp add: q_def)
  have "SFS_BITMAPSIZE n = 4096 * q"
    using assms q by (simp add: SFS_BITMAPSIZE_def SFS_BLOCKBITS_def SFS_BLOCKSIZE_def DIVROUNDUP_def q_def mul32_def)
  then show "SFS_BITMAPSIZE n = 4096 * ((n + 4095) div 4096)" "SFS_BITBLOCKS n = (n + 4095) div 4096"
    by (simp_all add: q_def SFS_BITBLOCKS_def SFS_BLOCKBITS_def SFS_BLOCKSIZE_def)
qed

lemma bitmap_create_map:
  assumes "n \<le> 2 ^ 23"
  shows "bitmap_create True True (SFS_BITMAPSIZE n) =
    kret (Some \<lparr>nbits = SFS_BITMAPSIZE n, bm_v = replicate (512 * SFS_BITBLOCKS n) 0\<rparr>)"
proof -
  have "(n + 4095) div 4096 \<le> 2049" using assms by simp
  moreover have "(7 + 4096 * q) div 8 = 512 * q" for q :: nat by simp
  ultimately show ?thesis
    unfolding bitblocks [OF assms] by (simp add: bitmap_create_def DIVROUNDUP_def Let_def)
qed

context block_device
begin

lemma sfs_mapio_write_loop:
  assumes env: "env_dio env = d_io" and "dev_ok (sfs_device s)" "2 + m \<le> nblk (sfs_device s)" "0 < vfs_biglock_depth s"
    and "length (bm_v (sfs_freemap s)) = 512 * m" "j \<le> m"
  shows "\<exists>d'. kforeach (sfs_mapio_block env UIO_WRITE) [j..<m] s = Ok () (s\<lparr>sfs_device := d'\<rparr>) \<and> dev_ok d' \<and>
    nblk d' = nblk (sfs_device s) \<and>
    blk d' = (\<lambda>b. if 2 + j \<le> b \<and> b < 2 + m then slice (512 * (b - 2)) 512 (bm_v (sfs_freemap s)) else blk (sfs_device s) b)"
  using assms(2-)
proof (induction "m - j" arbitrary: j s)
  case 0
  then show ?case by (intro exI [of _ "sfs_device s"]) (auto simp: kret_def fun_eq_iff)
next
  case (Suc n)
  then have j: "j < m" "[j..<m] = j # [Suc j..<m]" by (simp_all add: upt_conv_Cons)
  have n: "n = m - Suc j" using Suc.hyps(2) by simp
  let ?data = "bm_v (sfs_freemap s)"
  have len: "512 * j + 512 \<le> 512 * m" using j(1) by simp
  have "length (slice (512 * j) 512 ?data) = 512" using Suc.prems(4) len by (simp add: slice_def)
  from sfs_wblock_dev [OF env Suc.prems(1) _ Suc.prems(3) this, of "2 + j"] Suc.prems(2) j(1) obtain d where
    d: "sfs_wblock env (slice (512 * j) 512 ?data) (2 + j) s = Ok () (s\<lparr>sfs_device := d\<rparr>)" "dev_ok d"
      "nblk d = nblk (sfs_device s)" "blk d = (blk (sfs_device s))(2 + j := slice (512 * j) 512 ?data)" by auto
  have step: "sfs_mapio_block env UIO_WRITE j s = Ok () (s\<lparr>sfs_device := d\<rparr>)"
    using d(1) Suc.prems(4) len
    by (simp add: sfs_mapio_block_def kfun_defs bitmap_getdata_def SFS_BLOCKSIZE_def SFS_MAP_LOCATION_def mult.commute)
  have "\<exists>d'. kforeach (sfs_mapio_block env UIO_WRITE) [Suc j..<m] (s\<lparr>sfs_device := d\<rparr>) = Ok () (s\<lparr>sfs_device := d'\<rparr>) \<and>
      dev_ok d' \<and> nblk d' = nblk d \<and>
      blk d' = (\<lambda>b. if 2 + Suc j \<le> b \<and> b < 2 + m then slice (512 * (b - 2)) 512 ?data else blk d b)"
    using Suc.hyps(1) [of "Suc j" "s\<lparr>sfs_device := d\<rparr>"] n Suc.prems d(2,3) j(1) by (simp cong: if_cong)
  then obtain d' where d': "kforeach (sfs_mapio_block env UIO_WRITE) [Suc j..<m] (s\<lparr>sfs_device := d\<rparr>) = Ok () (s\<lparr>sfs_device := d'\<rparr>)"
      "dev_ok d'" "nblk d' = nblk d"
      "blk d' = (\<lambda>b. if 2 + Suc j \<le> b \<and> b < 2 + m then slice (512 * (b - 2)) 512 ?data else blk d b)" by blast
  have "blk d' = (\<lambda>b. if 2 + j \<le> b \<and> b < 2 + m then slice (512 * (b - 2)) 512 ?data else blk (sfs_device s) b)"
    using d'(4) d(4) j(1) by (auto simp: fun_eq_iff le_Suc_eq)
  then show ?case using step d'(1-3) d(3) j(2) by (intro exI [of _ d']) (simp add: kbind_def)
qed

lemma sfs_mapio_read_loop:
  assumes env: "env_dio env = d_io" and "dev_ok (sfs_device s)" "2 + m \<le> nblk (sfs_device s)" "0 < vfs_biglock_depth s"
    and "length (bm_v (sfs_freemap s)) = 512 * m" "j \<le> m" "take (512 * j) (bm_v (sfs_freemap s)) = disk_map (blk (sfs_device s)) j"
  shows "\<exists>d'. kforeach (sfs_mapio_block env UIO_READ) [j..<m] s =
      Ok () (s\<lparr>sfs_device := d', sfs_freemap := (sfs_freemap s)\<lparr>bm_v := disk_map (blk (sfs_device s)) m\<rparr>\<rparr>) \<and> dev_ok d' \<and>
    nblk d' = nblk (sfs_device s) \<and> blk d' = blk (sfs_device s)"
  using assms(2-)
proof (induction "m - j" arbitrary: j s)
  case 0
  then have "bm_v (sfs_freemap s) = disk_map (blk (sfs_device s)) m" by simp
  then show ?case using 0 by (intro exI [of _ "sfs_device s"]) (simp add: kret_def)
next
  case (Suc n)
  then have j: "j < m" "[j..<m] = j # [Suc j..<m]" by (simp_all add: upt_conv_Cons)
  have n: "n = m - Suc j" using Suc.hyps(2) by simp
  let ?data = "bm_v (sfs_freemap s)"
  have len: "512 * j + 512 \<le> 512 * m" using j(1) by simp
  have "length (slice (512 * j) 512 ?data) = 512" using Suc.prems(4) len by (simp add: slice_def)
  from sfs_rblock_dev [OF env Suc.prems(1) _ Suc.prems(3) this, of "2 + j"] Suc.prems(2) j(1) obtain d where
    d: "sfs_rblock env (slice (512 * j) 512 ?data) (2 + j) s = Ok (blk (sfs_device s) (2 + j)) (s\<lparr>sfs_device := d\<rparr>)" "dev_ok d"
      "nblk d = nblk (sfs_device s)" "blk d = blk (sfs_device s)" by auto
  have lb: "length (blk (sfs_device s) (2 + j)) = 512" using blk_length [OF Suc.prems(1)] Suc.prems(2) j(1) by simp
  let ?data' = "overwrite (512 * j) (blk (sfs_device s) (2 + j)) ?data"
  let ?s = "s\<lparr>sfs_device := d, sfs_freemap := (sfs_freemap s)\<lparr>bm_v := ?data'\<rparr>\<rparr>"
  have step: "sfs_mapio_block env UIO_READ j s = Ok () ?s"
    using d(1) Suc.prems(4) len
    by (simp add: sfs_mapio_block_def kfun_defs bitmap_getdata_def SFS_BLOCKSIZE_def SFS_MAP_LOCATION_def mult.commute)
  have "take (512 * Suc j) ?data' = take (512 * j) ?data @ blk (sfs_device s) (2 + j)"
    using Suc.prems(4) lb len by (simp add: overwrite_def)
  then have "take (512 * Suc j) ?data' = disk_map (blk (sfs_device s)) (Suc j)"
    using Suc.prems(6) by (simp add: disk_map_def)
  moreover have "length ?data' = 512 * m" using Suc.prems(4) lb len by simp
  ultimately have "\<exists>d'. kforeach (sfs_mapio_block env UIO_READ) [Suc j..<m] ?s =
      Ok () (s\<lparr>sfs_device := d', sfs_freemap := (sfs_freemap s)\<lparr>bm_v := disk_map (blk (sfs_device s)) m\<rparr>\<rparr>) \<and>
      dev_ok d' \<and> nblk d' = nblk d \<and> blk d' = blk (sfs_device s)"
    using Suc.hyps(1) [of "Suc j" ?s] n Suc.prems d(2-4) j(1) by simp
  then show ?case using step d(3) j(2) by (simp add: kbind_def)
qed

end

section \<open>Sync and mount\<close>

text \<open>
  A mounted volume: the blocks of the free map are inside the volume, the loaded vnodes are those of
  different inodes and none of them is the superblock or a block of the free map, and what is not
  marked dirty is on disk.
\<close>

definition sfs_meta :: "sfs_super \<Rightarrow> nat set" where
  "sfs_meta sp = insert 0 {2..<2 + SFS_BITBLOCKS (sp_nblocks sp)}"

definition vnode_ok :: "'d sfs_fs \<Rightarrow> nat \<Rightarrow> bool" where
  "vnode_ok s v \<longleftrightarrow> (\<exists>sv. sfs_heap s v = Some sv \<and> 0 < vn_refcount sv \<and> vn_ops sv \<noteq> Null_ops \<and> inode_ok (sv_i sv) \<and>
     sv_ino sv < sp_nblocks (sfs_super s) \<and> sv_ino sv \<notin> sfs_meta (sfs_super s))"

definition ino_of :: "'d sfs_fs \<Rightarrow> nat \<Rightarrow> nat" where
  "ino_of s v = sv_ino (the (sfs_heap s v))"

definition sfs_mounted ::
    "('d \<Rightarrow> nat \<Rightarrow> u8 list) \<Rightarrow> ('d \<Rightarrow> nat) \<Rightarrow> ('d \<Rightarrow> bool) \<Rightarrow> 'd sfs_fs \<Rightarrow> bool" where
  "sfs_mounted blk nblk dev_ok s \<longleftrightarrow>
     dev_ok (sfs_device s) \<and> sp_nblocks (sfs_super s) \<le> nblk (sfs_device s) \<and> sp_nblocks (sfs_super s) \<le> 2 ^ 23 \<and>
     super_ok (sfs_super s) \<and> sp_magic (sfs_super s) = SFS_MAGIC \<and> sp_volname (sfs_super s) ! 31 = 0 \<and>
     2 + SFS_BITBLOCKS (sp_nblocks (sfs_super s)) \<le> sp_nblocks (sfs_super s) \<and>
     nbits (sfs_freemap s) = SFS_BITMAPSIZE (sp_nblocks (sfs_super s)) \<and>
     length (bm_v (sfs_freemap s)) = 512 * SFS_BITBLOCKS (sp_nblocks (sfs_super s)) \<and>
     distinct (sfs_vnodes s) \<and> list_all (vnode_ok s) (sfs_vnodes s) \<and> inj_on (ino_of s) (set (sfs_vnodes s)) \<and>
     (sfs_freemapdirty s \<or> disk_map (blk (sfs_device s)) (SFS_BITBLOCKS (sp_nblocks (sfs_super s))) = bm_v (sfs_freemap s)) \<and>
     (sfs_superdirty s \<or> blk (sfs_device s) 0 = super_bytes (sfs_super s))"

text \<open>The loaded inodes are on disk, and blocks that are not inodes are as before.\<close>

definition inodes_synced :: "'d sfs_fs \<Rightarrow> nat list \<Rightarrow> (nat \<Rightarrow> u8 list) \<Rightarrow> (nat \<Rightarrow> u8 list) \<Rightarrow> bool" where
  "inodes_synced s vs B B' \<longleftrightarrow>
     (\<forall>v \<in> set vs. sv_dirty (the (sfs_heap s v)) \<longrightarrow> B' (ino_of s v) = inode_bytes (sv_i (the (sfs_heap s v)))) \<and>
     (\<forall>b. (\<forall>v \<in> set vs. sv_dirty (the (sfs_heap s v)) \<longrightarrow> ino_of s v \<noteq> b) \<longrightarrow> B' b = B b)"

definition cleaned :: "nat set \<Rightarrow> (nat \<Rightarrow> sfs_vnode option) \<Rightarrow> nat \<Rightarrow> sfs_vnode option" where
  "cleaned V h = (\<lambda>v. if v \<in> V then map_option (sv_dirty_update (\<lambda>_. False)) (h v) else h v)"

context block_device
begin

lemma sync_vnodes:
  assumes env: "env_dio env = d_io" and "dev_ok (sfs_device s)" "sp_nblocks (sfs_super s) \<le> nblk (sfs_device s)"
    and "list_all (vnode_ok s) vs" "distinct vs" "inj_on (ino_of s) (set vs)"
  shows "\<exists>d'. kforeach (\<lambda>v. kignore (VOP_FSYNC env v)) vs s =
      Ok () (s\<lparr>sfs_device := d', sfs_heap := cleaned (set vs) (sfs_heap s)\<rparr>) \<and> dev_ok d' \<and>
    nblk d' = nblk (sfs_device s) \<and> inodes_synced s vs (blk (sfs_device s)) (blk d')"
  using assms(2-)
proof (induction vs arbitrary: s)
  case Nil
  then show ?case
    by (intro exI [of _ "sfs_device s"]) (simp add: kret_def cleaned_def inodes_synced_def)
next
  case (Cons v vs)
  from Cons.prems(3) obtain sv where sv: "sfs_heap s v = Some sv" "0 < vn_refcount sv" "vn_ops sv \<noteq> Null_ops"
      "inode_ok (sv_i sv)" "sv_ino sv < sp_nblocks (sfs_super s)"
    by (auto simp: vnode_ok_def)
  from vop_fsync_ok [OF env Cons.prems(1) _ sv(1,4,2,3)] sv(5) Cons.prems(2) obtain d where
    d: "VOP_FSYNC env v s = Ok () (s\<lparr>sfs_device := d, sfs_heap := (sfs_heap s)(v := Some (sv\<lparr>sv_dirty := False\<rparr>))\<rparr>)"
      "dev_ok d" "nblk d = nblk (sfs_device s)"
      "blk d = (if sv_dirty sv then (blk (sfs_device s))(sv_ino sv := inode_bytes (sv_i sv)) else blk (sfs_device s))"
    by auto
  define s1 where "s1 = s\<lparr>sfs_device := d, sfs_heap := (sfs_heap s)(v := Some (sv\<lparr>sv_dirty := False\<rparr>))\<rparr>"
  have s1: "sfs_device s1 = d" "sfs_heap s1 = (sfs_heap s)(v := Some (sv\<lparr>sv_dirty := False\<rparr>))" "sfs_super s1 = sfs_super s"
    by (simp_all add: s1_def)
  have fresh: "v \<notin> set vs" using Cons.prems(4) by simp
  have other: "w \<in> set vs \<Longrightarrow> sfs_heap s1 w = sfs_heap s w \<and> ino_of s1 w = ino_of s w" for w
    using fresh by (auto simp: ino_of_def s1)
  have pre: "dev_ok (sfs_device s1)" "sp_nblocks (sfs_super s1) \<le> nblk (sfs_device s1)" "distinct vs"
    using d(2,3) Cons.prems(2,4) by (simp_all add: s1)
  have "list_all (vnode_ok s1) vs"
    using Cons.prems(3) other by (auto simp: list_all_iff vnode_ok_def s1(3))
  moreover have "inj_on (ino_of s1) (set vs)"
    using Cons.prems(5) other inj_on_cong [of "set vs" "ino_of s1" "ino_of s"] by (simp add: inj_on_insert)
  ultimately obtain d' where d':
      "kforeach (\<lambda>v. kignore (VOP_FSYNC env v)) vs s1 =
        Ok () (s1\<lparr>sfs_device := d', sfs_heap := cleaned (set vs) (sfs_heap s1)\<rparr>)" "dev_ok d'"
      "nblk d' = nblk (sfs_device s1)" "inodes_synced s1 vs (blk (sfs_device s1)) (blk d')"
    using Cons.IH [OF pre(1,2) _ pre(3)] by blast
  have "cleaned (set vs) (sfs_heap s1) = cleaned (set (v # vs)) (sfs_heap s)"
    using fresh sv(1) by (auto simp: cleaned_def fun_eq_iff s1)
  then have "s1\<lparr>sfs_device := d', sfs_heap := cleaned (set vs) (sfs_heap s1)\<rparr> =
      s\<lparr>sfs_device := d', sfs_heap := cleaned (set (v # vs)) (sfs_heap s)\<rparr>" by (simp add: s1_def)
  moreover have "inodes_synced s (v # vs) (blk (sfs_device s)) (blk d')"
  proof -
    have ino: "ino_of s v = sv_ino sv" "w \<in> set vs \<Longrightarrow> ino_of s w \<noteq> sv_ino sv" for w
      using sv(1) Cons.prems(5) fresh by (auto simp: ino_of_def inj_on_def)
    have old: "\<And>w. w \<in> set vs \<Longrightarrow> sv_dirty (the (sfs_heap s w)) \<Longrightarrow> blk d' (ino_of s w) = inode_bytes (sv_i (the (sfs_heap s w)))"
      "\<And>b. (\<And>w. w \<in> set vs \<Longrightarrow> sv_dirty (the (sfs_heap s w)) \<Longrightarrow> ino_of s w \<noteq> b) \<Longrightarrow> blk d' b = blk d b"
      using d'(4) other unfolding inodes_synced_def s1(1) by auto
    show ?thesis
      unfolding inodes_synced_def using old(1) old(2) ino sv(1) d(4) by (auto split: if_splits)
  qed
  moreover have "VOP_FSYNC env v s = Ok () s1" using d(1) by (simp add: s1_def)
  ultimately show ?case using d(3) d'(1-3) by (intro exI [of _ d']) (simp add: kbind_def kignore_Ok s1(1))
qed

lemma sfs_sync_freemap_ok:
  assumes env: "env_dio env = d_io" and s: "dev_ok (sfs_device s)" "2 + m \<le> nblk (sfs_device s)" "0 < vfs_biglock_depth s"
    "length (bm_v (sfs_freemap s)) = 512 * m" "m = SFS_BITBLOCKS (sp_nblocks (sfs_super s))"
    and clean: "sfs_freemapdirty s \<or> disk_map (blk (sfs_device s)) m = bm_v (sfs_freemap s)"
  shows "\<exists>d'. sfs_sync_freemap env s = Ok () (s\<lparr>sfs_device := d', sfs_freemapdirty := False\<rparr>) \<and> dev_ok d' \<and>
      nblk d' = nblk (sfs_device s) \<and> disk_map (blk d') m = bm_v (sfs_freemap s) \<and>
      (\<forall>b. b \<notin> {2..<2 + m} \<longrightarrow> blk d' b = blk (sfs_device s) b)"
proof (cases "sfs_freemapdirty s")
  case True
  from sfs_mapio_write_loop [OF env s(1-4), of 0] obtain d' where
    d': "kforeach (sfs_mapio_block env UIO_WRITE) [0..<m] s = Ok () (s\<lparr>sfs_device := d'\<rparr>)" "dev_ok d'"
      "nblk d' = nblk (sfs_device s)"
      "blk d' = (\<lambda>b. if 2 \<le> b \<and> b < 2 + m then slice (512 * (b - 2)) 512 (bm_v (sfs_freemap s)) else blk (sfs_device s) b)"
    by auto
  have "disk_map (blk d') m = concat (map (\<lambda>k. slice (512 * k) 512 (bm_v (sfs_freemap s))) [0..<m])"
    unfolding disk_map_def d'(4) by (intro arg_cong [where f = concat] map_cong) auto
  then have "disk_map (blk d') m = bm_v (sfs_freemap s)" using slice_blocks [OF s(4)] by simp
  moreover have "sfs_mapio env UIO_WRITE s = Ok () (s\<lparr>sfs_device := d'\<rparr>)"
    using d'(1) s(5) by (simp add: sfs_mapio_def kbind_kget)
  ultimately show ?thesis
    using True d'(2-4) by (intro exI [of _ d']) (simp add: sfs_sync_freemap_def kbind_def kmod_def kget_def)
next
  case False
  then show ?thesis
    using clean s(1) by (intro exI [of _ "sfs_device s"]) (simp add: sfs_sync_freemap_def kbind_kget kret_def)
qed

lemma sfs_sync_super_ok:
  assumes env: "env_dio env = d_io" and s: "dev_ok (sfs_device s)" "0 < nblk (sfs_device s)" "0 < vfs_biglock_depth s"
    "super_ok (sfs_super s)"
    and clean: "sfs_superdirty s \<or> blk (sfs_device s) 0 = super_bytes (sfs_super s)"
  shows "\<exists>d'. sfs_sync_super env s = Ok () (s\<lparr>sfs_device := d', sfs_superdirty := False\<rparr>) \<and> dev_ok d' \<and>
      nblk d' = nblk (sfs_device s) \<and> blk d' = (blk (sfs_device s))(0 := super_bytes (sfs_super s))"
proof (cases "sfs_superdirty s")
  case True
  have "length (super_bytes (sfs_super s)) = 512" using s(4) by (simp add: super_ok_def super_bytes_def)
  from sfs_wblock_dev [OF env s(1-3) this] obtain d' where
    "sfs_wblock env (super_bytes (sfs_super s)) 0 s = Ok () (s\<lparr>sfs_device := d'\<rparr>)" "dev_ok d'"
      "nblk d' = nblk (sfs_device s)" "blk d' = (blk (sfs_device s))(0 := super_bytes (sfs_super s))" by blast
  then show ?thesis
    using True by (intro exI [of _ d']) (simp add: sfs_sync_super_def kfun_defs SFS_SB_LOCATION_def)
next
  case False
  then have "(blk (sfs_device s))(0 := super_bytes (sfs_super s)) = blk (sfs_device s)"
    using clean by (simp add: fun_upd_idem)
  then show ?thesis
    using False s(1) by (intro exI [of _ "sfs_device s"]) (simp add: sfs_sync_super_def kbind_kget kret_def)
qed

lemma sfs_mountedD:
  assumes "sfs_mounted blk nblk dev_ok s" and m: "m = SFS_BITBLOCKS (sp_nblocks (sfs_super s))"
  shows "dev_ok (sfs_device s)" "sp_nblocks (sfs_super s) \<le> nblk (sfs_device s)" "super_ok (sfs_super s)"
    "2 + m \<le> sp_nblocks (sfs_super s)" "length (bm_v (sfs_freemap s)) = 512 * m" "distinct (sfs_vnodes s)"
    "list_all (vnode_ok s) (sfs_vnodes s)" "inj_on (ino_of s) (set (sfs_vnodes s))"
    "sfs_freemapdirty s \<or> disk_map (blk (sfs_device s)) m = bm_v (sfs_freemap s)"
    "sfs_superdirty s \<or> blk (sfs_device s) 0 = super_bytes (sfs_super s)"
  using assms(1) by (simp_all add: sfs_mounted_def m)

text \<open>Writing the inodes leaves the superblock and the free map alone.\<close>

lemma inodes_synced_meta:
  assumes "sfs_mounted blk nblk dev_ok s" "inodes_synced s (sfs_vnodes s) (blk (sfs_device s)) B"
    "b \<in> sfs_meta (sfs_super s)"
  shows "B b = blk (sfs_device s) b"
  using assms unfolding inodes_synced_def sfs_mounted_def by (force simp: list_all_iff vnode_ok_def ino_of_def)

lemma sfs_sync_vnodes_ok:
  assumes env: "env_dio env = d_io" and s: "sfs_mounted blk nblk dev_ok s"
  shows "\<exists>d'. sfs_sync_vnodes env (s\<lparr>vfs_biglock_depth := k\<rparr>) =
      Ok () (s\<lparr>vfs_biglock_depth := k, sfs_device := d', sfs_heap := cleaned (set (sfs_vnodes s)) (sfs_heap s)\<rparr>) \<and>
    dev_ok d' \<and> nblk d' = nblk (sfs_device s) \<and> inodes_synced s (sfs_vnodes s) (blk (sfs_device s)) (blk d')"
proof -
  let ?s = "s\<lparr>vfs_biglock_depth := k\<rparr>"
  note D = sfs_mountedD [OF s refl]
  have "list_all (vnode_ok ?s) (sfs_vnodes s)" "inj_on (ino_of ?s) (set (sfs_vnodes s))"
    using D(7,8) by (simp_all add: list_all_iff vnode_ok_def inj_on_def ino_of_def)
  moreover have "inodes_synced ?s (sfs_vnodes s) B B' = inodes_synced s (sfs_vnodes s) B B'" for B B'
    by (simp add: inodes_synced_def ino_of_def)
  ultimately show ?thesis
    using sync_vnodes [OF env, of ?s "sfs_vnodes s"] D(1,2,6) by (simp add: sfs_sync_vnodes_def kbind_kget)
qed

lemma sfs_sync_ok:
  assumes env: "env_dio env = d_io" and s: "sfs_mounted blk nblk dev_ok s"
    and m: "m = SFS_BITBLOCKS (sp_nblocks (sfs_super s))"
  shows "\<exists>d B. sfs_sync env s = Ok () (s\<lparr>sfs_device := d, sfs_heap := cleaned (set (sfs_vnodes s)) (sfs_heap s),
      sfs_freemapdirty := False, sfs_superdirty := False\<rparr>) \<and> dev_ok d \<and> nblk d = nblk (sfs_device s) \<and>
      disk_map (blk d) m = bm_v (sfs_freemap s) \<and> blk d 0 = super_bytes (sfs_super s) \<and>
      inodes_synced s (sfs_vnodes s) (blk (sfs_device s)) B \<and> (\<forall>b. b \<notin> sfs_meta (sfs_super s) \<longrightarrow> blk d b = B b)"
proof -
  note D = sfs_mountedD [OF s m]
  let ?s0 = "s\<lparr>vfs_biglock_depth := Suc (vfs_biglock_depth s)\<rparr>"
  from sfs_sync_vnodes_ok [OF env s, of "Suc (vfs_biglock_depth s)"] obtain d1 where
    d1: "sfs_sync_vnodes env ?s0 = Ok () (?s0\<lparr>sfs_device := d1, sfs_heap := cleaned (set (sfs_vnodes s)) (sfs_heap s)\<rparr>)"
      "dev_ok d1" "nblk d1 = nblk (sfs_device s)" "inodes_synced s (sfs_vnodes s) (blk (sfs_device s)) (blk d1)"
    by blast
  note keep = inodes_synced_meta [OF s d1(4)]
  define s1 where "s1 = ?s0\<lparr>sfs_device := d1, sfs_heap := cleaned (set (sfs_vnodes s)) (sfs_heap s)\<rparr>"
  have s1: "sfs_device s1 = d1" "sfs_freemap s1 = sfs_freemap s" "sfs_freemapdirty s1 = sfs_freemapdirty s"
      "sfs_super s1 = sfs_super s" "0 < vfs_biglock_depth s1" "sfs_superdirty s1 = sfs_superdirty s"
    by (simp_all add: s1_def)
  have "disk_map (blk d1) m = disk_map (blk (sfs_device s)) m"
    unfolding disk_map_def using keep by (intro arg_cong [where f = concat] map_cong) (simp_all add: sfs_meta_def m)
  then have "sfs_freemapdirty s1 \<or> disk_map (blk (sfs_device s1)) m = bm_v (sfs_freemap s1)"
    using D(9) by (simp add: s1)
  from sfs_sync_freemap_ok [OF env _ _ s1(5) _ _ this] obtain d2 where
    d2: "sfs_sync_freemap env s1 = Ok () (s1\<lparr>sfs_device := d2, sfs_freemapdirty := False\<rparr>)" "dev_ok d2" "nblk d2 = nblk d1"
      "disk_map (blk d2) m = bm_v (sfs_freemap s)" "\<And>b. b \<notin> {2..<2 + m} \<Longrightarrow> blk d2 b = blk d1 b"
    using d1(2,3) D(2,4,5) by (auto simp: s1 m)
  define s2 where "s2 = s1\<lparr>sfs_device := d2, sfs_freemapdirty := False\<rparr>"
  have s2: "sfs_device s2 = d2" "sfs_super s2 = sfs_super s" "0 < vfs_biglock_depth s2" "sfs_superdirty s2 = sfs_superdirty s"
    using s1 by (simp_all add: s2_def)
  have "sfs_superdirty s2 \<or> blk (sfs_device s2) 0 = super_bytes (sfs_super s2)"
    using D(10) d2(5) [of 0] keep [of 0] by (simp add: s2 sfs_meta_def)
  from sfs_sync_super_ok [OF env _ _ s2(3) _ this] obtain d3 where
    d3: "sfs_sync_super env s2 = Ok () (s2\<lparr>sfs_device := d3, sfs_superdirty := False\<rparr>)" "dev_ok d3" "nblk d3 = nblk d2"
      "blk d3 = (blk d2)(0 := super_bytes (sfs_super s))"
    using d1(3) d2(2,3) D(2,3,4) by (auto simp: s2)
  have "sfs_sync env s = Ok () (s\<lparr>sfs_device := d3, sfs_heap := cleaned (set (sfs_vnodes s)) (sfs_heap s),
      sfs_freemapdirty := False, sfs_superdirty := False\<rparr>)"
    using d1(1) d2(1) d3(1) unfolding sfs_sync_def
    by (subst biglocked_Ok [where n = "vfs_biglock_depth s"])
      (simp_all add: kbind_def s1_def [symmetric] s2_def [symmetric], simp_all add: s2_def s1_def)
  moreover have "disk_map (blk d3) m = bm_v (sfs_freemap s)" using d2(4) by (simp add: disk_map_def d3(4))
  moreover have "blk d3 b = blk d1 b" if "b \<notin> sfs_meta (sfs_super s)" for b
    using that d2(5) [of b] by (simp add: d3(4) sfs_meta_def m)
  ultimately show ?thesis using d3(2-4) d2(3) d1(3,4) by (intro exI [of _ d3] exI [of _ "blk d1"]) simp
qed

lemma sfs_domount_ok:
  assumes env: "env_dio env = d_io" and dev: "dev_ok (sfs_device r)" "n \<le> nblk (sfs_device r)"
    and sp: "blk (sfs_device r) 0 = super_bytes sp" "super_ok sp" "sp_magic sp = SFS_MAGIC" "sp_volname sp ! 31 = 0"
    and n: "n = sp_nblocks sp" "n \<le> 2 ^ 23" "2 + SFS_BITBLOCKS n \<le> n" and mem: "sfs_kmalloc r = []"
  shows "\<exists>d. sfs_domount env 512 r = Ok () (r\<lparr>sfs_device := d, sfs_vnodes := [], sfs_super := sp,
      sfs_freemap := \<lparr>nbits = SFS_BITMAPSIZE n, bm_v = disk_map (blk (sfs_device r)) (SFS_BITBLOCKS n)\<rparr>,
      sfs_superdirty := False, sfs_freemapdirty := False\<rparr>) \<and> dev_ok d \<and> nblk d = nblk (sfs_device r) \<and>
      blk d = blk (sfs_device r)"
proof -
  let ?m = "SFS_BITBLOCKS n"
  define r1 where "r1 = r\<lparr>vfs_biglock_depth := Suc (vfs_biglock_depth r), sfs_vnodes := []\<rparr>"
  from sfs_rblock_dev [OF env, of r1 0 zeros] dev n(3) obtain d1 where
    d1: "sfs_rblock env zeros SFS_SB_LOCATION r1 = Ok (super_bytes sp) (r1\<lparr>sfs_device := d1\<rparr>)" "dev_ok d1"
      "nblk d1 = nblk (sfs_device r)" "blk d1 = blk (sfs_device r)"
    by (auto simp: r1_def sp(1) SFS_SB_LOCATION_def)
  have vol: "sp\<lparr>sp_volname := (sp_volname sp)[31 := 0]\<rparr> = sp"
    using list_update_id [of "sp_volname sp" 31] sp(4) by simp
  define r2 where "r2 = r1\<lparr>sfs_device := d1, sfs_super := sp,
    sfs_freemap := \<lparr>nbits = SFS_BITMAPSIZE n, bm_v = replicate (512 * ?m) 0\<rparr>\<rparr>"
  have r2: "sfs_device r2 = d1" "0 < vfs_biglock_depth r2" "length (bm_v (sfs_freemap r2)) = 512 * ?m" "sfs_super r2 = sp"
    by (simp_all add: r2_def r1_def)
  from sfs_mapio_read_loop [OF env _ _ r2(2,3), of 0] d1 dev(2) n(3) obtain d2 where
    d2: "kforeach (sfs_mapio_block env UIO_READ) [0..<?m] r2 = Ok () (r2\<lparr>sfs_device := d2,
        sfs_freemap := (sfs_freemap r2)\<lparr>bm_v := disk_map (blk (sfs_device r)) ?m\<rparr>\<rparr>)" "dev_ok d2"
      "nblk d2 = nblk (sfs_device r)" "blk d2 = blk (sfs_device r)"
    by (auto simp: r2(1) disk_map_def)
  then have io: "sfs_mapio env UIO_READ r2 = Ok () (r2\<lparr>sfs_device := d2,
      sfs_freemap := \<lparr>nbits = SFS_BITMAPSIZE n, bm_v = disk_map (blk (sfs_device r)) ?m\<rparr>\<rparr>)"
    by (simp add: sfs_mapio_def kbind_kget r2(4) n(1) [symmetric]) (simp add: r2_def)
  have bc: "bitmap_create True True (SFS_BITMAPSIZE n) = (kret (Some \<lparr>nbits = SFS_BITMAPSIZE n, bm_v = replicate (512 * ?m) 0\<rparr>)
      :: ('d sfs_fs, bitmap option) kfun)"
    by (rule bitmap_create_map [OF n(2)])
  have alloc: "sfs_kmalloc t = [] \<Longrightarrow> sfs_kmalloc_try t = Ok True t" for t :: "'d sfs_fs"
    by (simp add: sfs_kmalloc_try_def)
  show ?thesis
    using d1(1) io mem d2(2-4) unfolding sfs_domount_def
    by (intro exI [of _ d2], subst biglocked_Ok [where n = "vfs_biglock_depth r"])
      (simp_all add: kfun_defs alloc SFS_BLOCKSIZE_def r1_def super_roundtrip sp(2,3) SFS_VOLNAME_SIZE_def vol
        n(1) [symmetric] bc r2_def, simp_all)
qed

end

section \<open>Example\<close>

text \<open>The volume of eight blocks with a free map of one block, where everything is dirty.\<close>

definition sample_mounted :: "(nat \<Rightarrow> u8 list) lhd_softc sfs_fs" where
  "sample_mounted = sample_vol\<lparr>sfs_superdirty := True, sfs_freemap := \<lparr>nbits = 4096, bm_v = 0x3f # replicate 511 0\<rparr>,
     sfs_freemapdirty := True, sfs_heap := [1 \<mapsto> sample_sv\<lparr>sv_dirty := True\<rparr>]\<rparr>"

lemma sample_mounted_ok: "sfs_mounted lhd_blk d_blocks (lhd_ready (\<lambda>d. d)) sample_mounted"
proof -
  have b: "SFS_BITBLOCKS 8 = 1" "SFS_BITMAPSIZE 8 = 4096" by (simp_all add: bitblocks)
  have "super_ok (sample_super\<lparr>sp_nblocks := 8\<rparr>)"
    by (simp add: super_ok_def sample_super_def SFS_MAGIC_def list_all_replicate)
  moreover have "inode_ok (sv_i sample_sv)" by (simp add: inode_ok_def sample_sv_def list_all_replicate)
  ultimately show ?thesis
    by (simp add: sfs_mounted_def sample_mounted_def sample_vol_def sample_lhd_def lhd_ready_def b vnode_ok_def sfs_meta_def)
      (simp add: sample_sv_def sample_super_def)
qed

section \<open>Properties\<close>

text \<open>
  C15: sync and mount. On a disk without errors \<^verbatim>\<open>sfs_sync\<close> on a mounted volume succeeds; every
  loaded inode that was dirty can be read back from its block and is no longer dirty, and a block that is
  neither the superblock, nor in the free map, nor the inode of a dirty vnode is as before. Mounting
  that device afresh then succeeds, whatever the new structure held before, and recovers the superblock
  and the free map of the volume, with no vnode loaded and nothing dirty.
\<close>

theorem sfs_sync_mount:
  assumes "block_device d_io blk nblk dev_ok" "env_dio env = d_io" "sfs_mounted blk nblk dev_ok s"
  shows "\<exists>s'. sfs_sync env s = Ok () s' \<and>
    (\<forall>v sv. v \<in> set (sfs_vnodes s) \<and> sfs_heap s v = Some sv \<longrightarrow> sfs_heap s' v = Some (sv\<lparr>sv_dirty := False\<rparr>) \<and>
       (sv_dirty sv \<longrightarrow> bytes_inode (blk (sfs_device s') (sv_ino sv)) = sv_i sv)) \<and>
    (\<forall>b. b \<notin> sfs_meta (sfs_super s) \<and>
       (\<forall>v sv. v \<in> set (sfs_vnodes s) \<and> sfs_heap s v = Some sv \<and> sv_dirty sv \<longrightarrow> sv_ino sv \<noteq> b) \<longrightarrow>
       blk (sfs_device s') b = blk (sfs_device s) b) \<and>
    (\<forall>r. sfs_device r = sfs_device s' \<and> sfs_kmalloc r = [] \<longrightarrow>
       (\<exists>m. sfs_domount env SFS_BLOCKSIZE r = Ok () m \<and> sfs_super m = sfs_super s \<and> sfs_freemap m = sfs_freemap s \<and>
          sfs_vnodes m = [] \<and> \<not> sfs_superdirty m \<and> \<not> sfs_freemapdirty m \<and> blk (sfs_device m) = blk (sfs_device s')))"
proof -
  define n where "n = sp_nblocks (sfs_super s)"
  from block_device.sfs_sync_ok [OF assms refl] obtain d B where
    d: "sfs_sync env s = Ok () (s\<lparr>sfs_device := d, sfs_heap := cleaned (set (sfs_vnodes s)) (sfs_heap s),
        sfs_freemapdirty := False, sfs_superdirty := False\<rparr>)" "dev_ok d" "nblk d = nblk (sfs_device s)"
      "disk_map (blk d) (SFS_BITBLOCKS n) = bm_v (sfs_freemap s)" "blk d 0 = super_bytes (sfs_super s)"
      "inodes_synced s (sfs_vnodes s) (blk (sfs_device s)) B" "\<And>b. b \<notin> sfs_meta (sfs_super s) \<Longrightarrow> blk d b = B b"
    unfolding n_def by blast
  have fm: "\<lparr>nbits = SFS_BITMAPSIZE n, bm_v = bm_v (sfs_freemap s)\<rparr> = sfs_freemap s"
    using assms(3) by (simp add: sfs_mounted_def n_def)
  have mount: "\<exists>m. sfs_domount env SFS_BLOCKSIZE r = Ok () m \<and> sfs_super m = sfs_super s \<and> sfs_freemap m = sfs_freemap s \<and>
      sfs_vnodes m = [] \<and> \<not> sfs_superdirty m \<and> \<not> sfs_freemapdirty m \<and> blk (sfs_device m) = blk d"
    if r: "sfs_device r = d" "sfs_kmalloc r = []" for r
  proof -
    from block_device.sfs_domount_ok [OF assms(1,2) _ _ _ _ _ _ n_def _ _ r(2)] assms(3) obtain d' where
      "sfs_domount env 512 r = Ok () (r\<lparr>sfs_device := d', sfs_vnodes := [], sfs_super := sfs_super s,
        sfs_freemap := sfs_freemap s, sfs_superdirty := False, sfs_freemapdirty := False\<rparr>)" "blk d' = blk d"
      unfolding r(1) d(4) fm sfs_mounted_def n_def [symmetric] using d(2,3,5) by metis
    then show ?thesis by (simp add: SFS_BLOCKSIZE_def)
  qed
  have vn: "sv_ino sv \<notin> sfs_meta (sfs_super s) \<and> inode_ok (sv_i sv)" if "v \<in> set (sfs_vnodes s)" "sfs_heap s v = Some sv" for v sv
    using assms(3) that by (auto simp: sfs_mounted_def list_all_iff vnode_ok_def)
  have "bytes_inode (blk d (sv_ino sv)) = sv_i sv"
    if "v \<in> set (sfs_vnodes s)" "sfs_heap s v = Some sv" "sv_dirty sv" for v sv
  proof -
    have "B (sv_ino sv) = inode_bytes (sv_i sv)" using d(6) that by (auto simp: inodes_synced_def ino_of_def)
    then show ?thesis using d(7) vn [OF that(1,2)] by (simp add: inode_roundtrip)
  qed
  moreover have "blk d b = blk (sfs_device s) b" if b: "b \<notin> sfs_meta (sfs_super s)"
      "\<And>v sv. v \<in> set (sfs_vnodes s) \<Longrightarrow> sfs_heap s v = Some sv \<Longrightarrow> sv_dirty sv \<Longrightarrow> sv_ino sv \<noteq> b" for b
  proof -
    have "ino_of s v \<noteq> b" if v: "v \<in> set (sfs_vnodes s)" "sv_dirty (the (sfs_heap s v))" for v
    proof -
      have "list_all (vnode_ok s) (sfs_vnodes s)" using assms(3) by (simp add: sfs_mounted_def)
      then obtain sv where "sfs_heap s v = Some sv" using v(1) by (auto simp: list_all_iff vnode_ok_def)
      then show ?thesis using b(2) v by (simp add: ino_of_def)
    qed
    then show ?thesis using d(6) d(7) [OF b(1)] by (simp add: inodes_synced_def)
  qed
  ultimately show ?thesis using mount d(1) by (auto simp: cleaned_def)
qed

theorem sfs_sync_mount_witness:
  "\<exists>s'. sfs_sync sample_env sample_mounted = Ok () s' \<and> bytes_inode (lh_disk (sfs_device s') 3) = sv_i sample_sv \<and>
    (\<exists>m. sfs_domount sample_env SFS_BLOCKSIZE (sample_vol\<lparr>sfs_device := sfs_device s'\<rparr>) = Ok () m \<and>
       sfs_freemap m = \<lparr>nbits = 4096, bm_v = 0x3f # replicate 511 0\<rparr>)"
proof -
  have h: "sfs_heap sample_mounted 1 = Some (sample_sv\<lparr>sv_dirty := True\<rparr>)" "1 \<in> set (sfs_vnodes sample_mounted)"
      "sfs_kmalloc sample_vol = []" "sfs_freemap sample_mounted = \<lparr>nbits = 4096, bm_v = 0x3f # replicate 511 0\<rparr>"
      "sv_ino sample_sv = 3"
    by (simp_all add: sample_mounted_def sample_vol_def sample_sv_def)
  from sfs_sync_mount [OF mem.lhd.block_device_axioms sample_env_dio sample_mounted_ok] obtain s' where
    s': "sfs_sync sample_env sample_mounted = Ok () s'"
      "\<And>v sv. v \<in> set (sfs_vnodes sample_mounted) \<Longrightarrow> sfs_heap sample_mounted v = Some sv \<Longrightarrow> sv_dirty sv \<Longrightarrow>
         bytes_inode (lh_disk (sfs_device s') (sv_ino sv)) = sv_i sv"
      "\<And>r. sfs_device r = sfs_device s' \<Longrightarrow> sfs_kmalloc r = [] \<Longrightarrow>
         \<exists>m. sfs_domount sample_env SFS_BLOCKSIZE r = Ok () m \<and> sfs_freemap m = sfs_freemap sample_mounted"
    by blast
  show ?thesis
    using s'(1) s'(2) [OF h(2,1)] s'(3) [of "sample_vol\<lparr>sfs_device := sfs_device s'\<rparr>"] by (simp add: h(3-5))
qed

end
