(* ===== verification/Sfs_Trunc.thy ===== *)
theory Sfs_Trunc
  imports Sfs_Vnode
begin

text \<open>
  Truncation of SFS files (\<^verbatim>\<open>sfs_truncate\<close> of \<^verbatim>\<open>fs/sfs/sfs_vnode.c\<close>, modelled in \<open>Sfs_Vnode\<close>): which blocks
  stay mapped, and that exactly the blocks that are no longer mapped are freed.
\<close>

section \<open>Truncation frees blocks\<close>

text \<open>
  The entries of a table of block numbers from index \<open>j\<close> on that satisfy \<open>P\<close> are freed and cleared.
\<close>

definition freed :: "(nat \<Rightarrow> bool) \<Rightarrow> nat list \<Rightarrow> nat \<Rightarrow> nat set" where
  "freed P xs j = {xs ! k | k. j \<le> k \<and> k < length xs \<and> P k \<and> xs ! k \<noteq> 0}"

definition cleared :: "(nat \<Rightarrow> bool) \<Rightarrow> nat list \<Rightarrow> nat \<Rightarrow> nat list" where
  "cleared P xs j = map (\<lambda>k. if j \<le> k \<and> P k then 0 else xs ! k) [0..<length xs]"

definition freeable :: "'d sfs_fs \<Rightarrow> nat list \<Rightarrow> nat \<Rightarrow> bool" where
  "freeable s xs j \<longleftrightarrow> (\<forall>k < length xs. j \<le> k \<longrightarrow> xs ! k \<noteq> 0 \<longrightarrow> xs ! k \<in> sfs_used s \<inter> {..<sp_nblocks (sfs_super s)}) \<and>
     (\<forall>k < length xs. \<forall>k' < length xs. j \<le> k \<longrightarrow> j \<le> k' \<longrightarrow> xs ! k = xs ! k' \<longrightarrow> xs ! k \<noteq> 0 \<longrightarrow> k = k')"

lemma length_cleared [simp]: "length (cleared P xs j) = length xs"
  by (simp add: cleared_def)

lemma nth_cleared [simp]: "k < length xs \<Longrightarrow> cleared P xs j ! k = (if j \<le> k \<and> P k then 0 else xs ! k)"
  by (simp add: cleared_def)

lemma freed_end: "length xs \<le> j \<Longrightarrow> freed P xs j = {}" "length xs \<le> j \<Longrightarrow> cleared P xs j = xs"
  by (auto simp: freed_def cleared_def intro: nth_equalityI)

lemma freed_hit:
  assumes "j < length xs" "P j" "xs ! j \<noteq> 0"
  shows "freed P xs j = insert (xs ! j) (freed P (xs[j := 0]) (Suc j))" "cleared P xs j = cleared P (xs[j := 0]) (Suc j)"
proof -
  show "freed P xs j = insert (xs ! j) (freed P (xs[j := 0]) (Suc j))"
  proof (intro set_eqI iffI)
    fix b assume "b \<in> freed P xs j"
    then obtain k where k: "b = xs ! k" "j \<le> k" "k < length xs" "P k" "xs ! k \<noteq> 0" by (auto simp: freed_def)
    then show "b \<in> insert (xs ! j) (freed P (xs[j := 0]) (Suc j))"
      by (cases "k = j") (auto simp: freed_def intro!: exI [of _ k])
  next
    fix b assume "b \<in> insert (xs ! j) (freed P (xs[j := 0]) (Suc j))"
    then show "b \<in> freed P xs j" using assms by (auto simp: freed_def)
  qed
  show "cleared P xs j = cleared P (xs[j := 0]) (Suc j)"
    using assms by (auto intro!: nth_equalityI simp: nth_list_update)
qed

lemma freed_miss:
  assumes "j < length xs" "\<not> (P j \<and> xs ! j \<noteq> 0)"
  shows "freed P xs j = freed P xs (Suc j)" "cleared P xs j = cleared P xs (Suc j)"
proof -
  have "j \<le> k \<and> k < length xs \<and> P k \<and> xs ! k \<noteq> 0 \<longleftrightarrow> Suc j \<le> k \<and> k < length xs \<and> P k \<and> xs ! k \<noteq> 0" for k
    using assms by (cases "k = j") auto
  then show "freed P xs j = freed P xs (Suc j)" by (simp only: freed_def)
  have "(if j \<le> k \<and> P k then 0 else xs ! k) = (if Suc j \<le> k \<and> P k then 0 else xs ! k)" for k
    using assms by (cases "k = j") auto
  then show "cleared P xs j = cleared P xs (Suc j)" by (simp only: cleared_def)
qed

lemma sfs_bfree_ok:
  assumes "sfs_inv nblk dev_ok s" "b \<in> sfs_used s" "b < sp_nblocks (sfs_super s)" "b \<noteq> 0"
  shows "\<exists>m. sfs_bfree b s = Ok () (s\<lparr>sfs_freemap := m, sfs_freemapdirty := True\<rparr>) \<and> bitmap_set m = sfs_used s - {b} \<and>
    nbits m = nbits (sfs_freemap s) \<and> sfs_inv nblk dev_ok (s\<lparr>sfs_freemap := m, sfs_freemapdirty := True\<rparr>)"
proof -
  have "b \<in> bitmap_set (sfs_freemap s)" using assms(2) by (simp add: sfs_used_def)
  then obtain m where m: "bitmap_unmark b (sfs_freemap s) = Ok () m" "bitmap_inv m" "nbits m = nbits (sfs_freemap s)"
      "bitmap_set m = sfs_used s - {b}"
    using bitmap_unmark_eq [OF sfs_invD(3) [OF assms(1)], of b] by (auto simp: sfs_used_def)
  then show ?thesis
    using assms by (intro exI [of _ m]) (auto simp: sfs_bfree_def kfun_defs on_freemap_def sfs_inv_def)
qed

lemma freeable_step:
  assumes "freeable s xs j" "j < length xs"
  shows "freeable s xs (Suc j)"
    "sfs_used s' = sfs_used s - {xs ! j} \<Longrightarrow> sfs_super s' = sfs_super s \<Longrightarrow> xs ! j \<noteq> 0 \<Longrightarrow> freeable s' (xs[j := 0]) (Suc j)"
proof -
  have A: "xs ! k \<in> sfs_used s \<inter> {..<sp_nblocks (sfs_super s)}" if "k < length xs" "j \<le> k" "xs ! k \<noteq> 0" for k
    using assms(1) that by (simp add: freeable_def)
  have D: "k = k'" if "k < length xs" "k' < length xs" "j \<le> k" "j \<le> k'" "xs ! k = xs ! k'" "xs ! k \<noteq> 0" for k k'
    using assms(1) that unfolding freeable_def by blast
  show "freeable s xs (Suc j)" unfolding freeable_def using A D Suc_leD by blast
  assume s': "sfs_used s' = sfs_used s - {xs ! j}" "sfs_super s' = sfs_super s" "xs ! j \<noteq> 0"
  have "xs ! k \<noteq> xs ! j" if "k < length xs" "Suc j \<le> k" for k
    using D [of k j] that assms(2) s'(3) by auto
  then show "freeable s' (xs[j := 0]) (Suc j)"
    unfolding freeable_def s'(1,2) using A D Suc_leD by auto
qed

lemma sfs_trunc_direct_loop:
  assumes "sfs_inv nblk dev_ok s" "sfs_heap s v = Some sv" "length (sfi_direct (sv_i sv)) = 15" "j \<le> 15"
    "freeable s (sfi_direct (sv_i sv)) j"
  shows "\<exists>m f d. kforeach (sfs_trunc_direct v n) [j..<15] s = Ok () (s\<lparr>sfs_freemap := m, sfs_freemapdirty := f,
        sfs_heap := (sfs_heap s)(v := Some (sv\<lparr>sv_i := (sv_i sv)\<lparr>sfi_direct := cleared (\<lambda>k. n \<le> k) (sfi_direct (sv_i sv)) j\<rparr>,
          sv_dirty := d\<rparr>))\<rparr>) \<and>
      sfs_inv nblk dev_ok (s\<lparr>sfs_freemap := m, sfs_freemapdirty := f\<rparr>) \<and>
      bitmap_set m = sfs_used s - freed (\<lambda>k. n \<le> k) (sfi_direct (sv_i sv)) j"
  using assms
proof (induction "15 - j" arbitrary: j s sv)
  case 0
  have e: "(sfs_heap s)(v := Some sv) = sfs_heap s" using "0.prems"(2) by (simp add: fun_upd_idem_iff)
  from 0 have "cleared (\<lambda>k. n \<le> k) (sfi_direct (sv_i sv)) j = sfi_direct (sv_i sv)" "freed (\<lambda>k. n \<le> k) (sfi_direct (sv_i sv)) j = {}"
    by (simp_all add: freed_end)
  then show ?case
    using 0 e by (intro exI [of _ "sfs_freemap s"] exI [of _ "sfs_freemapdirty s"] exI [of _ "sv_dirty sv"])
      (simp add: kret_def sfs_used_def)
next
  case (Suc r)
  let ?ds = "sfi_direct (sv_i sv)"
  have j: "j < 15" "r = 15 - Suc j" "[j..<15] = j # [Suc j..<15]" using Suc.hyps(2) by (simp_all add: upt_conv_Cons)
  show ?case
  proof (cases "n \<le> j \<and> ?ds ! j \<noteq> 0")
    case True
    have "?ds ! j \<in> sfs_used s" "?ds ! j < sp_nblocks (sfs_super s)"
      using Suc.prems(3,5) j(1) True by (auto simp: freeable_def)
    from sfs_bfree_ok [OF Suc.prems(1) this] True obtain m where
      m: "sfs_bfree (?ds ! j) s = Ok () (s\<lparr>sfs_freemap := m, sfs_freemapdirty := True\<rparr>)" "bitmap_set m = sfs_used s - {?ds ! j}"
        "sfs_inv nblk dev_ok (s\<lparr>sfs_freemap := m, sfs_freemapdirty := True\<rparr>)" by auto
    define sv1 where "sv1 = sv\<lparr>sv_i := (sv_i sv)\<lparr>sfi_direct := ?ds[j := 0]\<rparr>, sv_dirty := True\<rparr>"
    define s1 where "s1 = s\<lparr>sfs_freemap := m, sfs_freemapdirty := True, sfs_heap := (sfs_heap s)(v := Some sv1)\<rparr>"
    have step: "sfs_trunc_direct v n j s = Ok () s1"
      using True m(1) Suc.prems(2)
      by (simp add: sfs_trunc_direct_def kfun_defs get_sv_def mod_sv_def put_sv_def s1_def sv1_def)
    have "freeable s1 (?ds[j := 0]) (Suc j)"
      using Suc.prems(3) j(1) True m(2) by (intro freeable_step(2) [OF Suc.prems(5)]) (simp_all add: s1_def)
    from Suc.hyps(1) [OF j(2), of s1 sv1] this m(3) Suc.prems(3) j(1) obtain m' f d where
      r: "kforeach (sfs_trunc_direct v n) [Suc j..<15] s1 = Ok () (s1\<lparr>sfs_freemap := m', sfs_freemapdirty := f,
            sfs_heap := (sfs_heap s1)(v := Some (sv1\<lparr>sv_i := (sv_i sv1)\<lparr>sfi_direct := cleared (\<lambda>k. n \<le> k) (?ds[j := 0]) (Suc j)\<rparr>,
            sv_dirty := d\<rparr>))\<rparr>)" "sfs_inv nblk dev_ok (s1\<lparr>sfs_freemap := m', sfs_freemapdirty := f\<rparr>)"
          "bitmap_set m' = sfs_used s1 - freed (\<lambda>k. n \<le> k) (?ds[j := 0]) (Suc j)"
      by (auto simp: s1_def sv1_def)
    have inv: "sfs_inv nblk dev_ok (s\<lparr>sfs_freemap := m', sfs_freemapdirty := f\<rparr>)"
      using r(2) by (simp add: sfs_inv_def sfs_used_def s1_def)
    have hit: "freed (\<lambda>k. n \<le> k) ?ds j = insert (?ds ! j) (freed (\<lambda>k. n \<le> k) (?ds[j := 0]) (Suc j))"
        "cleared (\<lambda>k. n \<le> k) ?ds j = cleared (\<lambda>k. n \<le> k) (?ds[j := 0]) (Suc j)"
      using freed_hit [of j ?ds "\<lambda>k. n \<le> k"] True Suc.prems(3) j(1) by simp_all
    have "bitmap_set m' = sfs_used s - freed (\<lambda>k. n \<le> k) ?ds j"
      using r(3) m(2) hit(1) by (simp add: s1_def Diff_insert2 [symmetric])
    moreover have "kforeach (sfs_trunc_direct v n) [j..<15] s = kforeach (sfs_trunc_direct v n) [Suc j..<15] s1"
      using step j(3) by (simp add: kbind_def)
    ultimately show ?thesis
      using r(1) inv unfolding hit(2) by (intro exI [of _ m'] exI [of _ f] exI [of _ d]) (simp add: s1_def sv1_def)
  next
    case False
    then have step: "sfs_trunc_direct v n j s = Ok () s"
      using Suc.prems(2) by (auto simp: sfs_trunc_direct_def kfun_defs get_sv_def)
    show ?thesis
      using Suc.hyps(1) [OF j(2) Suc.prems(1-3) _ freeable_step(1) [OF Suc.prems(5)]] Suc.prems(3) j(1,3) step
        freed_miss [of j ?ds "\<lambda>k. n \<le> k"] False by (simp add: kbind_def)
  qed
qed

lemma sfs_trunc_ids_loop:
  assumes "sfs_inv nblk dev_ok s" "length ids = 128" "j \<le> 128" "freeable s ids j"
  shows "\<exists>m f. sfs_trunc_ids n [j..<128] ids hasnonzero iddirty s =
        Ok (cleared (\<lambda>k. n < 15 + k) ids j, hasnonzero \<or> (\<exists>k < 128. j \<le> k \<and> k + 15 \<le> n \<and> ids ! k \<noteq> 0),
            iddirty \<or> freed (\<lambda>k. n < 15 + k) ids j \<noteq> {})
          (s\<lparr>sfs_freemap := m, sfs_freemapdirty := f\<rparr>) \<and>
      sfs_inv nblk dev_ok (s\<lparr>sfs_freemap := m, sfs_freemapdirty := f\<rparr>) \<and>
      bitmap_set m = sfs_used s - freed (\<lambda>k. n < 15 + k) ids j"
  using assms
proof (induction "128 - j" arbitrary: j s ids hasnonzero iddirty)
  case 0
  then show ?case
    by (intro exI [of _ "sfs_freemap s"] exI [of _ "sfs_freemapdirty s"]) (auto simp: kret_def sfs_used_def freed_end)
next
  case (Suc r)
  have j: "j < 128" "r = 128 - Suc j" "[j..<128] = j # [Suc j..<128]" using Suc.hyps(2) by (simp_all add: upt_conv_Cons)
  have ex: "(\<exists>k < 128. j \<le> k \<and> Q k) \<longleftrightarrow> Q j \<or> (\<exists>k < 128. Suc j \<le> k \<and> Q k)" for Q :: "nat \<Rightarrow> bool"
    using j(1) by (metis Suc_leD Suc_leI le_neq_implies_less order_refl)
  show ?case
  proof (cases "n < 15 + j \<and> ids ! j \<noteq> 0")
    case True
    have "ids ! j \<in> sfs_used s" "ids ! j < sp_nblocks (sfs_super s)"
      using Suc.prems(2,4) j(1) True by (auto simp: freeable_def)
    from sfs_bfree_ok [OF Suc.prems(1) this] True obtain m where
      m: "sfs_bfree (ids ! j) s = Ok () (s\<lparr>sfs_freemap := m, sfs_freemapdirty := True\<rparr>)" "bitmap_set m = sfs_used s - {ids ! j}"
        "sfs_inv nblk dev_ok (s\<lparr>sfs_freemap := m, sfs_freemapdirty := True\<rparr>)" by auto
    define s1 where "s1 = s\<lparr>sfs_freemap := m, sfs_freemapdirty := True\<rparr>"
    have "freeable s1 (ids[j := 0]) (Suc j)"
      using Suc.prems(2) j(1) True m(2) by (intro freeable_step(2) [OF Suc.prems(4)]) (simp_all add: s1_def)
    from Suc.hyps(1) [OF j(2), of s1 "ids[j := 0]" hasnonzero True] this m(3) Suc.prems(2) j(1) obtain m' f where
      r: "sfs_trunc_ids n [Suc j..<128] (ids[j := 0]) hasnonzero True s1 =
            Ok (cleared (\<lambda>k. n < 15 + k) (ids[j := 0]) (Suc j),
              hasnonzero \<or> (\<exists>k < 128. Suc j \<le> k \<and> k + 15 \<le> n \<and> ids[j := 0] ! k \<noteq> 0), True)
            (s1\<lparr>sfs_freemap := m', sfs_freemapdirty := f\<rparr>)" "sfs_inv nblk dev_ok (s1\<lparr>sfs_freemap := m', sfs_freemapdirty := f\<rparr>)"
          "bitmap_set m' = sfs_used s1 - freed (\<lambda>k. n < 15 + k) (ids[j := 0]) (Suc j)"
      by (auto simp: s1_def)
    have nz: "(\<exists>k < 128. Suc j \<le> k \<and> k + 15 \<le> n \<and> ids[j := 0] ! k \<noteq> 0) \<longleftrightarrow> (\<exists>k < 128. j \<le> k \<and> k + 15 \<le> n \<and> ids ! k \<noteq> 0)"
      unfolding ex [of "\<lambda>k. k + 15 \<le> n \<and> ids ! k \<noteq> 0"] using True by auto
    have run: "sfs_trunc_ids n [j..<128] ids hasnonzero iddirty s = sfs_trunc_ids n [Suc j..<128] (ids[j := 0]) hasnonzero True s1"
      using True m(1) j(3) by (simp add: kbind_def s1_def SFS_NDIRECT_def)
    show ?thesis
      unfolding run r(1) nz using r(2,3) m(2) freed_hit [of j ids "\<lambda>k. n < 15 + k"] True Suc.prems(2) j(1)
      by (intro exI [of _ m'] exI [of _ f]) (auto simp: s1_def)
  next
    case False
    have run: "sfs_trunc_ids n [j..<128] ids hasnonzero iddirty s =
        sfs_trunc_ids n [Suc j..<128] ids (hasnonzero \<or> ids ! j \<noteq> 0) iddirty s"
      using False j(3) by (auto simp: SFS_NDIRECT_def)
    have nz: "(hasnonzero \<or> ids ! j \<noteq> 0) \<or> (\<exists>k < 128. Suc j \<le> k \<and> k + 15 \<le> n \<and> ids ! k \<noteq> 0) \<longleftrightarrow>
        hasnonzero \<or> (\<exists>k < 128. j \<le> k \<and> k + 15 \<le> n \<and> ids ! k \<noteq> 0)"
      unfolding ex [of "\<lambda>k. k + 15 \<le> n \<and> ids ! k \<noteq> 0"] using False by auto
    show ?thesis
      using Suc.hyps(1) [OF j(2) Suc.prems(1,2) _ freeable_step(1) [OF Suc.prems(4)], of "hasnonzero \<or> ids ! j \<noteq> 0" iddirty]
        Suc.prems(2) j(1) freed_miss [of j ids "\<lambda>k. n < 15 + k"] False unfolding run nz by simp
  qed
qed

text \<open>
  The file blocks that stay mapped when a file is cut to \<open>n\<close> blocks. The direct blocks are compared
  correctly; in the indirect block one block more is kept, and nothing is freed when \<open>n\<close> is the last
  block or beyond.
\<close>

definition trunc_kept :: "nat \<Rightarrow> nat \<Rightarrow> bool" where
  "trunc_kept n fb \<longleftrightarrow> (if fb < 15 then fb < n else fb \<le> n \<or> 142 \<le> n)"

definition dropped :: "(nat \<Rightarrow> u8 list) \<Rightarrow> sfs_inode \<Rightarrow> (nat \<Rightarrow> bool) \<Rightarrow> nat set \<Rightarrow> nat set" where
  "dropped B i K S = {fmap B i fb | fb. fb \<in> S \<and> \<not> K fb} - {0}"

lemma dropped_direct:
  assumes "length (sfi_direct i) = 15"
  shows "freed (\<lambda>k. n \<le> k) (sfi_direct i) 0 = dropped B i (trunc_kept n) {..<15}"
  using assms by (fastforce simp: freed_def dropped_def trunc_kept_def fmap_def)

lemma dropped_indirect:
  assumes "sfi_indirect i \<noteq> 0" "n < 142"
  shows "freed (\<lambda>k. n < 15 + k) (get32s 128 (B (sfi_indirect i))) 0 = dropped B i (trunc_kept n) {15..<143}"
proof -
  have e: "get32s 128 (B (sfi_indirect i)) ! k = fmap B i (15 + k)" if "k < 128" for k
    using that assms(1) by (simp add: fmap_def)
  have k: "\<not> trunc_kept n (15 + k) \<longleftrightarrow> n < 15 + k" for k using assms(2) by (auto simp: trunc_kept_def)
  show ?thesis
  proof (intro set_eqI iffI)
    fix b assume "b \<in> freed (\<lambda>k. n < 15 + k) (get32s 128 (B (sfi_indirect i))) 0"
    then obtain j where "j < 128" "n < 15 + j" "b = fmap B i (15 + j)" "b \<noteq> 0" using e by (auto simp: freed_def)
    then show "b \<in> dropped B i (trunc_kept n) {15..<143}" using k [of j] by (auto simp: dropped_def)
  next
    fix b assume "b \<in> dropped B i (trunc_kept n) {15..<143}"
    then obtain fb where fb: "15 \<le> fb" "fb < 143" "\<not> trunc_kept n fb" "b = fmap B i fb" "b \<noteq> 0" by (auto simp: dropped_def)
    then obtain j where "fb = 15 + j" "j < 128" using le_Suc_ex [of 15 fb] by auto
    then show "b \<in> freed (\<lambda>k. n < 15 + k) (get32s 128 (B (sfi_indirect i))) 0"
      using fb k [of j] e [of j] by (auto simp: freed_def intro!: exI [of _ j])
  qed
qed

text \<open>Dropping mappings from a sound file and freeing exactly their blocks gives a sound file.\<close>

lemma file_ok_shrink:
  assumes ok: "file_ok U N B i" and i': "inode_ok i'" "sfi_indirect i' = sfi_indirect i \<or> sfi_indirect i' = 0"
    and f: "\<And>fb. fb < 143 \<Longrightarrow> fmap B' i' fb = (if K fb then fmap B i fb else 0)"
    and U': "U' = U - (dropped B i K {..<143} \<union> (if sfi_indirect i' = sfi_indirect i then {} else {sfi_indirect i}))"
  shows "file_ok U' N B' i' \<and> U' = (U - file_blocks B i) \<union> file_blocks B' i'"
proof -
  let ?R = "dropped B i K {..<143} \<union> (if sfi_indirect i' = sfi_indirect i then {} else {sfi_indirect i})"
  note D = file_okD [OF ok]
  have F': "file_blocks B' i' = file_blocks B i - ?R"
  proof (intro set_eqI iffI)
    fix b assume b: "b \<in> file_blocks B' i'"
    then have "b \<noteq> 0" by (simp add: file_blocks_def)
    show "b \<in> file_blocks B i - ?R"
    proof (cases "b = sfi_indirect i'")
      case True
      then have "b = sfi_indirect i" "sfi_indirect i' = sfi_indirect i" using i'(2) \<open>b \<noteq> 0\<close> by auto
      then show ?thesis using D(4) \<open>b \<noteq> 0\<close> by (force simp: file_blocks_def dropped_def)
    next
      case False
      with b obtain fb where fb: "fb < 143" "fmap B' i' fb = b" by (auto simp: file_blocks_def)
      then have "K fb" "b = fmap B i fb" using f [OF fb(1)] \<open>b \<noteq> 0\<close> by (auto split: if_splits)
      then show ?thesis
        using fb(1) D(4) [OF fb(1)] D(5) [OF fb(1)] \<open>b \<noteq> 0\<close> by (auto simp: file_blocks_def dropped_def)
    qed
  next
    fix b assume b: "b \<in> file_blocks B i - ?R"
    then have "b \<noteq> 0" by (simp add: file_blocks_def)
    show "b \<in> file_blocks B' i'"
    proof (cases "b = sfi_indirect i")
      case True
      then show ?thesis using b by (auto simp: file_blocks_def split: if_splits)
    next
      case False
      with b obtain fb where fb: "fb < 143" "fmap B i fb = b" by (auto simp: file_blocks_def)
      then have "K fb" using b \<open>b \<noteq> 0\<close> by (auto simp: dropped_def)
      then show ?thesis using file_blocksI(1) [OF fb(1), of B' i'] f [OF fb(1)] fb(2) \<open>b \<noteq> 0\<close> by simp
    qed
  qed
  have "?R - {0} \<subseteq> file_blocks B i" by (auto simp: dropped_def file_blocks_def)
  moreover have "file_blocks B i \<subseteq> U \<inter> {..<N}" using D(2,3) by blast
  moreover have "0 \<notin> ?R" using i'(2) by (auto simp: dropped_def)
  ultimately have "U' = (U - file_blocks B i) \<union> file_blocks B' i'" "file_blocks B' i' \<subseteq> U' \<inter> {..<N}"
    unfolding F' U' by blast+
  moreover have "file_ok U' N B' i'"
  proof (rule file_okI [OF i'(1) \<open>file_blocks B' i' \<subseteq> U' \<inter> {..<N}\<close>])
    show "fmap B' i' fb \<noteq> sfi_indirect i'" if "fb < 143" "fmap B' i' fb \<noteq> 0" for fb
      using f [OF that(1)] D(4) [OF that(1)] i'(2) that(2) by (auto split: if_splits)
    show "fb = fb'" if "fb < 143" "fb' < 143" "fmap B' i' fb = fmap B' i' fb'" "fmap B' i' fb \<noteq> 0" for fb fb'
    proof -
      have "K fb" using f [OF that(1)] that(4) by (cases "K fb") simp_all
      moreover have "K fb'" using f [OF that(2)] that(3,4) by (cases "K fb'") simp_all
      ultimately show ?thesis using D(5) [OF that(1,2)] f [OF that(1)] f [OF that(2)] that(3,4) by simp
    qed
  qed
  ultimately show ?thesis by simp
qed

lemma fmap_table:
  assumes "sfi_indirect i \<noteq> 0" "15 \<le> fb" "fb < 143"
  shows "fmap B i fb = get32s 128 (B (sfi_indirect i)) ! (fb - 15)"
  using assms by (simp add: fmap_def)

lemma kept_table: "n < 142 \<Longrightarrow> 15 \<le> fb \<Longrightarrow> trunc_kept n fb \<longleftrightarrow> fb - 15 + 15 \<le> n"
  by (auto simp: trunc_kept_def)

text \<open>What is left of the table in the indirect block, whether it is rewritten, kept or freed.\<close>

lemma fmap_cleared:
  assumes "sfi_indirect i \<noteq> 0" "n < 142" "15 \<le> fb" "fb < 143"
    "get32s 128 (B' (sfi_indirect i)) = cleared (\<lambda>k. n < 15 + k) (get32s 128 (B (sfi_indirect i))) 0"
  shows "fmap B' i fb = (if trunc_kept n fb then fmap B i fb else 0)"
  using assms by (auto simp: fmap_table kept_table)

lemma cleared_id: "freed P xs 0 = {} \<Longrightarrow> cleared P xs 0 = xs"
  by (auto simp: freed_def intro!: nth_equalityI)

definition trunc_ind ::
    "('d \<Rightarrow> nat \<Rightarrow> u8 list) \<Rightarrow> ('d \<Rightarrow> nat) \<Rightarrow> ('d \<Rightarrow> bool) \<Rightarrow> nat \<Rightarrow> nat \<Rightarrow> sfs_vnode \<Rightarrow> 'd sfs_fs \<Rightarrow> nat \<Rightarrow> bool \<Rightarrow> 'd sfs_fs \<Rightarrow> bool" where
  "trunc_ind blk nblk dev_ok n v sv s ind' d s' \<longleftrightarrow>
     (let i = sv_i sv; i' = i\<lparr>sfi_indirect := ind'\<rparr> in
      s' = s\<lparr>sfs_freemap := sfs_freemap s', sfs_freemapdirty := sfs_freemapdirty s', sfs_device := sfs_device s',
        sfs_heap := (sfs_heap s)(v := Some (sv\<lparr>sv_i := i', sv_dirty := d\<rparr>))\<rparr> \<and>
      sfs_inv nblk dev_ok s' \<and> (ind' = sfi_indirect i \<or> ind' = 0) \<and> (n < 15 \<longrightarrow> ind' = 0) \<and>
      (\<forall>x. x \<noteq> sfi_indirect i \<longrightarrow> blk (sfs_device s') x = blk (sfs_device s) x) \<and>
      (\<forall>fb. 15 \<le> fb \<longrightarrow> fb < 143 \<longrightarrow> fmap (blk (sfs_device s')) i' fb =
         (if trunc_kept n fb then fmap (blk (sfs_device s)) i fb else 0)) \<and>
      sfs_used s' = sfs_used s - (dropped (blk (sfs_device s)) i (trunc_kept n) {15..<143} \<union>
         (if ind' = sfi_indirect i then {} else {sfi_indirect i})))"

context block_device
begin

lemma sfs_trunc_indirect_skip:
  assumes "sfs_inv nblk dev_ok s" "sfs_heap s v = Some sv" "\<not> (n < 142 \<and> sfi_indirect (sv_i sv) \<noteq> 0)"
  shows "sfs_trunc_indirect env v n s = Ok () s \<and> trunc_ind blk nblk dev_ok n v sv s (sfi_indirect (sv_i sv)) (sv_dirty sv) s"
proof -
  have "(sfs_heap s)(v := Some sv) = sfs_heap s" using assms(2) by (simp add: fun_upd_idem_iff)
  moreover have "fmap B (sv_i sv) fb = 0 \<or> trunc_kept n fb" if "15 \<le> fb" for fb B
    using assms(3) that by (auto simp: trunc_kept_def fmap_def)
  then have "dropped B (sv_i sv) (trunc_kept n) {15..<143} = {}" "15 \<le> fb \<Longrightarrow>
      fmap B (sv_i sv) fb = (if trunc_kept n fb then fmap B (sv_i sv) fb else 0)" for B fb
    by (auto simp: dropped_def)
  ultimately show ?thesis
    using assms by (auto simp: sfs_trunc_indirect_def trunc_ind_def Let_def kfun_defs get_sv_def SFS_NDIRECT_def SFS_DBPERIDB_def)
qed

lemma sfs_trunc_indirect_ok:
  assumes env: "env_dio env = d_io" and inv: "sfs_inv nblk dev_ok s" and sv: "sfs_heap s v = Some sv"
    and i: "i = sv_i sv" "ind = sfi_indirect i" "n < 142" "ind \<noteq> 0" "ind \<in> sfs_used s" "ind < sp_nblocks (sfs_super s)"
    and ids: "ids = get32s 128 (blk (sfs_device s) ind)" "freeable s ids 0" "ind \<notin> freed (\<lambda>k. n < 15 + k) ids 0"
  shows "\<exists>ind' d s'. sfs_trunc_indirect env v n s = Ok () s' \<and> trunc_ind blk nblk dev_ok n v sv s ind' d s'"
proof -
  let ?B = "blk (sfs_device s)" and ?P = "\<lambda>k. n < 15 + k"
  define hasnonzero where "hasnonzero \<longleftrightarrow> (\<exists>k < 128. k + 15 \<le> n \<and> ids ! k \<noteq> 0)"
  have dr: "dropped ?B i (trunc_kept n) {15..<143} = freed ?P ids 0"
    using dropped_indirect [of i n ?B] i(2-4) ids(1) by simp
  from sfs_rblock_ok [OF env inv i(6), of zeros] obtain d1 where
    d1: "sfs_rblock env zeros ind s = Ok (?B ind) (s\<lparr>sfs_device := d1\<rparr>)" "dev_ok d1" "nblk d1 = nblk (sfs_device s)"
      "blk d1 = ?B" by auto
  define s1 where "s1 = s\<lparr>sfs_device := d1\<rparr>"
  have inv1: "sfs_inv nblk dev_ok s1" using sfs_inv_dev [OF inv d1(2,3)] by (simp add: s1_def)
  have "freeable s1 ids 0" using ids(2) by (simp add: s1_def freeable_def)
  from sfs_trunc_ids_loop [OF inv1 _ _ this, of n False False] obtain m f where
    m: "sfs_trunc_ids n [0..<128] ids False False s1 =
        Ok (cleared ?P ids 0, hasnonzero, freed ?P ids 0 \<noteq> {}) (s1\<lparr>sfs_freemap := m, sfs_freemapdirty := f\<rparr>)"
      "sfs_inv nblk dev_ok (s1\<lparr>sfs_freemap := m, sfs_freemapdirty := f\<rparr>)" "bitmap_set m = sfs_used s1 - freed ?P ids 0"
    by (auto simp: ids(1) hasnonzero_def)
  define s2 where "s2 = s1\<lparr>sfs_freemap := m, sfs_freemapdirty := f\<rparr>"
  have s2: "sfs_inv nblk dev_ok s2" "sfs_used s2 = sfs_used s - freed ?P ids 0" "sfs_heap s2 v = Some sv"
      "sfs_super s2 = sfs_super s" "sfs_device s2 = d1"
    using m(2,3) sv by (simp_all add: s2_def s1_def)
  have start: "sfs_trunc_indirect env v n s =
      (if \<not> hasnonzero then
         kbind (sfs_bfree ind) (\<lambda>_. mod_sv v (\<lambda>sv. sv\<lparr>sv_i := (sv_i sv)\<lparr>sfi_indirect := 0\<rparr>, sv_dirty := True\<rparr>))
       else if freed ?P ids 0 \<noteq> {} then sfs_wblock env (put32s (cleared ?P ids 0)) ind else kret ()) s2"
    using d1(1) m(1) sv i ids(1)
    by (simp add: sfs_trunc_indirect_def kbind_def get_sv_def Let_def SFS_NDIRECT_def SFS_DBPERIDB_def s1_def s2_def)
  have keep: "trunc_ind blk nblk dev_ok n v sv s ind (sv_dirty sv) s'"
    if s': hasnonzero "s' = s2\<lparr>sfs_device := d'\<rparr>" "sfs_inv nblk dev_ok s'" "\<And>x. x \<noteq> ind \<Longrightarrow> blk d' x = ?B x"
      "get32s 128 (blk d' ind) = cleared ?P ids 0" for s' d'
  proof -
    have "(sfs_heap s)(v := Some sv) = sfs_heap s" using sv by (simp add: fun_upd_idem_iff)
    moreover have "\<not> n < 15" using s'(1) by (auto simp: hasnonzero_def)
    ultimately show ?thesis
      using s' i ids(1) s2(2) dr fmap_cleared [of i n _ "blk d'" ?B] by (simp add: trunc_ind_def Let_def s2_def s1_def)
  qed
  consider "\<not> hasnonzero" | "hasnonzero" "freed ?P ids 0 \<noteq> {}" | "hasnonzero" "freed ?P ids 0 = {}" by blast
  then show ?thesis
  proof cases
    case 1
    from sfs_bfree_ok [OF s2(1), of ind] i(4-6) ids(3) obtain m' where
      m': "sfs_bfree ind s2 = Ok () (s2\<lparr>sfs_freemap := m', sfs_freemapdirty := True\<rparr>)" "bitmap_set m' = sfs_used s2 - {ind}"
        "sfs_inv nblk dev_ok (s2\<lparr>sfs_freemap := m', sfs_freemapdirty := True\<rparr>)" by (auto simp: s2(2,4))
    define s3 where "s3 = s2\<lparr>sfs_freemap := m', sfs_freemapdirty := True,
      sfs_heap := (sfs_heap s)(v := Some (sv\<lparr>sv_i := i\<lparr>sfi_indirect := 0\<rparr>, sv_dirty := True\<rparr>))\<rparr>"
    have "sfs_trunc_indirect env v n s = Ok () s3"
      unfolding start using 1 m'(1) s2(3) i(1) sv
      by (simp add: kbind_def mod_sv_def get_sv_def put_sv_def s3_def) (simp add: s2_def s1_def)
    moreover have "fmap ?B i fb = 0" if "15 \<le> fb" "fb < 143" "trunc_kept n fb" for fb
      using 1 that i ids(1) kept_table [OF i(3) that(1)] by (auto simp: hasnonzero_def fmap_table dest!: spec [of _ "fb - 15"])
    then have "trunc_ind blk nblk dev_ok n v sv s 0 True s3"
      using m'(2,3) i(1,2,4) dr s2(2) d1(4) by (auto simp: trunc_ind_def Let_def s3_def s2_def s1_def fmap_def)
    ultimately show ?thesis by blast
  next
    case 2
    have len: "length (cleared ?P ids 0) = 128" "list_all (\<lambda>x. x < 2 ^ 32) (cleared ?P ids 0)"
      using get32s_bound [of 128 "?B ind"] by (auto simp: ids(1) list_all_length)
    then have "length (put32s (cleared ?P ids 0)) = 512" by simp
    from sfs_wblock_ok [OF env s2(1) _ this, of ind] i(6) obtain d2 where
      d2: "sfs_wblock env (put32s (cleared ?P ids 0)) ind s2 = Ok () (s2\<lparr>sfs_device := d2\<rparr>)" "dev_ok d2"
        "nblk d2 = nblk d1" "blk d2 = ?B(ind := put32s (cleared ?P ids 0))" by (auto simp: s2(4,5) d1(4))
    have "sfs_inv nblk dev_ok (s2\<lparr>sfs_device := d2\<rparr>)" using sfs_inv_dev [OF s2(1) d2(2)] d2(3) s2(5) by simp
    from keep [OF 2(1) refl this] d2(4) get32s_128 [OF len] show ?thesis using d2(1) 2 unfolding start by auto
  next
    case 3
    have "s2 = s2\<lparr>sfs_device := d1\<rparr>" by (simp add: s2_def s1_def)
    from keep [OF 3(1) this s2(1)] d1(4) cleared_id [OF 3(2)] ids(1) show ?thesis
      using 3 unfolding start by (auto simp: kret_def)
  qed
qed

end

text \<open>
  A step on the file of vnode \<open>v\<close> that may drop blocks of it: everything else in memory is kept, on disk
  at most its indirect block is rewritten, and exactly the blocks that it no longer uses are freed.
\<close>

definition file_shrink ::
    "('d \<Rightarrow> nat \<Rightarrow> u8 list) \<Rightarrow> nat \<Rightarrow> sfs_vnode \<Rightarrow> 'd sfs_fs \<Rightarrow> sfs_vnode \<Rightarrow> 'd sfs_fs \<Rightarrow> bool" where
  "file_shrink blk v sv s sv' s' \<longleftrightarrow>
     sfs_super s' = sfs_super s \<and> sfs_superdirty s' = sfs_superdirty s \<and> sfs_vnodes s' = sfs_vnodes s \<and>
     sfs_nextptr s' = sfs_nextptr s \<and> sfs_kmalloc s' = sfs_kmalloc s \<and> vfs_biglock_depth s' = vfs_biglock_depth s \<and>
     sfs_heap s' = (sfs_heap s)(v := Some sv') \<and>
     vn_refcount sv' = vn_refcount sv \<and> vn_opencount sv' = vn_opencount sv \<and> vn_ops sv' = vn_ops sv \<and>
     sv_ino sv' = sv_ino sv \<and> sfi_type (sv_i sv') = sfi_type (sv_i sv) \<and>
     sfi_linkcount (sv_i sv') = sfi_linkcount (sv_i sv) \<and>
     (\<forall>x. x \<noteq> sfi_indirect (sv_i sv) \<longrightarrow> blk (sfs_device s') x = blk (sfs_device s) x) \<and>
     sfs_used s' = (sfs_used s - file_blocks (blk (sfs_device s)) (sv_i sv)) \<union> file_blocks (blk (sfs_device s')) (sv_i sv')"

lemma file_ok_freeable:
  assumes ok: "file_ok (sfs_used s) (sp_nblocks (sfs_super s)) B i"
  shows "freeable s (sfi_direct i) 0" "sfi_indirect i \<noteq> 0 \<Longrightarrow> freeable s (get32s 128 (B (sfi_indirect i))) 0"
proof -
  note D = file_okD [OF ok]
  have in_use: "fmap B i fb \<in> sfs_used s \<inter> {..<sp_nblocks (sfs_super s)}" if "fb < 143" "fmap B i fb \<noteq> 0" for fb
    using D(2,3) [OF file_blocksI(1) [OF that]] by simp
  have d: "sfi_direct i ! k = fmap B i k" if "k < 15" for k using that by (simp add: fmap_def)
  have len: "length (sfi_direct i) = 15" using D(1) by (simp add: inode_ok_def)
  show "freeable s (sfi_direct i) 0"
    unfolding freeable_def len using in_use D(5) d by simp
  show "freeable s (get32s 128 (B (sfi_indirect i))) 0" if "sfi_indirect i \<noteq> 0"
  proof -
    have e: "get32s 128 (B (sfi_indirect i)) ! k = fmap B i (15 + k)" if "k < 128" for k
      using that \<open>sfi_indirect i \<noteq> 0\<close> by (simp add: fmap_def)
    have "k = k'" if "k < 128" "k' < 128" "fmap B i (15 + k) = fmap B i (15 + k')" "fmap B i (15 + k) \<noteq> 0" for k k'
      using D(5) [of "15 + k" "15 + k'"] that by simp
    then show ?thesis unfolding freeable_def using in_use [of "15 + _"] e by simp
  qed
qed

lemma dropped_image: "dropped B i K S = fmap B i ` {fb \<in> S. \<not> K fb} - {0}"
  by (auto simp: dropped_def)

lemma dropped_cong: "(\<And>fb. fb \<in> S \<Longrightarrow> fmap B' i' fb = fmap B i fb) \<Longrightarrow> dropped B' i' K S = dropped B i K S"
  unfolding dropped_image by (intro arg_cong2 [where f = minus] image_cong) simp_all

lemma dropped_Un: "dropped B i K (S \<union> S') = dropped B i K S \<union> dropped B i K S'"
  by (auto simp: dropped_image)

lemma trunc_blocklen:
  assumes "0 \<le> len" "len < 2 ^ 32"
  shows "nat (((len + 512 - 1) sdiv 512) mod 2 ^ 32) = nat ((len + 511) div 512)"
proof -
  have "(len + 512 - 1) sdiv 512 = (len + 511) div 512"
    using assms by (simp add: signed_divide_int_def)
  moreover have "0 \<le> (len + 511) div 512" "(len + 511) div 512 < 2 ^ 32" using assms by simp_all
  ultimately show ?thesis by simp
qed

context block_device
begin

text \<open>The direct blocks first: the map of the rest of the file is as before.\<close>

lemma sfs_trunc_direct_ok:
  assumes inv: "sfs_inv nblk dev_ok s" and sv: "sfs_heap s v = Some sv"
    and ok: "file_ok (sfs_used s) (sp_nblocks (sfs_super s)) (blk (sfs_device s)) (sv_i sv)"
    and i1: "i1 = (sv_i sv)\<lparr>sfi_direct := cleared (\<lambda>k. n \<le> k) (sfi_direct (sv_i sv)) 0\<rparr>"
  shows "\<exists>m f d s1. kforeach (sfs_trunc_direct v n) [0..<15] s = Ok () s1 \<and>
      s1 = s\<lparr>sfs_freemap := m, sfs_freemapdirty := f, sfs_heap := (sfs_heap s)(v := Some (sv\<lparr>sv_i := i1, sv_dirty := d\<rparr>))\<rparr> \<and>
      sfs_inv nblk dev_ok s1 \<and> sfs_used s1 = sfs_used s - dropped (blk (sfs_device s)) (sv_i sv) (trunc_kept n) {..<15} \<and>
      file_ok (sfs_used s1) (sp_nblocks (sfs_super s)) (blk (sfs_device s)) i1 \<and>
      (\<forall>fb. fmap (blk (sfs_device s)) i1 fb =
        (if fb < 15 \<and> \<not> trunc_kept n fb then 0 else fmap (blk (sfs_device s)) (sv_i sv) fb))"
proof -
  let ?B = "blk (sfs_device s)" and ?i = "sv_i sv"
  have io: "inode_ok ?i" and len: "length (sfi_direct ?i) = 15" using file_okD(1) [OF ok] by (simp_all add: inode_ok_def)
  from sfs_trunc_direct_loop [OF inv sv len _ file_ok_freeable(1) [OF ok], of n] obtain m f d where
    m: "kforeach (sfs_trunc_direct v n) [0..<15] s =
        Ok () (s\<lparr>sfs_freemap := m, sfs_freemapdirty := f, sfs_heap := (sfs_heap s)(v := Some (sv\<lparr>sv_i := i1, sv_dirty := d\<rparr>))\<rparr>)"
      "sfs_inv nblk dev_ok (s\<lparr>sfs_freemap := m, sfs_freemapdirty := f\<rparr>)"
      "bitmap_set m = sfs_used s - freed (\<lambda>k. n \<le> k) (sfi_direct ?i) 0"
    unfolding i1 by auto
  define s1 where "s1 = s\<lparr>sfs_freemap := m, sfs_freemapdirty := f, sfs_heap := (sfs_heap s)(v := Some (sv\<lparr>sv_i := i1, sv_dirty := d\<rparr>))\<rparr>"
  have used: "sfs_used s1 = sfs_used s - dropped ?B ?i (trunc_kept n) {..<15}"
    using m(3) dropped_direct [OF len, of n ?B] by (simp add: s1_def)
  have f: "fmap ?B i1 fb = (if fb < 15 \<and> \<not> trunc_kept n fb then 0 else fmap ?B ?i fb)" for fb
    using len by (auto simp: fmap_def i1 trunc_kept_def)
  have io1: "inode_ok i1" using io by (auto simp: i1 inode_ok_def list_all_length)
  have ind: "sfi_indirect i1 = sfi_indirect ?i" by (simp add: i1)
  have f': "fmap ?B i1 fb = (if fb < 15 \<longrightarrow> trunc_kept n fb then fmap ?B ?i fb else 0)" for fb using f [of fb] by simp
  have "dropped ?B ?i (trunc_kept n) {..<15} = dropped ?B ?i (\<lambda>fb. fb < 15 \<longrightarrow> trunc_kept n fb) {..<143}"
    by (auto simp: dropped_def)
  then have "sfs_used s1 = sfs_used s - (dropped ?B ?i (\<lambda>fb. fb < 15 \<longrightarrow> trunc_kept n fb) {..<143} \<union>
      (if sfi_indirect i1 = sfi_indirect ?i then {} else {sfi_indirect ?i}))"
    using used ind by simp
  from file_ok_shrink [OF ok io1 disjI1 [OF ind] f' this]
  have "file_ok (sfs_used s1) (sp_nblocks (sfs_super s)) ?B i1" by blast
  moreover have "sfs_inv nblk dev_ok s1" using m(2) by (simp add: s1_def)
  ultimately show ?thesis using m(1) used f s1_def by auto
qed

lemma sfs_trunc_indirect_file:
  assumes env: "env_dio env = d_io" and at: "file_at blk nblk dev_ok v sv s"
  shows "\<exists>ind' d s'. sfs_trunc_indirect env v n s = Ok () s' \<and> trunc_ind blk nblk dev_ok n v sv s ind' d s'"
proof (cases "n < 142 \<and> sfi_indirect (sv_i sv) \<noteq> 0")
  case True
  have D: "sfs_inv nblk dev_ok s" "sfs_heap s v = Some sv"
      "file_ok (sfs_used s) (sp_nblocks (sfs_super s)) (blk (sfs_device s)) (sv_i sv)"
    using at by (simp_all add: file_at_def)
  let ?ind = "sfi_indirect (sv_i sv)"
  have "?ind \<in> sfs_used s" "?ind < sp_nblocks (sfs_super s)"
    using file_okD(2,3) [OF D(3) file_blocksI(2)] True by simp_all
  moreover have "?ind \<notin> dropped (blk (sfs_device s)) (sv_i sv) (trunc_kept n) {15..<143}"
    using file_okD(4) [OF D(3)] True by (force simp: dropped_def)
  ultimately show ?thesis
    using sfs_trunc_indirect_ok [OF env D(1,2) refl refl _ _ _ _ refl file_ok_freeable(2) [OF D(3)]] True
      dropped_indirect [of "sv_i sv" n "blk (sfs_device s)"] by simp
next
  case False
  then show ?thesis using sfs_trunc_indirect_skip [of s v sv n env] at unfolding file_at_def by blast
qed

lemma sfs_truncate_ok:
  assumes env: "env_dio env = d_io" and at: "file_at blk nblk dev_ok v sv s" and len: "0 \<le> len" "len < 2 ^ 32"
    and n: "n = nat ((len + 511) div 512)"
  shows "\<exists>sv' s'. sfs_truncate env v len s = Ok () s' \<and> file_at blk nblk dev_ok v sv' s' \<and> file_shrink blk v sv s sv' s' \<and>
      int (sfi_size (sv_i sv')) = len \<and> sv_dirty sv' \<and>
      (\<forall>fb < 143. fmap (blk (sfs_device s')) (sv_i sv') fb =
        (if trunc_kept n fb then fmap (blk (sfs_device s)) (sv_i sv) fb else 0)) \<and>
      (len = 0 \<longrightarrow> sfi_indirect (sv_i sv') = 0)"
proof -
  let ?B = "blk (sfs_device s)" and ?i = "sv_i sv"
  define s0 where "s0 = s\<lparr>vfs_biglock_depth := Suc (vfs_biglock_depth s)\<rparr>"
  have ok: "file_ok (sfs_used s) (sp_nblocks (sfs_super s)) ?B ?i" using at by (simp add: file_at_def)
  have s0: "sfs_inv nblk dev_ok s0" "sfs_heap s0 v = Some sv" "sfs_used s0 = sfs_used s" "sfs_super s0 = sfs_super s"
      "sfs_device s0 = sfs_device s"
    using at by (simp_all add: s0_def file_at_def sfs_inv_def sfs_used_def)
  define i1 where "i1 = ?i\<lparr>sfi_direct := cleared (\<lambda>k. n \<le> k) (sfi_direct ?i) 0\<rparr>"
  from sfs_trunc_direct_ok [OF s0(1,2) _ i1_def] obtain m f d s1 where
    s1: "kforeach (sfs_trunc_direct v n) [0..<15] s0 = Ok () s1"
      "s1 = s0\<lparr>sfs_freemap := m, sfs_freemapdirty := f, sfs_heap := (sfs_heap s0)(v := Some (sv\<lparr>sv_i := i1, sv_dirty := d\<rparr>))\<rparr>"
      "sfs_inv nblk dev_ok s1" "sfs_used s1 = sfs_used s - dropped ?B ?i (trunc_kept n) {..<15}"
      "file_ok (sfs_used s1) (sp_nblocks (sfs_super s)) ?B i1"
      "\<And>fb. fmap ?B i1 fb = (if fb < 15 \<and> \<not> trunc_kept n fb then 0 else fmap ?B ?i fb)"
    using ok unfolding s0(3-5) by blast
  define sv1 where "sv1 = sv\<lparr>sv_i := i1, sv_dirty := d\<rparr>"
  have dev1: "sfs_device s1 = sfs_device s" "sfs_super s1 = sfs_super s" "sfs_heap s1 = (sfs_heap s)(v := Some sv1)"
    using s1(2) by (simp_all add: s0_def sv1_def)
  have "file_at blk nblk dev_ok v sv1 s1" using s1(3,5) dev1 by (simp add: file_at_def sv1_def)
  from sfs_trunc_indirect_file [OF env this, of n] obtain ind' d2 s2 where
    s2: "sfs_trunc_indirect env v n s1 = Ok () s2" "trunc_ind blk nblk dev_ok n v sv1 s1 ind' d2 s2" by blast
  define i2 where "i2 = i1\<lparr>sfi_indirect := ind'\<rparr>"
  have ind: "sfi_indirect i1 = sfi_indirect ?i" "sfi_direct i2 = sfi_direct i1" "sv_i sv1 = i1" by (simp_all add: i1_def i2_def sv1_def)
  have T: "s2 = s1\<lparr>sfs_freemap := sfs_freemap s2, sfs_freemapdirty := sfs_freemapdirty s2, sfs_device := sfs_device s2,
        sfs_heap := (sfs_heap s1)(v := Some (sv1\<lparr>sv_i := i2, sv_dirty := d2\<rparr>))\<rparr>" "sfs_inv nblk dev_ok s2"
      "ind' = sfi_indirect ?i \<or> ind' = 0" "n < 15 \<Longrightarrow> ind' = 0" "\<And>x. x \<noteq> sfi_indirect ?i \<Longrightarrow> blk (sfs_device s2) x = ?B x"
      "\<And>fb. 15 \<le> fb \<Longrightarrow> fb < 143 \<Longrightarrow> fmap (blk (sfs_device s2)) i2 fb = (if trunc_kept n fb then fmap ?B i1 fb else 0)"
      "sfs_used s2 = sfs_used s1 - (dropped ?B i1 (trunc_kept n) {15..<143} \<union> (if ind' = sfi_indirect ?i then {} else {sfi_indirect ?i}))"
    using s2(2) unfolding trunc_ind_def Let_def ind(3) i2_def [symmetric] ind(1) dev1(1) by blast+
  define i3 where "i3 = i2\<lparr>sfi_size := nat len\<rparr>"
  define sv3 where "sv3 = sv\<lparr>sv_i := i3, sv_dirty := True\<rparr>"
  define s3 where "s3 = s2\<lparr>sfs_heap := (sfs_heap s)(v := Some sv3), vfs_biglock_depth := vfs_biglock_depth s\<rparr>"
  have fields: "sfs_super s2 = sfs_super s" "sfs_superdirty s2 = sfs_superdirty s" "sfs_vnodes s2 = sfs_vnodes s"
      "sfs_nextptr s2 = sfs_nextptr s" "sfs_kmalloc s2 = sfs_kmalloc s" "vfs_biglock_depth s2 = Suc (vfs_biglock_depth s)"
      "sfs_heap s2 = (sfs_heap s)(v := Some (sv\<lparr>sv_i := i2, sv_dirty := d2\<rparr>))"
    by (subst T(1), subst s1(2), simp add: s0_def sv1_def)+
  have nn: "nat (((len + int SFS_BLOCKSIZE - 1) sdiv int SFS_BLOCKSIZE) mod 2 ^ 32) = n" "nat (len mod 2 ^ 32) = nat len"
    using trunc_blocklen [OF len] len n by (simp_all add: SFS_BLOCKSIZE_def)
  have "kbind (kforeach (sfs_trunc_direct v n) [0..<SFS_NDIRECT]) (\<lambda>_. kbind (sfs_trunc_indirect env v n) (\<lambda>_.
      mod_sv v (\<lambda>sv. sv\<lparr>sv_i := (sv_i sv)\<lparr>sfi_size := nat len\<rparr>, sv_dirty := True\<rparr>)))
      (s\<lparr>vfs_biglock_depth := Suc (vfs_biglock_depth s)\<rparr>) = Ok () (s2\<lparr>sfs_heap := (sfs_heap s)(v := Some sv3)\<rparr>)"
    using s1(1) s2(1) fields(7)
    by (simp add: s0_def [symmetric] kbind_def SFS_NDIRECT_def mod_sv_def get_sv_def put_sv_def sv3_def i3_def)
  then have run: "sfs_truncate env v len s = Ok () s3"
    unfolding sfs_truncate_def nn Let_def using fields(6)
    by - (subst biglocked_Ok [where s = s and n = "vfs_biglock_depth s"], assumption, simp_all add: s3_def)
  have f: "fmap (blk (sfs_device s2)) i3 fb = (if trunc_kept n fb then fmap ?B ?i fb else 0)" if "fb < 143" for fb
  proof -
    have "fmap (blk (sfs_device s2)) i3 fb = fmap (blk (sfs_device s2)) i2 fb" by (simp add: i3_def fmap_def)
    also have "\<dots> = (if trunc_kept n fb then fmap ?B ?i fb else 0)"
      using T(6) [OF _ that] s1(6) [of fb] ind(2) by (cases "fb < 15") (simp_all add: fmap_def)
    finally show ?thesis .
  qed
  have "dropped ?B i1 (trunc_kept n) {15..<143} = dropped ?B ?i (trunc_kept n) {15..<143}"
    by (rule dropped_cong) (simp add: s1(6))
  moreover have "{..<143} = {..<15} \<union> {15..<143 :: nat}" by auto
  then have "dropped ?B ?i K {..<143} = dropped ?B ?i K {..<15} \<union> dropped ?B ?i K {15..<143}" for K
    by (simp only: dropped_Un)
  ultimately have used: "sfs_used s2 = sfs_used s - (dropped ?B ?i (trunc_kept n) {..<143} \<union>
      (if sfi_indirect i3 = sfi_indirect ?i then {} else {sfi_indirect ?i}))"
    unfolding T(7) s1(4) by (auto simp: i3_def i2_def)
  have "inode_ok i3" using file_okD(1) [OF s1(5)] file_okD(1) [OF ok] T(3) len by (auto simp: i3_def i2_def inode_ok_def)
  moreover have "sfi_indirect i3 = sfi_indirect ?i \<or> sfi_indirect i3 = 0" using T(3) by (simp add: i3_def i2_def)
  ultimately have "file_ok (sfs_used s2) (sp_nblocks (sfs_super s)) (blk (sfs_device s2)) i3 \<and>
      sfs_used s2 = (sfs_used s - file_blocks ?B ?i) \<union> file_blocks (blk (sfs_device s2)) i3"
    by (rule file_ok_shrink [OF ok _ _ f used])
  then have ok3: "file_ok (sfs_used s2) (sp_nblocks (sfs_super s)) (blk (sfs_device s2)) i3"
      "sfs_used s2 = (sfs_used s - file_blocks ?B ?i) \<union> file_blocks (blk (sfs_device s2)) i3" by blast+
  have s3: "sfs_used s3 = sfs_used s2" "sfs_device s3 = sfs_device s2" "sv_i sv3 = i3"
    by (simp_all add: s3_def sv3_def sfs_used_def)
  have "file_at blk nblk dev_ok v sv3 s3"
    using T(2) ok3(1) at unfolding file_at_def s3 by (simp add: s3_def fields(1) sfs_inv_def sfs_used_def)
  moreover have "file_shrink blk v sv s sv3 s3"
    unfolding file_shrink_def s3 using fields ok3(2) T(5) by (simp add: s3_def sv3_def i3_def i2_def i1_def)
  moreover have "int (sfi_size (sv_i sv3)) = len" "sv_dirty sv3" using len by (simp_all add: sv3_def i3_def)
  moreover have "len = 0 \<longrightarrow> sfi_indirect (sv_i sv3) = 0" using T(4) n by (simp add: sv3_def i3_def i2_def)
  ultimately show ?thesis using run f unfolding s3(2,3) [symmetric] by blast
qed

end

lemma file_blocks_none:
  assumes "\<And>fb. fb < 143 \<Longrightarrow> fmap B i fb = 0" "sfi_indirect i = 0"
  shows "file_blocks B i = {}"
  using assms by (auto simp: file_blocks_def)

text \<open>
  The comparison in the loop over the indirect block is off by one: when the new length ends exactly at
  a block of the indirect range, the block after the end stays mapped, with its old contents.
\<close>

lemma sfs_truncate_keeps_block_past_end:
  assumes "block_device d_io blk nblk dev_ok" "env_dio env = d_io" "file_at blk nblk dev_ok v sv s"
    "15 \<le> n" "n < 143" "fmap (blk (sfs_device s)) (sv_i sv) n \<noteq> 0"
  shows "\<exists>sv' s'. sfs_truncate env v (512 * int n) s = Ok () s' \<and> sfs_heap s' v = Some sv' \<and> sfi_size (sv_i sv') = 512 * n \<and>
    fmap (blk (sfs_device s')) (sv_i sv') n = fmap (blk (sfs_device s)) (sv_i sv) n"
proof -
  have "n = nat ((512 * int n + 511) div 512)" by simp
  from block_device.sfs_truncate_ok [OF assms(1-3) _ _ this] assms(4,5) obtain sv' s' where
    "sfs_truncate env v (512 * int n) s = Ok () s'" "file_at blk nblk dev_ok v sv' s'" "int (sfi_size (sv_i sv')) = 512 * int n"
    "fmap (blk (sfs_device s')) (sv_i sv') n = fmap (blk (sfs_device s)) (sv_i sv) n" by (auto simp: trunc_kept_def)
  moreover from this have "sfi_size (sv_i sv') = 512 * n" by linarith
  ultimately show ?thesis by (auto simp: file_at_def)
qed

section \<open>Properties\<close>



end
