(* ===== verification/Spl.thy ===== *)
theory Spl
  imports Kernel_Base
begin

text \<open>
  Interrupt priority levels (\<^verbatim>\<open>thread/spl.c\<close>, \<^verbatim>\<open>include/spl.h\<close>) and spinlocks (\<^verbatim>\<open>thread/spinlock.c\<close>,
  \<^verbatim>\<open>include/spinlock.h\<close>, \<^verbatim>\<open>arch/mips/include/spinlock.h\<close>).

  The spl functions act on the two counters of the current thread and on the interrupt flag of its processor.
  A spinlock is modelled twice: as functions of one processor, for the code that calls them, and as a machine in which
  any number of processors execute the statements of \<^verbatim>\<open>spinlock_acquire\<close> and \<^verbatim>\<open>spinlock_release\<close> in any order. The
  theorems of the machine are that the locks exclude and that the counters account for every lock that is held.
\<close>

section \<open>Interrupt priority levels\<close>

definition IPL_NONE :: int where "IPL_NONE = 0"
definition IPL_HIGH :: int where "IPL_HIGH = 1"

record splst =
  curcpu_exists :: bool
  t_curspl :: int
  t_iplhigh_count :: int
  irq_on :: bool

definition splraise :: "int \<Rightarrow> int \<Rightarrow> (splst, unit) kfun" where
  "splraise oldspl newspl =
    kbind (kassert (oldspl = IPL_NONE)) (\<lambda>_.
    kbind (kassert (newspl = IPL_HIGH)) (\<lambda>_.
    kmod (\<lambda>s.
      if \<not> curcpu_exists s then s
      else (if t_iplhigh_count s = 0 then s\<lparr>irq_on := False\<rparr> else s)\<lparr>t_iplhigh_count := t_iplhigh_count s + 1\<rparr>)))"

definition spllower :: "int \<Rightarrow> int \<Rightarrow> (splst, unit) kfun" where
  "spllower oldspl newspl =
    kbind (kassert (oldspl = IPL_HIGH)) (\<lambda>_.
    kbind (kassert (newspl = IPL_NONE)) (\<lambda>_.
    kmod (\<lambda>s.
      if \<not> curcpu_exists s then s
      else let s = s\<lparr>t_iplhigh_count := t_iplhigh_count s - 1\<rparr> in
        if t_iplhigh_count s = 0 then s\<lparr>irq_on := True\<rparr> else s)))"

definition splx :: "int \<Rightarrow> (splst, int) kfun" where
  "splx spl =
    kbind (kget t_curspl) (\<lambda>curspl.
    if curspl < spl then
      kbind (splraise curspl spl) (\<lambda>_.
      kbind (kget t_curspl) (\<lambda>ret.
      kbind (kmod (\<lambda>s. s\<lparr>t_curspl := spl\<rparr>)) (\<lambda>_.
      kret ret)))
    else if curspl > spl then
      kbind (kmod (\<lambda>s. s\<lparr>t_curspl := spl\<rparr>)) (\<lambda>_.
      kbind (spllower curspl spl) (\<lambda>_.
      kret curspl))
    else kret spl)"

definition spl0 :: "(splst, int) kfun" where
  "spl0 = splx IPL_NONE"

definition splhigh :: "(splst, int) kfun" where
  "splhigh = splx IPL_HIGH"

lemmas spl_defs = splraise_def spllower_def splx_def spl0_def splhigh_def IPL_NONE_def IPL_HIGH_def Let_def

text \<open>
  With \<open>n\<close> locks held, the count is \<open>n\<close> plus one when the level itself is high, and interrupts are on exactly when it is zero.
\<close>

definition spl_ok :: "nat \<Rightarrow> splst \<Rightarrow> bool" where
  "spl_ok n s \<longleftrightarrow> curcpu_exists s \<and> t_curspl s \<in> {IPL_NONE, IPL_HIGH} \<and> t_iplhigh_count s = int n + t_curspl s \<and>
     (irq_on s \<longleftrightarrow> t_iplhigh_count s = 0)"

lemma splraise_ok: "spl_ok n s \<Longrightarrow> \<exists>s'. splraise IPL_NONE IPL_HIGH s = Ok () s' \<and> spl_ok (Suc n) s' \<and> t_curspl s' = t_curspl s"
  by (auto simp: spl_ok_def spl_defs kfun_defs)

lemma spllower_ok: "spl_ok (Suc n) s \<Longrightarrow> \<exists>s'. spllower IPL_HIGH IPL_NONE s = Ok () s' \<and> spl_ok n s' \<and> t_curspl s' = t_curspl s"
  by (auto simp: spl_ok_def spl_defs kfun_defs)

lemma splx_ok:
  assumes "spl_ok n s" "spl \<in> {IPL_NONE, IPL_HIGH}"
  shows "\<exists>s'. splx spl s = Ok (t_curspl s) s' \<and> spl_ok n s' \<and> t_curspl s' = spl"
  using assms by (auto simp: spl_ok_def spl_defs kfun_defs)

section \<open>Spinlocks of one processor\<close>

text \<open>The lock word and the processor that holds the lock.\<close>

record spinlock =
  lk_lock :: u32
  lk_holder :: "nat option"

definition spinlock_data_set :: "u32 \<Rightarrow> spinlock \<Rightarrow> spinlock" where
  "spinlock_data_set val lk = lk\<lparr>lk_lock := val\<rparr>"

definition spinlock_data_get :: "spinlock \<Rightarrow> u32" where
  "spinlock_data_get lk = lk_lock lk"

text \<open>
  The load-linked/store-conditional pair of \<^verbatim>\<open>spinlock_data_testandset\<close>. \<open>sc\<close> is whether the store was performed,
  which it is only when nothing stored to the word since the load.
\<close>

definition spinlock_data_testandset :: "bool \<Rightarrow> spinlock \<Rightarrow> u32 \<times> spinlock" where
  "spinlock_data_testandset sc lk = (if sc then (lk_lock lk, lk\<lparr>lk_lock := 1\<rparr>) else (1, lk))"

definition spinlock_init :: "spinlock \<Rightarrow> spinlock" where
  "spinlock_init lk = (spinlock_data_set 0 lk)\<lparr>lk_holder := None\<rparr>"

definition spinlock_cleanup :: "spinlock \<Rightarrow> ('s, unit) kfun" where
  "spinlock_cleanup lk =
    kbind (kassert (lk_holder lk = None)) (\<lambda>_.
    kassert (spinlock_data_get lk = 0))"

text \<open>
  The functions as processor \<open>cpu\<close> executes them while the other processors stand still. The loop of
  \<^verbatim>\<open>spinlock_acquire\<close> ends at once when the word is zero; otherwise it does not end, which is the outcome \<open>Panic\<close>.
\<close>

record slst =
  sl_spl :: splst
  sl_lock :: spinlock

definition on_spl :: "(splst, 'a) kfun \<Rightarrow> (slst, 'a) kfun" where
  "on_spl m s = (case m (sl_spl s) of Ok x p \<Rightarrow> Ok x (s\<lparr>sl_spl := p\<rparr>) | Err e p \<Rightarrow> Err e (s\<lparr>sl_spl := p\<rparr>) | Panic \<Rightarrow> Panic)"

definition spinlock_acquire :: "nat \<Rightarrow> (slst, unit) kfun" where
  "spinlock_acquire cpu =
    kbind (on_spl (splraise IPL_NONE IPL_HIGH)) (\<lambda>_.
    kbind (kget (\<lambda>s. curcpu_exists (sl_spl s))) (\<lambda>ex.
    kbind (kget sl_lock) (\<lambda>lk.
    if ex \<and> lk_holder lk = Some cpu then kpanic
    else if spinlock_data_get lk \<noteq> 0 then kpanic
    else
      let lk = snd (spinlock_data_testandset True lk) in
      kmod (\<lambda>s. s\<lparr>sl_lock := lk\<lparr>lk_holder := (if ex then Some cpu else None)\<rparr>\<rparr>))))"

definition spinlock_release :: "nat \<Rightarrow> (slst, unit) kfun" where
  "spinlock_release cpu =
    kbind (kget (\<lambda>s. curcpu_exists (sl_spl s))) (\<lambda>ex.
    kbind (kget sl_lock) (\<lambda>lk.
    kbind (if ex then kassert (lk_holder lk = Some cpu) else kret ()) (\<lambda>_.
    kbind (kmod (\<lambda>s. s\<lparr>sl_lock := (sl_lock s)\<lparr>lk_holder := None\<rparr>\<rparr>)) (\<lambda>_.
    kbind (kmod (\<lambda>s. s\<lparr>sl_lock := spinlock_data_set 0 (sl_lock s)\<rparr>)) (\<lambda>_.
    on_spl (spllower IPL_HIGH IPL_NONE))))))"

definition spinlock_do_i_hold :: "nat \<Rightarrow> (slst, bool) kfun" where
  "spinlock_do_i_hold cpu =
    kbind (kget (\<lambda>s. curcpu_exists (sl_spl s))) (\<lambda>ex.
    if \<not> ex then kret True
    else kget (\<lambda>s. lk_holder (sl_lock s) = Some cpu))"

definition lk_free :: "spinlock \<Rightarrow> bool" where
  "lk_free lk \<longleftrightarrow> lk_lock lk = 0 \<and> lk_holder lk = None"

definition lk_held_by :: "nat \<Rightarrow> spinlock \<Rightarrow> bool" where
  "lk_held_by cpu lk \<longleftrightarrow> lk_lock lk = 1 \<and> lk_holder lk = Some cpu"

lemma spinlock_acquire_ok:
  assumes "spl_ok n (sl_spl s)" "lk_free (sl_lock s)"
  shows "\<exists>s'. spinlock_acquire cpu s = Ok () s' \<and> spl_ok (Suc n) (sl_spl s') \<and> lk_held_by cpu (sl_lock s') \<and>
    t_curspl (sl_spl s') = t_curspl (sl_spl s)"
  using splraise_ok [OF assms(1)] assms(2)
  by (auto simp: spinlock_acquire_def on_spl_def kfun_defs lk_free_def lk_held_by_def spl_ok_def spinlock_data_get_def
      spinlock_data_testandset_def Let_def)

lemma spinlock_release_ok:
  assumes "spl_ok (Suc n) (sl_spl s)" "lk_held_by cpu (sl_lock s)"
  shows "\<exists>s'. spinlock_release cpu s = Ok () s' \<and> spl_ok n (sl_spl s') \<and> lk_free (sl_lock s') \<and>
    t_curspl (sl_spl s') = t_curspl (sl_spl s)"
  using spllower_ok [OF assms(1)] assms(2)
  by (auto simp: spinlock_release_def on_spl_def kfun_defs lk_free_def lk_held_by_def spinlock_data_set_def)

lemma spinlock_relock_panics:
  assumes "spl_ok n (sl_spl s)" "lk_holder (sl_lock s) = Some cpu"
  shows "spinlock_acquire cpu s = Panic"
  using splraise_ok [OF assms(1)] assms(2) by (auto simp: spinlock_acquire_def on_spl_def kfun_defs spl_ok_def)

section \<open>Spinlocks under interleaving\<close>

text \<open>
  Where a processor is: outside the two functions; in the loop of \<^verbatim>\<open>spinlock_acquire\<close>, about to read the word or to
  execute the test-and-set; about to record the holder; in \<^verbatim>\<open>spinlock_release\<close>, about to clear the word and lower the level.
\<close>

datatype 'l sl_pc = Outside | Spin_get 'l | Spin_tas 'l | Set_holder 'l | Clear 'l

text \<open>\<open>m_held c\<close> is the set of locks for which processor \<open>c\<close> is between the return of acquire and the call of release.\<close>

record 'l slm =
  m_spl :: "nat \<Rightarrow> splst"
  m_pc :: "nat \<Rightarrow> 'l sl_pc"
  m_lock :: "'l \<Rightarrow> spinlock"
  m_held :: "nat \<Rightarrow> 'l set"

definition m_goto :: "nat \<Rightarrow> 'l sl_pc \<Rightarrow> 'l slm \<Rightarrow> 'l slm" where
  "m_goto c p s = s\<lparr>m_pc := (m_pc s)(c := p)\<rparr>"

definition m_set_lock :: "'l \<Rightarrow> spinlock \<Rightarrow> 'l slm \<Rightarrow> 'l slm" where
  "m_set_lock l lk s = s\<lparr>m_lock := (m_lock s)(l := lk)\<rparr>"

text \<open>An spl function executed by processor \<open>c\<close>; \<open>None\<close> is a panic.\<close>

definition m_on_spl :: "nat \<Rightarrow> (splst, 'a) kfun \<Rightarrow> 'l slm \<Rightarrow> 'l slm option" where
  "m_on_spl c m s = (case m (m_spl s c) of Ok x p \<Rightarrow> Some (s\<lparr>m_spl := (m_spl s)(c := p)\<rparr>) | _ \<Rightarrow> None)"

definition m_acquire :: "nat \<Rightarrow> 'l \<Rightarrow> 'l slm \<Rightarrow> 'l slm option" where
  "m_acquire c l s =
    Option.bind (m_on_spl c (splraise IPL_NONE IPL_HIGH) s) (\<lambda>s.
    if lk_holder (m_lock s l) = Some c then None else Some (m_goto c (Spin_get l) s))"

definition m_release :: "nat \<Rightarrow> 'l \<Rightarrow> 'l slm \<Rightarrow> 'l slm option" where
  "m_release c l s =
    (if lk_holder (m_lock s l) = Some c
     then Some (m_goto c (Clear l) (m_set_lock l ((m_lock s l)\<lparr>lk_holder := None\<rparr>) (s\<lparr>m_held := (m_held s)(c := m_held s c - {l})\<rparr>)))
     else None)"

text \<open>The next statement of processor \<open>c\<close>; \<open>sc\<close> is the outcome of a store-conditional.\<close>

definition m_next :: "bool \<Rightarrow> nat \<Rightarrow> 'l slm \<Rightarrow> 'l slm option" where
  "m_next sc c s =
    (case m_pc s c of
       Outside \<Rightarrow> None
     | Spin_get l \<Rightarrow> Some (m_goto c (if spinlock_data_get (m_lock s l) \<noteq> 0 then Spin_get l else Spin_tas l) s)
     | Spin_tas l \<Rightarrow>
         (case spinlock_data_testandset sc (m_lock s l) of (x, lk) \<Rightarrow>
            Some (m_goto c (if x \<noteq> 0 then Spin_get l else Set_holder l) (m_set_lock l lk s)))
     | Set_holder l \<Rightarrow>
         Some (m_goto c Outside (m_set_lock l ((m_lock s l)\<lparr>lk_holder := Some c\<rparr>)
           (s\<lparr>m_held := (m_held s)(c := insert l (m_held s c))\<rparr>)))
     | Clear l \<Rightarrow> m_on_spl c (spllower IPL_HIGH IPL_NONE) (m_goto c Outside (m_set_lock l (spinlock_data_set 0 (m_lock s l)) s)))"

inductive sl_step :: "'l slm \<Rightarrow> 'l slm \<Rightarrow> bool" where
  acquire: "m_pc s c = Outside \<Longrightarrow> m_acquire c l s = Some s' \<Longrightarrow> sl_step s s'"
| release: "m_pc s c = Outside \<Longrightarrow> m_release c l s = Some s' \<Longrightarrow> sl_step s s'"
| set_spl: "m_pc s c = Outside \<Longrightarrow> spl \<in> {IPL_NONE, IPL_HIGH} \<Longrightarrow> m_on_spl c (splx spl) s = Some s' \<Longrightarrow> sl_step s s'"
| stmt: "m_next sc c s = Some s' \<Longrightarrow> sl_step s s'"

text \<open>Every processor starts with a thread as \<^verbatim>\<open>thread_create\<close> makes it, at the high level, and every lock is initialised.\<close>

definition sl_init :: "'l slm" where
  "sl_init = \<lparr>m_spl = (\<lambda>_. \<lparr>curcpu_exists = True, t_curspl = IPL_HIGH, t_iplhigh_count = 1, irq_on = False\<rparr>),
     m_pc = (\<lambda>_. Outside), m_lock = (\<lambda>_. \<lparr>lk_lock = 0, lk_holder = None\<rparr>), m_held = (\<lambda>_. {})\<rparr>"

inductive sl_reachable :: "'l slm \<Rightarrow> bool" where
  start: "sl_reachable sl_init"
| step: "sl_reachable s \<Longrightarrow> sl_step s s' \<Longrightarrow> sl_reachable s'"

lemma m_simps [simp]:
  "m_pc (m_goto c p s) = (m_pc s)(c := p)" "m_lock (m_goto c p s) = m_lock s" "m_held (m_goto c p s) = m_held s"
  "m_spl (m_goto c p s) = m_spl s" "m_lock (m_set_lock l lk s) = (m_lock s)(l := lk)" "m_pc (m_set_lock l lk s) = m_pc s"
  "m_held (m_set_lock l lk s) = m_held s" "m_spl (m_set_lock l lk s) = m_spl s"
  by (simp_all add: m_goto_def m_set_lock_def)

subsection \<open>Invariant\<close>

fun pc_lock :: "'l sl_pc \<Rightarrow> 'l option" where
  "pc_lock Outside = None" | "pc_lock (Spin_get l) = Some l" | "pc_lock (Spin_tas l) = Some l"
| "pc_lock (Set_holder l) = Some l" | "pc_lock (Clear l) = Some l"

fun pc_owns :: "'l sl_pc \<Rightarrow> 'l \<Rightarrow> bool" where
  "pc_owns (Set_holder l) k \<longleftrightarrow> k = l" | "pc_owns (Clear l) k \<longleftrightarrow> k = l" | "pc_owns p k \<longleftrightarrow> False"

text \<open>The locks for which the processor raised the level and did not lower it yet.\<close>

definition raised :: "'l slm \<Rightarrow> nat \<Rightarrow> nat" where
  "raised s c = card (m_held s c) + (if m_pc s c = Outside then 0 else 1)"

definition owns :: "'l slm \<Rightarrow> nat \<Rightarrow> 'l \<Rightarrow> bool" where
  "owns s c l \<longleftrightarrow> l \<in> m_held s c \<or> pc_owns (m_pc s c) l"

definition sl_cpu_ok :: "'l slm \<Rightarrow> nat \<Rightarrow> bool" where
  "sl_cpu_ok s c \<longleftrightarrow> spl_ok (raised s c) (m_spl s c) \<and> finite (m_held s c) \<and> (\<forall>l. pc_lock (m_pc s c) = Some l \<longrightarrow> l \<notin> m_held s c)"

definition sl_lock_ok :: "'l slm \<Rightarrow> 'l \<Rightarrow> bool" where
  "sl_lock_ok s l \<longleftrightarrow> (\<forall>c. lk_holder (m_lock s l) = Some c \<longleftrightarrow> l \<in> m_held s c) \<and>
     (lk_lock (m_lock s l) = 0 \<longrightarrow> (\<forall>c. \<not> owns s c l)) \<and> (\<forall>c d. owns s c l \<longrightarrow> owns s d l \<longrightarrow> c = d)"

lemma sl_lock_okD:
  assumes "sl_lock_ok s l"
  shows "lk_holder (m_lock s l) = Some c \<Longrightarrow> l \<in> m_held s c" "l \<in> m_held s c \<Longrightarrow> lk_holder (m_lock s l) = Some c"
    "lk_lock (m_lock s l) = 0 \<Longrightarrow> \<not> owns s c l" "owns s c l \<Longrightarrow> owns s d l \<Longrightarrow> c = d"
  using assms unfolding sl_lock_ok_def by blast+

definition sl_inv :: "'l slm \<Rightarrow> bool" where
  "sl_inv s \<longleftrightarrow> (\<forall>c. sl_cpu_ok s c) \<and> (\<forall>l. sl_lock_ok s l)"

text \<open>A step of processor \<open>c\<close> leaves the view of the others as it was.\<close>

lemma sl_cpu_frame:
  assumes "sl_cpu_ok s d" "m_spl s' d = m_spl s d" "m_pc s' d = m_pc s d" "m_held s' d = m_held s d"
  shows "sl_cpu_ok s' d"
  using assms by (simp add: sl_cpu_ok_def raised_def)

lemma sl_lock_frame:
  assumes "sl_lock_ok s l" "m_lock s' l = m_lock s l" "\<And>c. l \<in> m_held s' c \<longleftrightarrow> l \<in> m_held s c" "\<And>c. owns s' c l = owns s c l"
  shows "sl_lock_ok s' l"
  using assms by (simp add: sl_lock_ok_def)

lemma sl_acquire_inv:
  assumes inv: "sl_inv s" and pc: "m_pc s c = Outside" and step: "m_acquire c l s = Some s'"
  shows "sl_inv s'"
proof -
  have C: "sl_cpu_ok s c" "sl_lock_ok s l" using inv by (simp_all add: sl_inv_def)
  have "spl_ok (card (m_held s c)) (m_spl s c)" using C(1) pc by (simp add: sl_cpu_ok_def raised_def)
  from splraise_ok [OF this] obtain p where p: "splraise IPL_NONE IPL_HIGH (m_spl s c) = Ok () p" "spl_ok (Suc (card (m_held s c))) p"
    by blast
  have s': "s' = m_goto c (Spin_get l) (s\<lparr>m_spl := (m_spl s)(c := p)\<rparr>)" "lk_holder (m_lock s l) \<noteq> Some c"
    using step p(1) by (auto simp: m_acquire_def m_on_spl_def split: if_splits)
  have "sl_cpu_ok s' c" using p(2) s' C by (simp add: sl_cpu_ok_def raised_def sl_lock_ok_def)
  moreover have "sl_cpu_ok s' d" if "d \<noteq> c" for d
    by (rule sl_cpu_frame [of s]) (use inv that s' in \<open>simp_all add: sl_inv_def\<close>)
  moreover have "sl_lock_ok s' k" for k
    by (rule sl_lock_frame [of s]) (use inv s' pc in \<open>auto simp: sl_inv_def owns_def\<close>)
  ultimately show ?thesis unfolding sl_inv_def by metis
qed

lemma sl_release_inv:
  assumes inv: "sl_inv s" and pc: "m_pc s c = Outside" and step: "m_release c l s = Some s'"
  shows "sl_inv s'"
proof -
  have C: "sl_cpu_ok s c" "sl_lock_ok s l" using inv by (simp_all add: sl_inv_def)
  have h: "lk_holder (m_lock s l) = Some c" using step by (simp add: m_release_def split: if_splits)
  then have l: "l \<in> m_held s c" by (rule sl_lock_okD(1) [OF C(2)])
  have fin: "finite (m_held s c)" using C(1) by (simp add: sl_cpu_ok_def)
  have s': "m_spl s' = m_spl s" "m_pc s' = (m_pc s)(c := Clear l)" "m_held s' = (m_held s)(c := m_held s c - {l})"
      "m_lock s' = (m_lock s)(l := (m_lock s l)\<lparr>lk_holder := None\<rparr>)"
    using step h by (auto simp: m_release_def)
  have o: "owns s' d k = owns s d k" for d k using s' pc l by (auto simp: owns_def)
  have "0 < card (m_held s c)" using fin l by (auto simp: card_gt_0_iff)
  then have "raised s' c = raised s c" using s' pc l fin by (simp add: raised_def)
  then have "sl_cpu_ok s' c" using C(1) s' by (simp add: sl_cpu_ok_def)
  moreover have "sl_cpu_ok s' d" if "d \<noteq> c" for d
    by (rule sl_cpu_frame [of s]) (use inv that s' in \<open>simp_all add: sl_inv_def\<close>)
  moreover have "sl_lock_ok s' k" if "k \<noteq> l" for k
    by (rule sl_lock_frame [of s]) (use inv s' that o in \<open>simp_all add: sl_inv_def\<close>)
  moreover have "sl_lock_ok s' l"
  proof -
    have "l \<notin> m_held s d" if "d \<noteq> c" for d using sl_lock_okD(2) [OF C(2), of d] h that by auto
    then show ?thesis using C(2) s' o by (simp add: sl_lock_ok_def)
  qed
  ultimately show ?thesis unfolding sl_inv_def by metis
qed

lemma sl_splx_inv:
  assumes inv: "sl_inv s" and pc: "m_pc s c = Outside" and spl: "spl \<in> {IPL_NONE, IPL_HIGH}" and step: "m_on_spl c (splx spl) s = Some s'"
  shows "sl_inv s'"
proof -
  have C: "sl_cpu_ok s c" using inv by (simp add: sl_inv_def)
  then obtain p where p: "splx spl (m_spl s c) = Ok (t_curspl (m_spl s c)) p" "spl_ok (raised s c) p"
    using splx_ok [OF _ spl] by (auto simp: sl_cpu_ok_def)
  have s': "s' = s\<lparr>m_spl := (m_spl s)(c := p)\<rparr>" using step p(1) by (simp add: m_on_spl_def)
  have "sl_cpu_ok s' c" using p(2) s' C by (simp add: sl_cpu_ok_def raised_def)
  moreover have "sl_cpu_ok s' d" if "d \<noteq> c" for d
    by (rule sl_cpu_frame [of s]) (use inv that s' in \<open>simp_all add: sl_inv_def\<close>)
  moreover have "sl_lock_ok s' k" for k
    by (rule sl_lock_frame [of s]) (use inv s' in \<open>simp_all add: sl_inv_def owns_def\<close>)
  ultimately show ?thesis unfolding sl_inv_def by metis
qed

text \<open>A step of processor \<open>c\<close> on lock \<open>l\<close> needs a look at that processor and that lock only.\<close>

lemma sl_inv_change:
  assumes inv: "sl_inv s" and pc: "pc_lock (m_pc s c) = Some l"
    and new: "sl_cpu_ok s' c" "sl_lock_ok s' l"
    and cpus: "\<And>d. d \<noteq> c \<Longrightarrow> m_spl s' d = m_spl s d \<and> m_pc s' d = m_pc s d \<and> m_held s' d = m_held s d"
    and locks: "\<And>k. k \<noteq> l \<Longrightarrow> m_lock s' k = m_lock s k \<and> (k \<in> m_held s' c \<longleftrightarrow> k \<in> m_held s c)"
    and pc': "pc_lock (m_pc s' c) = Some l \<or> m_pc s' c = Outside"
  shows "sl_inv s'"
proof -
  have own: "pc_owns p k \<Longrightarrow> pc_lock p = Some k" for p :: "'a sl_pc" and k by (cases p) simp_all
  have o: "owns s' d k = owns s d k" "k \<in> m_held s' d \<longleftrightarrow> k \<in> m_held s d" if "k \<noteq> l" for d k
    using that cpus [of d] locks [of k] pc' pc own [of "m_pc s' c" k] own [of "m_pc s c" k] by (cases "d = c"; auto simp: owns_def)+
  have "sl_cpu_ok s' d" for d
    using new(1) cpus [of d] sl_cpu_frame [of s d s'] inv by (cases "d = c") (simp_all add: sl_inv_def)
  moreover have "sl_lock_ok s' k" for k
    using new(2) locks [of k] sl_lock_frame [of s k s'] inv o by (cases "k = l") (simp_all add: sl_inv_def)
  ultimately show ?thesis by (simp add: sl_inv_def)
qed

lemma sl_next_inv:
  assumes inv: "sl_inv s" and step: "m_next sc c s = Some s'"
  shows "sl_inv s'"
proof -
  have C: "sl_cpu_ok s c" using inv by (simp add: sl_inv_def)
  have L: "sl_lock_ok s k" for k using inv by (simp add: sl_inv_def)
  obtain l where pc: "pc_lock (m_pc s c) = Some l" using step by (cases "m_pc s c") (auto simp: m_next_def)
  then have busy: "m_pc s c \<noteq> Outside" and l: "l \<notin> m_held s c" using C by (auto simp: sl_cpu_ok_def)
  have spl: "spl_ok (Suc (card (m_held s c))) (m_spl s c)" using C busy by (simp add: sl_cpu_ok_def raised_def)
  have fin: "finite (m_held s c)" using C by (simp add: sl_cpu_ok_def)
  note D = sl_inv_change [OF inv pc]
  show ?thesis
  proof (cases "m_pc s c")
    case (Spin_get l')
    then have s': "s' = m_goto c (if lk_lock (m_lock s l) \<noteq> 0 then Spin_get l else Spin_tas l) s"
      using step pc by (auto simp: m_next_def spinlock_data_get_def)
    have "owns s' d l = owns s d l" for d using s' Spin_get by (auto simp: owns_def)
    then have "sl_lock_ok s' l" using sl_lock_frame [OF L, of s' l] s' by simp
    then show ?thesis using s' spl fin l by (intro D) (auto simp: sl_cpu_ok_def raised_def)
  next
    case (Spin_tas l')
    then have l': "l' = l" using pc by simp
    show ?thesis
    proof (cases "sc \<and> lk_lock (m_lock s l) = 0")
      case True
      then have s': "s' = m_goto c (Set_holder l) (m_set_lock l ((m_lock s l)\<lparr>lk_lock := 1\<rparr>) s)"
        using step Spin_tas l' by (simp add: m_next_def spinlock_data_testandset_def)
      have "\<not> owns s d l" for d using L [of l] True by (simp add: sl_lock_ok_def)
      then have "owns s' d l \<longleftrightarrow> d = c" for d using s' l by (auto simp: owns_def)
      then have "sl_lock_ok s' l" using L [of l] s' by (simp add: sl_lock_ok_def)
      then show ?thesis using s' spl fin l by (intro D) (auto simp: sl_cpu_ok_def raised_def)
    next
      case False
      then have s': "m_pc s' = (m_pc s)(c := Spin_get l)" "m_held s' = m_held s" "m_spl s' = m_spl s"
          "\<And>k. k \<noteq> l \<Longrightarrow> m_lock s' k = m_lock s k" "lk_holder (m_lock s' l) = lk_holder (m_lock s l)"
          "lk_lock (m_lock s' l) = 0 \<longrightarrow> lk_lock (m_lock s l) = 0"
        using step Spin_tas l' by (auto simp: m_next_def spinlock_data_testandset_def split: if_splits)
      have "owns s' d l = owns s d l" for d using s'(1,2) Spin_tas by (auto simp: owns_def)
      then have "sl_lock_ok s' l" using L [of l] s' by (simp add: sl_lock_ok_def)
      then show ?thesis using s' spl fin l by (intro D) (auto simp: sl_cpu_ok_def raised_def)
    qed
  next
    case (Set_holder l')
    then have s': "s' = m_goto c Outside (m_set_lock l ((m_lock s l)\<lparr>lk_holder := Some c\<rparr>) (s\<lparr>m_held := (m_held s)(c := insert l (m_held s c))\<rparr>))"
      using step pc by (auto simp: m_next_def)
    have own: "owns s c l" using Set_holder pc by (simp add: owns_def)
    have o: "owns s' d l = owns s d l" for d using s' Set_holder pc by (auto simp: owns_def)
    have "l \<notin> m_held s d" if "d \<noteq> c" for d using L [of l] own that unfolding sl_lock_ok_def owns_def by blast
    then have "sl_lock_ok s' l" using L [of l] s' o by (auto simp: sl_lock_ok_def)
    then show ?thesis using s' spl fin l by (intro D) (auto simp: sl_cpu_ok_def raised_def)
  next
    case (Clear l')
    from spllower_ok [OF spl] obtain p where p: "spllower IPL_HIGH IPL_NONE (m_spl s c) = Ok () p" "spl_ok (card (m_held s c)) p"
      by blast
    then have s': "s' = (m_goto c Outside (m_set_lock l ((m_lock s l)\<lparr>lk_lock := 0\<rparr>) s))\<lparr>m_spl := (m_spl s)(c := p)\<rparr>"
      using step pc Clear by (simp add: m_next_def m_on_spl_def spinlock_data_set_def)
    have own: "owns s c l" using Clear pc by (simp add: owns_def)
    then have "\<not> owns s' d l" for d using L [of l] s' l unfolding sl_lock_ok_def by (cases "d = c") (auto simp: owns_def)
    then have "sl_lock_ok s' l" using L [of l] s' by (simp add: sl_lock_ok_def)
    then show ?thesis using s' p(2) fin l by (intro D) (auto simp: sl_cpu_ok_def raised_def)
  qed (use pc in simp)
qed

lemma sl_reachable_inv: "sl_reachable s \<Longrightarrow> sl_inv s"
proof (induction rule: sl_reachable.induct)
  case start
  show ?case
    by (auto simp: sl_inv_def sl_init_def sl_cpu_ok_def sl_lock_ok_def spl_ok_def raised_def owns_def IPL_HIGH_def)
next
  case (step s s')
  from step.hyps(2) show ?case
    by cases (use step.IH in \<open>blast intro: sl_acquire_inv sl_release_inv sl_splx_inv sl_next_inv\<close>)+
qed

text \<open>
  C9: Spinlocks exclude processors and interrupts. In every state that any number of processors reach by executing
  \<^verbatim>\<open>spinlock_acquire\<close>, \<^verbatim>\<open>spinlock_release\<close> and \<^verbatim>\<open>splx\<close> in any interleaving, no two processors hold the same lock, interrupts
  are off on every processor that holds one, \<^verbatim>\<open>t_iplhigh_count\<close> is the number of locks held (with the one in progress)
  plus the level set by \<^verbatim>\<open>splx\<close>, and a call of acquire or release panics exactly when the processor already holds the lock
  or does not hold it.
\<close>

theorem spinlock_excludes:
  assumes "sl_reachable s"
  shows "(l \<in> m_held s c \<and> l \<in> m_held s d \<longrightarrow> c = d) \<and> (l \<in> m_held s c \<longrightarrow> \<not> irq_on (m_spl s c)) \<and>
    t_iplhigh_count (m_spl s c) = int (card (m_held s c) + (if m_pc s c = Outside then 0 else 1)) + t_curspl (m_spl s c) \<and>
    (irq_on (m_spl s c) \<longleftrightarrow> t_iplhigh_count (m_spl s c) = 0) \<and>
    (m_pc s c = Outside \<longrightarrow> (m_acquire c l s = None \<longleftrightarrow> l \<in> m_held s c) \<and> (m_release c l s = None \<longleftrightarrow> l \<notin> m_held s c))"
proof -
  have C: "sl_cpu_ok s c" and L: "sl_lock_ok s l" using sl_reachable_inv [OF assms] by (simp_all add: sl_inv_def)
  have spl: "spl_ok (raised s c) (m_spl s c)" and fin: "finite (m_held s c)" using C by (simp_all add: sl_cpu_ok_def)
  have h: "lk_holder (m_lock s l) = Some c \<longleftrightarrow> l \<in> m_held s c" and u: "owns s c l \<longrightarrow> owns s d l \<longrightarrow> c = d"
    using L unfolding sl_lock_ok_def by blast+
  have "\<not> irq_on (m_spl s c)" if "l \<in> m_held s c"
  proof -
    have "0 < card (m_held s c)" using fin that by (auto simp: card_gt_0_iff)
    then show ?thesis using spl by (auto simp: spl_ok_def raised_def IPL_NONE_def IPL_HIGH_def)
  qed
  moreover have "m_acquire c l s = None \<longleftrightarrow> l \<in> m_held s c"
    using splraise_ok [OF spl] h by (auto simp: m_acquire_def m_on_spl_def)
  moreover have "m_release c l s = None \<longleftrightarrow> l \<notin> m_held s c" using h by (simp add: m_release_def)
  ultimately show ?thesis using spl u by (auto simp: spl_ok_def raised_def owns_def)
qed

text \<open>A schedule of calls and statements, to exhibit concrete states.\<close>

datatype 'l sl_act = Do_acquire nat 'l | Do_release nat 'l | Do_stmt bool nat

fun sl_do :: "'l sl_act \<Rightarrow> 'l slm \<Rightarrow> 'l slm option" where
  "sl_do (Do_acquire c l) s = (if m_pc s c = Outside then m_acquire c l s else None)"
| "sl_do (Do_release c l) s = (if m_pc s c = Outside then m_release c l s else None)"
| "sl_do (Do_stmt sc c) s = m_next sc c s"

fun sl_dos :: "'l sl_act list \<Rightarrow> 'l slm \<Rightarrow> 'l slm option" where
  "sl_dos [] s = Some s"
| "sl_dos (a # as) s = Option.bind (sl_do a s) (sl_dos as)"

lemma sl_dos_reachable: "sl_dos as s = Some s' \<Longrightarrow> sl_reachable s \<Longrightarrow> sl_reachable s'"
proof (induction as arbitrary: s)
  case (Cons a as)
  then obtain s1 where s1: "sl_do a s = Some s1" "sl_dos as s1 = Some s'" by (auto simp: Option.bind_eq_Some_conv)
  then have "sl_step s s1" by (cases a) (auto intro: sl_step.intros split: if_splits)
  then show ?case using Cons.IH [OF s1(2)] Cons.prems by (auto intro: sl_reachable.step)
qed simp

text \<open>Processor 0 takes lock 7, after a failed store-conditional, while processor 1 spins on it.\<close>

definition sl_sample :: "nat sl_act list" where
  "sl_sample = [Do_acquire 0 7, Do_stmt True 0, Do_stmt False 0, Do_stmt True 0, Do_stmt True 0, Do_stmt True 0, Do_acquire 1 7, Do_stmt True 1]"

theorem spinlock_excludes_witness:
  "\<exists>s. sl_dos sl_sample sl_init = Some s \<and> 7 \<in> m_held s 0 \<and> m_pc s 1 = Spin_get 7 \<and> \<not> irq_on (m_spl s 0)"
proof -
  have "\<exists>s. sl_dos sl_sample sl_init = Some s \<and> 7 \<in> m_held s 0 \<and> m_pc s 1 = Spin_get 7"
    by (simp add: sl_sample_def sl_init_def m_acquire_def m_next_def m_on_spl_def spl_defs kfun_defs m_goto_def m_set_lock_def
        spinlock_data_get_def spinlock_data_testandset_def)
  then obtain s where s: "sl_dos sl_sample sl_init = Some s" "7 \<in> m_held s 0" "m_pc s 1 = Spin_get 7" by blast
  then show ?thesis using spinlock_excludes [OF sl_dos_reachable [OF s(1) sl_reachable.start], of 7 0] by auto
qed

end
