(* ===== verification/Fifo.thy ===== *)
theory Fifo
  imports Kernel_Base
begin

text \<open>
  The contract shared by the first-in first-out containers of the kernel, the pointer queue of
  \<^verbatim>\<open>lib/queue.c\<close> and the thread list of \<^verbatim>\<open>thread/threadlist.c\<close>: both are interpreted
  in their own theories. A \<open>session\<close> is a sequence of insertions and removals; its outcome is
  compared with the same sequence on a list.
\<close>

datatype 'a fifo_op = Insert 'a | Remove

fun fifo_spec :: "'a fifo_op list \<Rightarrow> 'a list \<Rightarrow> ('a list \<times> 'a list) option" where
  "fifo_spec [] xs = Some ([], xs)"
| "fifo_spec (Insert x # ops) xs = fifo_spec ops (xs @ [x])"
| "fifo_spec (Remove # ops) [] = None"
| "fifo_spec (Remove # ops) (x # xs) = map_option (\<lambda>(out, ys). (x # out, ys)) (fifo_spec ops xs)"

locale fifo =
  fixes enq :: "'a \<Rightarrow> ('q, unit) kfun"
    and deq :: "('q, 'a) kfun"
    and items :: "'q \<Rightarrow> 'a list"
    and fifo_inv :: "'q \<Rightarrow> bool"
    and can_enq :: "'a \<Rightarrow> 'a list \<Rightarrow> bool"
  assumes enq_law: "fifo_inv q \<Longrightarrow> can_enq x (items q) \<Longrightarrow>
      \<exists>q'. enq x q = Ok () q' \<and> fifo_inv q' \<and> items q' = items q @ [x]"
    and deq_law: "fifo_inv q \<Longrightarrow> items q = x # xs \<Longrightarrow>
      \<exists>q'. deq q = Ok x q' \<and> fifo_inv q' \<and> items q' = xs"
begin

fun session :: "'a fifo_op list \<Rightarrow> ('q, 'a list) kfun" where
  "session [] = kret []"
| "session (Insert x # ops) = kbind (enq x) (\<lambda>_. session ops)"
| "session (Remove # ops) = kbind deq (\<lambda>x. kbind (session ops) (\<lambda>xs. kret (x # xs)))"

fun admissible :: "'a fifo_op list \<Rightarrow> 'a list \<Rightarrow> bool" where
  "admissible [] xs \<longleftrightarrow> True"
| "admissible (Insert x # ops) xs \<longleftrightarrow> can_enq x xs \<and> admissible ops (xs @ [x])"
| "admissible (Remove # ops) xs \<longleftrightarrow> xs \<noteq> [] \<and> admissible ops (tl xs)"

lemma session_refines:
  assumes "fifo_inv q" "admissible ops (items q)" "fifo_spec ops (items q) = Some (out, ys)"
  shows "\<exists>q'. session ops q = Ok out q' \<and> fifo_inv q' \<and> items q' = ys"
  using assms
proof (induction ops arbitrary: q out)
  case Nil
  then show ?case by (simp add: kret_def)
next
  case (Cons op ops)
  show ?case
  proof (cases op)
    case (Insert x)
    with Cons.prems have c: "can_enq x (items q)" by simp
    from enq_law [OF Cons.prems(1) c] obtain q1 where
      q1: "enq x q = Ok () q1" "fifo_inv q1" "items q1 = items q @ [x]" by blast
    have "\<exists>q'. session ops q1 = Ok out q' \<and> fifo_inv q' \<and> items q' = ys"
      using Cons.IH [OF q1(2), of out] Cons.prems(2,3) Insert q1(3) by simp
    then show ?thesis using q1(1) Insert by (auto simp: kbind_def)
  next
    case Remove
    with Cons.prems obtain x xs out' where
      x: "items q = x # xs" "fifo_spec ops xs = Some (out', ys)" "out = x # out'" "admissible ops xs"
      by (cases "items q") auto
    from deq_law [OF Cons.prems(1) x(1)] obtain q1 where
      q1: "deq q = Ok x q1" "fifo_inv q1" "items q1 = xs" by blast
    have "\<exists>q'. session ops q1 = Ok out' q' \<and> fifo_inv q' \<and> items q' = ys"
      using Cons.IH [OF q1(2), of out'] x q1(3) by simp
    then show ?thesis using q1(1) Remove x(3) by (auto simp: kbind_def kret_def)
  qed
qed

end

end
