(* ===== verification/Threadlist.thy ===== *)
theory Threadlist
  imports Fifo
begin

text \<open>
  Thread lists (\<^verbatim>\<open>thread/threadlist.c\<close>, \<^verbatim>\<open>include/threadlist.h\<close>): doubly linked lists whose nodes are
  embedded in the threads, between two nodes embedded in the list. The model is a store of nodes,
  addressed by pointers, with every assignment of the source as an update of the store. The theorems
  relate the store to an abstract state, one sequence of threads per list.
\<close>

section \<open>Model\<close>

text \<open>Pointers to nodes: the two bookends of list \<open>l\<close>, and the node inside thread \<open>t\<close>.\<close>

datatype tlptr = Tl_head nat | Tl_tail nat | T_listnode nat

record threadlistnode =
  tln_prev :: "tlptr option"
  tln_next :: "tlptr option"
  tln_self :: "nat option"

record threadlists =
  tl_node :: "tlptr \<Rightarrow> threadlistnode"
  tl_count :: "nat \<Rightarrow> nat"

text \<open>Reading and writing a field through a pointer; following a null pointer is a fault.\<close>

definition get_prev :: "tlptr \<Rightarrow> (threadlists, tlptr option) kfun" where
  "get_prev p = kget (\<lambda>s. tln_prev (tl_node s p))"

definition get_next :: "tlptr \<Rightarrow> (threadlists, tlptr option) kfun" where
  "get_next p = kget (\<lambda>s. tln_next (tl_node s p))"

definition get_self :: "tlptr \<Rightarrow> (threadlists, nat option) kfun" where
  "get_self p = kget (\<lambda>s. tln_self (tl_node s p))"

definition set_prev :: "tlptr \<Rightarrow> tlptr option \<Rightarrow> (threadlists, unit) kfun" where
  "set_prev p x = kmod (\<lambda>s. s\<lparr>tl_node := (tl_node s)(p := (tl_node s p)\<lparr>tln_prev := x\<rparr>)\<rparr>)"

definition set_next :: "tlptr \<Rightarrow> tlptr option \<Rightarrow> (threadlists, unit) kfun" where
  "set_next p x = kmod (\<lambda>s. s\<lparr>tl_node := (tl_node s)(p := (tl_node s p)\<lparr>tln_next := x\<rparr>)\<rparr>)"

definition set_self :: "tlptr \<Rightarrow> nat option \<Rightarrow> (threadlists, unit) kfun" where
  "set_self p x = kmod (\<lambda>s. s\<lparr>tl_node := (tl_node s)(p := (tl_node s p)\<lparr>tln_self := x\<rparr>)\<rparr>)"

definition set_count :: "nat \<Rightarrow> (nat \<Rightarrow> nat) \<Rightarrow> (threadlists, unit) kfun" where
  "set_count l f = kmod (\<lambda>s. s\<lparr>tl_count := (tl_count s)(l := f (tl_count s l))\<rparr>)"

definition deref :: "tlptr option \<Rightarrow> ('s, tlptr) kfun" where
  "deref p = (case p of None \<Rightarrow> kpanic | Some q \<Rightarrow> kret q)"

lemmas tl_access = get_prev_def get_next_def get_self_def set_prev_def set_next_def set_self_def set_count_def

definition threadlistnode_init :: "nat \<Rightarrow> (threadlists, unit) kfun" where
  "threadlistnode_init t =
    kbind (set_next (T_listnode t) None) (\<lambda>_.
    kbind (set_prev (T_listnode t) None) (\<lambda>_.
    set_self (T_listnode t) (Some t)))"

definition threadlistnode_cleanup :: "nat \<Rightarrow> (threadlists, unit) kfun" where
  "threadlistnode_cleanup t =
    kbind (get_next (T_listnode t)) (\<lambda>n.
    kbind (kassert (n = None)) (\<lambda>_.
    kbind (get_prev (T_listnode t)) (\<lambda>p.
    kbind (kassert (p = None)) (\<lambda>_.
    kbind (get_self (T_listnode t)) (\<lambda>x.
    kassert (x \<noteq> None))))))"

definition threadlist_init :: "nat \<Rightarrow> (threadlists, unit) kfun" where
  "threadlist_init l =
    kbind (set_next (Tl_head l) (Some (Tl_tail l))) (\<lambda>_.
    kbind (set_prev (Tl_head l) None) (\<lambda>_.
    kbind (set_next (Tl_tail l) None) (\<lambda>_.
    kbind (set_prev (Tl_tail l) (Some (Tl_head l))) (\<lambda>_.
    kbind (set_self (Tl_head l) None) (\<lambda>_.
    kbind (set_self (Tl_tail l) None) (\<lambda>_.
    set_count l (\<lambda>_. 0)))))))"

definition threadlist_isempty :: "nat \<Rightarrow> (threadlists, bool) kfun" where
  "threadlist_isempty l = kget (\<lambda>s. tl_count s l = 0)"

definition threadlist_cleanup :: "nat \<Rightarrow> (threadlists, unit) kfun" where
  "threadlist_cleanup l =
    kbind (threadlist_isempty l) (\<lambda>b.
    kbind (kassert b) (\<lambda>_.
    kbind (kget (\<lambda>s. tl_count s l)) (\<lambda>n.
    kassert (n = 0))))"

definition threadlist_insertafternode :: "tlptr \<Rightarrow> nat \<Rightarrow> (threadlists, unit) kfun" where
  "threadlist_insertafternode onlist t =
    (let addee = T_listnode t in
     kbind (set_prev addee (Some onlist)) (\<lambda>_.
     kbind (get_next onlist) (\<lambda>n.
     kbind (set_next addee n) (\<lambda>_.
     kbind (get_prev addee) (\<lambda>p.
     kbind (deref p) (\<lambda>p.
     kbind (set_next p (Some addee)) (\<lambda>_.
     kbind (get_next addee) (\<lambda>n.
     kbind (deref n) (\<lambda>n.
     set_prev n (Some addee))))))))))"

definition threadlist_insertbeforenode :: "nat \<Rightarrow> tlptr \<Rightarrow> (threadlists, unit) kfun" where
  "threadlist_insertbeforenode t onlist =
    (let addee = T_listnode t in
     kbind (get_prev onlist) (\<lambda>p.
     kbind (set_prev addee p) (\<lambda>_.
     kbind (set_next addee (Some onlist)) (\<lambda>_.
     kbind (get_prev addee) (\<lambda>p.
     kbind (deref p) (\<lambda>p.
     kbind (set_next p (Some addee)) (\<lambda>_.
     kbind (get_next addee) (\<lambda>n.
     kbind (deref n) (\<lambda>n.
     set_prev n (Some addee))))))))))"

definition threadlist_removenode :: "tlptr \<Rightarrow> (threadlists, unit) kfun" where
  "threadlist_removenode tln =
    kbind (get_prev tln) (\<lambda>p.
    kbind (deref p) (\<lambda>p.
    kbind (get_next tln) (\<lambda>n.
    kbind (set_next p n) (\<lambda>_.
    kbind (get_next tln) (\<lambda>n.
    kbind (deref n) (\<lambda>n.
    kbind (get_prev tln) (\<lambda>p.
    kbind (set_prev n p) (\<lambda>_.
    kbind (set_prev tln None) (\<lambda>_.
    set_next tln None)))))))))"

definition threadlist_addhead :: "nat \<Rightarrow> nat \<Rightarrow> (threadlists, unit) kfun" where
  "threadlist_addhead l t =
    kbind (threadlist_insertafternode (Tl_head l) t) (\<lambda>_. set_count l (\<lambda>n. add32 n 1))"

definition threadlist_addtail :: "nat \<Rightarrow> nat \<Rightarrow> (threadlists, unit) kfun" where
  "threadlist_addtail l t =
    kbind (threadlist_insertbeforenode t (Tl_tail l)) (\<lambda>_. set_count l (\<lambda>n. add32 n 1))"

definition threadlist_remhead :: "nat \<Rightarrow> (threadlists, nat option) kfun" where
  "threadlist_remhead l =
    kbind (get_next (Tl_head l)) (\<lambda>tln.
    kbind (deref tln) (\<lambda>tln.
    kbind (get_next tln) (\<lambda>n.
    if n = None then kret None
    else
      kbind (threadlist_removenode tln) (\<lambda>_.
      kbind (set_count l (\<lambda>n. sub32 n 1)) (\<lambda>_.
      get_self tln)))))"

definition threadlist_remtail :: "nat \<Rightarrow> (threadlists, nat option) kfun" where
  "threadlist_remtail l =
    kbind (get_prev (Tl_tail l)) (\<lambda>tln.
    kbind (deref tln) (\<lambda>tln.
    kbind (get_prev tln) (\<lambda>p.
    if p = None then kret None
    else
      kbind (threadlist_removenode tln) (\<lambda>_.
      kbind (set_count l (\<lambda>n. sub32 n 1)) (\<lambda>_.
      get_self tln)))))"

definition threadlist_insertafter :: "nat \<Rightarrow> nat \<Rightarrow> nat \<Rightarrow> (threadlists, unit) kfun" where
  "threadlist_insertafter l onlist addee =
    kbind (threadlist_insertafternode (T_listnode onlist) addee) (\<lambda>_. set_count l (\<lambda>n. add32 n 1))"

definition threadlist_insertbefore :: "nat \<Rightarrow> nat \<Rightarrow> nat \<Rightarrow> (threadlists, unit) kfun" where
  "threadlist_insertbefore l addee onlist =
    kbind (threadlist_insertbeforenode addee (T_listnode onlist)) (\<lambda>_. set_count l (\<lambda>n. add32 n 1))"

definition threadlist_remove :: "nat \<Rightarrow> nat \<Rightarrow> (threadlists, unit) kfun" where
  "threadlist_remove l t =
    kbind (threadlist_removenode (T_listnode t)) (\<lambda>_. set_count l (\<lambda>n. sub32 n 1))"

section \<open>Linked nodes\<close>

fun dll :: "(tlptr \<Rightarrow> threadlistnode) \<Rightarrow> tlptr list \<Rightarrow> bool" where
  "dll N (p # q # ps) \<longleftrightarrow> tln_next (N p) = Some q \<and> tln_prev (N q) = Some p \<and> dll N (q # ps)"
| "dll N ps \<longleftrightarrow> True"

lemma dll_append: "dll N (xs @ p # ys) \<longleftrightarrow> dll N (xs @ [p]) \<and> dll N (p # ys)"
proof (induction xs)
  case (Cons x xs)
  then show ?case by (cases xs) auto
qed simp

lemma dll_cong:
  "(\<And>p. p \<in> set (butlast ps) \<Longrightarrow> tln_next (N' p) = tln_next (N p)) \<Longrightarrow>
   (\<And>p. p \<in> set (tl ps) \<Longrightarrow> tln_prev (N' p) = tln_prev (N p)) \<Longrightarrow> dll N' ps = dll N ps"
proof (induction N ps rule: dll.induct)
  case (1 N p q ps)
  have "dll N' (q # ps) = dll N (q # ps)" using 1(2,3) by (intro 1(1)) (auto simp: list.set_sel(2))
  then show ?case using 1(2) [of p] 1(3) [of q] by simp
qed simp_all

text \<open>Linking node \<open>n\<close> between its neighbours \<open>p\<close> and \<open>q\<close>, and unlinking it.\<close>

definition link :: "(tlptr \<Rightarrow> threadlistnode) \<Rightarrow> tlptr \<Rightarrow> tlptr \<Rightarrow> tlptr \<Rightarrow> tlptr \<Rightarrow> threadlistnode" where
  "link N p n q = N(n := (N n)\<lparr>tln_prev := Some p, tln_next := Some q\<rparr>, p := (N p)\<lparr>tln_next := Some n\<rparr>,
     q := (N q)\<lparr>tln_prev := Some n\<rparr>)"

definition unlink :: "(tlptr \<Rightarrow> threadlistnode) \<Rightarrow> tlptr \<Rightarrow> tlptr \<Rightarrow> tlptr \<Rightarrow> tlptr \<Rightarrow> threadlistnode" where
  "unlink N p n q = N(p := (N p)\<lparr>tln_next := Some q\<rparr>, q := (N q)\<lparr>tln_prev := Some p\<rparr>,
     n := (N n)\<lparr>tln_prev := None, tln_next := None\<rparr>)"

lemma link_other: "x \<noteq> p \<Longrightarrow> x \<noteq> n \<Longrightarrow> x \<noteq> q \<Longrightarrow> link N p n q x = N x"
  by (simp add: link_def)

lemma unlink_other: "x \<noteq> p \<Longrightarrow> x \<noteq> n \<Longrightarrow> x \<noteq> q \<Longrightarrow> unlink N p n q x = N x"
  by (simp add: unlink_def)

lemma link_self [simp]: "tln_self (link N p n q x) = tln_self (N x)" "tln_self (unlink N p n q x) = tln_self (N x)"
  by (simp_all add: link_def unlink_def)

lemma dll_link:
  assumes "dll N (xs @ p # q # ys)" "distinct (xs @ p # n # q # ys)"
  shows "dll (link N p n q) (xs @ p # n # q # ys)"
proof -
  have "dll N (xs @ [p])" "dll N (q # ys)" using assms(1) dll_append [of N xs p "q # ys"] by simp_all
  moreover have "dll (link N p n q) (xs @ [p]) = dll N (xs @ [p])"
    using assms(2) by (intro dll_cong) (cases xs; auto simp: link_def)+
  moreover have "dll (link N p n q) (q # ys) = dll N (q # ys)"
    using assms(2) by (intro dll_cong) (auto simp: link_def dest: in_set_butlastD split: if_splits)
  moreover have "dll (link N p n q) (p # n # q # ys) = dll (link N p n q) (q # ys)"
    using assms(2) by (auto simp: link_def)
  ultimately show ?thesis using dll_append [of "link N p n q" xs p "n # q # ys"] by simp
qed

lemma dll_unlink:
  assumes "dll N (xs @ p # n # q # ys)" "distinct (xs @ p # n # q # ys)"
  shows "dll (unlink N p n q) (xs @ p # q # ys)"
proof -
  have "dll N (xs @ [p])" "dll N (q # ys)" using assms(1) dll_append [of N xs p "n # q # ys"] by simp_all
  moreover have "dll (unlink N p n q) (xs @ [p]) = dll N (xs @ [p])"
    using assms(2) by (intro dll_cong) (cases xs; auto simp: unlink_def)+
  moreover have "dll (unlink N p n q) (q # ys) = dll N (q # ys)"
    using assms(2) by (intro dll_cong) (auto simp: unlink_def dest: in_set_butlastD split: if_splits)
  moreover have "dll (unlink N p n q) (p # q # ys) = dll (unlink N p n q) (q # ys)"
    using assms(2) by (auto simp: unlink_def)
  ultimately show ?thesis using dll_append [of "unlink N p n q" xs p "q # ys"] by simp
qed

lemma insertafternode_run:
  assumes "tln_next (tl_node s p) = Some q" "p \<noteq> q" "T_listnode t \<noteq> p" "T_listnode t \<noteq> q"
  shows "threadlist_insertafternode p t s = Ok () (s\<lparr>tl_node := link (tl_node s) p (T_listnode t) q\<rparr>)"
  using assms by (auto simp: threadlist_insertafternode_def Let_def tl_access kfun_defs deref_def link_def fun_eq_iff)

lemma insertbeforenode_run:
  assumes "tln_prev (tl_node s q) = Some p" "p \<noteq> q" "T_listnode t \<noteq> p" "T_listnode t \<noteq> q"
  shows "threadlist_insertbeforenode t q s = Ok () (s\<lparr>tl_node := link (tl_node s) p (T_listnode t) q\<rparr>)"
  using assms by (auto simp: threadlist_insertbeforenode_def Let_def tl_access kfun_defs deref_def link_def fun_eq_iff)

lemma removenode_run:
  assumes "tln_prev (tl_node s n) = Some p" "tln_next (tl_node s n) = Some q" "p \<noteq> q" "n \<noteq> p" "n \<noteq> q"
  shows "threadlist_removenode n s = Ok () (s\<lparr>tl_node := unlink (tl_node s) p n q\<rparr>)"
  using assms by (auto simp: threadlist_removenode_def tl_access kfun_defs deref_def unlink_def fun_eq_iff)

section \<open>Representation of sequences of threads\<close>

definition tl_seq :: "nat \<Rightarrow> nat list \<Rightarrow> tlptr list" where
  "tl_seq l ts = Tl_head l # map T_listnode ts @ [Tl_tail l]"

text \<open>The node before and the node after a position of a list.\<close>

definition tl_before :: "nat \<Rightarrow> nat list \<Rightarrow> tlptr" where
  "tl_before l ts = last (Tl_head l # map T_listnode ts)"

definition tl_after :: "nat \<Rightarrow> nat list \<Rightarrow> tlptr" where
  "tl_after l ts = hd (map T_listnode ts @ [Tl_tail l])"

definition tl_list :: "threadlists \<Rightarrow> nat \<Rightarrow> nat list \<Rightarrow> bool" where
  "tl_list s l ts \<longleftrightarrow> dll (tl_node s) (tl_seq l ts) \<and> distinct ts \<and>
     tln_prev (tl_node s (Tl_head l)) = None \<and> tln_next (tl_node s (Tl_tail l)) = None \<and>
     tln_self (tl_node s (Tl_head l)) = None \<and> tln_self (tl_node s (Tl_tail l)) = None \<and>
     tl_count s l = length ts \<and> length ts < 2 ^ 32"

text \<open>
  The abstract state: the sequence of every initialised list, and the set of threads whose node was
  initialised. A thread is on at most one list, once; the node of a thread on no list is not linked.
\<close>

type_synonym tl_abs = "(nat \<rightharpoonup> nat list) \<times> nat set"

definition unlisted :: "(nat \<rightharpoonup> nat list) \<Rightarrow> nat \<Rightarrow> bool" where
  "unlisted L t \<longleftrightarrow> (\<forall>l ts. L l = Some ts \<longrightarrow> t \<notin> set ts)"

fun tl_rep :: "threadlists \<Rightarrow> tl_abs \<Rightarrow> bool" where
  "tl_rep s (L, T) \<longleftrightarrow>
     (\<forall>l ts. L l = Some ts \<longrightarrow> tl_list s l ts \<and> set ts \<subseteq> T) \<and>
     (\<forall>l l' ts ts'. L l = Some ts \<longrightarrow> L l' = Some ts' \<longrightarrow> l \<noteq> l' \<longrightarrow> set ts \<inter> set ts' = {}) \<and>
     (\<forall>t \<in> T. tln_self (tl_node s (T_listnode t)) = Some t) \<and>
     (\<forall>t \<in> T. unlisted L t \<longrightarrow> tln_prev (tl_node s (T_listnode t)) = None \<and> tln_next (tl_node s (T_listnode t)) = None)"

lemma unlistedD: "unlisted L t \<Longrightarrow> L l = Some ts \<Longrightarrow> t \<notin> set ts"
  by (simp add: unlisted_def)

lemma unlisted_upd:
  "unlisted (L(l \<mapsto> ts)) u \<longleftrightarrow> u \<notin> set ts \<and> (\<forall>l' ts'. l' \<noteq> l \<longrightarrow> L l' = Some ts' \<longrightarrow> u \<notin> set ts')"
  by (auto simp: unlisted_def)

lemma unlisted_at:
  "L l = Some ts \<Longrightarrow> unlisted L u \<longleftrightarrow> u \<notin> set ts \<and> (\<forall>l' ts'. l' \<noteq> l \<longrightarrow> L l' = Some ts' \<longrightarrow> u \<notin> set ts')"
  using unlisted_upd [of L l ts u] by (simp add: fun_upd_idem)

lemma tl_repD:
  assumes "tl_rep s (L, T)"
  shows "L l = Some ts \<Longrightarrow> tl_list s l ts" "L l = Some ts \<Longrightarrow> set ts \<subseteq> T"
    "L l = Some ts \<Longrightarrow> L l' = Some ts' \<Longrightarrow> l \<noteq> l' \<Longrightarrow> set ts \<inter> set ts' = {}"
    "t \<in> T \<Longrightarrow> tln_self (tl_node s (T_listnode t)) = Some t"
    "t \<in> T \<Longrightarrow> unlisted L t \<Longrightarrow> tln_prev (tl_node s (T_listnode t)) = None"
    "t \<in> T \<Longrightarrow> unlisted L t \<Longrightarrow> tln_next (tl_node s (T_listnode t)) = None"
  using assms unfolding tl_rep.simps by blast+

lemma tl_repI:
  assumes "\<And>l ts. L l = Some ts \<Longrightarrow> tl_list s l ts" "\<And>l ts. L l = Some ts \<Longrightarrow> set ts \<subseteq> T"
    "\<And>l l' ts ts'. L l = Some ts \<Longrightarrow> L l' = Some ts' \<Longrightarrow> l \<noteq> l' \<Longrightarrow> set ts \<inter> set ts' = {}"
    "\<And>t. t \<in> T \<Longrightarrow> tln_self (tl_node s (T_listnode t)) = Some t"
    "\<And>t. t \<in> T \<Longrightarrow> unlisted L t \<Longrightarrow> tln_prev (tl_node s (T_listnode t)) = None \<and> tln_next (tl_node s (T_listnode t)) = None"
  shows "tl_rep s (L, T)"
  using assms unfolding tl_rep.simps by blast

declare tl_rep.simps [simp del]

text \<open>Changing one of the lists.\<close>

lemma tl_rep_change:
  assumes rep: "tl_rep s (L, T)" and ts': "tl_list s' l ts'" "set ts' \<subseteq> T"
    and others: "\<And>l' us. l' \<noteq> l \<Longrightarrow> L l' = Some us \<Longrightarrow> tl_list s' l' us"
      "\<And>l' us. l' \<noteq> l \<Longrightarrow> L l' = Some us \<Longrightarrow> set us \<inter> set ts' = {}"
    and self: "\<And>x. tln_self (tl_node s' x) = tln_self (tl_node s x)"
    and free: "\<And>u. u \<in> T \<Longrightarrow> unlisted (L(l \<mapsto> ts')) u \<Longrightarrow>
      tln_prev (tl_node s' (T_listnode u)) = None \<and> tln_next (tl_node s' (T_listnode u)) = None"
  shows "tl_rep s' (L(l \<mapsto> ts'), T)"
proof (rule tl_repI)
  show "tl_list s' k us" "set us \<subseteq> T" if "(L(l \<mapsto> ts')) k = Some us" for k us
    using that ts' others(1) tl_repD(2) [OF rep] by (auto split: if_splits)
  show "set us \<inter> set us' = {}" if "(L(l \<mapsto> ts')) k = Some us" "(L(l \<mapsto> ts')) k' = Some us'" "k \<noteq> k'" for k k' us us'
    using that others(2) [of k us] others(2) [of k' us'] tl_repD(3) [OF rep, of k us k' us']
    by (cases "k = l"; cases "k' = l") (simp_all add: Int_commute)
qed (use self free tl_repD(4) [OF rep] in simp_all)

lemma tl_seq_split:
  obtains xs ys where "tl_seq l (as @ bs) = xs @ tl_before l as # tl_after l bs # ys"
    "tl_seq l (as @ t # bs) = xs @ tl_before l as # T_listnode t # tl_after l bs # ys"
proof -
  let ?h = "Tl_head l # map T_listnode as" and ?t = "map T_listnode bs @ [Tl_tail l]"
  have "?h = butlast ?h @ [tl_before l as]" by (simp add: tl_before_def append_butlast_last_id)
  moreover have "?t = tl_after l bs # tl ?t" by (simp add: tl_after_def)
  moreover have "tl_seq l (as @ bs) = ?h @ ?t" "tl_seq l (as @ t # bs) = ?h @ T_listnode t # ?t"
    by (simp_all add: tl_seq_def)
  ultimately show ?thesis using that [of "butlast ?h" "tl ?t"] by (metis append.assoc append_Cons append_Nil)
qed

lemma tl_seq_distinct: "distinct (tl_seq l ts) = distinct ts"
  by (auto simp: tl_seq_def distinct_map inj_on_def)

lemma tl_before_cases: "tl_before l as = Tl_head l \<or> (\<exists>t \<in> set as. tl_before l as = T_listnode t)"
  by (cases as rule: rev_cases) (auto simp: tl_before_def)

lemma tl_after_cases: "tl_after l bs = Tl_tail l \<or> (\<exists>t \<in> set bs. tl_after l bs = T_listnode t)"
  by (cases bs) (auto simp: tl_after_def)

lemma tl_ends [simp]:
  "tl_before l as \<noteq> Tl_tail l'" "tl_after l bs \<noteq> Tl_head l'" "Tl_tail l' \<noteq> tl_before l as" "Tl_head l' \<noteq> tl_after l bs"
  using tl_before_cases [of l as] tl_after_cases [of l bs] by auto

lemma link_ends [simp]:
  "tln_prev (link N (tl_before l as) (T_listnode t) (tl_after l bs) (Tl_head l)) = tln_prev (N (Tl_head l))"
  "tln_next (link N (tl_before l as) (T_listnode t) (tl_after l bs) (Tl_tail l)) = tln_next (N (Tl_tail l))"
  "tln_prev (unlink N (tl_before l as) (T_listnode t) (tl_after l bs) (Tl_head l)) = tln_prev (N (Tl_head l))"
  "tln_next (unlink N (tl_before l as) (T_listnode t) (tl_after l bs) (Tl_tail l)) = tln_next (N (Tl_tail l))"
  by (simp_all add: link_def unlink_def)

lemma tl_list_cong:
  assumes "tl_list s l ts" "\<And>x. x \<in> set (tl_seq l ts) \<Longrightarrow> tl_node s' x = tl_node s x" "tl_count s' l = tl_count s l"
  shows "tl_list s' l ts"
proof -
  have "dll (tl_node s') (tl_seq l ts) = dll (tl_node s) (tl_seq l ts)"
    using assms(2) by (intro dll_cong) (auto dest: in_set_butlastD simp: list.set_sel(2) tl_seq_def)
  moreover have "tl_node s' (Tl_head l) = tl_node s (Tl_head l)" "tl_node s' (Tl_tail l) = tl_node s (Tl_tail l)"
    using assms(2) by (simp_all add: tl_seq_def)
  ultimately show ?thesis using assms(1,3) by (simp add: tl_list_def)
qed

text \<open>Inserting an unlisted thread in a list, and taking a thread out of a list.\<close>

lemma tl_link:
  assumes rep: "tl_rep s (L, T)" and l: "L l = Some (as @ bs)" and t: "t \<in> T" "unlisted L t" "Suc (length (as @ bs)) < 2 ^ 32"
  defines "p \<equiv> tl_before l as" and "n \<equiv> T_listnode t" and "q \<equiv> tl_after l bs"
  shows "tln_next (tl_node s p) = Some q" "tln_prev (tl_node s q) = Some p" "p \<noteq> q" "n \<noteq> p" "n \<noteq> q"
    "tl_rep (s\<lparr>tl_node := link (tl_node s) p n q, tl_count := (tl_count s)(l := add32 (tl_count s l) 1)\<rparr>) (L(l \<mapsto> as @ t # bs), T)"
proof -
  let ?s = "s\<lparr>tl_node := link (tl_node s) p n q, tl_count := (tl_count s)(l := add32 (tl_count s l) 1)\<rparr>"
  obtain xs ys where xs: "tl_seq l (as @ bs) = xs @ p # q # ys" "tl_seq l (as @ t # bs) = xs @ p # n # q # ys"
    unfolding p_def q_def n_def by (rule tl_seq_split [of l as bs t])
  have list: "tl_list s l (as @ bs)" "set (as @ bs) \<subseteq> T" using tl_repD(1,2) [OF rep l] by blast+
  have fresh: "t \<notin> set (as @ bs)" by (rule unlistedD [OF t(2) l])
  have dist: "distinct (xs @ p # n # q # ys)"
    using list(1) fresh unfolding xs(2) [symmetric] tl_seq_distinct by (auto simp: tl_list_def)
  then show d: "p \<noteq> q" "n \<noteq> p" "n \<noteq> q" by auto
  have chain: "dll (tl_node s) (xs @ p # q # ys)" using list(1) by (simp add: tl_list_def xs(1) [symmetric])
  then show "tln_next (tl_node s p) = Some q" "tln_prev (tl_node s q) = Some p"
    using dll_append [of "tl_node s" xs p "q # ys"] by simp_all
  have "tl_list ?s l (as @ t # bs)"
    using list(1) dll_link [OF chain dist] fresh t(3) unfolding p_def q_def n_def
    by (simp add: tl_list_def xs(2) [unfolded p_def q_def n_def] add32_id)
  moreover have "tl_list ?s l' ts" if "l' \<noteq> l" "L l' = Some ts" for l' ts
  proof (rule tl_list_cong [of s])
    show "tl_list s l' ts" by (rule tl_repD(1) [OF rep that(2)])
    have "set ts \<inter> set (as @ bs) = {}" "t \<notin> set ts"
      using tl_repD(3) [OF rep that(2) l that(1)] unlistedD [OF t(2) that(2)] by simp_all
    then show "tl_node ?s x = tl_node s x" if "x \<in> set (tl_seq l' ts)" for x
      using that \<open>l' \<noteq> l\<close> tl_before_cases [of l as] tl_after_cases [of l bs]
      by (auto simp: tl_seq_def p_def q_def n_def intro!: link_other)
  qed (use that in simp)
  moreover have other: "tl_node ?s (T_listnode u) = tl_node s (T_listnode u)" if "u \<notin> set (as @ t # bs)" for u
    using that tl_before_cases [of l as] tl_after_cases [of l bs] by (auto simp: p_def q_def n_def intro!: link_other)
  moreover have "tln_prev (tl_node ?s (T_listnode u)) = None \<and> tln_next (tl_node ?s (T_listnode u)) = None"
    if "u \<in> T" "unlisted (L(l \<mapsto> as @ t # bs)) u" for u
    using that tl_repD(5,6) [OF rep that(1)] unlisted_at [of L l, OF l] other by (auto simp: unlisted_upd)
  ultimately show "tl_rep ?s (L(l \<mapsto> as @ t # bs), T)"
    using tl_repD(3) [OF rep _ l] unlistedD [OF t(2)] list(2) t(1) by (intro tl_rep_change [OF rep]) simp_all
qed

lemma tl_unlink:
  assumes rep: "tl_rep s (L, T)" and l: "L l = Some (as @ t # bs)"
  defines "p \<equiv> tl_before l as" and "n \<equiv> T_listnode t" and "q \<equiv> tl_after l bs"
  shows "tln_prev (tl_node s n) = Some p" "tln_next (tl_node s n) = Some q" "p \<noteq> q" "n \<noteq> p" "n \<noteq> q"
    "tln_next (tl_node s p) = Some n" "tln_prev (tl_node s q) = Some n" "tln_self (tl_node s n) = Some t"
    "tl_rep (s\<lparr>tl_node := unlink (tl_node s) p n q, tl_count := (tl_count s)(l := sub32 (tl_count s l) 1)\<rparr>) (L(l \<mapsto> as @ bs), T)"
proof -
  let ?s = "s\<lparr>tl_node := unlink (tl_node s) p n q, tl_count := (tl_count s)(l := sub32 (tl_count s l) 1)\<rparr>"
  obtain xs ys where xs: "tl_seq l (as @ bs) = xs @ p # q # ys" "tl_seq l (as @ t # bs) = xs @ p # n # q # ys"
    unfolding p_def q_def n_def by (rule tl_seq_split [of l as bs t])
  have list: "tl_list s l (as @ t # bs)" "set (as @ t # bs) \<subseteq> T" using tl_repD(1,2) [OF rep l] by blast+
  have dist: "distinct (xs @ p # n # q # ys)"
    using list(1) unfolding xs(2) [symmetric] tl_seq_distinct by (auto simp: tl_list_def)
  then show d: "p \<noteq> q" "n \<noteq> p" "n \<noteq> q" by auto
  have chain: "dll (tl_node s) (xs @ p # n # q # ys)" using list(1) by (simp add: tl_list_def xs(2) [symmetric])
  then show "tln_prev (tl_node s n) = Some p" "tln_next (tl_node s n) = Some q" "tln_next (tl_node s p) = Some n"
      "tln_prev (tl_node s q) = Some n"
    using dll_append [of "tl_node s" xs p "n # q # ys"] by simp_all
  show "tln_self (tl_node s n) = Some t" using tl_repD(4) [OF rep] list(2) by (simp add: n_def)
  have "tl_list ?s l (as @ bs)"
    using list(1) dll_unlink [OF chain dist] unfolding p_def q_def n_def
    by (simp add: tl_list_def xs(1) [unfolded p_def q_def n_def] sub32_id)
  moreover have "tl_list ?s l' ts" if "l' \<noteq> l" "L l' = Some ts" for l' ts
  proof (rule tl_list_cong [of s])
    show "tl_list s l' ts" by (rule tl_repD(1) [OF rep that(2)])
    have "set ts \<inter> set (as @ t # bs) = {}" by (rule tl_repD(3) [OF rep that(2) l that(1)])
    then show "tl_node ?s x = tl_node s x" if "x \<in> set (tl_seq l' ts)" for x
      using that \<open>l' \<noteq> l\<close> tl_before_cases [of l as] tl_after_cases [of l bs]
      by (auto simp: tl_seq_def p_def q_def n_def intro!: unlink_other)
  qed (use that in simp)
  moreover have other: "tl_node ?s (T_listnode u) = tl_node s (T_listnode u)" if "u \<notin> set (as @ t # bs)" for u
    using that tl_before_cases [of l as] tl_after_cases [of l bs] by (auto simp: p_def q_def n_def intro!: unlink_other)
  moreover have "tln_prev (tl_node ?s (T_listnode u)) = None \<and> tln_next (tl_node ?s (T_listnode u)) = None"
    if "u \<in> T" "unlisted (L(l \<mapsto> as @ bs)) u" for u
  proof (cases "u = t")
    case True
    then show ?thesis by (simp add: unlink_def n_def)
  next
    case False
    then show ?thesis
      using that tl_repD(5,6) [OF rep that(1)] unlisted_at [of L l, OF l] other by (auto simp: unlisted_upd)
  qed
  ultimately show "tl_rep ?s (L(l \<mapsto> as @ bs), T)"
    using tl_repD(3) [OF rep _ l] list(2) by (intro tl_rep_change [OF rep]) auto
qed

section \<open>Operations on the abstract state\<close>

datatype tl_op = Node_init nat | Node_cleanup nat | List_init nat | List_cleanup nat | Isempty nat
  | Addhead nat nat | Addtail nat nat | Remhead nat | Remtail nat
  | Insertafter nat nat nat | Insertbefore nat nat nat | Take_out nat nat

datatype tl_res = Nothing | Answer bool | Thread "nat option"

fun tl_exec :: "tl_op \<Rightarrow> (threadlists, tl_res) kfun" where
  "tl_exec (Node_init t) = kbind (threadlistnode_init t) (\<lambda>_. kret Nothing)"
| "tl_exec (Node_cleanup t) = kbind (threadlistnode_cleanup t) (\<lambda>_. kret Nothing)"
| "tl_exec (List_init l) = kbind (threadlist_init l) (\<lambda>_. kret Nothing)"
| "tl_exec (List_cleanup l) = kbind (threadlist_cleanup l) (\<lambda>_. kret Nothing)"
| "tl_exec (Isempty l) = kbind (threadlist_isempty l) (\<lambda>b. kret (Answer b))"
| "tl_exec (Addhead l t) = kbind (threadlist_addhead l t) (\<lambda>_. kret Nothing)"
| "tl_exec (Addtail l t) = kbind (threadlist_addtail l t) (\<lambda>_. kret Nothing)"
| "tl_exec (Remhead l) = kbind (threadlist_remhead l) (\<lambda>r. kret (Thread r))"
| "tl_exec (Remtail l) = kbind (threadlist_remtail l) (\<lambda>r. kret (Thread r))"
| "tl_exec (Insertafter l x t) = kbind (threadlist_insertafter l x t) (\<lambda>_. kret Nothing)"
| "tl_exec (Insertbefore l t x) = kbind (threadlist_insertbefore l t x) (\<lambda>_. kret Nothing)"
| "tl_exec (Take_out l t) = kbind (threadlist_remove l t) (\<lambda>_. kret Nothing)"

fun ins_after :: "'a \<Rightarrow> 'a \<Rightarrow> 'a list \<Rightarrow> 'a list" where
  "ins_after x y [] = []"
| "ins_after x y (z # zs) = (if z = x then z # y # zs else z # ins_after x y zs)"

fun ins_before :: "'a \<Rightarrow> 'a \<Rightarrow> 'a list \<Rightarrow> 'a list" where
  "ins_before x y [] = []"
| "ins_before x y (z # zs) = (if z = x then y # z # zs else z # ins_before x y zs)"

text \<open>\<open>None\<close> where the caller breaks the contract of the operation.\<close>

definition can_add :: "tl_abs \<Rightarrow> nat \<Rightarrow> nat \<Rightarrow> bool" where
  "can_add A l t \<longleftrightarrow> t \<in> snd A \<and> unlisted (fst A) t \<and> (\<exists>ts. fst A l = Some ts \<and> Suc (length ts) < 2 ^ 32)"

fun tl_spec :: "tl_op \<Rightarrow> tl_abs \<Rightarrow> (tl_res \<times> tl_abs) option" where
  "tl_spec (Node_init t) (L, T) = (if unlisted L t then Some (Nothing, (L, insert t T)) else None)"
| "tl_spec (Node_cleanup t) (L, T) = (if t \<in> T \<and> unlisted L t then Some (Nothing, (L, T)) else None)"
| "tl_spec (List_init l) (L, T) = (if L l = None \<or> L l = Some [] then Some (Nothing, (L(l \<mapsto> []), T)) else None)"
| "tl_spec (List_cleanup l) (L, T) = (if L l = Some [] then Some (Nothing, (L, T)) else None)"
| "tl_spec (Isempty l) (L, T) = (case L l of None \<Rightarrow> None | Some ts \<Rightarrow> Some (Answer (ts = []), (L, T)))"
| "tl_spec (Addhead l t) (L, T) = (if can_add (L, T) l t then Some (Nothing, (L(l \<mapsto> t # the (L l)), T)) else None)"
| "tl_spec (Addtail l t) (L, T) = (if can_add (L, T) l t then Some (Nothing, (L(l \<mapsto> the (L l) @ [t]), T)) else None)"
| "tl_spec (Remhead l) (L, T) =
    (case L l of None \<Rightarrow> None
     | Some [] \<Rightarrow> Some (Thread None, (L, T))
     | Some (t # ts) \<Rightarrow> Some (Thread (Some t), (L(l \<mapsto> ts), T)))"
| "tl_spec (Remtail l) (L, T) =
    (case L l of None \<Rightarrow> None
     | Some ts \<Rightarrow> if ts = [] then Some (Thread None, (L, T)) else Some (Thread (Some (last ts)), (L(l \<mapsto> butlast ts), T)))"
| "tl_spec (Insertafter l x t) (L, T) =
    (if can_add (L, T) l t \<and> x \<in> set (the (L l)) then Some (Nothing, (L(l \<mapsto> ins_after x t (the (L l))), T)) else None)"
| "tl_spec (Insertbefore l t x) (L, T) =
    (if can_add (L, T) l t \<and> x \<in> set (the (L l)) then Some (Nothing, (L(l \<mapsto> ins_before x t (the (L l))), T)) else None)"
| "tl_spec (Take_out l t) (L, T) =
    (case L l of None \<Rightarrow> None
     | Some ts \<Rightarrow> if t \<in> set ts then Some (Nothing, (L(l \<mapsto> remove1 t ts), T)) else None)"

lemma ins_split:
  "x \<notin> set as \<Longrightarrow> ins_after x y (as @ x # bs) = as @ x # y # bs"
  "x \<notin> set as \<Longrightarrow> ins_before x y (as @ x # bs) = as @ y # x # bs"
  "x \<notin> set as \<Longrightarrow> remove1 x (as @ x # bs) = as @ bs"
  by (induction as) auto

lemma tl_ends_simps [simp]:
  "tl_before l [] = Tl_head l" "tl_after l [] = Tl_tail l" "tl_before l (as @ [x]) = T_listnode x" "tl_after l (x # bs) = T_listnode x"
  by (simp_all add: tl_before_def tl_after_def)

text \<open>Insertion at a position given by the node before or the node after it.\<close>

lemma insertafter_ok:
  assumes "tl_rep s (L, T)" "L l = Some (as @ bs)" "t \<in> T" "unlisted L t" "Suc (length (as @ bs)) < 2 ^ 32" "p = tl_before l as"
  shows "\<exists>s'. kbind (threadlist_insertafternode p t) (\<lambda>_. set_count l (\<lambda>n. add32 n 1)) s = Ok () s' \<and>
    tl_rep s' (L(l \<mapsto> as @ t # bs), T)"
  using tl_link [OF assms(1-5)] insertafternode_run [of s p "tl_after l bs" t] assms(6)
  by (simp add: kbind_def set_count_def kmod_def)

lemma insertbefore_ok:
  assumes "tl_rep s (L, T)" "L l = Some (as @ bs)" "t \<in> T" "unlisted L t" "Suc (length (as @ bs)) < 2 ^ 32" "q = tl_after l bs"
  shows "\<exists>s'. kbind (threadlist_insertbeforenode t q) (\<lambda>_. set_count l (\<lambda>n. add32 n 1)) s = Ok () s' \<and>
    tl_rep s' (L(l \<mapsto> as @ t # bs), T)"
  using tl_link [OF assms(1-5)] insertbeforenode_run [of s q "tl_before l as" t] assms(6)
  by (simp add: kbind_def set_count_def kmod_def)

lemma removenode_ok:
  assumes "tl_rep s (L, T)" "L l = Some (as @ t # bs)"
  shows "\<exists>s'. kbind (threadlist_removenode (T_listnode t)) (\<lambda>_. set_count l (\<lambda>n. sub32 n 1)) s = Ok () s' \<and>
    tln_self (tl_node s' (T_listnode t)) = Some t \<and> tl_rep s' (L(l \<mapsto> as @ bs), T)"
  using tl_unlink [OF assms] removenode_run [of s "T_listnode t" "tl_before l as" "tl_after l bs"]
  by (simp add: kbind_def set_count_def kmod_def)

lemma tl_list_ends:
  assumes "tl_list s l ts"
  shows "tln_next (tl_node s (Tl_head l)) = Some (tl_after l ts)" "tln_prev (tl_node s (Tl_tail l)) = Some (tl_before l ts)"
    "tln_next (tl_node s (Tl_tail l)) = None" "tln_prev (tl_node s (Tl_head l)) = None" "tl_count s l = length ts"
proof -
  have d: "dll (tl_node s) (tl_seq l ts)" using assms by (simp add: tl_list_def)
  show "tln_next (tl_node s (Tl_head l)) = Some (tl_after l ts)"
    using d by (cases ts) (simp_all add: tl_seq_def)
  show "tln_prev (tl_node s (Tl_tail l)) = Some (tl_before l ts)"
  proof (cases ts rule: rev_cases)
    case (snoc us u)
    then have "tl_seq l ts = (Tl_head l # map T_listnode us) @ T_listnode u # [Tl_tail l]" by (simp add: tl_seq_def)
    then show ?thesis using d dll_append snoc by (metis dll.simps(1) tl_ends_simps(3))
  qed (use d in \<open>simp add: tl_seq_def\<close>)
qed (use assms in \<open>simp_all add: tl_list_def\<close>)

lemma tl_init_ok:
  assumes rep: "tl_rep s (L, T)" and l: "L l = None \<or> L l = Some []"
  shows "\<exists>s'. threadlist_init l s = Ok () s' \<and> tl_rep s' (L(l \<mapsto> []), T)"
proof -
  define s' where "s' = s\<lparr>tl_node := (tl_node s)(Tl_head l := \<lparr>tln_prev = None, tln_next = Some (Tl_tail l), tln_self = None\<rparr>,
    Tl_tail l := \<lparr>tln_prev = Some (Tl_head l), tln_next = None, tln_self = None\<rparr>), tl_count := (tl_count s)(l := 0)\<rparr>"
  have "threadlist_init l s = Ok () s'"
    by (simp add: threadlist_init_def tl_access kfun_defs s'_def fun_upd_twist) (simp add: fun_eq_iff)
  moreover have "tl_rep s' (L(l \<mapsto> []), T)"
  proof (rule tl_repI)
    fix k us assume k: "(L(l \<mapsto> [])) k = Some us"
    show "tl_list s' k us"
    proof (cases "k = l")
      case False
      with k have "L k = Some us" by simp
      from tl_repD(1) [OF rep this] show ?thesis
        by (rule tl_list_cong) (use False in \<open>auto simp: s'_def tl_seq_def\<close>)
    qed (use k in \<open>simp add: s'_def tl_list_def tl_seq_def\<close>)
    show "set us \<subseteq> T" using k tl_repD(2) [OF rep, of k us] by (auto split: if_splits)
  next
    show "set us \<inter> set us' = {}" if "(L(l \<mapsto> [])) k = Some us" "(L(l \<mapsto> [])) k' = Some us'" "k \<noteq> k'" for k k' us us'
      using that tl_repD(3) [OF rep, of k us k' us'] by (auto split: if_splits)
    have "unlisted L t" if "unlisted (L(l \<mapsto> [])) t" for t
      unfolding unlisted_def
    proof (intro allI impI)
      fix k us assume "L k = Some us"
      then show "t \<notin> set us" using that l by (cases "k = l") (auto simp: unlisted_upd)
    qed
    then show "tln_prev (tl_node s' (T_listnode t)) = None \<and> tln_next (tl_node s' (T_listnode t)) = None"
      if "t \<in> T" "unlisted (L(l \<mapsto> [])) t" for t
      using that tl_repD(5,6) [OF rep] by (simp add: s'_def)
  qed (use tl_repD(4) [OF rep] in \<open>simp add: s'_def\<close>)
  ultimately show ?thesis by blast
qed

lemma tl_node_init_ok:
  assumes rep: "tl_rep s (L, T)" and t: "unlisted L t"
  shows "\<exists>s'. threadlistnode_init t s = Ok () s' \<and> tl_rep s' (L, insert t T)"
proof -
  define s' where "s' = s\<lparr>tl_node := (tl_node s)(T_listnode t := \<lparr>tln_prev = None, tln_next = None, tln_self = Some t\<rparr>)\<rparr>"
  have "threadlistnode_init t s = Ok () s'"
    by (cases "tl_node s (T_listnode t)") (simp add: threadlistnode_init_def tl_access kfun_defs s'_def)
  moreover have "tl_rep s' (L, insert t T)"
  proof (rule tl_repI)
    fix k us assume k: "L k = Some us"
    from tl_repD(1) [OF rep k] show "tl_list s' k us"
      by (rule tl_list_cong) (use unlistedD [OF t k] in \<open>auto simp: s'_def tl_seq_def\<close>)
    show "set us \<subseteq> insert t T" using tl_repD(2) [OF rep k] by blast
  qed (use tl_repD(3-6) [OF rep] in \<open>auto simp: s'_def\<close>)
  ultimately show ?thesis by blast
qed

text \<open>Removal at the two ends.\<close>

lemma tl_remhead_ok:
  assumes rep: "tl_rep s (L, T)" and l: "L l = Some ts"
  shows "ts = [] \<Longrightarrow> threadlist_remhead l s = Ok None s"
    "ts = t # us \<Longrightarrow> \<exists>s'. threadlist_remhead l s = Ok (Some t) s' \<and> tl_rep s' (L(l \<mapsto> us), T)"
proof -
  note E = tl_list_ends [OF tl_repD(1) [OF rep l]]
  show "threadlist_remhead l s = Ok None s" if "ts = []"
    using E(1,3) that by (simp add: threadlist_remhead_def tl_access kfun_defs deref_def)
  show "\<exists>s'. threadlist_remhead l s = Ok (Some t) s' \<and> tl_rep s' (L(l \<mapsto> us), T)" if "ts = t # us"
  proof -
    have l': "L l = Some ([] @ t # us)" using l that by simp
    from removenode_ok [OF rep l'] obtain s' where
      "kbind (threadlist_removenode (T_listnode t)) (\<lambda>_. set_count l (\<lambda>n. sub32 n 1)) s = Ok () s'"
      "tln_self (tl_node s' (T_listnode t)) = Some t" "tl_rep s' (L(l \<mapsto> us), T)" by auto
    then show ?thesis
      using E(1) that tl_unlink(2) [OF rep l']
      by (auto simp: threadlist_remhead_def get_next_def get_self_def kfun_defs deref_def split: kres.splits)
  qed
qed

lemma tl_remtail_ok:
  assumes rep: "tl_rep s (L, T)" and l: "L l = Some ts"
  shows "ts = [] \<Longrightarrow> threadlist_remtail l s = Ok None s"
    "ts = us @ [t] \<Longrightarrow> \<exists>s'. threadlist_remtail l s = Ok (Some t) s' \<and> tl_rep s' (L(l \<mapsto> us), T)"
proof -
  note E = tl_list_ends [OF tl_repD(1) [OF rep l]]
  show "threadlist_remtail l s = Ok None s" if "ts = []"
    using E(2,4) that by (simp add: threadlist_remtail_def tl_access kfun_defs deref_def)
  show "\<exists>s'. threadlist_remtail l s = Ok (Some t) s' \<and> tl_rep s' (L(l \<mapsto> us), T)" if "ts = us @ [t]"
  proof -
    from removenode_ok [of s L T l us t "[]"] rep l that obtain s' where
      "kbind (threadlist_removenode (T_listnode t)) (\<lambda>_. set_count l (\<lambda>n. sub32 n 1)) s = Ok () s'"
      "tln_self (tl_node s' (T_listnode t)) = Some t" "tl_rep s' (L(l \<mapsto> us), T)" by auto
    then show ?thesis
      using E(2) that tl_unlink(1) [of s L T l us t "[]"] rep l
      by (auto simp: threadlist_remtail_def get_prev_def get_self_def kfun_defs deref_def split: kres.splits)
  qed
qed

lemma can_addE:
  assumes "can_add (L, T) l t"
  obtains ts where "L l = Some ts" "t \<in> T" "unlisted L t" "Suc (length ts) < 2 ^ 32"
  using assms by (auto simp: can_add_def)

lemma tl_exec_ok:
  assumes rep: "tl_rep s A" and spec: "tl_spec op A = Some (r, A')"
  shows "\<exists>s'. tl_exec op s = Ok r s' \<and> tl_rep s' A'"
proof -
  obtain L T where A: "A = (L, T)" by (cases A)
  note rep' = rep [unfolded A]
  note S = spec [unfolded A]
  note bind = kbind_def kret_def
  show ?thesis
  proof (cases op)
    case (Node_init t)
    then show ?thesis using S tl_node_init_ok [OF rep', of t] by (auto simp: bind split: if_splits)
  next
    case (Node_cleanup t)
    then show ?thesis
      using S rep' tl_repD(4-6) [OF rep', of t] by (auto simp: kfun_defs threadlistnode_cleanup_def tl_access split: if_splits)
  next
    case (List_init l)
    then show ?thesis using S tl_init_ok [OF rep', of l] by (auto simp: bind split: if_splits)
  next
    case (List_cleanup l)
    then show ?thesis
      using S rep' tl_list_ends(5) [OF tl_repD(1) [OF rep', of l]]
      by (auto simp: kfun_defs threadlist_cleanup_def threadlist_isempty_def split: if_splits)
  next
    case (Isempty l)
    then show ?thesis
      using S rep' tl_list_ends(5) [OF tl_repD(1) [OF rep', of l]]
      by (auto simp: kfun_defs threadlist_isempty_def split: option.splits)
  next
    case (Addhead l t)
    with S have c: "can_add (L, T) l t" and r: "r = Nothing" "A' = (L(l \<mapsto> t # the (L l)), T)" by (auto split: if_splits)
    from c obtain ts where "L l = Some ts" "t \<in> T" "unlisted L t" "Suc (length ts) < 2 ^ 32" by (rule can_addE)
    with insertafter_ok [OF rep', of l "[]" ts t] show ?thesis
      using r Addhead by (auto simp: threadlist_addhead_def bind split: kres.splits)
  next
    case (Addtail l t)
    with S have c: "can_add (L, T) l t" and r: "r = Nothing" "A' = (L(l \<mapsto> the (L l) @ [t]), T)" by (auto split: if_splits)
    from c obtain ts where "L l = Some ts" "t \<in> T" "unlisted L t" "Suc (length ts) < 2 ^ 32" by (rule can_addE)
    with insertbefore_ok [OF rep', of l ts "[]" t] show ?thesis
      using r Addtail by (auto simp: threadlist_addtail_def bind split: kres.splits)
  next
    case (Remhead l)
    then show ?thesis
      using S rep' tl_remhead_ok [OF rep', of l] by (auto simp: bind split: option.splits list.splits)
  next
    case (Remtail l)
    with S obtain ts where ts: "L l = Some ts" by (auto split: option.splits)
    show ?thesis
      using S Remtail rep' ts tl_remtail_ok [OF rep' ts] by (cases ts rule: rev_cases) (auto simp: bind)
  next
    case (Insertafter l x t)
    with S have c: "can_add (L, T) l t" "x \<in> set (the (L l))" and r: "r = Nothing" "A' = (L(l \<mapsto> ins_after x t (the (L l))), T)"
      by (auto split: if_splits)
    from c(1) obtain ts where ts: "L l = Some ts" "t \<in> T" "unlisted L t" "Suc (length ts) < 2 ^ 32" by (rule can_addE)
    then obtain as bs where "ts = as @ x # bs" "x \<notin> set as" using c(2) split_list_first [of x ts] by auto
    with insertafter_ok [OF rep', of l "as @ [x]" bs t "T_listnode x"] ts show ?thesis
      using r Insertafter by (auto simp: threadlist_insertafter_def bind ins_split split: kres.splits)
  next
    case (Insertbefore l t x)
    with S have c: "can_add (L, T) l t" "x \<in> set (the (L l))" and r: "r = Nothing" "A' = (L(l \<mapsto> ins_before x t (the (L l))), T)"
      by (auto split: if_splits)
    from c(1) obtain ts where ts: "L l = Some ts" "t \<in> T" "unlisted L t" "Suc (length ts) < 2 ^ 32" by (rule can_addE)
    then obtain as bs where "ts = as @ x # bs" "x \<notin> set as" using c(2) split_list_first [of x ts] by auto
    with insertbefore_ok [OF rep', of l as "x # bs" t "T_listnode x"] ts show ?thesis
      using r Insertbefore by (auto simp: threadlist_insertbefore_def bind ins_split split: kres.splits)
  next
    case (Take_out l t)
    with S obtain ts where ts: "L l = Some ts" "t \<in> set ts" and r: "r = Nothing" "A' = (L(l \<mapsto> remove1 t ts), T)"
      by (auto split: option.splits if_splits)
    then obtain as bs where "ts = as @ t # bs" "t \<notin> set as" using split_list_first [of t ts] by auto
    with removenode_ok [OF rep', of l as t bs] ts show ?thesis
      using r Take_out by (auto simp: threadlist_remove_def bind ins_split split: kres.splits)
  qed
qed

text \<open>A non-empty list or a linked node fails the assertions of the cleanup functions.\<close>

lemma tl_cleanup_panics:
  assumes "tl_rep s (L, T)"
  shows "L l = Some (t # ts) \<Longrightarrow> threadlist_cleanup l s = Panic"
    "L l = Some ts \<Longrightarrow> t \<in> set ts \<Longrightarrow> threadlistnode_cleanup t s = Panic"
proof -
  show "threadlist_cleanup l s = Panic" if "L l = Some (t # ts)"
    using tl_list_ends(5) [OF tl_repD(1) [OF assms that]]
    by (simp add: threadlist_cleanup_def threadlist_isempty_def kfun_defs)
  show "threadlistnode_cleanup t s = Panic" if "L l = Some ts" "t \<in> set ts"
  proof -
    from that(2) obtain as bs where "ts = as @ t # bs" by (meson split_list)
    then show ?thesis using tl_unlink(2) [OF assms] that(1) by (simp add: threadlistnode_cleanup_def tl_access kfun_defs)
  qed
qed

fun tl_execs :: "tl_op list \<Rightarrow> (threadlists, tl_res list) kfun" where
  "tl_execs [] = kret []"
| "tl_execs (op # ops) = kbind (tl_exec op) (\<lambda>r. kbind (tl_execs ops) (\<lambda>rs. kret (r # rs)))"

fun tl_specs :: "tl_op list \<Rightarrow> tl_abs \<Rightarrow> (tl_res list \<times> tl_abs) option" where
  "tl_specs [] A = Some ([], A)"
| "tl_specs (op # ops) A =
    (case tl_spec op A of None \<Rightarrow> None
     | Some (r, A') \<Rightarrow> (case tl_specs ops A' of None \<Rightarrow> None | Some (rs, A'') \<Rightarrow> Some (r # rs, A'')))"

lemma tl_execs_ok:
  assumes "tl_rep s A" "tl_specs ops A = Some (rs, A')"
  shows "\<exists>s'. tl_execs ops s = Ok rs s' \<and> tl_rep s' A'"
  using assms
proof (induction ops arbitrary: s A rs)
  case Nil
  then show ?case by (simp add: kret_def)
next
  case (Cons op ops)
  from Cons.prems(2) obtain r A1 rs1 where
    r: "tl_spec op A = Some (r, A1)" "tl_specs ops A1 = Some (rs1, A')" "rs = r # rs1"
    by (auto split: option.splits prod.splits)
  from tl_exec_ok [OF Cons.prems(1) r(1)] obtain s1 where s1: "tl_exec op s = Ok r s1" "tl_rep s1 A1" by blast
  from Cons.IH [OF s1(2) r(2)] show ?case using s1(1) r(3) by (auto simp: kbind_def kret_def)
qed

section \<open>A thread list as a queue\<close>

fun tl_walk :: "nat \<Rightarrow> tlptr \<Rightarrow> (tlptr \<Rightarrow> threadlistnode) \<Rightarrow> nat list" where
  "tl_walk 0 p N = []"
| "tl_walk (Suc n) p N =
    (case tln_next (N p) of None \<Rightarrow> []
     | Some q \<Rightarrow> (case tln_self (N q) of None \<Rightarrow> [] | Some t \<Rightarrow> t # tl_walk n q N))"

definition tl_items :: "nat \<Rightarrow> threadlists \<Rightarrow> nat list" where
  "tl_items l s = tl_walk (tl_count s l) (Tl_head l) (tl_node s)"

lemma tl_walk_ok:
  assumes "dll N (p # map T_listnode ts @ [Tl_tail l])" "\<And>t. t \<in> set ts \<Longrightarrow> tln_self (N (T_listnode t)) = Some t"
  shows "tl_walk (length ts) p N = ts"
  using assms by (induction ts arbitrary: p) simp_all

lemma tl_items_ok:
  assumes "tl_rep s (L, T)" "L l = Some ts"
  shows "tl_items l s = ts"
proof -
  have "tl_list s l ts" "\<And>t. t \<in> set ts \<Longrightarrow> tln_self (tl_node s (T_listnode t)) = Some t"
    using tl_repD(1,2) [OF assms] tl_repD(4) [OF assms(1)] by blast+
  then show ?thesis unfolding tl_items_def by (simp add: tl_list_def tl_seq_def tl_walk_ok [of _ _ _ l])
qed

definition tl_take :: "nat \<Rightarrow> (threadlists, nat) kfun" where
  "tl_take l = kbind (threadlist_remhead l) (\<lambda>r. case r of None \<Rightarrow> kpanic | Some t \<Rightarrow> kret t)"

definition tl_alone :: "nat \<Rightarrow> threadlists \<Rightarrow> bool" where
  "tl_alone l s \<longleftrightarrow> tl_rep s ([l \<mapsto> tl_items l s], UNIV)"

interpretation tl: fifo "threadlist_addtail l" "tl_take l" "tl_items l" "tl_alone l"
    "\<lambda>t ts. t \<notin> set ts \<and> Suc (length ts) < 2 ^ 32" for l
proof unfold_locales
  fix s t
  assume s: "tl_alone l s" "t \<notin> set (tl_items l s) \<and> Suc (length (tl_items l s)) < 2 ^ 32"
  let ?L = "[l \<mapsto> tl_items l s]"
  have "unlisted ?L t" using s(2) by (simp add: unlisted_def)
  from insertbefore_ok [of s ?L UNIV l "tl_items l s" "[]" t "Tl_tail l"] s this obtain s' where
    "threadlist_addtail l t s = Ok () s'" "tl_rep s' ([l \<mapsto> tl_items l s @ [t]], UNIV)"
    by (auto simp: threadlist_addtail_def tl_alone_def)
  then show "\<exists>s'. threadlist_addtail l t s = Ok () s' \<and> tl_alone l s' \<and> tl_items l s' = tl_items l s @ [t]"
    using tl_items_ok [of s' _ UNIV l] by (auto simp: tl_alone_def)
next
  fix s t ts
  assume s: "tl_alone l s" "tl_items l s = t # ts"
  from tl_remhead_ok(2) [of s "[l \<mapsto> t # ts]" UNIV l "t # ts" t ts] s obtain s' where
    "threadlist_remhead l s = Ok (Some t) s'" "tl_rep s' ([l \<mapsto> ts], UNIV)" by (auto simp: tl_alone_def)
  then show "\<exists>s'. tl_take l s = Ok t s' \<and> tl_alone l s' \<and> tl_items l s' = ts"
    using tl_items_ok [of s' _ UNIV l] by (auto simp: tl_take_def tl_alone_def kbind_def kret_def)
qed

text \<open>
  The queue of threads is served in order of arrival, whatever the interleaving of insertions and removals.
\<close>

lemma threadlist_fifo:
  assumes "tl_alone l s" "tl.admissible ops (tl_items l s)" "fifo_spec ops (tl_items l s) = Some (out, ts)"
  shows "\<exists>s'. tl.session l ops s = Ok out s' \<and> tl_alone l s' \<and> tl_items l s' = ts"
  using tl.session_refines [OF assms] .

section \<open>Properties\<close>

text \<open>
  C16: the operations on thread lists implement sequences. From any store that represents an abstract
  state (one sequence per initialised list, every thread on at most one of them), every series of
  operations that keeps to the contract (initialisation, insertion at either end or next to a listed
  thread, removal at either end or of a listed thread, the test for emptiness, cleanup) runs without a
  fault or failed assertion, returns what the same series returns on sequences, and ends in a store
  that represents the resulting sequences; other lists are not disturbed.
\<close>

theorem threadlist_refines:
  assumes "tl_rep s A" "tl_specs ops A = Some (rs, A')"
  shows "\<exists>s'. tl_execs ops s = Ok rs s' \<and> tl_rep s' A'"
  using assms by (rule tl_execs_ok)

definition sample_threadlists :: threadlists where
  "sample_threadlists = \<lparr>tl_node = (\<lambda>_. \<lparr>tln_prev = None, tln_next = None, tln_self = None\<rparr>), tl_count = (\<lambda>_. 0)\<rparr>"

definition sample_tl_ops :: "tl_op list" where
  "sample_tl_ops = [List_init 0, List_init 1, Node_init 5, Node_init 6, Node_init 7, Addtail 0 5, Addtail 0 6, Addhead 1 7,
     Remtail 0, Insertafter 1 7 6, Remhead 1, Insertbefore 0 7 5, Take_out 0 5, Remhead 0, Isempty 1]"

theorem threadlist_refines_witness:
  "\<exists>s'. tl_execs sample_tl_ops sample_threadlists =
    Ok [Nothing, Nothing, Nothing, Nothing, Nothing, Nothing, Nothing, Nothing, Thread (Some 6), Nothing, Thread (Some 7),
      Nothing, Nothing, Thread (Some 7), Answer False] s'"
proof -
  have "tl_rep sample_threadlists (Map.empty, {})" by (simp add: tl_rep.simps)
  moreover have "tl_specs sample_tl_ops (Map.empty, {}) =
      Some ([Nothing, Nothing, Nothing, Nothing, Nothing, Nothing, Nothing, Nothing, Thread (Some 6), Nothing, Thread (Some 7),
        Nothing, Nothing, Thread (Some 7), Answer False], ([0 \<mapsto> [], 1 \<mapsto> [6]], {5, 6, 7}))"
    by (simp add: sample_tl_ops_def can_add_def unlisted_upd) (auto simp: unlisted_def)
  ultimately show ?thesis using threadlist_refines by blast
qed

end
