(* ===== verification/Thread.thy ===== *)
theory Thread
  imports Spl Threadlist
begin

text \<open>
  The thread system (\<^verbatim>\<open>thread/thread.c\<close>, with the thread membership functions of \<^verbatim>\<open>proc/proc.c\<close>): threads, processors,
  run queues, context switch, wait channels, migration and interprocessor interrupts.

  The state has the thread structures, the processors, the store of thread lists of \<^verbatim>\<open>Threadlist\<close> and the spinlocks of
  \<^verbatim>\<open>Spl\<close>; every function has the processor \<open>c\<close> that executes it as argument, which is \<^verbatim>\<open>curcpu\<close>, and the functions of
  the lists and locks are the ones of those theories. A context switch ends the function in the thread that runs next;
  what the next thread has to do first, it finds in its saved context: the rest of \<^verbatim>\<open>thread_switch\<close> with its local
  variable \<^verbatim>\<open>spl\<close>, or \<^verbatim>\<open>thread_startup\<close>. A processor without a next thread stays idle inside \<^verbatim>\<open>thread_switch\<close>,
  which is a state of its own, with \<^verbatim>\<open>c_isidle\<close> set and the run queue unlocked; \<open>thread_idle\<close> is one more
  turn of the loop. Not modelled: address-space activation, the machine-dependent fields, and the hardware that delivers
  interprocessor interrupts.
\<close>

section \<open>State\<close>

datatype threadstate = S_RUN | S_READY | S_SLEEP | S_ZOMBIE

text \<open>A saved context: where \<^verbatim>\<open>switchframe_switch\<close> will continue.\<close>

datatype kcontext = Ctx_startup nat nat nat | Ctx_switch int

record thread =
  t_name :: string
  t_wchan_name :: "string option"
  t_state :: threadstate
  t_stack :: "u32 list option"
  t_context :: "kcontext option"
  t_cpu :: "nat option"
  t_proc :: "nat option"
  t_in_interrupt :: bool

record cpu =
  c_curthread :: "nat option"
  c_isidle :: bool
  c_spl :: int
  c_ipi_pending :: u32
  c_shootdown :: "nat list"
  c_numshootdown :: int

datatype lockid = Lk_runqueue nat | Lk_ipi nat | Lk_wchan nat | Lk_proc nat

text \<open>
  \<open>ks_alloc\<close> has the addresses of the live thread structures; a use of any other is a fault. The fields \<^verbatim>\<open>t_curspl\<close> and
  \<^verbatim>\<open>t_iplhigh_count\<close> of the threads and the interrupt flags of the processors are kept in maps of their own. The
  field \<^verbatim>\<open>c_spl\<close> is the local variable of the activation of \<^verbatim>\<open>thread_switch\<close> in which the processor is idle.
\<close>

record ksys =
  ks_booted :: bool
  ks_alloc :: "nat set"
  ks_thread :: "nat \<Rightarrow> thread"
  ks_curspl :: "nat \<Rightarrow> int"
  ks_iplhigh :: "nat \<Rightarrow> int"
  ks_irq :: "nat \<Rightarrow> bool"
  ks_ncpus :: nat
  ks_cpu :: "nat \<Rightarrow> cpu"
  ks_lists :: threadlists
  ks_lock :: "lockid \<Rightarrow> spinlock"
  ks_pthreads :: "nat \<Rightarrow> nat list"
  ks_wcname :: "nat \<Rightarrow> string"

text \<open>The lists: zombies and run queue of a processor, threads of a wait channel, and the list on a processor's stack.\<close>

definition tl_zombies :: "nat \<Rightarrow> nat" where "tl_zombies c = 4 * c"
definition tl_runqueue :: "nat \<Rightarrow> nat" where "tl_runqueue c = 4 * c + 1"
definition tl_wchan :: "nat \<Rightarrow> nat" where "tl_wchan w = 4 * w + 2"
definition tl_local :: "nat \<Rightarrow> nat" where "tl_local c = 4 * c + 3"

definition THREAD_STACK_MAGIC :: u32 where "THREAD_STACK_MAGIC = 0xbaadf00d"

subsection \<open>Access\<close>

definition on_lists :: "(threadlists, 'a) kfun \<Rightarrow> (ksys, 'a) kfun" where
  "on_lists m s = (case m (ks_lists s) of Ok x l \<Rightarrow> Ok x (s\<lparr>ks_lists := l\<rparr>) | Err e l \<Rightarrow> Err e (s\<lparr>ks_lists := l\<rparr>) | Panic \<Rightarrow> Panic)"

definition th_get :: "nat \<Rightarrow> (ksys, thread) kfun" where
  "th_get t = kbind (kget ks_alloc) (\<lambda>A. kbind (kassert (t \<in> A)) (\<lambda>_. kget (\<lambda>s. ks_thread s t)))"

definition th_mod :: "nat \<Rightarrow> (thread \<Rightarrow> thread) \<Rightarrow> (ksys, unit) kfun" where
  "th_mod t f = kbind (th_get t) (\<lambda>x. kmod (\<lambda>s. s\<lparr>ks_thread := (ks_thread s)(t := f x)\<rparr>))"

definition cpu_mod :: "nat \<Rightarrow> (cpu \<Rightarrow> cpu) \<Rightarrow> (ksys, unit) kfun" where
  "cpu_mod c f = kmod (\<lambda>s. s\<lparr>ks_cpu := (ks_cpu s)(c := f (ks_cpu s c))\<rparr>)"

definition kthe :: "'a option \<Rightarrow> ('s, 'a) kfun" where
  "kthe x = (case x of None \<Rightarrow> kpanic | Some y \<Rightarrow> kret y)"

definition curthread :: "nat \<Rightarrow> (ksys, nat) kfun" where
  "curthread c = kbind (kget (\<lambda>s. c_curthread (ks_cpu s c))) kthe"

text \<open>The spl functions and the spinlock functions of processor \<open>c\<close>, on the counters of its current thread.\<close>

definition ks_on_spl :: "nat \<Rightarrow> lockid \<Rightarrow> (slst, 'a) kfun \<Rightarrow> (ksys, 'a) kfun" where
  "ks_on_spl c l m s =
    (if ks_booted s then
       (case c_curthread (ks_cpu s c) of
          None \<Rightarrow> Panic
        | Some t \<Rightarrow>
            if t \<notin> ks_alloc s then Panic
            else (case m \<lparr>sl_spl = \<lparr>curcpu_exists = True, t_curspl = ks_curspl s t, t_iplhigh_count = ks_iplhigh s t, irq_on = ks_irq s c\<rparr>,
                          sl_lock = ks_lock s l\<rparr> of
               Ok x z \<Rightarrow> Ok x (s\<lparr>ks_curspl := (ks_curspl s)(t := t_curspl (sl_spl z)), ks_iplhigh := (ks_iplhigh s)(t := t_iplhigh_count (sl_spl z)),
                               ks_irq := (ks_irq s)(c := irq_on (sl_spl z)), ks_lock := (ks_lock s)(l := sl_lock z)\<rparr>)
             | Err e z \<Rightarrow> Err e s
             | Panic \<Rightarrow> Panic))
     else
       (case m \<lparr>sl_spl = \<lparr>curcpu_exists = False, t_curspl = IPL_NONE, t_iplhigh_count = 0, irq_on = False\<rparr>, sl_lock = ks_lock s l\<rparr> of
          Ok x z \<Rightarrow> Ok x (s\<lparr>ks_lock := (ks_lock s)(l := sl_lock z)\<rparr>)
        | Err e z \<Rightarrow> Err e s
        | Panic \<Rightarrow> Panic))"

definition ks_splx :: "nat \<Rightarrow> int \<Rightarrow> (ksys, int) kfun" where
  "ks_splx c spl = ks_on_spl c (Lk_runqueue c) (on_spl (splx spl))"

definition ks_acquire :: "nat \<Rightarrow> lockid \<Rightarrow> (ksys, unit) kfun" where
  "ks_acquire c l = ks_on_spl c l (spinlock_acquire c)"

definition ks_release :: "nat \<Rightarrow> lockid \<Rightarrow> (ksys, unit) kfun" where
  "ks_release c l = ks_on_spl c l (spinlock_release c)"

definition ks_do_i_hold :: "nat \<Rightarrow> lockid \<Rightarrow> (ksys, bool) kfun" where
  "ks_do_i_hold c l = ks_on_spl c l (spinlock_do_i_hold c)"


section \<open>Threads\<close>

text \<open>The four words at the bottom end of the stack.\<close>

definition thread_checkstack_init :: "nat \<Rightarrow> (ksys, unit) kfun" where
  "thread_checkstack_init t =
    kbind (th_get t) (\<lambda>th.
    kbind (kthe (t_stack th)) (\<lambda>st.
    kbind (kassert (4 \<le> length st)) (\<lambda>_.
    th_mod t (\<lambda>th. th\<lparr>t_stack := Some (st[0 := THREAD_STACK_MAGIC, 1 := THREAD_STACK_MAGIC, 2 := THREAD_STACK_MAGIC, 3 := THREAD_STACK_MAGIC])\<rparr>))))"

definition thread_checkstack :: "nat \<Rightarrow> (ksys, unit) kfun" where
  "thread_checkstack t =
    kbind (th_get t) (\<lambda>th.
    case t_stack th of
      None \<Rightarrow> kret ()
    | Some st \<Rightarrow>
        kbind (kassert (st ! 0 = THREAD_STACK_MAGIC)) (\<lambda>_.
        kbind (kassert (st ! 1 = THREAD_STACK_MAGIC)) (\<lambda>_.
        kbind (kassert (st ! 2 = THREAD_STACK_MAGIC)) (\<lambda>_.
        kassert (st ! 3 = THREAD_STACK_MAGIC)))))"

text \<open>\<open>mem\<close> is the address \<^verbatim>\<open>kmalloc\<close> returns for the structure, \<open>name_ok\<close> whether the name could be copied.\<close>

definition thread_create :: "nat option \<Rightarrow> bool \<Rightarrow> string \<Rightarrow> (ksys, nat option) kfun" where
  "thread_create mem name_ok name =
    (case mem of
       None \<Rightarrow> kret None
     | Some t \<Rightarrow>
         if \<not> name_ok then kret None
         else
           kbind (kmod (\<lambda>s. s\<lparr>ks_alloc := insert t (ks_alloc s),
             ks_thread := (ks_thread s)(t := \<lparr>t_name = name, t_wchan_name = Some ''NEW'', t_state = S_READY, t_stack = None, t_context = None,
               t_cpu = None, t_proc = None, t_in_interrupt = False\<rparr>),
             ks_curspl := (ks_curspl s)(t := IPL_HIGH), ks_iplhigh := (ks_iplhigh s)(t := 1)\<rparr>)) (\<lambda>_.
           kbind (on_lists (threadlistnode_init t)) (\<lambda>_.
           kret (Some t))))"

definition thread_destroy :: "nat \<Rightarrow> nat \<Rightarrow> (ksys, unit) kfun" where
  "thread_destroy c t =
    kbind (curthread c) (\<lambda>cur.
    kbind (kassert (t \<noteq> cur)) (\<lambda>_.
    kbind (th_get t) (\<lambda>th.
    kbind (kassert (t_state th \<noteq> S_RUN)) (\<lambda>_.
    kbind (kassert (t_proc th = None)) (\<lambda>_.
    kbind (on_lists (threadlistnode_cleanup t)) (\<lambda>_.
    kmod (\<lambda>s. s\<lparr>ks_alloc := ks_alloc s - {t}\<rparr>)))))))"

text \<open>The loop of \<^verbatim>\<open>exorcise\<close>; the number of turns is bounded by the length of the list.\<close>

fun exorcise_loop :: "nat \<Rightarrow> nat \<Rightarrow> (ksys, unit) kfun" where
  "exorcise_loop 0 c = kpanic"
| "exorcise_loop (Suc n) c =
    kbind (on_lists (threadlist_remhead (tl_zombies c))) (\<lambda>z.
    case z of
      None \<Rightarrow> kret ()
    | Some z \<Rightarrow>
        kbind (curthread c) (\<lambda>cur.
        kbind (kassert (z \<noteq> cur)) (\<lambda>_.
        kbind (th_get z) (\<lambda>th.
        kbind (kassert (t_state th = S_ZOMBIE)) (\<lambda>_.
        kbind (thread_destroy c z) (\<lambda>_.
        exorcise_loop n c))))))"

definition exorcise :: "nat \<Rightarrow> (ksys, unit) kfun" where
  "exorcise c = kbind (kget (\<lambda>s. tl_count (ks_lists s) (tl_zombies c))) (\<lambda>n. exorcise_loop (Suc n) c)"

subsection \<open>Process membership\<close>

text \<open>\<open>ok\<close> is whether the array of the process could grow.\<close>

definition proc_addthread :: "nat \<Rightarrow> bool \<Rightarrow> nat \<Rightarrow> nat \<Rightarrow> (ksys, unit) kfun" where
  "proc_addthread c ok p t =
    kbind (th_get t) (\<lambda>th.
    kbind (kassert (t_proc th = None)) (\<lambda>_.
    kbind (ks_acquire c (Lk_proc p)) (\<lambda>_.
    kbind (if ok then kmod (\<lambda>s. s\<lparr>ks_pthreads := (ks_pthreads s)(p := ks_pthreads s p @ [t])\<rparr>) else kret ()) (\<lambda>_.
    kbind (ks_release c (Lk_proc p)) (\<lambda>_.
    if \<not> ok then kerr ENOMEM
    else th_mod t (\<lambda>th. th\<lparr>t_proc := Some p\<rparr>))))))"

definition proc_remthread :: "nat \<Rightarrow> nat \<Rightarrow> (ksys, unit) kfun" where
  "proc_remthread c t =
    kbind (th_get t) (\<lambda>th.
    kbind (kthe (t_proc th)) (\<lambda>p.
    kbind (ks_acquire c (Lk_proc p)) (\<lambda>_.
    kbind (kget (\<lambda>s. ks_pthreads s p)) (\<lambda>ts.
    if t \<in> set ts then
      kbind (kmod (\<lambda>s. s\<lparr>ks_pthreads := (ks_pthreads s)(p := remove1 t ts)\<rparr>)) (\<lambda>_.
      kbind (ks_release c (Lk_proc p)) (\<lambda>_.
      th_mod t (\<lambda>th. th\<lparr>t_proc := None\<rparr>)))
    else
      kbind (ks_release c (Lk_proc p)) (\<lambda>_. kpanic)))))"

subsection \<open>Interprocessor interrupts\<close>

definition IPI_PANIC :: nat where "IPI_PANIC = 0"
definition IPI_OFFLINE :: nat where "IPI_OFFLINE = 1"
definition IPI_UNIDLE :: nat where "IPI_UNIDLE = 2"
definition IPI_TLBSHOOTDOWN :: nat where "IPI_TLBSHOOTDOWN = 3"
definition TLBSHOOTDOWN_MAX :: int where "TLBSHOOTDOWN_MAX = 16"
definition TLBSHOOTDOWN_ALL :: int where "TLBSHOOTDOWN_ALL = - 1"

definition ipi_send :: "nat \<Rightarrow> nat \<Rightarrow> nat \<Rightarrow> (ksys, unit) kfun" where
  "ipi_send c target code =
    kbind (kassert (code < 32)) (\<lambda>_.
    kbind (ks_acquire c (Lk_ipi target)) (\<lambda>_.
    kbind (cpu_mod target (\<lambda>x. x\<lparr>c_ipi_pending := c_ipi_pending x OR push_bit code 1\<rparr>)) (\<lambda>_.
    ks_release c (Lk_ipi target))))"

fun ipi_broadcast_loop :: "nat \<Rightarrow> nat \<Rightarrow> nat list \<Rightarrow> (ksys, unit) kfun" where
  "ipi_broadcast_loop c code [] = kret ()"
| "ipi_broadcast_loop c code (i # is) =
    kbind (if i \<noteq> c then ipi_send c i code else kret ()) (\<lambda>_. ipi_broadcast_loop c code is)"

definition ipi_broadcast :: "nat \<Rightarrow> nat \<Rightarrow> (ksys, unit) kfun" where
  "ipi_broadcast c code = kbind (kget ks_ncpus) (\<lambda>n. ipi_broadcast_loop c code [0..<n])"

text \<open>The array \<^verbatim>\<open>c_shootdown\<close> has \<^verbatim>\<open>TLBSHOOTDOWN_MAX\<close> entries; a store outside of it is a fault.\<close>

definition ipi_tlbshootdown :: "nat \<Rightarrow> nat \<Rightarrow> nat \<Rightarrow> (ksys, unit) kfun" where
  "ipi_tlbshootdown c target mapping =
    kbind (ks_acquire c (Lk_ipi target)) (\<lambda>_.
    kbind (kget (\<lambda>s. c_numshootdown (ks_cpu s target))) (\<lambda>n.
    kbind
      (if n = TLBSHOOTDOWN_MAX then cpu_mod target (\<lambda>x. x\<lparr>c_numshootdown := TLBSHOOTDOWN_ALL\<rparr>)
       else
         kbind (kassert (0 \<le> n \<and> n < TLBSHOOTDOWN_MAX)) (\<lambda>_.
         cpu_mod target (\<lambda>x. x\<lparr>c_shootdown := (c_shootdown x)[nat n := mapping], c_numshootdown := n + 1\<rparr>))) (\<lambda>_.
    kbind (cpu_mod target (\<lambda>x. x\<lparr>c_ipi_pending := c_ipi_pending x OR push_bit IPI_TLBSHOOTDOWN 1\<rparr>)) (\<lambda>_.
    ks_release c (Lk_ipi target)))))"

text \<open>
  The result is what the processor does to its TLB: the mappings it invalidates, or all of them. \<^verbatim>\<open>cpu_halt\<close> does not
  return.
\<close>

datatype shootdown = Shoot_none | Shoot_all | Shoot "nat list"

definition interprocessor_interrupt :: "nat \<Rightarrow> (ksys, shootdown) kfun" where
  "interprocessor_interrupt c =
    kbind (ks_acquire c (Lk_ipi c)) (\<lambda>_.
    kbind (kget (\<lambda>s. ks_cpu s c)) (\<lambda>x.
    let bits = c_ipi_pending x in
    if bit bits IPI_PANIC then kpanic
    else if bit bits IPI_OFFLINE then
      kbind (ks_acquire c (Lk_runqueue c)) (\<lambda>_.
      kbind (ks_release c (Lk_runqueue c)) (\<lambda>_. kpanic))
    else
      let sh = (if bit bits IPI_TLBSHOOTDOWN
                then if c_numshootdown x = TLBSHOOTDOWN_ALL then Shoot_all else Shoot (take (nat (c_numshootdown x)) (c_shootdown x))
                else Shoot_none) in
      kbind (if bit bits IPI_TLBSHOOTDOWN then cpu_mod c (\<lambda>x. x\<lparr>c_numshootdown := 0\<rparr>) else kret ()) (\<lambda>_.
      kbind (cpu_mod c (\<lambda>x. x\<lparr>c_ipi_pending := 0\<rparr>)) (\<lambda>_.
      kbind (ks_release c (Lk_ipi c)) (\<lambda>_.
      kret sh)))))"

text \<open>On panic: the run queue is emptied by hand, count and both ends.\<close>

definition thread_panic :: "nat \<Rightarrow> (ksys, unit) kfun" where
  "thread_panic c =
    kbind (ipi_broadcast c IPI_PANIC) (\<lambda>_.
    kbind (on_lists (set_count (tl_runqueue c) (\<lambda>_. 0))) (\<lambda>_.
    kbind (on_lists (set_next (Tl_head (tl_runqueue c)) None)) (\<lambda>_.
    on_lists (set_prev (Tl_tail (tl_runqueue c)) None))))"

definition thread_shutdown :: "nat \<Rightarrow> (ksys, unit) kfun" where
  "thread_shutdown c = ipi_broadcast c IPI_OFFLINE"

subsection \<open>Run queues and context switch\<close>

definition thread_make_runnable :: "nat \<Rightarrow> nat \<Rightarrow> bool \<Rightarrow> (ksys, unit) kfun" where
  "thread_make_runnable c target already_have_lock =
    kbind (th_get target) (\<lambda>th.
    kbind (kthe (t_cpu th)) (\<lambda>targetcpu.
    kbind
      (if already_have_lock then kbind (ks_do_i_hold c (Lk_runqueue targetcpu)) kassert
       else ks_acquire c (Lk_runqueue targetcpu)) (\<lambda>_.
    kbind (kget (\<lambda>s. c_isidle (ks_cpu s targetcpu))) (\<lambda>isidle.
    kbind (on_lists (threadlist_addtail (tl_runqueue targetcpu) target)) (\<lambda>_.
    kbind (if isidle then ipi_send c targetcpu IPI_UNIDLE else kret ()) (\<lambda>_.
    if \<not> already_have_lock then ks_release c (Lk_runqueue targetcpu) else kret ()))))))"

text \<open>\<open>stack\<close> is the block that \<^verbatim>\<open>kmalloc(STACK_SIZE)\<close> returns, with whatever it contains.\<close>

definition thread_fork :: "nat \<Rightarrow> nat option \<Rightarrow> bool \<Rightarrow> u32 list option \<Rightarrow> bool \<Rightarrow> string \<Rightarrow> nat option \<Rightarrow> nat \<Rightarrow> nat \<Rightarrow> nat \<Rightarrow>
    (ksys, unit) kfun" where
  "thread_fork c mem name_ok stack add_ok name proc entrypoint data1 data2 =
    kbind (thread_create mem name_ok name) (\<lambda>newthread.
    case newthread of
      None \<Rightarrow> kerr ENOMEM
    | Some t \<Rightarrow>
        kbind (th_mod t (\<lambda>th. th\<lparr>t_stack := stack\<rparr>)) (\<lambda>_.
        if stack = None then kbind (thread_destroy c t) (\<lambda>_. kerr ENOMEM)
        else
          kbind (thread_checkstack_init t) (\<lambda>_.
          kbind (curthread c) (\<lambda>cur.
          kbind (th_get cur) (\<lambda>cth.
          kbind (th_mod t (\<lambda>th. th\<lparr>t_cpu := t_cpu cth\<rparr>)) (\<lambda>_.
          kbind (kthe (case proc of None \<Rightarrow> t_proc cth | Some p \<Rightarrow> Some p)) (\<lambda>p.
          kbind (ktry (proc_addthread c add_ok p t)) (\<lambda>result.
          case result of
            Inl e \<Rightarrow> kbind (thread_destroy c t) (\<lambda>_. kerr e)
          | Inr _ \<Rightarrow>
              kbind (kmod (\<lambda>s. s\<lparr>ks_iplhigh := (ks_iplhigh s)(t := ks_iplhigh s t + 1)\<rparr>)) (\<lambda>_.
              kbind (th_mod t (\<lambda>th. th\<lparr>t_context := Some (Ctx_startup entrypoint data1 data2)\<rparr>)) (\<lambda>_.
              thread_make_runnable c t False))))))))))"

text \<open>The end of \<^verbatim>\<open>thread_switch\<close> and the beginning of \<^verbatim>\<open>thread_startup\<close>, in the thread that now runs.\<close>

definition thread_switch_tail :: "nat \<Rightarrow> int \<Rightarrow> (ksys, unit) kfun" where
  "thread_switch_tail c spl =
    kbind (curthread c) (\<lambda>cur.
    kbind (th_mod cur (\<lambda>th. th\<lparr>t_wchan_name := None, t_state := S_RUN\<rparr>)) (\<lambda>_.
    kbind (ks_release c (Lk_runqueue c)) (\<lambda>_.
    kbind (exorcise c) (\<lambda>_.
    kbind (ks_splx c spl) (\<lambda>_. kret ())))))"

definition thread_startup :: "nat \<Rightarrow> (ksys, unit) kfun" where
  "thread_startup c =
    kbind (curthread c) (\<lambda>cur.
    kbind (th_mod cur (\<lambda>th. th\<lparr>t_wchan_name := None, t_state := S_RUN\<rparr>)) (\<lambda>_.
    kbind (ks_release c (Lk_runqueue c)) (\<lambda>_.
    kbind (exorcise c) (\<lambda>_.
    kbind (ks_splx c IPL_NONE) (\<lambda>_. kret ())))))"

text \<open>\<^verbatim>\<open>switchframe_switch\<close>: save where this thread is, continue where the next one was.\<close>

definition switchframe_switch :: "nat \<Rightarrow> nat \<Rightarrow> nat \<Rightarrow> int \<Rightarrow> (ksys, unit) kfun" where
  "switchframe_switch c cur nxt spl =
    kbind (th_mod cur (\<lambda>th. th\<lparr>t_context := Some (Ctx_switch spl)\<rparr>)) (\<lambda>_.
    kbind (th_get nxt) (\<lambda>th.
    kbind (kthe (t_context th)) (\<lambda>ctx.
    case ctx of
      Ctx_startup entrypoint data1 data2 \<Rightarrow> thread_startup c
    | Ctx_switch spl' \<Rightarrow> thread_switch_tail c spl')))"

text \<open>One turn of the loop that looks for the next thread, with the run queue locked; the result is whether there was one.\<close>

definition thread_switch_next :: "nat \<Rightarrow> (ksys, bool) kfun" where
  "thread_switch_next c =
    kbind (on_lists (threadlist_remhead (tl_runqueue c))) (\<lambda>nxt.
    case nxt of
      None \<Rightarrow> kbind (ks_release c (Lk_runqueue c)) (\<lambda>_. kret False)
    | Some nxt \<Rightarrow>
        kbind (curthread c) (\<lambda>cur.
        kbind (kget (\<lambda>s. c_spl (ks_cpu s c))) (\<lambda>spl.
        kbind (cpu_mod c (\<lambda>x. x\<lparr>c_isidle := False, c_curthread := Some nxt\<rparr>)) (\<lambda>_.
        kbind (switchframe_switch c cur nxt spl) (\<lambda>_. kret True)))))"

definition thread_idle :: "nat \<Rightarrow> (ksys, bool) kfun" where
  "thread_idle c = kbind (ks_acquire c (Lk_runqueue c)) (\<lambda>_. thread_switch_next c)"

definition thread_put :: "nat \<Rightarrow> nat \<Rightarrow> threadstate \<Rightarrow> nat option \<Rightarrow> (ksys, unit) kfun" where
  "thread_put c cur newstate wc =
    (case newstate of
       S_RUN \<Rightarrow> kpanic
     | S_READY \<Rightarrow> thread_make_runnable c cur True
     | S_SLEEP \<Rightarrow>
         kbind (kthe wc) (\<lambda>w.
         kbind (kget (\<lambda>s. ks_wcname s w)) (\<lambda>name.
         kbind (th_mod cur (\<lambda>th. th\<lparr>t_wchan_name := Some name\<rparr>)) (\<lambda>_.
         kbind (on_lists (threadlist_addtail (tl_wchan w) cur)) (\<lambda>_.
         ks_release c (Lk_wchan w)))))
     | S_ZOMBIE \<Rightarrow>
         kbind (th_mod cur (\<lambda>th. th\<lparr>t_wchan_name := Some ''ZOMBIE''\<rparr>)) (\<lambda>_.
         on_lists (threadlist_addtail (tl_zombies c) cur)))"

definition thread_switch :: "nat \<Rightarrow> threadstate \<Rightarrow> nat option \<Rightarrow> (ksys, unit) kfun" where
  "thread_switch c newstate wc =
    kbind (ks_splx c IPL_HIGH) (\<lambda>spl.
    kbind (curthread c) (\<lambda>cur.
    kbind (kget (\<lambda>s. c_isidle (ks_cpu s c))) (\<lambda>idle.
    if idle then kbind (ks_splx c spl) (\<lambda>_. kret ())
    else
      kbind (thread_checkstack cur) (\<lambda>_.
      kbind (ks_acquire c (Lk_runqueue c)) (\<lambda>_.
      kbind (on_lists (threadlist_isempty (tl_runqueue c))) (\<lambda>none.
      if newstate = S_READY \<and> none then
        kbind (ks_release c (Lk_runqueue c)) (\<lambda>_.
        kbind (ks_splx c spl) (\<lambda>_. kret ()))
      else
        kbind (thread_put c cur newstate wc) (\<lambda>_.
        kbind (th_mod cur (\<lambda>th. th\<lparr>t_state := newstate\<rparr>)) (\<lambda>_.
        kbind (cpu_mod c (\<lambda>x. x\<lparr>c_isidle := True, c_spl := spl\<rparr>)) (\<lambda>_.
        kbind (thread_switch_next c) (\<lambda>_. kret ()))))))))))"

definition kproc :: nat where "kproc = 0"

definition thread_exit :: "nat \<Rightarrow> (ksys, unit) kfun" where
  "thread_exit c =
    kbind (curthread c) (\<lambda>cur.
    kbind (th_get cur) (\<lambda>th.
    kbind (kassert (t_proc th = Some kproc \<or> t_proc th = None)) (\<lambda>_.
    kbind (if t_proc th = Some kproc then proc_remthread c cur else kret ()) (\<lambda>_.
    kbind (th_get cur) (\<lambda>th.
    kbind (kassert (t_proc th = None)) (\<lambda>_.
    kbind (thread_checkstack cur) (\<lambda>_.
    kbind (ks_splx c IPL_HIGH) (\<lambda>_.
    thread_switch c S_ZOMBIE None))))))))"

definition thread_yield :: "nat \<Rightarrow> (ksys, unit) kfun" where
  "thread_yield c = thread_switch c S_READY None"

subsection \<open>Wait channels\<close>

text \<open>\<open>mem\<close> is the outcome of the allocation.\<close>

definition wchan_create :: "nat option \<Rightarrow> string \<Rightarrow> (ksys, nat option) kfun" where
  "wchan_create mem name =
    (case mem of
       None \<Rightarrow> kret None
     | Some w \<Rightarrow>
         kbind (kmod (\<lambda>s. s\<lparr>ks_lock := (ks_lock s)(Lk_wchan w := spinlock_init (ks_lock s (Lk_wchan w)))\<rparr>)) (\<lambda>_.
         kbind (on_lists (threadlist_init (tl_wchan w))) (\<lambda>_.
         kbind (kmod (\<lambda>s. s\<lparr>ks_wcname := (ks_wcname s)(w := name)\<rparr>)) (\<lambda>_.
         kret (Some w)))))"

definition wchan_destroy :: "nat \<Rightarrow> (ksys, unit) kfun" where
  "wchan_destroy w =
    kbind (kget (\<lambda>s. ks_lock s (Lk_wchan w))) (\<lambda>lk.
    kbind (spinlock_cleanup lk) (\<lambda>_.
    on_lists (threadlist_cleanup (tl_wchan w))))"

definition wchan_lock :: "nat \<Rightarrow> nat \<Rightarrow> (ksys, unit) kfun" where
  "wchan_lock c w = ks_acquire c (Lk_wchan w)"

definition wchan_unlock :: "nat \<Rightarrow> nat \<Rightarrow> (ksys, unit) kfun" where
  "wchan_unlock c w = ks_release c (Lk_wchan w)"

definition wchan_sleep :: "nat \<Rightarrow> nat \<Rightarrow> (ksys, unit) kfun" where
  "wchan_sleep c w =
    kbind (curthread c) (\<lambda>cur.
    kbind (th_get cur) (\<lambda>th.
    kbind (kassert (\<not> t_in_interrupt th)) (\<lambda>_.
    thread_switch c S_SLEEP (Some w))))"

definition wchan_wakeone :: "nat \<Rightarrow> nat \<Rightarrow> (ksys, unit) kfun" where
  "wchan_wakeone c w =
    kbind (ks_acquire c (Lk_wchan w)) (\<lambda>_.
    kbind (on_lists (threadlist_remhead (tl_wchan w))) (\<lambda>target.
    kbind (ks_release c (Lk_wchan w)) (\<lambda>_.
    case target of
      None \<Rightarrow> kret ()
    | Some t \<Rightarrow> thread_make_runnable c t False)))"

fun wakeall_move :: "nat \<Rightarrow> nat \<Rightarrow> nat \<Rightarrow> (ksys, unit) kfun" where
  "wakeall_move 0 c w = kpanic"
| "wakeall_move (Suc n) c w =
    kbind (on_lists (threadlist_remhead (tl_wchan w))) (\<lambda>target.
    case target of
      None \<Rightarrow> kret ()
    | Some t \<Rightarrow> kbind (on_lists (threadlist_addtail (tl_local c) t)) (\<lambda>_. wakeall_move n c w))"

fun wakeall_run :: "nat \<Rightarrow> nat \<Rightarrow> (ksys, unit) kfun" where
  "wakeall_run 0 c = kpanic"
| "wakeall_run (Suc n) c =
    kbind (on_lists (threadlist_remhead (tl_local c))) (\<lambda>target.
    case target of
      None \<Rightarrow> kret ()
    | Some t \<Rightarrow> kbind (thread_make_runnable c t False) (\<lambda>_. wakeall_run n c))"

definition wchan_wakeall :: "nat \<Rightarrow> nat \<Rightarrow> (ksys, unit) kfun" where
  "wchan_wakeall c w =
    kbind (on_lists (threadlist_init (tl_local c))) (\<lambda>_.
    kbind (ks_acquire c (Lk_wchan w)) (\<lambda>_.
    kbind (kget (\<lambda>s. tl_count (ks_lists s) (tl_wchan w))) (\<lambda>n.
    kbind (wakeall_move (Suc n) c w) (\<lambda>_.
    kbind (ks_release c (Lk_wchan w)) (\<lambda>_.
    kbind (wakeall_run (Suc n) c) (\<lambda>_.
    on_lists (threadlist_cleanup (tl_local c))))))))"

definition wchan_isempty :: "nat \<Rightarrow> nat \<Rightarrow> (ksys, bool) kfun" where
  "wchan_isempty c w =
    kbind (ks_acquire c (Lk_wchan w)) (\<lambda>_.
    kbind (on_lists (threadlist_isempty (tl_wchan w))) (\<lambda>ret.
    kbind (ks_release c (Lk_wchan w)) (\<lambda>_.
    kret ret)))"

subsection \<open>Migration\<close>

text \<open>Total number of queued threads, with the wrap-around of \<^verbatim>\<open>unsigned\<close>, and the number on this processor.\<close>

fun migration_count :: "nat \<Rightarrow> nat list \<Rightarrow> nat \<Rightarrow> nat \<Rightarrow> (ksys, nat \<times> nat) kfun" where
  "migration_count c [] my_count total_count = kret (my_count, total_count)"
| "migration_count c (i # is) my_count total_count =
    kbind (ks_acquire c (Lk_runqueue i)) (\<lambda>_.
    kbind (kget (\<lambda>s. tl_count (ks_lists s) (tl_runqueue i))) (\<lambda>n.
    kbind (ks_release c (Lk_runqueue i)) (\<lambda>_.
    migration_count c is (if i = c then n else my_count) (add32 total_count n))))"

fun migration_collect :: "nat \<Rightarrow> nat \<Rightarrow> (ksys, unit) kfun" where
  "migration_collect 0 c = kret ()"
| "migration_collect (Suc n) c =
    kbind (on_lists (threadlist_remtail (tl_runqueue c))) (\<lambda>t.
    kbind (kthe t) (\<lambda>t.
    kbind (on_lists (threadlist_addhead (tl_local c) t)) (\<lambda>_.
    migration_collect n c)))"

text \<open>Fill the run queue of processor \<open>i\<close>; the first argument is \<^verbatim>\<open>to_send\<close>, the result what is left of it.\<close>

fun migration_fill :: "nat \<Rightarrow> nat \<Rightarrow> nat \<Rightarrow> nat \<Rightarrow> (ksys, nat) kfun" where
  "migration_fill 0 c i one_share = kret 0"
| "migration_fill (Suc to_send) c i one_share =
    kbind (kget (\<lambda>s. tl_count (ks_lists s) (tl_runqueue i))) (\<lambda>n.
    if n < one_share then
      kbind (on_lists (threadlist_remhead (tl_local c))) (\<lambda>t.
      kbind (kthe t) (\<lambda>t.
      kbind (curthread c) (\<lambda>cur.
      if t = cur then
        kbind (on_lists (threadlist_addtail (tl_local c) t)) (\<lambda>_.
        migration_fill to_send c i one_share)
      else
        kbind (th_mod t (\<lambda>th. th\<lparr>t_cpu := Some i\<rparr>)) (\<lambda>_.
        kbind (on_lists (threadlist_addtail (tl_runqueue i) t)) (\<lambda>_.
        kbind (kget (\<lambda>s. c_isidle (ks_cpu s i))) (\<lambda>idle.
        kbind (if idle then ipi_send c i IPI_UNIDLE else kret ()) (\<lambda>_.
        migration_fill to_send c i one_share)))))))
    else kret (Suc to_send))"

fun migration_send :: "nat \<Rightarrow> nat list \<Rightarrow> nat \<Rightarrow> nat \<Rightarrow> (ksys, unit) kfun" where
  "migration_send c [] to_send one_share = kret ()"
| "migration_send c (i # is) to_send one_share =
    (if to_send = 0 then kret ()
     else if i = c then migration_send c is to_send one_share
     else
       kbind (ks_acquire c (Lk_runqueue i)) (\<lambda>_.
       kbind (migration_fill to_send c i one_share) (\<lambda>to_send.
       kbind (ks_release c (Lk_runqueue i)) (\<lambda>_.
       migration_send c is to_send one_share))))"

fun migration_back :: "nat \<Rightarrow> nat \<Rightarrow> (ksys, unit) kfun" where
  "migration_back 0 c = kpanic"
| "migration_back (Suc n) c =
    kbind (on_lists (threadlist_remhead (tl_local c))) (\<lambda>t.
    case t of
      None \<Rightarrow> kret ()
    | Some t \<Rightarrow> kbind (on_lists (threadlist_addtail (tl_runqueue c) t)) (\<lambda>_. migration_back n c))"

definition thread_consider_migration :: "nat \<Rightarrow> (ksys, unit) kfun" where
  "thread_consider_migration c =
    kbind (kget ks_ncpus) (\<lambda>numcpus.
    kbind (migration_count c [0..<numcpus] 0 0) (\<lambda>(my_count, total_count).
    let one_share = DIVROUNDUP total_count numcpus in
    if my_count < one_share then kret ()
    else
      let to_send = my_count - one_share in
      kbind (on_lists (threadlist_init (tl_local c))) (\<lambda>_.
      kbind (ks_acquire c (Lk_runqueue c)) (\<lambda>_.
      kbind (migration_collect to_send c) (\<lambda>_.
      kbind (ks_release c (Lk_runqueue c)) (\<lambda>_.
      kbind (migration_send c [0..<numcpus] to_send one_share) (\<lambda>_.
      kbind (on_lists (threadlist_isempty (tl_local c))) (\<lambda>none.
      kbind
        (if \<not> none then
           kbind (ks_acquire c (Lk_runqueue c)) (\<lambda>_.
           kbind (kget (\<lambda>s. tl_count (ks_lists s) (tl_local c))) (\<lambda>n.
           kbind (migration_back (Suc n) c) (\<lambda>_.
           ks_release c (Lk_runqueue c))))
         else kret ()) (\<lambda>_.
      kbind (on_lists (threadlist_isempty (tl_local c))) (\<lambda>none.
      kbind (kassert none) (\<lambda>_.
      on_lists (threadlist_cleanup (tl_local c)))))))))))))"

subsection \<open>Startup\<close>

fun decimal :: "nat \<Rightarrow> string" where
  "decimal n = (if n < 10 then [''0123456789'' ! n] else decimal (n div 10) @ [''0123456789'' ! (n mod 10)])"

declare decimal.simps [simp del]

text \<open>
  \<^verbatim>\<open>cpu_create\<close> executed by processor \<open>c\<close>; the arguments are the outcomes of its allocations. Each failure is a panic.
\<close>

definition cpu_create :: "nat \<Rightarrow> bool \<Rightarrow> bool \<Rightarrow> nat option \<Rightarrow> bool \<Rightarrow> bool \<Rightarrow> u32 list option \<Rightarrow> (ksys, nat) kfun" where
  "cpu_create c mem_ok array_ok mem name_ok add_ok stack =
    kbind (kassert mem_ok) (\<lambda>_.
    kbind (kget ks_ncpus) (\<lambda>n.
    kbind (cpu_mod n (\<lambda>x. x\<lparr>c_curthread := None, c_isidle := False, c_ipi_pending := 0, c_numshootdown := 0\<rparr>)) (\<lambda>_.
    kbind (on_lists (threadlist_init (tl_zombies n))) (\<lambda>_.
    kbind (on_lists (threadlist_init (tl_runqueue n))) (\<lambda>_.
    kbind (kmod (\<lambda>s. s\<lparr>ks_lock := (ks_lock s)(Lk_runqueue n := spinlock_init (ks_lock s (Lk_runqueue n)),
       Lk_ipi n := spinlock_init (ks_lock s (Lk_ipi n)))\<rparr>)) (\<lambda>_.
    kbind (kassert array_ok) (\<lambda>_.
    kbind (kmod (\<lambda>s. s\<lparr>ks_ncpus := Suc n\<rparr>)) (\<lambda>_.
    kbind (thread_create mem name_ok (''<boot #'' @ decimal n @ ''>'')) (\<lambda>t.
    kbind (cpu_mod n (\<lambda>x. x\<lparr>c_curthread := t\<rparr>)) (\<lambda>_.
    kbind (kthe t) (\<lambda>t.
    kbind (ktry (proc_addthread c add_ok kproc t)) (\<lambda>result.
    kbind (case result of Inl e \<Rightarrow> kpanic | Inr _ \<Rightarrow> kret ()) (\<lambda>_.
    kbind
      (if n = 0 then kret ()
       else
         kbind (th_mod t (\<lambda>th. th\<lparr>t_stack := stack\<rparr>)) (\<lambda>_.
         kbind (kassert (stack \<noteq> None)) (\<lambda>_.
         thread_checkstack_init t))) (\<lambda>_.
    kbind (th_mod t (\<lambda>th. th\<lparr>t_cpu := Some n\<rparr>)) (\<lambda>_.
    kret n)))))))))))))))"

definition thread_bootstrap :: "bool \<Rightarrow> bool \<Rightarrow> nat option \<Rightarrow> bool \<Rightarrow> bool \<Rightarrow> (ksys, unit) kfun" where
  "thread_bootstrap mem_ok array_ok mem name_ok add_ok =
    kbind (kmod (\<lambda>s. s\<lparr>ks_ncpus := 0\<rparr>)) (\<lambda>_.
    kbind (cpu_create 0 mem_ok array_ok mem name_ok add_ok None) (\<lambda>bootcpu.
    kbind (kmod (\<lambda>s. s\<lparr>ks_booted := True\<rparr>)) (\<lambda>_.
    kbind (curthread bootcpu) (\<lambda>cur.
    kbind (th_mod cur (\<lambda>th. th\<lparr>t_cpu := Some bootcpu\<rparr>)) (\<lambda>_.
    kbind (th_get cur) (\<lambda>th.
    kassert (t_proc th \<noteq> None)))))))"

end
