(* ===== verification/Thread_Inv.thy ===== *)
theory Thread_Inv
  imports Thread
begin

text \<open>
  The invariant of the thread system and its preservation. Every live thread is in exactly one place: it runs on a
  processor, or it is on one list, the run queue or the zombie list of its processor or a wait channel. The interrupt
  counters account for the spinlocks that are held, also across context switches, in which the run queue lock is taken
  by one thread and released by the next.
\<close>

section \<open>Primitive operations\<close>

lemma tl_ids [simp]:
  "tl_zombies c = tl_zombies d \<longleftrightarrow> c = d" "tl_runqueue c = tl_runqueue d \<longleftrightarrow> c = d" "tl_wchan c = tl_wchan d \<longleftrightarrow> c = d"
  "tl_local c = tl_local d \<longleftrightarrow> c = d" "tl_zombies c \<noteq> tl_runqueue d" "tl_zombies c \<noteq> tl_wchan d" "tl_zombies c \<noteq> tl_local d"
  "tl_runqueue c \<noteq> tl_zombies d" "tl_runqueue c \<noteq> tl_wchan d" "tl_runqueue c \<noteq> tl_local d" "tl_wchan c \<noteq> tl_zombies d"
  "tl_wchan c \<noteq> tl_runqueue d" "tl_wchan c \<noteq> tl_local d" "tl_local c \<noteq> tl_zombies d" "tl_local c \<noteq> tl_runqueue d"
  "tl_local c \<noteq> tl_wchan d"
  unfolding tl_zombies_def tl_runqueue_def tl_wchan_def tl_local_def by presburger+

subsection \<open>Lists\<close>

lemma on_lists_run: "m (ks_lists s) = Ok x l \<Longrightarrow> on_lists m s = Ok x (s\<lparr>ks_lists := l\<rparr>)"
  by (simp add: on_lists_def)

lemma tl_run:
  assumes "tl_rep ls (L, T)"
  shows addtail_run: "can_add (L, T) l t \<Longrightarrow> \<exists>ls'. threadlist_addtail l t ls = Ok () ls' \<and> tl_rep ls' (L(l \<mapsto> the (L l) @ [t]), T)"
    and addhead_run: "can_add (L, T) l t \<Longrightarrow> \<exists>ls'. threadlist_addhead l t ls = Ok () ls' \<and> tl_rep ls' (L(l \<mapsto> t # the (L l)), T)"
    and remhead_Nil: "L l = Some [] \<Longrightarrow> \<exists>ls'. threadlist_remhead l ls = Ok None ls' \<and> tl_rep ls' (L, T)"
    and remhead_Cons: "L l = Some (t # ts) \<Longrightarrow> \<exists>ls'. threadlist_remhead l ls = Ok (Some t) ls' \<and> tl_rep ls' (L(l \<mapsto> ts), T)"
    and remtail_run: "L l = Some (ts @ [t]) \<Longrightarrow> \<exists>ls'. threadlist_remtail l ls = Ok (Some t) ls' \<and> tl_rep ls' (L(l \<mapsto> ts), T)"
    and init_run: "L l = None \<or> L l = Some [] \<Longrightarrow> \<exists>ls'. threadlist_init l ls = Ok () ls' \<and> tl_rep ls' (L(l \<mapsto> []), T)"
    and node_init_run: "unlisted L t \<Longrightarrow> \<exists>ls'. threadlistnode_init t ls = Ok () ls' \<and> tl_rep ls' (L, insert t T)"
  using tl_exec_ok [OF assms, of "Addtail l t"] tl_exec_ok [OF assms, of "Addhead l t"] tl_exec_ok [OF assms, of "Remhead l"]
    tl_exec_ok [OF assms, of "Remtail l"] tl_exec_ok [OF assms, of "List_init l"] tl_exec_ok [OF assms, of "Node_init t"]
  by (auto simp: kbind_def kret_def split: kres.splits)

lemma tl_ask:
  assumes "tl_rep ls (L, T)"
  shows isempty_run: "L l = Some ts \<Longrightarrow> threadlist_isempty l ls = Ok (ts = []) ls"
    and cleanup_run: "L l = Some [] \<Longrightarrow> threadlist_cleanup l ls = Ok () ls"
    and node_cleanup_run: "t \<in> T \<Longrightarrow> unlisted L t \<Longrightarrow> threadlistnode_cleanup t ls = Ok () ls"
    and count_run: "L l = Some ts \<Longrightarrow> tl_count ls l = length ts"
  using tl_list_ends(5) [OF tl_repD(1) [OF assms, of l]] tl_repD(4-6) [OF assms, of t]
  by (auto simp: kfun_defs threadlist_isempty_def threadlist_cleanup_def threadlistnode_cleanup_def tl_access)

subsection \<open>Levels and locks\<close>

text \<open>The processor has a current thread whose counter agrees with the interrupt flag.\<close>

definition cpu_ok :: "nat \<Rightarrow> nat \<Rightarrow> ksys \<Rightarrow> bool" where
  "cpu_ok c t s \<longleftrightarrow> ks_booted s \<and> c_curthread (ks_cpu s c) = Some t \<and> t \<in> ks_alloc s \<and> ks_curspl s t \<in> {IPL_NONE, IPL_HIGH} \<and>
     0 \<le> ks_iplhigh s t \<and> (ks_irq s c \<longleftrightarrow> ks_iplhigh s t = 0)"

definition free_lock :: spinlock where "free_lock = \<lparr>lk_lock = 0, lk_holder = None\<rparr>"
definition cpu_lock :: "nat \<Rightarrow> spinlock" where "cpu_lock c = \<lparr>lk_lock = 1, lk_holder = Some c\<rparr>"

definition st_acquire :: "nat \<Rightarrow> nat \<Rightarrow> lockid \<Rightarrow> ksys \<Rightarrow> ksys" where
  "st_acquire c t l s = s\<lparr>ks_iplhigh := (ks_iplhigh s)(t := ks_iplhigh s t + 1), ks_irq := (ks_irq s)(c := False),
     ks_lock := (ks_lock s)(l := cpu_lock c)\<rparr>"

definition st_release :: "nat \<Rightarrow> nat \<Rightarrow> lockid \<Rightarrow> ksys \<Rightarrow> ksys" where
  "st_release c t l s = s\<lparr>ks_iplhigh := (ks_iplhigh s)(t := ks_iplhigh s t - 1), ks_irq := (ks_irq s)(c := ks_iplhigh s t = 1),
     ks_lock := (ks_lock s)(l := free_lock)\<rparr>"

definition st_splx :: "nat \<Rightarrow> nat \<Rightarrow> int \<Rightarrow> ksys \<Rightarrow> ksys" where
  "st_splx c t spl s = s\<lparr>ks_curspl := (ks_curspl s)(t := spl), ks_iplhigh := (ks_iplhigh s)(t := ks_iplhigh s t + spl - ks_curspl s t),
     ks_irq := (ks_irq s)(c := ks_iplhigh s t + spl - ks_curspl s t = 0)\<rparr>"

lemma acquire_run:
  assumes "cpu_ok c t s" "ks_lock s l = free_lock"
  shows "ks_acquire c l s = Ok () (st_acquire c t l s)"
  using assms by (auto simp: ks_acquire_def ks_on_spl_def spinlock_acquire_def on_spl_def spl_defs kfun_defs cpu_ok_def st_acquire_def
      free_lock_def cpu_lock_def spinlock_data_get_def spinlock_data_testandset_def fun_upd_idem)

lemma release_run:
  assumes "cpu_ok c t s" "ks_lock s l = cpu_lock c" "0 < ks_iplhigh s t"
  shows "ks_release c l s = Ok () (st_release c t l s)"
  using assms by (auto simp: ks_release_def ks_on_spl_def spinlock_release_def on_spl_def spl_defs kfun_defs cpu_ok_def st_release_def
      free_lock_def cpu_lock_def spinlock_data_set_def fun_upd_idem)

lemma do_i_hold_run:
  assumes "cpu_ok c t s" "ks_lock s l = cpu_lock c"
  shows "ks_do_i_hold c l s = Ok True s"
  using assms by (auto simp: ks_do_i_hold_def ks_on_spl_def spinlock_do_i_hold_def kfun_defs cpu_ok_def cpu_lock_def fun_upd_idem)

lemma splx_run:
  assumes "cpu_ok c t s" "spl \<in> {IPL_NONE, IPL_HIGH}" "ks_curspl s t \<le> ks_iplhigh s t"
  shows "ks_splx c spl s = Ok (ks_curspl s t) (st_splx c t spl s)"
  using assms by (auto simp: ks_splx_def ks_on_spl_def on_spl_def spl_defs kfun_defs cpu_ok_def st_splx_def fun_upd_idem)

lemma st_simps [simp]:
  "ks_booted (st_acquire c t l s) = ks_booted s" "ks_alloc (st_acquire c t l s) = ks_alloc s" "ks_thread (st_acquire c t l s) = ks_thread s"
  "ks_curspl (st_acquire c t l s) = ks_curspl s" "ks_ncpus (st_acquire c t l s) = ks_ncpus s" "ks_cpu (st_acquire c t l s) = ks_cpu s"
  "ks_lists (st_acquire c t l s) = ks_lists s" "ks_pthreads (st_acquire c t l s) = ks_pthreads s" "ks_wcname (st_acquire c t l s) = ks_wcname s"
  "ks_lock (st_acquire c t l s) = (ks_lock s)(l := cpu_lock c)" "ks_iplhigh (st_acquire c t l s) = (ks_iplhigh s)(t := ks_iplhigh s t + 1)"
  "ks_irq (st_acquire c t l s) = (ks_irq s)(c := False)"
  "ks_booted (st_release c t l s) = ks_booted s" "ks_alloc (st_release c t l s) = ks_alloc s" "ks_thread (st_release c t l s) = ks_thread s"
  "ks_curspl (st_release c t l s) = ks_curspl s" "ks_ncpus (st_release c t l s) = ks_ncpus s" "ks_cpu (st_release c t l s) = ks_cpu s"
  "ks_lists (st_release c t l s) = ks_lists s" "ks_pthreads (st_release c t l s) = ks_pthreads s" "ks_wcname (st_release c t l s) = ks_wcname s"
  "ks_lock (st_release c t l s) = (ks_lock s)(l := free_lock)" "ks_iplhigh (st_release c t l s) = (ks_iplhigh s)(t := ks_iplhigh s t - 1)"
  "ks_irq (st_release c t l s) = (ks_irq s)(c := ks_iplhigh s t = 1)"
  "ks_booted (st_splx c t spl s) = ks_booted s" "ks_alloc (st_splx c t spl s) = ks_alloc s" "ks_thread (st_splx c t spl s) = ks_thread s"
  "ks_curspl (st_splx c t spl s) = (ks_curspl s)(t := spl)" "ks_ncpus (st_splx c t spl s) = ks_ncpus s" "ks_cpu (st_splx c t spl s) = ks_cpu s"
  "ks_lists (st_splx c t spl s) = ks_lists s" "ks_pthreads (st_splx c t spl s) = ks_pthreads s" "ks_wcname (st_splx c t spl s) = ks_wcname s"
  "ks_lock (st_splx c t spl s) = ks_lock s" "ks_iplhigh (st_splx c t spl s) = (ks_iplhigh s)(t := ks_iplhigh s t + spl - ks_curspl s t)"
  "ks_irq (st_splx c t spl s) = (ks_irq s)(c := ks_iplhigh s t + spl - ks_curspl s t = 0)"
  by (simp_all add: st_acquire_def st_release_def st_splx_def)

lemma locks_distinct [simp]: "free_lock \<noteq> cpu_lock c" "cpu_lock c \<noteq> free_lock" "cpu_lock c = cpu_lock d \<longleftrightarrow> c = d"
  "lk_holder free_lock = None" "lk_holder (cpu_lock c) = Some c"
  by (auto simp: free_lock_def cpu_lock_def)

lemma cpu_ok_st [simp]:
  "cpu_ok c t s \<Longrightarrow> cpu_ok c t (st_acquire c t l s)"
  "cpu_ok c t s \<Longrightarrow> 0 < ks_iplhigh s t \<Longrightarrow> cpu_ok c t (st_release c t l s)"
  "cpu_ok c t s \<Longrightarrow> spl \<in> {IPL_NONE, IPL_HIGH} \<Longrightarrow> ks_curspl s t \<le> ks_iplhigh s t \<Longrightarrow> cpu_ok c t (st_splx c t spl s)"
  by (auto simp: cpu_ok_def IPL_NONE_def IPL_HIGH_def)

lemma cpu_ok_frame:
  assumes "cpu_ok c t s" "ks_booted s' = ks_booted s" "t \<in> ks_alloc s'" "ks_curspl s' t = ks_curspl s t" "ks_iplhigh s' t = ks_iplhigh s t"
    "ks_irq s' c = ks_irq s c" "c_curthread (ks_cpu s' c) = c_curthread (ks_cpu s c)"
  shows "cpu_ok c t s'"
  using assms by (simp add: cpu_ok_def)

text \<open>A lock that is taken and released around a change of other parts of the state leaves no trace.\<close>

lemma locked_section:
  assumes "cpu_ok c t s" "ks_lock s l = free_lock"
    and m: "m (st_acquire c t l s) = Ok x s'" and s': "ks_iplhigh s' = ks_iplhigh (st_acquire c t l s)"
      "ks_irq s' = ks_irq (st_acquire c t l s)" "ks_lock s' = ks_lock (st_acquire c t l s)" "cpu_ok c t s'"
  shows "kbind (ks_acquire c l) (\<lambda>_. kbind m (\<lambda>x. kbind (ks_release c l) (\<lambda>_. f x))) s =
    f x (s'\<lparr>ks_iplhigh := ks_iplhigh s, ks_irq := ks_irq s, ks_lock := ks_lock s\<rparr>)"
proof -
  have "ks_iplhigh s t \<ge> 0" "ks_irq s c \<longleftrightarrow> ks_iplhigh s t = 0" using assms(1) by (simp_all add: cpu_ok_def)
  then have "ks_release c l s' = Ok () (st_release c t l s')" using s' by (intro release_run) auto
  moreover have "st_release c t l s' = s'\<lparr>ks_iplhigh := ks_iplhigh s, ks_irq := ks_irq s, ks_lock := ks_lock s\<rparr>"
    using s' assms(2) \<open>ks_irq s c \<longleftrightarrow> _\<close> by (simp add: st_release_def fun_upd_idem)
  ultimately show ?thesis using acquire_run [OF assms(1,2)] m by (simp add: kbind_def)
qed

subsection \<open>Interprocessor interrupts and wakeups\<close>

lemma ipi_send_run:
  assumes "cpu_ok c t s" "ks_lock s (Lk_ipi i) = free_lock" "code < 32"
  shows "ipi_send c i code s = Ok () (s\<lparr>ks_cpu := (ks_cpu s)(i := (ks_cpu s i)\<lparr>c_ipi_pending := c_ipi_pending (ks_cpu s i) OR push_bit code 1\<rparr>)\<rparr>)"
proof -
  let ?f = "\<lambda>x. x\<lparr>c_ipi_pending := c_ipi_pending x OR push_bit code 1\<rparr>"
  let ?s = "(st_acquire c t (Lk_ipi i) s)\<lparr>ks_cpu := (ks_cpu s)(i := ?f (ks_cpu s i))\<rparr>"
  have m: "cpu_mod i ?f (st_acquire c t (Lk_ipi i) s) = Ok () ?s" by (simp add: cpu_mod_def kmod_def)
  have ok': "cpu_ok c t ?s" using assms(1) by (intro cpu_ok_frame [OF cpu_ok_st(1) [OF assms(1)]]) (auto simp: cpu_ok_def)
  have "kbind (ks_acquire c (Lk_ipi i)) (\<lambda>_. kbind (cpu_mod i ?f) (\<lambda>x. kbind (ks_release c (Lk_ipi i)) (\<lambda>_. kret x))) s =
      kret () (?s\<lparr>ks_iplhigh := ks_iplhigh s, ks_irq := ks_irq s, ks_lock := ks_lock s\<rparr>)"
    by (rule locked_section [where t = t and s' = ?s and f = kret and x = "()"]) (use assms(1,2) m ok' in simp_all)
  moreover have "kbind (ks_release c (Lk_ipi i)) (\<lambda>_. kret x) = ks_release c (Lk_ipi i)" for x
    by (simp add: fun_eq_iff kbind_def kret_def split: kres.splits)
  ultimately show ?thesis
    using assms(3) by (simp add: ipi_send_def kassert_def kret_def kbind_def [of "kassert _"] st_acquire_def)
qed

text \<open>The processors differ in their pending interrupts only.\<close>

definition ipi_only :: "(nat \<Rightarrow> cpu) \<Rightarrow> (nat \<Rightarrow> cpu) \<Rightarrow> bool" where
  "ipi_only k k' \<longleftrightarrow> (\<forall>i. c_curthread (k' i) = c_curthread (k i) \<and> c_isidle (k' i) = c_isidle (k i) \<and> c_spl (k' i) = c_spl (k i))"

lemma ipi_only_refl [simp]: "ipi_only k k"
  by (simp add: ipi_only_def)

lemma ipi_only_trans: "ipi_only k k' \<Longrightarrow> ipi_only k' k'' \<Longrightarrow> ipi_only k k''"
  by (simp add: ipi_only_def)

lemma ipi_onlyD: "ipi_only k k' \<Longrightarrow> c_curthread (k' i) = c_curthread (k i)" "ipi_only k k' \<Longrightarrow> c_isidle (k' i) = c_isidle (k i)"
  "ipi_only k k' \<Longrightarrow> c_spl (k' i) = c_spl (k i)"
  by (simp_all add: ipi_only_def)

lemma unidle_run:
  assumes "cpu_ok c t s" "ks_lock s (Lk_ipi i) = free_lock"
  shows "\<exists>k. (if b then ipi_send c i IPI_UNIDLE else kret ()) s = Ok () (s\<lparr>ks_cpu := k\<rparr>) \<and> ipi_only (ks_cpu s) k"
proof (cases b)
  case True
  let ?k = "(ks_cpu s)(i := (ks_cpu s i)\<lparr>c_ipi_pending := c_ipi_pending (ks_cpu s i) OR push_bit IPI_UNIDLE 1\<rparr>)"
  have "ipi_only (ks_cpu s) ?k" by (simp add: ipi_only_def)
  then show ?thesis using ipi_send_run [OF assms, of IPI_UNIDLE] True by (intro exI [of _ ?k]) (simp add: IPI_UNIDLE_def)
next
  case False
  then show ?thesis by (intro exI [of _ "ks_cpu s"]) (simp add: kret_def)
qed

lemma make_runnable_run:
  assumes ok: "cpu_ok c t s" and u: "u \<in> ks_alloc s" "t_cpu (ks_thread s u) = Some d"
    and free: "ks_lock s (Lk_runqueue d) = free_lock" "ks_lock s (Lk_ipi d) = free_lock"
    and rep: "tl_rep (ks_lists s) (L, T)" and add: "can_add (L, T) (tl_runqueue d) u"
  shows "\<exists>ls k. thread_make_runnable c u False s = Ok () (s\<lparr>ks_lists := ls, ks_cpu := k\<rparr>) \<and>
    tl_rep ls (L(tl_runqueue d \<mapsto> the (L (tl_runqueue d)) @ [u]), T) \<and> ipi_only (ks_cpu s) k"
proof -
  let ?l = "Lk_runqueue d"
  let ?a = "st_acquire c t ?l s"
  let ?idle = "c_isidle (ks_cpu s d)"
  obtain ls where "threadlist_addtail (tl_runqueue d) u (ks_lists s) = Ok () ls"
      and ls_rep: "tl_rep ls (L(tl_runqueue d \<mapsto> the (L (tl_runqueue d)) @ [u]), T)"
    using addtail_run [OF rep add] by blast
  then have ls: "on_lists (threadlist_addtail (tl_runqueue d) u) ?a = Ok () (?a\<lparr>ks_lists := ls\<rparr>)" by (simp add: on_lists_def)
  have "cpu_ok c t (?a\<lparr>ks_lists := ls\<rparr>)" using ok by (intro cpu_ok_frame [OF cpu_ok_st(1) [OF ok]]) (auto simp: cpu_ok_def)
  from unidle_run [OF this, of d ?idle] free obtain k where
    k: "(if ?idle then ipi_send c d IPI_UNIDLE else kret ()) (?a\<lparr>ks_lists := ls\<rparr>) = Ok () (?a\<lparr>ks_lists := ls, ks_cpu := k\<rparr>)" "ipi_only (ks_cpu s) k"
    by auto
  let ?s = "?a\<lparr>ks_lists := ls, ks_cpu := k\<rparr>"
  let ?m = "kbind (kget (\<lambda>s. c_isidle (ks_cpu s d))) (\<lambda>isidle. kbind (on_lists (threadlist_addtail (tl_runqueue d) u)) (\<lambda>_.
    if isidle then ipi_send c d IPI_UNIDLE else kret ()))"
  have m: "?m ?a = Ok () ?s" using ls k(1) by (simp add: kbind_def kget_def)
  have ok': "cpu_ok c t ?s" using ok k(2) by (intro cpu_ok_frame [OF cpu_ok_st(1) [OF ok]]) (auto simp: cpu_ok_def ipi_only_def)
  have "kbind (ks_acquire c ?l) (\<lambda>_. kbind ?m (\<lambda>x. kbind (ks_release c ?l) (\<lambda>_. kret x))) s =
      kret () (?s\<lparr>ks_iplhigh := ks_iplhigh s, ks_irq := ks_irq s, ks_lock := ks_lock s\<rparr>)"
    by (rule locked_section [where t = t and s' = ?s and f = kret and x = "()"]) (use ok free(1) m ok' in simp_all)
  moreover have "thread_make_runnable c u False s = kbind (ks_acquire c ?l) (\<lambda>_. kbind ?m (\<lambda>x. kbind (ks_release c ?l) (\<lambda>_. kret x))) s"
    using u by (simp add: thread_make_runnable_def th_get_def kthe_def kfun_defs split: kres.splits)
  ultimately show ?thesis using ls_rep k(2) by (auto simp: kret_def st_acquire_def)
qed

section \<open>The invariant\<close>

definition stack_ok :: "u32 list option \<Rightarrow> bool" where
  "stack_ok st \<longleftrightarrow> (case st of None \<Rightarrow> True | Some ws \<Rightarrow> 4 \<le> length ws \<and> (\<forall>i < 4. ws ! i = THREAD_STACK_MAGIC))"

fun ctx_ok :: "kcontext option \<Rightarrow> bool" where
  "ctx_ok None = False"
| "ctx_ok (Some (Ctx_startup e d1 d2)) = True"
| "ctx_ok (Some (Ctx_switch spl)) \<longleftrightarrow> spl \<in> {IPL_NONE, IPL_HIGH}"

text \<open>Where a thread may be listed: its state has to fit, and the run queue and the zombie list are those of its processor.\<close>

definition spot :: "nat \<Rightarrow> thread \<Rightarrow> nat \<Rightarrow> bool" where
  "spot n th l \<longleftrightarrow> (\<exists>d < n. t_cpu th = Some d \<and>
     (l = tl_runqueue d \<and> t_state th \<in> {S_READY, S_SLEEP} \<or> l = tl_zombies d \<and> t_state th = S_ZOMBIE \<and> t_proc th = None \<or>
      (\<exists>w. l = tl_wchan w) \<and> t_state th = S_SLEEP \<or> (\<exists>c. l = tl_local c) \<and> t_state th \<in> {S_READY, S_SLEEP}))"

definition sys_lists :: "ksys \<Rightarrow> (nat \<rightharpoonup> nat list) \<Rightarrow> nat set \<Rightarrow> bool" where
  "sys_lists s L T \<longleftrightarrow> tl_rep (ks_lists s) (L, T) \<and> ks_alloc s \<subseteq> T \<and> finite (ks_alloc s) \<and> card (ks_alloc s) < 2 ^ 32 \<and>
     (\<forall>c < ks_ncpus s. L (tl_zombies c) \<noteq> None \<and> L (tl_runqueue c) \<noteq> None)"

text \<open>
  Listed threads are live and in a place that fits; the current thread of a processor is on no list unless the processor is
  idle; and no thread is lost: a live thread on no list is the current thread of a processor that is not idle.
\<close>

definition listed_ok :: "ksys \<Rightarrow> (nat \<rightharpoonup> nat list) \<Rightarrow> bool" where
  "listed_ok s L \<longleftrightarrow> (\<forall>l ts t. L l = Some ts \<longrightarrow> t \<in> set ts \<longrightarrow> t \<in> ks_alloc s \<and> spot (ks_ncpus s) (ks_thread s t) l)"

definition current_ok :: "ksys \<Rightarrow> (nat \<rightharpoonup> nat list) \<Rightarrow> bool" where
  "current_ok s L \<longleftrightarrow> (\<forall>c < ks_ncpus s. \<exists>t \<in> ks_alloc s. c_curthread (ks_cpu s c) = Some t \<and> t_cpu (ks_thread s t) = Some c \<and>
     (if c_isidle (ks_cpu s c) then \<not> unlisted L t else unlisted L t \<and> t_state (ks_thread s t) \<in> {S_RUN, S_READY}))"

definition none_lost :: "ksys \<Rightarrow> (nat \<rightharpoonup> nat list) \<Rightarrow> bool" where
  "none_lost s L \<longleftrightarrow> (\<forall>t \<in> ks_alloc s. unlisted L t \<longrightarrow> (\<exists>c < ks_ncpus s. c_curthread (ks_cpu s c) = Some t \<and> \<not> c_isidle (ks_cpu s c)))"

definition sys_places :: "ksys \<Rightarrow> (nat \<rightharpoonup> nat list) \<Rightarrow> bool" where
  "sys_places s L \<longleftrightarrow> listed_ok s L \<and> current_ok s L \<and> none_lost s L"

definition sys_threads :: "ksys \<Rightarrow> bool" where
  "sys_threads s \<longleftrightarrow> (\<forall>t \<in> ks_alloc s. stack_ok (t_stack (ks_thread s t)) \<and> (\<forall>p. t_proc (ks_thread s t) = Some p \<longrightarrow> t \<in> set (ks_pthreads s p)))"

text \<open>
  Levels: a thread that is not current on any processor waits at the high level with the run queue lock counted; the counter of
  a current thread is its level plus the number of locks its processor holds. \<open>M\<close> is the processor that is between two
  threads, with its run queue locked.
\<close>

definition held :: "ksys \<Rightarrow> nat \<Rightarrow> lockid set" where
  "held s c = {l. lk_holder (ks_lock s l) = Some c}"

definition parked_ok :: "ksys \<Rightarrow> bool" where
  "parked_ok s \<longleftrightarrow> (\<forall>t \<in> ks_alloc s. (\<forall>c < ks_ncpus s. c_curthread (ks_cpu s c) \<noteq> Some t) \<longrightarrow>
     ks_curspl s t = IPL_HIGH \<and> ks_iplhigh s t = 2 \<and> ctx_ok (t_context (ks_thread s t)))"

definition level_ok :: "nat option \<Rightarrow> ksys \<Rightarrow> nat \<Rightarrow> bool" where
  "level_ok M s c \<longleftrightarrow> (\<exists>t. c_curthread (ks_cpu s c) = Some t \<and> ks_curspl s t \<in> {IPL_NONE, IPL_HIGH} \<and> finite (held s c) \<and>
     ks_iplhigh s t = int (card (held s c)) + ks_curspl s t \<and> (ks_irq s c \<longleftrightarrow> ks_iplhigh s t = 0) \<and>
     (c_isidle (ks_cpu s c) \<longrightarrow> ks_curspl s t = IPL_HIGH \<and> held s c = (if M = Some c then {Lk_runqueue c} else {}) \<and>
        c_spl (ks_cpu s c) \<in> {IPL_NONE, IPL_HIGH}))"

definition locks_ok :: "nat option \<Rightarrow> ksys \<Rightarrow> bool" where
  "locks_ok M s \<longleftrightarrow> (\<forall>l. ks_lock s l = free_lock \<or> (\<exists>c < ks_ncpus s. ks_lock s l = cpu_lock c \<and> ((\<exists>w. l = Lk_wchan w) \<or> M = Some c \<and> l = Lk_runqueue c)))
     \<and> (\<forall>c. M = Some c \<longrightarrow> c < ks_ncpus s \<and> c_isidle (ks_cpu s c))"

definition sys_levels :: "nat option \<Rightarrow> ksys \<Rightarrow> bool" where
  "sys_levels M s \<longleftrightarrow> ks_booted s \<and> parked_ok s \<and> (\<forall>c < ks_ncpus s. level_ok M s c) \<and> locks_ok M s"

definition sys_inv :: "nat option \<Rightarrow> ksys \<Rightarrow> (nat \<rightharpoonup> nat list) \<Rightarrow> nat set \<Rightarrow> bool" where
  "sys_inv M s L T \<longleftrightarrow> sys_lists s L T \<and> sys_places s L \<and> sys_threads s \<and> sys_levels M s"

subsection \<open>Consequences\<close>

lemma listed_okD: "listed_ok s L \<Longrightarrow> L l = Some ts \<Longrightarrow> t \<in> set ts \<Longrightarrow> t \<in> ks_alloc s"
  "listed_ok s L \<Longrightarrow> L l = Some ts \<Longrightarrow> t \<in> set ts \<Longrightarrow> spot (ks_ncpus s) (ks_thread s t) l"
  unfolding listed_ok_def by blast+

lemma listed_okI: "(\<And>l ts t. L l = Some ts \<Longrightarrow> t \<in> set ts \<Longrightarrow> t \<in> ks_alloc s \<and> spot (ks_ncpus s) (ks_thread s t) l) \<Longrightarrow> listed_ok s L"
  unfolding listed_ok_def by blast

lemma current_okE:
  assumes "current_ok s L" "c < ks_ncpus s"
  obtains t where "t \<in> ks_alloc s" "c_curthread (ks_cpu s c) = Some t" "t_cpu (ks_thread s t) = Some c"
    "c_isidle (ks_cpu s c) \<Longrightarrow> \<not> unlisted L t" "\<not> c_isidle (ks_cpu s c) \<Longrightarrow> unlisted L t"
    "\<not> c_isidle (ks_cpu s c) \<Longrightarrow> t_state (ks_thread s t) \<in> {S_RUN, S_READY}"
  using assms unfolding current_ok_def by (metis (full_types))

lemma current_okD:
  assumes "current_ok s L" "c < ks_ncpus s" "c_curthread (ks_cpu s c) = Some t"
  shows "t \<in> ks_alloc s" "t_cpu (ks_thread s t) = Some c" "c_isidle (ks_cpu s c) \<Longrightarrow> \<not> unlisted L t" "\<not> c_isidle (ks_cpu s c) \<Longrightarrow> unlisted L t"
    "\<not> c_isidle (ks_cpu s c) \<Longrightarrow> t_state (ks_thread s t) \<in> {S_RUN, S_READY}"
  using assms unfolding current_ok_def by fastforce+

lemma current_okI:
  assumes "\<And>c. c < ks_ncpus s \<Longrightarrow> \<exists>t. c_curthread (ks_cpu s c) = Some t \<and> t \<in> ks_alloc s \<and> t_cpu (ks_thread s t) = Some c \<and>
      (c_isidle (ks_cpu s c) \<longrightarrow> \<not> unlisted L t) \<and> (\<not> c_isidle (ks_cpu s c) \<longrightarrow> unlisted L t \<and> t_state (ks_thread s t) \<in> {S_RUN, S_READY})"
  shows "current_ok s L"
  using assms unfolding current_ok_def by fastforce

lemma current_unique:
  assumes "current_ok s L" "c < ks_ncpus s" "d < ks_ncpus s" "c_curthread (ks_cpu s c) = Some t" "c_curthread (ks_cpu s d) = Some t"
  shows "c = d"
proof -
  have "t_cpu (ks_thread s t) = Some c" using assms(4) by (rule_tac current_okE [OF assms(1,2)]) simp
  moreover have "t_cpu (ks_thread s t) = Some d" using assms(5) by (rule_tac current_okE [OF assms(1,3)]) simp
  ultimately show ?thesis by simp
qed

lemma unlisted_new: "listed_ok s L \<Longrightarrow> t \<notin> ks_alloc s \<Longrightarrow> unlisted L t"
  unfolding unlisted_def by (blast dest: listed_okD)

lemma sys_listsD:
  assumes "sys_lists s L T"
  shows "tl_rep (ks_lists s) (L, T)" "ks_alloc s \<subseteq> T" "finite (ks_alloc s)" "card (ks_alloc s) < 2 ^ 32"
    "c < ks_ncpus s \<Longrightarrow> \<exists>ts. L (tl_zombies c) = Some ts" "c < ks_ncpus s \<Longrightarrow> \<exists>ts. L (tl_runqueue c) = Some ts"
  using assms by (auto simp: sys_lists_def)

text \<open>A live thread that is on no list can be added to one: the counters of the lists cannot overflow.\<close>

lemma sys_can_add:
  assumes "sys_lists s L T" "listed_ok s L" "t \<in> ks_alloc s" "unlisted L t" "L l = Some ts"
  shows "can_add (L, T) l t"
proof -
  have "set ts \<subseteq> ks_alloc s - {t}" using listed_okD(1) [OF assms(2,5)] assms(4,5) by (auto dest: unlistedD)
  moreover note fin = sys_listsD(3) [OF assms(1)]
  ultimately have "card (set ts) \<le> card (ks_alloc s - {t})" by (intro card_mono) auto
  moreover have "distinct ts"
    using tl_repD(1) [OF sys_listsD(1) [OF assms(1)] assms(5)] by (simp add: tl_list_def)
  moreover have "0 < card (ks_alloc s)" using fin assms(3) by (auto simp: card_gt_0_iff)
  ultimately have "Suc (length ts) < 2 ^ 32" using assms(3) sys_listsD(4) [OF assms(1)] by (simp add: distinct_card)
  then show ?thesis using assms(3-5) sys_listsD(2) [OF assms(1)] by (auto simp: can_add_def)
qed

lemma sys_cpu_ok:
  assumes "sys_places s L" "sys_levels M s" "c < ks_ncpus s" "c_curthread (ks_cpu s c) = Some t"
  shows "cpu_ok c t s" "t \<in> ks_alloc s" "t_cpu (ks_thread s t) = Some c"
proof -
  show "t \<in> ks_alloc s" "t_cpu (ks_thread s t) = Some c"
    using assms(1,4) by (auto simp: sys_places_def elim: current_okE [OF _ assms(3)])
  moreover have "level_ok M s c" using assms(2,3) by (simp add: sys_levels_def)
  ultimately show "cpu_ok c t s"
    using assms(2,4) by (auto simp: level_ok_def cpu_ok_def sys_levels_def IPL_NONE_def IPL_HIGH_def)
qed

lemma lock_free:
  assumes "sys_levels M s"
  shows "ks_lock s (Lk_ipi i) = free_lock" "ks_lock s (Lk_proc i) = free_lock" "M \<noteq> Some i \<Longrightarrow> ks_lock s (Lk_runqueue i) = free_lock"
  using assms unfolding sys_levels_def locks_ok_def by blast+

section \<open>Preservation\<close>

text \<open>What the parts of the invariant look at.\<close>

lemma spot_cong: "t_cpu th' = t_cpu th \<Longrightarrow> t_state th' = t_state th \<Longrightarrow> t_proc th' = t_proc th \<Longrightarrow> spot n th' l = spot n th l"
  by (simp add: spot_def)

definition same_levels :: "ksys \<Rightarrow> ksys \<Rightarrow> bool" where
  "same_levels s s' \<longleftrightarrow> ks_booted s' = ks_booted s \<and> ks_alloc s' = ks_alloc s \<and> ks_ncpus s' = ks_ncpus s \<and> ks_curspl s' = ks_curspl s \<and>
     ks_iplhigh s' = ks_iplhigh s \<and> ks_irq s' = ks_irq s \<and> ks_lock s' = ks_lock s \<and>
     (\<forall>t. t_context (ks_thread s' t) = t_context (ks_thread s t)) \<and> ipi_only (ks_cpu s) (ks_cpu s')"

lemma sys_levels_cong: "same_levels s s' \<Longrightarrow> sys_levels M s \<Longrightarrow> sys_levels M s'"
  by (simp add: same_levels_def sys_levels_def parked_ok_def level_ok_def locks_ok_def held_def ipi_only_def)

text \<open>Thread \<open>u\<close> goes from one list to another.\<close>

lemma sys_places_relist:
  assumes inv: "sys_places s L"
    and s': "ks_alloc s' = ks_alloc s" "ks_ncpus s' = ks_ncpus s" "ipi_only (ks_cpu s) (ks_cpu s')"
      "\<And>x. x \<noteq> u \<Longrightarrow> ks_thread s' x = ks_thread s x"
    and keep: "\<And>l ts x. L' l = Some ts \<Longrightarrow> x \<in> set ts \<Longrightarrow> x \<noteq> u \<Longrightarrow> \<exists>ts'. L l = Some ts' \<and> x \<in> set ts'"
    and at: "\<And>l ts. L' l = Some ts \<Longrightarrow> u \<in> set ts \<Longrightarrow> spot (ks_ncpus s) (ks_thread s' u) l"
    and un: "\<And>x. unlisted L' x = unlisted L x" and u: "\<not> unlisted L u" "u \<in> ks_alloc s"
    and cur: "\<And>c. c < ks_ncpus s \<Longrightarrow> c_curthread (ks_cpu s c) = Some u \<Longrightarrow> t_cpu (ks_thread s' u) = t_cpu (ks_thread s u)"
  shows "sys_places s' L'"
proof -
  have P: "listed_ok s L" "current_ok s L" "none_lost s L" using inv by (simp_all add: sys_places_def)
  have "listed_ok s' L'"
  proof (rule listed_okI)
    fix l ts t assume l: "L' l = Some ts" "t \<in> set ts"
    show "t \<in> ks_alloc s' \<and> spot (ks_ncpus s') (ks_thread s' t) l"
    proof (cases "t = u")
      case True
      then show ?thesis using at [OF l(1)] l(2) s'(1,2) u(2) by simp
    next
      case False
      then obtain ts' where "L l = Some ts'" "t \<in> set ts'" using keep l by blast
      then show ?thesis using listed_okD [OF P(1)] s'(1,2) s'(4) [OF False] by simp
    qed
  qed
  moreover have "current_ok s' L'"
    unfolding current_ok_def
  proof (intro allI impI)
    fix c assume "c < ks_ncpus s'"
    then have c: "c < ks_ncpus s" using s'(2) by simp
    from current_okE [OF P(2) this] obtain t where t: "t \<in> ks_alloc s" "c_curthread (ks_cpu s c) = Some t" "t_cpu (ks_thread s t) = Some c"
        "c_isidle (ks_cpu s c) \<Longrightarrow> \<not> unlisted L t" "\<not> c_isidle (ks_cpu s c) \<Longrightarrow> unlisted L t"
        "\<not> c_isidle (ks_cpu s c) \<Longrightarrow> t_state (ks_thread s t) \<in> {S_RUN, S_READY}" by metis
    have "t \<noteq> u" if "\<not> c_isidle (ks_cpu s c)" using t(5) [OF that] u(1) by auto
    then show "\<exists>t \<in> ks_alloc s'. c_curthread (ks_cpu s' c) = Some t \<and> t_cpu (ks_thread s' t) = Some c \<and>
        (if c_isidle (ks_cpu s' c) then \<not> unlisted L' t else unlisted L' t \<and> t_state (ks_thread s' t) \<in> {S_RUN, S_READY})"
      using t cur [OF c] s'(1) s'(4) [of t] ipi_onlyD [OF s'(3)] un by (intro bexI [of _ t]) (cases "t = u"; auto)+
  qed
  moreover have "none_lost s' L'" using P(3) s' un by (simp add: none_lost_def ipi_only_def)
  ultimately show ?thesis by (simp add: sys_places_def)
qed

text \<open>Moving the thread at the head of one list to the tail of another.\<close>

lemma unlisted_rem:
  assumes "tl_rep ls (L, T)" "L l = Some ts" "u \<in> set ts" "set ts' = set ts - {u}"
  shows "unlisted (L(l \<mapsto> ts')) x \<longleftrightarrow> unlisted L x \<or> x = u"
proof -
  have "u \<notin> set us" if "k \<noteq> l" "L k = Some us" for k us using tl_repD(3) [of ls L T l ts k us] assms(1-3) that by auto
  then show ?thesis using assms(2-4) unlisted_at [of L l ts x] by (auto simp: unlisted_upd)
qed

lemma unlisted_ins:
  assumes "L l = Some ts" "set ts' = insert u (set ts)"
  shows "unlisted (L(l \<mapsto> ts')) x \<longleftrightarrow> unlisted L x \<and> x \<noteq> u"
  using assms unlisted_at [of L l ts x] by (auto simp: unlisted_upd)

lemma unlisted_move:
  assumes "tl_rep ls (L, T)" "L l = Some ts" "u \<in> set ts" "set ts' = set ts - {u}" "L k = Some us" "k \<noteq> l" "set us' = insert u (set us)"
  shows "unlisted (L(l \<mapsto> ts', k \<mapsto> us')) x = unlisted L x"
proof -
  have "unlisted (L(l \<mapsto> ts', k \<mapsto> us')) x \<longleftrightarrow> unlisted (L(l \<mapsto> ts')) x \<and> x \<noteq> u"
    using assms(5-7) by (intro unlisted_ins [of _ _ us]) auto
  moreover have "\<not> unlisted L u" using assms(2,3) by (auto dest: unlistedD)
  ultimately show ?thesis using unlisted_rem [of ls L T l ts u ts' x] assms(1-4) by auto
qed

lemma sys_places_move:
  assumes inv: "sys_places s L" and rep: "tl_rep ls (L, T)" and ts: "L l = Some ts" "u \<in> set ts" "set ts' = set ts - {u}"
    and us: "L k = Some us" "k \<noteq> l" "set us' = insert u (set us)"
    and s': "ks_alloc s' = ks_alloc s" "ks_ncpus s' = ks_ncpus s" "ipi_only (ks_cpu s) (ks_cpu s')"
      "\<And>x. x \<noteq> u \<Longrightarrow> ks_thread s' x = ks_thread s x"
    and at: "spot (ks_ncpus s) (ks_thread s' u) k"
    and cur: "\<And>c. c < ks_ncpus s \<Longrightarrow> c_curthread (ks_cpu s c) = Some u \<Longrightarrow> t_cpu (ks_thread s' u) = t_cpu (ks_thread s u)"
  shows "sys_places s' (L(l \<mapsto> ts', k \<mapsto> us'))"
proof (rule sys_places_relist [OF inv s'])
  have only: "u \<notin> set vs" if "L m = Some vs" "m \<noteq> l" for m vs using tl_repD(3) [of ls L T l ts m vs] rep that ts by auto
  show "\<exists>vs'. L m = Some vs' \<and> x \<in> set vs'" if "(L(l \<mapsto> ts', k \<mapsto> us')) m = Some vs" "x \<in> set vs" "x \<noteq> u" for m vs x
    using that ts us by (auto split: if_splits)
  show "spot (ks_ncpus s) (ks_thread s' u) m" if "(L(l \<mapsto> ts', k \<mapsto> us')) m = Some vs" "u \<in> set vs" for m vs
    using that at only ts(3) us(2) by (auto split: if_splits)
  show "unlisted (L(l \<mapsto> ts', k \<mapsto> us')) x = unlisted L x" for x
    using unlisted_move [of ls L T l ts u ts' k us us' x] rep ts us by simp
  show "\<not> unlisted L u" using ts by (auto dest: unlistedD)
  show "u \<in> ks_alloc s" using inv ts listed_okD(1) by (auto simp: sys_places_def)
qed (use cur in auto)

subsection \<open>Wait channels\<close>

lemma sys_invD:
  assumes "sys_inv M s L T"
  shows "sys_lists s L T" "sys_places s L" "sys_threads s" "sys_levels M s" "listed_ok s L" "current_ok s L" "none_lost s L"
    "tl_rep (ks_lists s) (L, T)"
  using assms by (simp_all add: sys_inv_def sys_places_def sys_lists_def)

lemma sys_threads_cong:
  assumes "sys_threads s" "ks_alloc s' \<subseteq> ks_alloc s" "ks_pthreads s' = ks_pthreads s"
    "\<And>t. t_stack (ks_thread s' t) = t_stack (ks_thread s t)" "\<And>t. t_proc (ks_thread s' t) = t_proc (ks_thread s t)"
  shows "sys_threads s'"
  using assms by (auto simp: sys_threads_def)

lemma sys_lists_change:
  assumes "sys_lists s L T" "tl_rep (ks_lists s') (L', T)" "ks_alloc s' = ks_alloc s" "ks_ncpus s' = ks_ncpus s" "\<And>l. L l \<noteq> None \<Longrightarrow> L' l \<noteq> None"
  shows "sys_lists s' L' T"
  unfolding sys_lists_def using assms(2,3,4) assms(5) sys_listsD [OF assms(1)] by (metis option.distinct(1))

lemma spotE:
  assumes "spot n th l"
  obtains d where "d < n" "t_cpu th = Some d"
  using assms by (auto simp: spot_def)

text \<open>A thread taken from list \<open>l\<close> is made runnable on its processor.\<close>

lemma make_runnable_ok:
  assumes inv: "sys_inv None s L T" and c: "c < ks_ncpus s" and l: "L l = Some (u # us)" "\<And>d. l \<noteq> tl_runqueue d" "t_state (ks_thread s u) \<in> {S_READY, S_SLEEP}"
    and s1: "s1 = s\<lparr>ks_lists := ls\<rparr>" "tl_rep ls (L(l \<mapsto> us), T)"
  shows "\<exists>s' d. thread_make_runnable c u False s1 = Ok () s' \<and> d < ks_ncpus s \<and> ks_ncpus s' = ks_ncpus s \<and> ks_thread s' = ks_thread s \<and> ks_lock s' = ks_lock s \<and>
    sys_inv None s' (L(l \<mapsto> us, tl_runqueue d \<mapsto> the (L (tl_runqueue d)) @ [u])) T"
proof -
  note I = sys_invD [OF inv]
  have u: "u \<in> ks_alloc s" "spot (ks_ncpus s) (ks_thread s u) l" using listed_okD [OF I(5) l(1)] by simp_all
  from u(2) obtain d where d: "d < ks_ncpus s" "t_cpu (ks_thread s u) = Some d" by (rule spotE)
  obtain qs where qs: "L (tl_runqueue d) = Some qs" using sys_listsD(6) [OF I(1) d(1)] by blast
  have dist: "distinct (u # us)" using tl_repD(1) [OF I(8) l(1)] by (simp add: tl_list_def)
  obtain t where t: "c_curthread (ks_cpu s c) = Some t" using current_okE [OF I(6) c] by metis
  have ok: "cpu_ok c t s1" using sys_cpu_ok(1) [OF I(2,4) c t] s1(1) by (auto intro: cpu_ok_frame simp: cpu_ok_def)
  have un: "unlisted (L(l \<mapsto> us)) x \<longleftrightarrow> unlisted L x \<or> x = u" for x
    by (rule unlisted_rem [OF I(8)]) (use l(1) dist in auto)
  have lo: "listed_ok s1 (L(l \<mapsto> us))"
    using l(1) s1(1) listed_okD [OF I(5)] by (intro listed_okI) (force split: if_splits)
  have "sys_lists s1 (L(l \<mapsto> us)) T" by (rule sys_lists_change [OF I(1)]) (use s1 in simp_all)
  then have "can_add (L(l \<mapsto> us), T) (tl_runqueue d) u"
    using sys_can_add [of s1 "L(l \<mapsto> us)" T u "tl_runqueue d" qs] lo u(1) un qs l(2) [of d] s1(1) by auto
  then obtain ls' k where k: "thread_make_runnable c u False s1 = Ok () (s1\<lparr>ks_lists := ls', ks_cpu := k\<rparr>)"
      "tl_rep ls' (L(l \<mapsto> us, tl_runqueue d \<mapsto> qs @ [u]), T)" "ipi_only (ks_cpu s) k"
    using make_runnable_run [OF ok, of u d "L(l \<mapsto> us)" T] u(1) d(2) s1 lock_free [OF I(4), of d] qs l(2) [of d] by auto
  let ?s = "s\<lparr>ks_lists := ls', ks_cpu := k\<rparr>"
  have "sys_places ?s (L(l \<mapsto> us, tl_runqueue d \<mapsto> qs @ [u]))"
    by (rule sys_places_move [where u = u and ls = "ks_lists s" and T = T and s = s and ts = "u # us" and us = qs])
      (use I l qs dist d k(3) in \<open>auto simp: spot_def\<close>)
  moreover have "sys_lists ?s (L(l \<mapsto> us, tl_runqueue d \<mapsto> qs @ [u])) T"
    by (rule sys_lists_change [OF I(1)]) (use k(2) in simp_all)
  moreover have "sys_levels None ?s" by (rule sys_levels_cong [OF _ I(4)]) (simp add: same_levels_def k(3))
  moreover have "sys_threads ?s" by (rule sys_threads_cong [OF I(3)]) simp_all
  ultimately have "sys_inv None ?s (L(l \<mapsto> us, tl_runqueue d \<mapsto> the (L (tl_runqueue d)) @ [u])) T" using qs by (simp add: sys_inv_def)
  then show ?thesis using k(1) s1(1) d(1) by (intro exI [of _ ?s] exI [of _ d]) simp
qed

lemma sys_places_lists [simp]: "sys_places (s\<lparr>ks_lists := ls\<rparr>) L = sys_places s L"
  unfolding sys_places_def listed_ok_def current_ok_def none_lost_def by simp

lemma sys_inv_lists:
  assumes "sys_inv M s L T" "tl_rep ls (L', T)" "\<And>l. L l \<noteq> None \<Longrightarrow> L' l \<noteq> None" "sys_places s L'"
  shows "sys_inv M (s\<lparr>ks_lists := ls\<rparr>) L' T"
proof -
  note I = sys_invD [OF assms(1)]
  have "sys_lists (s\<lparr>ks_lists := ls\<rparr>) L' T" by (rule sys_lists_change [OF I(1)]) (use assms in simp_all)
  moreover have "sys_places (s\<lparr>ks_lists := ls\<rparr>) L'" using assms(4) by simp
  moreover have "sys_levels M (s\<lparr>ks_lists := ls\<rparr>)" by (rule sys_levels_cong [OF _ I(4)]) (simp add: same_levels_def)
  moreover have "sys_threads (s\<lparr>ks_lists := ls\<rparr>)" by (rule sys_threads_cong [OF I(3)]) simp_all
  ultimately show ?thesis by (simp add: sys_inv_def)
qed

lemma list_head:
  assumes "tl_rep ls (L, T)" "L l = Some (u # us)"
  shows "u \<notin> set us" "distinct us" "u \<in> T" "length us < 2 ^ 32"
  using tl_repD(1,2) [OF assms] by (auto simp: tl_list_def)

text \<open>The turn of the current thread of a processor is not over, whatever lock it takes meanwhile.\<close>

lemma sys_current:
  assumes "sys_inv M s L T" "c < ks_ncpus s"
  obtains t where "c_curthread (ks_cpu s c) = Some t" "cpu_ok c t s"
proof -
  note I = sys_invD [OF assms(1)]
  obtain t where t: "c_curthread (ks_cpu s c) = Some t" using current_okE [OF I(6) assms(2)] by metis
  show ?thesis by (rule that [OF t sys_cpu_ok(1) [OF I(2,4) assms(2) t]])
qed

text \<open>The processor executes \<open>m\<close>, which changes lists only, under a lock that is free.\<close>

lemma locked_lists:
  assumes "cpu_ok c t s" "ks_lock s l = free_lock" "m (ks_lists s) = Ok x ls"
  shows "kbind (ks_acquire c l) (\<lambda>_. kbind (on_lists m) (\<lambda>x. kbind (ks_release c l) (\<lambda>_. f x))) s = f x (s\<lparr>ks_lists := ls\<rparr>)"
proof -
  let ?s = "(st_acquire c t l s)\<lparr>ks_lists := ls\<rparr>"
  have "cpu_ok c t ?s" by (rule cpu_ok_frame [OF cpu_ok_st(1) [OF assms(1)]]) (use assms(1) in \<open>auto simp: cpu_ok_def\<close>)
  then have "kbind (ks_acquire c l) (\<lambda>_. kbind (on_lists m) (\<lambda>x. kbind (ks_release c l) (\<lambda>_. f x))) s =
      f x (?s\<lparr>ks_iplhigh := ks_iplhigh s, ks_irq := ks_irq s, ks_lock := ks_lock s\<rparr>)"
    by - (rule locked_section [where t = t and s' = ?s], use assms in \<open>simp_all add: on_lists_def\<close>)
  then show ?thesis by (simp add: st_acquire_def)
qed

lemma wakeone_ok:
  assumes inv: "sys_inv None s L T" and c: "c < ks_ncpus s" and w: "ks_lock s (Lk_wchan w) = free_lock" "L (tl_wchan w) = Some ts"
  shows "\<exists>s' d. wchan_wakeone c w s = Ok () s' \<and> ks_ncpus s' = ks_ncpus s \<and>
    sys_inv None s' (case ts of [] \<Rightarrow> L | u # us \<Rightarrow> L(tl_wchan w \<mapsto> us, tl_runqueue d \<mapsto> the (L (tl_runqueue d)) @ [u])) T"
proof -
  note I = sys_invD [OF inv]
  obtain t where t: "cpu_ok c t s" using sys_current [OF inv c] by metis
  note W = locked_lists [where m = "threadlist_remhead (tl_wchan w)" and l = "Lk_wchan w", OF t w(1)]
  show ?thesis
  proof (cases ts)
    case Nil
    obtain ls where ls: "threadlist_remhead (tl_wchan w) (ks_lists s) = Ok None ls" "tl_rep ls (L, T)"
      using remhead_Nil [OF I(8)] w(2) Nil by blast
    have "wchan_wakeone c w s = Ok () (s\<lparr>ks_lists := ls\<rparr>)" unfolding wchan_wakeone_def by (simp add: W [OF ls(1)] kret_def)
    moreover have "sys_inv None (s\<lparr>ks_lists := ls\<rparr>) L T" using sys_inv_lists [OF inv ls(2)] I(2) by simp
    ultimately show ?thesis using Nil by auto
  next
    case (Cons u us)
    obtain ls where ls: "threadlist_remhead (tl_wchan w) (ks_lists s) = Ok (Some u) ls" "tl_rep ls (L(tl_wchan w \<mapsto> us), T)"
      using remhead_Cons [OF I(8)] w(2) Cons by blast
    have "wchan_wakeone c w s = thread_make_runnable c u False (s\<lparr>ks_lists := ls\<rparr>)" unfolding wchan_wakeone_def by (simp add: W [OF ls(1)])
    moreover have "t_state (ks_thread s u) \<in> {S_READY, S_SLEEP}"
      using listed_okD(2) [OF I(5) w(2), of u] Cons by (auto simp: spot_def)
    ultimately show ?thesis
      using make_runnable_ok [OF inv c w(2) [unfolded Cons] _ _ refl ls(2)] Cons by auto
  qed
qed

text \<open>One thread goes from one list to another, while the rest of the state may be anything.\<close>

lemma sys_move_tail:
  assumes inv: "sys_inv M s L T" and l: "L l = Some (u # us)" and k: "L k = Some vs" "k \<noteq> l" and at: "spot (ks_ncpus s) (ks_thread s u) k"
  shows "\<exists>ls ls'. threadlist_remhead l (ks_lists s) = Ok (Some u) ls \<and> threadlist_addtail k u ls = Ok () ls' \<and>
    sys_inv M (s\<lparr>ks_lists := ls'\<rparr>) (L(l \<mapsto> us, k \<mapsto> vs @ [u])) T"
proof -
  note I = sys_invD [OF inv]
  note H = list_head [OF I(8) l]
  obtain ls where ls: "threadlist_remhead l (ks_lists s) = Ok (Some u) ls" "tl_rep ls (L(l \<mapsto> us), T)"
    using remhead_Cons [OF I(8) l] by blast
  have un: "unlisted (L(l \<mapsto> us)) x \<longleftrightarrow> unlisted L x \<or> x = u" for x
    by (rule unlisted_rem [OF I(8)]) (use l H in auto)
  have "sys_lists (s\<lparr>ks_lists := ls\<rparr>) (L(l \<mapsto> us)) T" by (rule sys_lists_change [OF I(1)]) (use ls in simp_all)
  moreover have "listed_ok (s\<lparr>ks_lists := ls\<rparr>) (L(l \<mapsto> us))"
    using l listed_okD [OF I(5)] by (intro listed_okI) (force split: if_splits)
  ultimately have "can_add (L(l \<mapsto> us), T) k u"
    using sys_can_add [of "s\<lparr>ks_lists := ls\<rparr>" "L(l \<mapsto> us)" T u k vs] listed_okD(1) [OF I(5) l, of u] un k by auto
  then obtain ls' where ls': "threadlist_addtail k u ls = Ok () ls'" "tl_rep ls' (L(l \<mapsto> us, k \<mapsto> vs @ [u]), T)"
    using addtail_run [OF ls(2), of k u] k by auto
  have "sys_places s (L(l \<mapsto> us, k \<mapsto> vs @ [u]))"
    by (rule sys_places_move [where u = u and ls = "ks_lists s" and T = T and s = s and ts = "u # us" and us = vs])
      (use I l k at H in auto)
  then have "sys_inv M (s\<lparr>ks_lists := ls'\<rparr>) (L(l \<mapsto> us, k \<mapsto> vs @ [u])) T" by (intro sys_inv_lists [OF inv ls'(2)]) simp_all
  then show ?thesis using ls(1) ls'(1) by blast
qed

text \<open>The loops that empty one list into another.\<close>

fun move_all :: "nat \<Rightarrow> nat \<Rightarrow> nat \<Rightarrow> (ksys, unit) kfun" where
  "move_all 0 l k = kpanic"
| "move_all (Suc n) l k =
    kbind (on_lists (threadlist_remhead l)) (\<lambda>target.
    case target of
      None \<Rightarrow> kret ()
    | Some t \<Rightarrow> kbind (on_lists (threadlist_addtail k t)) (\<lambda>_. move_all n l k))"

lemma wakeall_move_all: "wakeall_move n c w = move_all n (tl_wchan w) (tl_local c)"
  by (induction n) (simp_all cong: option.case_cong)

lemma migration_back_all: "migration_back n c = move_all n (tl_local c) (tl_runqueue c)"
  by (induction n) (simp_all cong: option.case_cong)

lemma move_all_ok:
  assumes "sys_inv M s L T" "L l = Some ts" "L k = Some vs" "k \<noteq> l" "\<forall>t \<in> set ts. spot (ks_ncpus s) (ks_thread s t) k"
  shows "\<exists>ls. (\<forall>s'. ks_lists s' = ks_lists s \<longrightarrow> move_all (Suc (length ts)) l k s' = Ok () (s'\<lparr>ks_lists := ls\<rparr>)) \<and>
    sys_inv M (s\<lparr>ks_lists := ls\<rparr>) (L(l \<mapsto> [], k \<mapsto> vs @ ts)) T"
  using assms
proof (induction ts arbitrary: s L vs)
  case Nil
  note I = sys_invD [OF Nil(1)]
  obtain ls where ls: "threadlist_remhead l (ks_lists s) = Ok None ls" "tl_rep ls (L, T)"
    using remhead_Nil [OF I(8) Nil(2)] by blast
  then have "\<forall>s'. ks_lists s' = ks_lists s \<longrightarrow> move_all (Suc 0) l k s' = Ok () (s'\<lparr>ks_lists := ls\<rparr>)"
    by (simp add: kbind_def on_lists_def kret_def)
  moreover have same: "L(l \<mapsto> [], k \<mapsto> vs) = L" using Nil(2-4) by (simp add: fun_upd_idem)
  have "sys_inv M (s\<lparr>ks_lists := ls\<rparr>) L T" using sys_inv_lists [OF Nil(1) ls(2)] I(2) by simp
  ultimately show ?case by (intro exI [of _ ls]) (simp only: append_Nil2 list.size(3) same simp_thms)
next
  case (Cons t ts)
  have "spot (ks_ncpus s) (ks_thread s t) k" using Cons(6) by simp
  from sys_move_tail [OF Cons(2,3,4,5) this] obtain ls ls' where
    ls: "threadlist_remhead l (ks_lists s) = Ok (Some t) ls" "threadlist_addtail k t ls = Ok () ls'"
      "sys_inv M (s\<lparr>ks_lists := ls'\<rparr>) (L(l \<mapsto> ts, k \<mapsto> vs @ [t])) T" by auto
  have eq: "(L(l \<mapsto> ts, k \<mapsto> vs @ [t]))(l \<mapsto> [], k \<mapsto> (vs @ [t]) @ ts) = L(l \<mapsto> [], k \<mapsto> vs @ t # ts)"
    by (auto simp: fun_eq_iff)
  have "(L(l \<mapsto> ts, k \<mapsto> vs @ [t])) l = Some ts" "(L(l \<mapsto> ts, k \<mapsto> vs @ [t])) k = Some (vs @ [t])"
      "\<forall>t \<in> set ts. spot (ks_ncpus (s\<lparr>ks_lists := ls'\<rparr>)) (ks_thread (s\<lparr>ks_lists := ls'\<rparr>) t) k"
    using Cons(5,6) by simp_all
  from Cons.IH [OF ls(3) this(1,2) Cons(5) this(3)] obtain ls2 where
    ls2: "\<forall>s'. ks_lists s' = ks_lists (s\<lparr>ks_lists := ls'\<rparr>) \<longrightarrow> move_all (Suc (length ts)) l k s' = Ok () (s'\<lparr>ks_lists := ls2\<rparr>)"
      "sys_inv M (s\<lparr>ks_lists := ls', ks_lists := ls2\<rparr>) (L(l \<mapsto> [], k \<mapsto> vs @ t # ts)) T"
    unfolding eq by blast
  have "move_all (Suc (length (t # ts))) l k s' = Ok () (s'\<lparr>ks_lists := ls2\<rparr>)" if "ks_lists s' = ks_lists s" for s'
    using ls ls2(1) that by (simp add: kbind_def on_lists_def)
  moreover have "s\<lparr>ks_lists := ls', ks_lists := ls2\<rparr> = s\<lparr>ks_lists := ls2\<rparr>" by simp
  ultimately show ?case using ls2(2) by metis
qed

lemma wakeall_move_ok:
  assumes "sys_inv None s L T" "L (tl_wchan w) = Some ts" "L (tl_local c) = Some vs"
  shows "\<exists>ls. (\<forall>s'. ks_lists s' = ks_lists s \<longrightarrow> wakeall_move (Suc (length ts)) c w s' = Ok () (s'\<lparr>ks_lists := ls\<rparr>)) \<and>
    sys_inv None (s\<lparr>ks_lists := ls\<rparr>) (L(tl_wchan w \<mapsto> [], tl_local c \<mapsto> vs @ ts)) T"
  unfolding wakeall_move_all
proof (rule move_all_ok [OF assms])
  show "\<forall>t \<in> set ts. spot (ks_ncpus s) (ks_thread s t) (tl_local c)"
    using listed_okD(2) [OF sys_invD(5) [OF assms(1)] assms(2)] by (auto simp: spot_def)
qed simp

text \<open>The wait channels are those that were there.\<close>

definition same_wchans :: "(nat \<rightharpoonup> nat list) \<Rightarrow> (nat \<rightharpoonup> nat list) \<Rightarrow> bool" where
  "same_wchans L L' \<longleftrightarrow> (\<forall>w. L' (tl_wchan w) = None \<longleftrightarrow> L (tl_wchan w) = None)"

lemma same_wchans_refl [simp]: "same_wchans L L"
  by (simp add: same_wchans_def)

lemma same_wchans_trans: "same_wchans L L1 \<Longrightarrow> same_wchans L1 L2 \<Longrightarrow> same_wchans L L2"
  by (simp add: same_wchans_def)

lemma wakeall_run_ok:
  assumes "sys_inv None s L T" "c < ks_ncpus s" "L (tl_local c) = Some ts"
  shows "\<exists>s' L'. wakeall_run (Suc (length ts)) c s = Ok () s' \<and> sys_inv None s' L' T \<and> ks_ncpus s' = ks_ncpus s \<and> L' (tl_local c) = Some [] \<and>
    (\<forall>e. e \<noteq> c \<longrightarrow> L' (tl_local e) = L (tl_local e)) \<and> same_wchans L L'"
  using assms
proof (induction ts arbitrary: s L)
  case Nil
  note I = sys_invD [OF Nil(1)]
  obtain ls where ls: "threadlist_remhead (tl_local c) (ks_lists s) = Ok None ls" "tl_rep ls (L, T)"
    using remhead_Nil [OF I(8) Nil(3)] by blast
  then have "wakeall_run (Suc 0) c s = Ok () (s\<lparr>ks_lists := ls\<rparr>)" by (simp add: kbind_def on_lists_def kret_def)
  moreover have "sys_inv None (s\<lparr>ks_lists := ls\<rparr>) L T" using sys_inv_lists [OF Nil(1) ls(2)] I(2) by simp
  ultimately show ?case using Nil(3) by (intro exI [of _ "s\<lparr>ks_lists := ls\<rparr>"] exI [of _ L]) simp
next
  case (Cons t ts)
  note I = sys_invD [OF Cons(2)]
  obtain ls where ls: "threadlist_remhead (tl_local c) (ks_lists s) = Ok (Some t) ls" "tl_rep ls (L(tl_local c \<mapsto> ts), T)"
    using remhead_Cons [OF I(8) Cons(4)] by blast
  have "t_state (ks_thread s t) \<in> {S_READY, S_SLEEP}" using listed_okD(2) [OF I(5) Cons(4), of t] by (auto simp: spot_def)
  then obtain s1 d where s1: "thread_make_runnable c t False (s\<lparr>ks_lists := ls\<rparr>) = Ok () s1" "ks_ncpus s1 = ks_ncpus s"
      "sys_inv None s1 (L(tl_local c \<mapsto> ts, tl_runqueue d \<mapsto> the (L (tl_runqueue d)) @ [t])) T"
    using make_runnable_ok [OF Cons(2-4) _ _ refl ls(2)] by auto
  have "wakeall_run (Suc (length (t # ts))) c s = wakeall_run (Suc (length ts)) c s1"
    using ls(1) s1(1) by (simp add: kbind_def on_lists_def)
  moreover have "(L(tl_local c \<mapsto> ts, tl_runqueue d \<mapsto> the (L (tl_runqueue d)) @ [t])) (tl_local e) = (if e = c then Some ts else L (tl_local e))" for e
    by simp
  ultimately show ?case using Cons.IH [OF s1(3)] Cons.prems(2) s1(2) by (simp add: same_wchans_def)
qed

lemma kbind_assoc: "kbind (kbind m f) g = kbind m (\<lambda>x. kbind (f x) g)"
  by (simp add: fun_eq_iff kbind_def split: kres.splits)

lemma kret_bind: "kbind (kret x) f = f x"
  by (simp add: fun_eq_iff kbind_def kret_def)

lemma sys_places_init: "L l = None \<or> L l = Some [] \<Longrightarrow> sys_places s (L(l \<mapsto> [])) = sys_places s L"
proof -
  assume l: "L l = None \<or> L l = Some []"
  have on: "(\<exists>ts. (L(l \<mapsto> [])) k = Some ts \<and> t \<in> set ts) \<longleftrightarrow> (\<exists>ts. L k = Some ts \<and> t \<in> set ts)" for k t
    using l by (cases "k = l") auto
  then have "unlisted (L(l \<mapsto> [])) t = unlisted L t" for t unfolding unlisted_def by blast
  moreover have "listed_ok s (L(l \<mapsto> [])) = listed_ok s L" unfolding listed_ok_def using on by blast
  ultimately show ?thesis by (simp add: sys_places_def current_ok_def none_lost_def)
qed

lemma local_init_ok:
  assumes "sys_inv M s L T" "L l = None \<or> L l = Some []"
  shows "\<exists>ls. threadlist_init l (ks_lists s) = Ok () ls \<and> sys_inv M (s\<lparr>ks_lists := ls\<rparr>) (L(l \<mapsto> [])) T"
proof -
  note I = sys_invD [OF assms(1)]
  obtain ls where "threadlist_init l (ks_lists s) = Ok () ls" "tl_rep ls (L(l \<mapsto> []), T)" using init_run [OF I(8) assms(2)] by blast
  then show ?thesis using sys_inv_lists [OF assms(1)] sys_places_init [of L l s] assms(2) I(2) by auto
qed

lemma wakeall_ok:
  assumes inv: "sys_inv None s L T" and c: "c < ks_ncpus s" and w: "ks_lock s (Lk_wchan w) = free_lock" "L (tl_wchan w) = Some ts"
    and loc: "L (tl_local c) = None \<or> L (tl_local c) = Some []"
  shows "\<exists>s' L'. wchan_wakeall c w s = Ok () s' \<and> ks_ncpus s' = ks_ncpus s \<and> sys_inv None s' L' T \<and>
    L' (tl_local c) = Some [] \<and> (\<forall>e. e \<noteq> c \<longrightarrow> L' (tl_local e) = L (tl_local e)) \<and> same_wchans L L'"
proof -
  let ?L = "L(tl_local c \<mapsto> [])"
  obtain ls0 where ls0: "threadlist_init (tl_local c) (ks_lists s) = Ok () ls0" "sys_inv None (s\<lparr>ks_lists := ls0\<rparr>) ?L T"
    using local_init_ok [OF inv loc] by blast
  let ?s = "s\<lparr>ks_lists := ls0\<rparr>"
  have L: "?L (tl_wchan w) = Some ts" "?L (tl_local c) = Some []" using w(2) by simp_all
  obtain ls where ls: "\<forall>s'. ks_lists s' = ks_lists ?s \<longrightarrow> wakeall_move (Suc (length ts)) c w s' = Ok () (s'\<lparr>ks_lists := ls\<rparr>)"
      "sys_inv None (?s\<lparr>ks_lists := ls\<rparr>) (?L(tl_wchan w \<mapsto> [], tl_local c \<mapsto> [] @ ts)) T"
    using wakeall_move_ok [OF ls0(2) L] by blast
  obtain t where t: "cpu_ok c t ?s" using sys_current [OF ls0(2)] c by auto
  let ?m = "kbind (kget (\<lambda>s. tl_count (ks_lists s) (tl_wchan w))) (\<lambda>n. kbind (wakeall_move (Suc n) c w) (\<lambda>_. kret n))"
  let ?a = "st_acquire c t (Lk_wchan w) ?s"
  let ?s' = "?a\<lparr>ks_lists := ls\<rparr>"
  let ?f = "\<lambda>n. kbind (wakeall_run (Suc n) c) (\<lambda>_. on_lists (threadlist_cleanup (tl_local c)))"
  have m: "?m ?a = Ok (length ts) ?s'"
    using count_run [OF sys_invD(8) [OF ls0(2)] L(1)] ls(1) by (simp add: kbind_def kget_def kret_def del: wakeall_move.simps)
  have ok': "cpu_ok c t ?s'" by (rule cpu_ok_frame [OF cpu_ok_st(1) [OF t]]) (use t in \<open>auto simp: cpu_ok_def\<close>)
  have "kbind (ks_acquire c (Lk_wchan w)) (\<lambda>_. kbind ?m (\<lambda>n. kbind (ks_release c (Lk_wchan w)) (\<lambda>_. ?f n))) ?s =
      ?f (length ts) (?s'\<lparr>ks_iplhigh := ks_iplhigh ?s, ks_irq := ks_irq ?s, ks_lock := ks_lock ?s\<rparr>)"
    by (rule locked_section [where t = t and s' = ?s' and m = ?m and f = ?f]) (use t w(1) m ok' in simp_all)
  also have "?s'\<lparr>ks_iplhigh := ks_iplhigh ?s, ks_irq := ks_irq ?s, ks_lock := ks_lock ?s\<rparr> = ?s\<lparr>ks_lists := ls\<rparr>"
    by (simp add: st_acquire_def)
  also have "kbind (ks_acquire c (Lk_wchan w)) (\<lambda>_. kbind ?m (\<lambda>n. kbind (ks_release c (Lk_wchan w)) (\<lambda>_. ?f n))) ?s = wchan_wakeall c w s"
    using ls0(1) by (simp add: wchan_wakeall_def kbind_assoc kret_bind kbind_def [of "on_lists _"] on_lists_def)
  finally have run: "wchan_wakeall c w s = ?f (length ts) (?s\<lparr>ks_lists := ls\<rparr>)" .
  obtain s2 L2 where s2: "wakeall_run (Suc (length ts)) c (?s\<lparr>ks_lists := ls\<rparr>) = Ok () s2" "sys_inv None s2 L2 T" "ks_ncpus s2 = ks_ncpus s"
      "L2 (tl_local c) = Some []" "\<forall>e. e \<noteq> c \<longrightarrow> L2 (tl_local e) = L (tl_local e)" "same_wchans L L2"
    using wakeall_run_ok [OF ls(2), of c ts] c w(2) by (auto simp: same_wchans_def)
  moreover have "on_lists (threadlist_cleanup (tl_local c)) s2 = Ok () s2"
    using cleanup_run [OF sys_invD(8) [OF s2(2)] s2(4)] by (simp add: on_lists_def)
  ultimately show ?thesis unfolding run by (simp add: kbind_def del: wakeall_run.simps) blast
qed

subsection \<open>Levels\<close>

lemma sys_places_st [simp]:
  "sys_places (st_acquire c t l s) L = sys_places s L" "sys_places (st_release c t l s) L = sys_places s L"
  "sys_places (st_splx c t spl s) L = sys_places s L"
  unfolding sys_places_def listed_ok_def current_ok_def none_lost_def by simp_all

lemma sys_threads_st [simp]:
  "sys_threads (st_acquire c t l s) = sys_threads s" "sys_threads (st_release c t l s) = sys_threads s" "sys_threads (st_splx c t spl s) = sys_threads s"
  unfolding sys_threads_def by simp_all

lemma sys_lists_st [simp]:
  "sys_lists (st_acquire c t l s) L T = sys_lists s L T" "sys_lists (st_release c t l s) L T = sys_lists s L T"
  "sys_lists (st_splx c t spl s) L T = sys_lists s L T"
  unfolding sys_lists_def by simp_all

text \<open>A change at processor \<open>c\<close> and its current thread \<open>t\<close> only.\<close>

lemma sys_levels_local:
  assumes lv: "sys_levels M s" and cur: "current_ok s L" "c < ks_ncpus s" "c_curthread (ks_cpu s c) = Some t"
    and s': "ks_booted s' = ks_booted s" "ks_alloc s' = ks_alloc s" "ks_ncpus s' = ks_ncpus s" "\<And>x. t_context (ks_thread s' x) = t_context (ks_thread s x)"
      "\<And>d. c_curthread (ks_cpu s' d) = c_curthread (ks_cpu s d)" "\<And>d. d \<noteq> c \<Longrightarrow> ks_cpu s' d = ks_cpu s d"
      "\<And>x. x \<noteq> t \<Longrightarrow> ks_curspl s' x = ks_curspl s x \<and> ks_iplhigh s' x = ks_iplhigh s x" "\<And>d. d \<noteq> c \<Longrightarrow> ks_irq s' d = ks_irq s d"
      "\<And>d. d \<noteq> c \<Longrightarrow> held s' d = held s d"
    and new: "level_ok M' s' c" "locks_ok M' s'" "\<And>d. d \<noteq> c \<Longrightarrow> M' = Some d \<longleftrightarrow> M = Some d"
  shows "sys_levels M' s'"
proof -
  have P: "parked_ok s" "\<And>d. d < ks_ncpus s \<Longrightarrow> level_ok M s d" using lv by (simp_all add: sys_levels_def)
  have "parked_ok s'"
    unfolding parked_ok_def
  proof (intro ballI impI)
    fix x assume x: "x \<in> ks_alloc s'" "\<forall>d < ks_ncpus s'. c_curthread (ks_cpu s' d) \<noteq> Some x"
    then have "x \<noteq> t" using cur(2,3) s'(3,5) by auto
    then show "ks_curspl s' x = IPL_HIGH \<and> ks_iplhigh s' x = 2 \<and> ctx_ok (t_context (ks_thread s' x))"
      using P(1) x s'(2-5) s'(7) [of x] by (simp add: parked_ok_def)
  qed
  moreover have "level_ok M' s' d" if d: "d < ks_ncpus s'" for d
  proof (cases "d = c")
    case False
    have "c_curthread (ks_cpu s d) \<noteq> Some t" using current_unique [OF cur(1,2) _ cur(3)] d s'(3) False by auto
    then show ?thesis
      using P(2) [of d] d False s'(3) s'(6) [OF False] s'(7) s'(8,9) [OF False] new(3) [OF False] by (auto simp: level_ok_def)
  qed (use new(1) in simp)
  ultimately show ?thesis using lv s'(1,3) new(2) by (simp add: sys_levels_def)
qed

lemma held_st [simp]:
  "held (st_splx c t spl s) d = held s d"
  "ks_lock s l = free_lock \<Longrightarrow> held (st_acquire c t l s) d = (if d = c then insert l (held s c) else held s d)"
  "ks_lock s l = cpu_lock c \<Longrightarrow> held (st_release c t l s) d = (if d = c then held s c - {l} else held s d)"
  by (auto simp: held_def)

lemma level_okE:
  assumes "sys_levels M s" "c < ks_ncpus s" "c_curthread (ks_cpu s c) = Some t"
  shows "ks_curspl s t \<in> {IPL_NONE, IPL_HIGH}" "finite (held s c)" "ks_iplhigh s t = int (card (held s c)) + ks_curspl s t"
    "ks_irq s c \<longleftrightarrow> ks_iplhigh s t = 0" "c_isidle (ks_cpu s c) \<Longrightarrow> ks_curspl s t = IPL_HIGH"
    "c_isidle (ks_cpu s c) \<Longrightarrow> held s c = (if M = Some c then {Lk_runqueue c} else {})" "c_isidle (ks_cpu s c) \<Longrightarrow> c_spl (ks_cpu s c) \<in> {IPL_NONE, IPL_HIGH}"
proof -
  have "level_ok M s c" using assms(1,2) by (simp add: sys_levels_def)
  then show "ks_curspl s t \<in> {IPL_NONE, IPL_HIGH}" "finite (held s c)" "ks_iplhigh s t = int (card (held s c)) + ks_curspl s t"
    "ks_irq s c \<longleftrightarrow> ks_iplhigh s t = 0" "c_isidle (ks_cpu s c) \<Longrightarrow> ks_curspl s t = IPL_HIGH"
    "c_isidle (ks_cpu s c) \<Longrightarrow> held s c = (if M = Some c then {Lk_runqueue c} else {})" "c_isidle (ks_cpu s c) \<Longrightarrow> c_spl (ks_cpu s c) \<in> {IPL_NONE, IPL_HIGH}"
    using assms(3) by (auto simp: level_ok_def)
qed

lemma held_lock:
  assumes "sys_levels M s" "l \<in> held s c"
  shows "ks_lock s l = cpu_lock c"
proof -
  have "ks_lock s l = free_lock \<or> (\<exists>d. ks_lock s l = cpu_lock d)" using assms(1) unfolding sys_levels_def locks_ok_def by blast
  then show ?thesis using assms(2) by (auto simp: held_def)
qed

lemma sys_splx_ok:
  assumes inv: "sys_inv None s L T" and c: "c < ks_ncpus s" "\<not> c_isidle (ks_cpu s c)" "c_curthread (ks_cpu s c) = Some t"
    and spl: "spl \<in> {IPL_NONE, IPL_HIGH}"
  shows "ks_splx c spl s = Ok (ks_curspl s t) (st_splx c t spl s) \<and> sys_inv None (st_splx c t spl s) L T"
proof -
  note I = sys_invD [OF inv]
  note E = level_okE [OF I(4) c(1,3)]
  have ok: "cpu_ok c t s" by (rule sys_cpu_ok [OF I(2,4) c(1,3)])
  have le: "ks_curspl s t \<le> ks_iplhigh s t" using E(3) by simp
  have "sys_levels None (st_splx c t spl s)"
  proof (rule sys_levels_local [OF I(4,6) c(1,3)])
    show "level_ok None (st_splx c t spl s) c" using E c spl by (auto simp: level_ok_def)
    show "locks_ok None (st_splx c t spl s)" using I(4) by (simp add: sys_levels_def locks_ok_def)
  qed simp_all
  then show ?thesis using splx_run [OF ok spl le] I by (simp add: sys_inv_def)
qed

lemma wchan_lock_ok:
  assumes inv: "sys_inv None s L T" and c: "c < ks_ncpus s" "\<not> c_isidle (ks_cpu s c)" and w: "ks_lock s (Lk_wchan w) = free_lock"
  shows "\<exists>s'. wchan_lock c w s = Ok () s' \<and> sys_inv None s' L T \<and> ks_ncpus s' = ks_ncpus s"
proof -
  note I = sys_invD [OF inv]
  obtain t where t: "c_curthread (ks_cpu s c) = Some t" "cpu_ok c t s" using sys_current [OF inv c(1)] by metis
  note E = level_okE [OF I(4) c(1) t(1)]
  have "Lk_wchan w \<notin> held s c" using w by (simp add: held_def)
  then have card: "card (insert (Lk_wchan w) (held s c)) = Suc (card (held s c))" using E(2) by simp
  have "sys_levels None (st_acquire c t (Lk_wchan w) s)"
  proof (rule sys_levels_local [OF I(4,6) c(1) t(1)])
    have "0 \<le> ks_curspl s t" using E(1) by (auto simp: IPL_NONE_def IPL_HIGH_def)
    then show "level_ok None (st_acquire c t (Lk_wchan w) s) c" using E c t(1) w card by (auto simp: level_ok_def)
    show "locks_ok None (st_acquire c t (Lk_wchan w) s)" using I(4) c(1) by (auto simp: sys_levels_def locks_ok_def)
  qed (use w in simp_all)
  then show ?thesis using acquire_run [OF t(2) w] I by (simp add: wchan_lock_def sys_inv_def)
qed

lemma wchan_unlock_ok:
  assumes inv: "sys_inv None s L T" and c: "c < ks_ncpus s" "\<not> c_isidle (ks_cpu s c)" and w: "Lk_wchan w \<in> held s c"
  shows "\<exists>s'. wchan_unlock c w s = Ok () s' \<and> sys_inv None s' L T \<and> ks_ncpus s' = ks_ncpus s"
proof -
  note I = sys_invD [OF inv]
  obtain t where t: "c_curthread (ks_cpu s c) = Some t" "cpu_ok c t s" using sys_current [OF inv c(1)] by metis
  note E = level_okE [OF I(4) c(1) t(1)]
  have lk: "ks_lock s (Lk_wchan w) = cpu_lock c" by (rule held_lock [OF I(4) w])
  have pos: "0 < card (held s c)" using w E(2) by (auto simp: card_gt_0_iff)
  have "0 \<le> ks_curspl s t" using E(1) by (auto simp: IPL_NONE_def IPL_HIGH_def)
  then have cnt: "0 < ks_iplhigh s t" using E(3) pos by simp
  have "sys_levels None (st_release c t (Lk_wchan w) s)"
  proof (rule sys_levels_local [OF I(4,6) c(1) t(1)])
    show "level_ok None (st_release c t (Lk_wchan w) s) c" using E c t(1) lk w pos by (auto simp: level_ok_def)
    show "locks_ok None (st_release c t (Lk_wchan w) s)" using I(4) c(1) by (auto simp: sys_levels_def locks_ok_def)
  qed (use lk in simp_all)
  then show ?thesis using release_run [OF t(2) lk cnt] I by (simp add: wchan_unlock_def sys_inv_def)
qed

subsection \<open>Dead threads\<close>

lemma zombie_spot:
  assumes "listed_ok s L" "L (tl_zombies c) = Some zs" "z \<in> set zs"
  shows "z \<in> ks_alloc s" "t_cpu (ks_thread s z) = Some c" "t_state (ks_thread s z) = S_ZOMBIE" "t_proc (ks_thread s z) = None"
  using listed_okD [OF assms] by (auto simp: spot_def)

lemma zombie_not_current:
  assumes "sys_places s L" "c < ks_ncpus s" "\<not> c_isidle (ks_cpu s c)" "L (tl_zombies c) = Some zs" "z \<in> set zs" "d < ks_ncpus s"
  shows "c_curthread (ks_cpu s d) \<noteq> Some z"
proof
  assume z: "c_curthread (ks_cpu s d) = Some z"
  have P: "listed_ok s L" "current_ok s L" using assms(1) by (simp_all add: sys_places_def)
  have "t_cpu (ks_thread s z) = Some d" by (rule current_okD(2) [OF P(2) assms(6) z])
  then have "d = c" using zombie_spot(2) [OF P(1) assms(4,5)] by simp
  then have "unlisted L z" using current_okD(4) [OF P(2) assms(2)] z assms(3) by simp
  then show False using unlistedD assms(4,5) by blast
qed

lemma reap_ok:
  assumes inv: "sys_inv None s L T" and c: "c < ks_ncpus s" "\<not> c_isidle (ks_cpu s c)" and z: "L (tl_zombies c) = Some (z # zs)"
  shows "\<exists>ls. exorcise_loop (Suc n) c s = exorcise_loop n c (s\<lparr>ks_lists := ls, ks_alloc := ks_alloc s - {z}\<rparr>) \<and>
    sys_inv None (s\<lparr>ks_lists := ls, ks_alloc := ks_alloc s - {z}\<rparr>) (L(tl_zombies c \<mapsto> zs)) T"
proof -
  note I = sys_invD [OF inv]
  note H = list_head [OF I(8) z]
  have Z: "z \<in> ks_alloc s" "t_state (ks_thread s z) = S_ZOMBIE" "t_proc (ks_thread s z) = None"
    using zombie_spot [OF I(5) z, of z] by simp_all
  obtain ls where ls: "threadlist_remhead (tl_zombies c) (ks_lists s) = Ok (Some z) ls" "tl_rep ls (L(tl_zombies c \<mapsto> zs), T)"
    using remhead_Cons [OF I(8) z] by blast
  have un: "unlisted (L(tl_zombies c \<mapsto> zs)) x \<longleftrightarrow> unlisted L x \<or> x = z" for x
    by (rule unlisted_rem [OF I(8)]) (use z H in auto)
  obtain t where t: "c_curthread (ks_cpu s c) = Some t" using sys_current [OF inv c(1)] by metis
  have nc: "c_curthread (ks_cpu s d) \<noteq> Some z" if "d < ks_ncpus s" for d
    using zombie_not_current [OF I(2) c z _ that] by simp
  let ?s = "s\<lparr>ks_lists := ls, ks_alloc := ks_alloc s - {z}\<rparr>" and ?L = "L(tl_zombies c \<mapsto> zs)"
  have "threadlistnode_cleanup z ls = Ok () ls" using node_cleanup_run [OF ls(2)] H(3) un by simp
  then have "exorcise_loop (Suc n) c s = exorcise_loop n c ?s"
    using ls(1) t nc [OF c(1)] Z by (auto simp: kfun_defs on_lists_def curthread_def kthe_def th_get_def thread_destroy_def)
  moreover have "sys_lists ?s ?L T"
    unfolding sys_lists_def using ls(2) sys_listsD [OF I(1)] card_Diff1_le [of "ks_alloc s" z] by auto
  moreover have "listed_ok ?s ?L"
  proof (rule listed_okI)
    fix l ts t assume l: "?L l = Some ts" "t \<in> set ts"
    have "t \<noteq> z" using un [of z] unlistedD [of ?L z l ts] l by auto
    moreover obtain ts' where "L l = Some ts'" "t \<in> set ts'" using l z by (auto split: if_splits)
    ultimately show "t \<in> ks_alloc ?s \<and> spot (ks_ncpus ?s) (ks_thread ?s t) l" using listed_okD [OF I(5)] by simp
  qed
  moreover have "current_ok ?s ?L"
  proof (rule current_okI)
    fix d assume "d < ks_ncpus ?s"
    then have d: "d < ks_ncpus s" by simp
    obtain t where t: "c_curthread (ks_cpu s d) = Some t" using sys_current [OF inv d] by metis
    show "\<exists>t. c_curthread (ks_cpu ?s d) = Some t \<and> t \<in> ks_alloc ?s \<and> t_cpu (ks_thread ?s t) = Some d \<and>
        (c_isidle (ks_cpu ?s d) \<longrightarrow> \<not> unlisted ?L t) \<and> (\<not> c_isidle (ks_cpu ?s d) \<longrightarrow> unlisted ?L t \<and> t_state (ks_thread ?s t) \<in> {S_RUN, S_READY})"
      using current_okD [OF I(6) d t] nc [OF d] t un by auto
  qed
  moreover have "none_lost ?s ?L" using I(7) un by (auto simp: none_lost_def)
  moreover have "sys_threads ?s" by (rule sys_threads_cong [OF I(3)]) auto
  moreover have "sys_levels None ?s"
    using I(4) by (auto simp: sys_levels_def parked_ok_def level_ok_def locks_ok_def held_def)
  ultimately show ?thesis by (auto simp: sys_inv_def sys_places_def)
qed

lemma exorcise_loop_ok:
  assumes "sys_inv None s L T" "c < ks_ncpus s" "\<not> c_isidle (ks_cpu s c)" "L (tl_zombies c) = Some zs"
  shows "\<exists>ls. exorcise_loop (Suc (length zs)) c s = Ok () (s\<lparr>ks_lists := ls, ks_alloc := ks_alloc s - set zs\<rparr>) \<and>
    sys_inv None (s\<lparr>ks_lists := ls, ks_alloc := ks_alloc s - set zs\<rparr>) (L(tl_zombies c \<mapsto> [])) T"
  using assms
proof (induction zs arbitrary: s L)
  case Nil
  note I = sys_invD [OF Nil(1)]
  obtain ls where ls: "threadlist_remhead (tl_zombies c) (ks_lists s) = Ok None ls" "tl_rep ls (L, T)"
    using remhead_Nil [OF I(8) Nil(4)] by blast
  have "exorcise_loop (Suc (length [])) c s = Ok () (s\<lparr>ks_lists := ls, ks_alloc := ks_alloc s - set []\<rparr>)"
    using ls(1) by (simp add: kbind_def on_lists_def kret_def)
  moreover have "L(tl_zombies c \<mapsto> []) = L" using Nil(4) by (simp add: fun_upd_idem)
  moreover have "sys_inv None (s\<lparr>ks_lists := ls, ks_alloc := ks_alloc s - set []\<rparr>) L T" using sys_inv_lists [OF Nil(1) ls(2)] I(2) by simp
  ultimately show ?case by metis
next
  case (Cons z zs)
  from reap_ok [OF Cons(2-5), of "Suc (length zs)"] obtain ls where
    ls: "exorcise_loop (Suc (length (z # zs))) c s = exorcise_loop (Suc (length zs)) c (s\<lparr>ks_lists := ls, ks_alloc := ks_alloc s - {z}\<rparr>)"
      "sys_inv None (s\<lparr>ks_lists := ls, ks_alloc := ks_alloc s - {z}\<rparr>) (L(tl_zombies c \<mapsto> zs)) T" by auto
  let ?s = "s\<lparr>ks_lists := ls, ks_alloc := ks_alloc s - {z}\<rparr>"
  have "(L(tl_zombies c \<mapsto> zs)) (tl_zombies c) = Some zs" "c < ks_ncpus ?s" "\<not> c_isidle (ks_cpu ?s c)" using Cons.prems(2,3) by simp_all
  from Cons.IH [OF ls(2) this(2,3,1)] obtain ls' where
    ls': "exorcise_loop (Suc (length zs)) c ?s = Ok () (?s\<lparr>ks_lists := ls', ks_alloc := ks_alloc ?s - set zs\<rparr>)"
      "sys_inv None (?s\<lparr>ks_lists := ls', ks_alloc := ks_alloc ?s - set zs\<rparr>) (L(tl_zombies c \<mapsto> [])) T"
    unfolding fun_upd_upd by blast
  have "?s\<lparr>ks_lists := ls', ks_alloc := ks_alloc ?s - set zs\<rparr> = s\<lparr>ks_lists := ls', ks_alloc := ks_alloc s - set (z # zs)\<rparr>"
    by (simp add: set_diff_eq)
  then show ?case using ls(1) ls' by metis
qed

lemma exorcise_ok:
  assumes "sys_inv None s L T" "c < ks_ncpus s" "\<not> c_isidle (ks_cpu s c)"
  shows "\<exists>ls zs. L (tl_zombies c) = Some zs \<and> exorcise c s = Ok () (s\<lparr>ks_lists := ls, ks_alloc := ks_alloc s - set zs\<rparr>) \<and>
    sys_inv None (s\<lparr>ks_lists := ls, ks_alloc := ks_alloc s - set zs\<rparr>) (L(tl_zombies c \<mapsto> [])) T"
proof -
  note I = sys_invD [OF assms(1)]
  obtain zs where zs: "L (tl_zombies c) = Some zs" using sys_listsD(5) [OF I(1) assms(2)] by blast
  have "exorcise c s = exorcise_loop (Suc (length zs)) c s"
    using count_run [OF I(8) zs] by (simp add: exorcise_def kbind_def [of "kget _"] kget_def del: exorcise_loop.simps)
  then show ?thesis using exorcise_loop_ok [OF assms zs] zs by auto
qed

subsection \<open>Context switch\<close>

text \<open>The current thread \<open>t\<close> of processor \<open>c\<close> is put on list \<open>l\<close>; the processor is idle until it has a next thread.\<close>

lemma sys_places_park:
  assumes inv: "sys_places s L" and c: "c < ks_ncpus s" "\<not> c_isidle (ks_cpu s c)" "c_curthread (ks_cpu s c) = Some t"
    and l: "L l = Some ts" and th': "spot (ks_ncpus s) th' l" "t_cpu th' = t_cpu (ks_thread s t)"
    and s': "ks_alloc s' = ks_alloc s" "ks_ncpus s' = ks_ncpus s" "ks_thread s' = (ks_thread s)(t := th')"
      "ks_cpu s' = (ks_cpu s)(c := (ks_cpu s c)\<lparr>c_isidle := True, c_spl := spl\<rparr>)"
  shows "sys_places s' (L(l \<mapsto> ts @ [t]))"
proof -
  have P: "listed_ok s L" "current_ok s L" "none_lost s L" using inv by (simp_all add: sys_places_def)
  note D = current_okD [OF P(2) c(1,3)]
  let ?L = "L(l \<mapsto> ts @ [t])"
  have un: "unlisted ?L x \<longleftrightarrow> unlisted L x \<and> x \<noteq> t" for x by (rule unlisted_ins [of _ _ ts]) (use l in simp_all)
  have ncur: "c_curthread (ks_cpu s d) \<noteq> Some t" if "d < ks_ncpus s" "d \<noteq> c" for d
    using current_unique [OF P(2) c(1) that(1) c(3)] that(2) by auto
  have "listed_ok s' ?L"
  proof (rule listed_okI)
    fix k us x assume k: "?L k = Some us" "x \<in> set us"
    show "x \<in> ks_alloc s' \<and> spot (ks_ncpus s') (ks_thread s' x) k"
    proof (cases "x = t")
      case True
      then have "k = l" using k unlistedD [of L t k us] D(4) [OF c(2)] by (auto split: if_splits)
      then show ?thesis using True th'(1) D(1) s' by simp
    next
      case False
      then have "\<exists>us'. L k = Some us' \<and> x \<in> set us'" using k l by (auto split: if_splits)
      then show ?thesis using listed_okD [OF P(1)] s' False by auto
    qed
  qed
  moreover have "current_ok s' ?L"
  proof (rule current_okI)
    fix d assume "d < ks_ncpus s'"
    then have d: "d < ks_ncpus s" using s'(2) by simp
    obtain x where x: "c_curthread (ks_cpu s d) = Some x" using current_okE [OF P(2) d] by metis
    then show "\<exists>x. c_curthread (ks_cpu s' d) = Some x \<and> x \<in> ks_alloc s' \<and> t_cpu (ks_thread s' x) = Some d \<and>
        (c_isidle (ks_cpu s' d) \<longrightarrow> \<not> unlisted ?L x) \<and> (\<not> c_isidle (ks_cpu s' d) \<longrightarrow> unlisted ?L x \<and> t_state (ks_thread s' x) \<in> {S_RUN, S_READY})"
      using current_okD [OF P(2) d x] ncur [OF d] c(3) s' un th'(2) by (cases "d = c") auto
  qed
  moreover have "none_lost s' ?L"
    unfolding none_lost_def
  proof (intro ballI impI)
    fix x assume "x \<in> ks_alloc s'" "unlisted ?L x"
    then have "x \<noteq> t" "x \<in> ks_alloc s" "unlisted L x" using un s'(1) by auto
    then obtain d where "d < ks_ncpus s" "c_curthread (ks_cpu s d) = Some x" "\<not> c_isidle (ks_cpu s d)" using P(3) by (auto simp: none_lost_def)
    then show "\<exists>c < ks_ncpus s'. c_curthread (ks_cpu s' c) = Some x \<and> \<not> c_isidle (ks_cpu s' c)"
      using \<open>x \<noteq> t\<close> c(3) s'(2,4) by (intro exI [of _ d]) auto
  qed
  ultimately show ?thesis by (simp add: sys_places_def)
qed

text \<open>With its run queue locked and no other lock, the processor is then between two threads.\<close>

lemma sys_park:
  assumes inv: "sys_inv None s L T" and c: "c < ks_ncpus s" "\<not> c_isidle (ks_cpu s c)" "c_curthread (ks_cpu s c) = Some t" "ks_curspl s t = IPL_HIGH"
    and l: "L l = Some ts" "tl_rep (ks_lists s') (L(l \<mapsto> ts @ [t]), T)" and th': "spot (ks_ncpus s) th' l"
      "t_cpu th' = t_cpu (ks_thread s t)" "t_stack th' = t_stack (ks_thread s t)" "t_proc th' = t_proc (ks_thread s t)" "t_context th' = t_context (ks_thread s t)"
    and s': "ks_booted s' = ks_booted s" "ks_alloc s' = ks_alloc s" "ks_ncpus s' = ks_ncpus s" "ks_thread s' = (ks_thread s)(t := th')"
      "ks_cpu s' = (ks_cpu s)(c := (ks_cpu s c)\<lparr>c_isidle := True, c_spl := spl\<rparr>)" "ks_curspl s' = ks_curspl s" "ks_iplhigh s' = (ks_iplhigh s)(t := 2)"
      "ks_irq s' = (ks_irq s)(c := False)" "ks_pthreads s' = ks_pthreads s"
      "\<And>k. ks_lock s' k = (if k = Lk_runqueue c then cpu_lock c else if k \<in> held s c then free_lock else ks_lock s k)"
    and spl: "spl \<in> {IPL_NONE, IPL_HIGH}"
  shows "sys_inv (Some c) s' (L(l \<mapsto> ts @ [t])) T"
proof -
  note I = sys_invD [OF inv]
  have "sys_lists s' (L(l \<mapsto> ts @ [t])) T" by (rule sys_lists_change [OF I(1) l(2)]) (use s' in simp_all)
  moreover have "sys_places s' (L(l \<mapsto> ts @ [t]))"
    by (rule sys_places_park [where th' = th' and s = s and c = c and spl = spl]) (use I c l th' s' in simp_all)
  moreover have "sys_threads s'" using I(3) s' th' by (auto simp: sys_threads_def)
  moreover have "sys_levels (Some c) s'"
  proof (rule sys_levels_local [OF I(4,6) c(1,3)])
    have "held s' c = {Lk_runqueue c}" using s'(10) by (auto simp: held_def)
    then show "level_ok (Some c) s' c" using s' c spl by (auto simp: level_ok_def IPL_HIGH_def)
    show "held s' d = held s d" if "d \<noteq> c" for d
      using that s'(10) lock_free(3) [OF I(4), of c] by (auto simp: held_def split: if_splits)
    have "ks_lock s k = free_lock \<or> (\<exists>d < ks_ncpus s. ks_lock s k = cpu_lock d \<and> (\<exists>w. k = Lk_wchan w))" for k
      using I(4) by (auto simp: sys_levels_def locks_ok_def)
    then show "locks_ok (Some c) s'" unfolding locks_ok_def using s'(3,5,10) c(1) by auto
  qed (use s' th' in auto)
  ultimately show ?thesis by (simp add: sys_inv_def)
qed

text \<open>The thread \<open>u\<close> at the head of the run queue takes over the processor.\<close>

lemma sys_places_pick:
  assumes inv: "sys_places s L" "tl_rep ls (L, T)" and c: "c < ks_ncpus s" "c_curthread (ks_cpu s c) = Some t" "c_isidle (ks_cpu s c)"
    and u: "L (tl_runqueue c) = Some (u # us)"
    and s': "ks_alloc s' = ks_alloc s" "ks_ncpus s' = ks_ncpus s" "\<And>x. x \<noteq> u \<Longrightarrow> ks_thread s' x = (ks_thread s x)\<lparr>t_context := ctx x\<rparr>"
      "t_state (ks_thread s' u) = S_RUN" "t_cpu (ks_thread s' u) = t_cpu (ks_thread s u)"
      "ks_cpu s' = (ks_cpu s)(c := (ks_cpu s c)\<lparr>c_isidle := False, c_curthread := Some u\<rparr>)"
  shows "sys_places s' (L(tl_runqueue c \<mapsto> us))"
proof -
  have P: "listed_ok s L" "current_ok s L" "none_lost s L" using inv by (simp_all add: sys_places_def)
  note H = list_head [OF inv(2) u]
  let ?L = "L(tl_runqueue c \<mapsto> us)"
  have U: "u \<in> ks_alloc s" "t_cpu (ks_thread s u) = Some c" using listed_okD [OF P(1) u, of u] by (auto simp: spot_def)
  have un: "unlisted ?L x \<longleftrightarrow> unlisted L x \<or> x = u" for x by (rule unlisted_rem [OF inv(2)]) (use u H in auto)
  have "listed_ok s' ?L"
  proof (rule listed_okI)
    fix k vs x assume k: "?L k = Some vs" "x \<in> set vs"
    have "x \<noteq> u" using un [of u] unlistedD [of ?L u k vs] k by auto
    moreover have "\<exists>vs'. L k = Some vs' \<and> x \<in> set vs'" using k u by (auto split: if_splits)
    ultimately show "x \<in> ks_alloc s' \<and> spot (ks_ncpus s') (ks_thread s' x) k"
      using listed_okD [OF P(1)] s'(1,2) s'(3) [of x] by (auto simp: spot_def)
  qed
  moreover have "current_ok s' ?L"
  proof (rule current_okI)
    fix d assume "d < ks_ncpus s'"
    then have d: "d < ks_ncpus s" using s'(2) by simp
    obtain x where x: "c_curthread (ks_cpu s d) = Some x" using current_okE [OF P(2) d] by metis
    have "x \<noteq> u" if "d \<noteq> c" using current_okD(2) [OF P(2) d x] U(2) that by auto
    then show "\<exists>x. c_curthread (ks_cpu s' d) = Some x \<and> x \<in> ks_alloc s' \<and> t_cpu (ks_thread s' x) = Some d \<and>
        (c_isidle (ks_cpu s' d) \<longrightarrow> \<not> unlisted ?L x) \<and> (\<not> c_isidle (ks_cpu s' d) \<longrightarrow> unlisted ?L x \<and> t_state (ks_thread s' x) \<in> {S_RUN, S_READY})"
      using current_okD [OF P(2) d x] x s' un U by (cases "d = c") auto
  qed
  moreover have "none_lost s' ?L"
    unfolding none_lost_def
  proof (intro ballI impI)
    fix x assume x: "x \<in> ks_alloc s'" "unlisted ?L x"
    show "\<exists>c < ks_ncpus s'. c_curthread (ks_cpu s' c) = Some x \<and> \<not> c_isidle (ks_cpu s' c)"
    proof (cases "x = u")
      case False
      then obtain d where d: "d < ks_ncpus s" "c_curthread (ks_cpu s d) = Some x" "\<not> c_isidle (ks_cpu s d)"
        using P(3) x un s'(1) by (auto simp: none_lost_def)
      then have "d \<noteq> c" using c(3) by auto
      then show ?thesis using d s'(2,6) by (intro exI [of _ d]) simp
    qed (use c(1) s'(2,6) in auto)
  qed
  ultimately show ?thesis by (simp add: sys_places_def)
qed

lemma sys_levels_pick:
  assumes lv: "sys_levels (Some c) s" and P: "current_ok s L" and c: "c_curthread (ks_cpu s c) = Some t"
    and u: "u \<in> ks_alloc s" "t_cpu (ks_thread s u) = Some c"
    and s': "ks_booted s' = ks_booted s" "ks_alloc s' = ks_alloc s" "ks_ncpus s' = ks_ncpus s"
      "\<And>x. x \<noteq> u \<Longrightarrow> x \<noteq> t \<Longrightarrow> ks_thread s' x = ks_thread s x" "t \<noteq> u \<Longrightarrow> ctx_ok (t_context (ks_thread s' t))"
      "ks_cpu s' = (ks_cpu s)(c := (ks_cpu s c)\<lparr>c_isidle := False, c_curthread := Some u\<rparr>)" "ks_curspl s' = ks_curspl s" "ks_iplhigh s' = (ks_iplhigh s)(u := 1)"
      "ks_irq s' = (ks_irq s)(c := False)" "ks_lock s' = (ks_lock s)(Lk_runqueue c := free_lock)"
  shows "sys_levels None s'"
proof -
  have M: "c < ks_ncpus s" "c_isidle (ks_cpu s c)" using lv by (simp_all add: sys_levels_def locks_ok_def)
  note E = level_okE [OF lv M(1) c]
  have held_c: "held s c = {Lk_runqueue c}" using E(6) M(2) by simp
  have T: "ks_curspl s t = IPL_HIGH" "ks_iplhigh s t = 2" using E(3,5) M(2) held_c by (simp_all add: IPL_HIGH_def)
  have ncur: "c_curthread (ks_cpu s d) \<noteq> Some x" if "d < ks_ncpus s" "d \<noteq> c" "x \<in> {t, u}" for d x
    using current_okD(2) [OF P that(1)] current_okD(2) [OF P M(1) c] u(2) that by auto
  have park: "parked_ok s" using lv by (simp add: sys_levels_def)
  have U: "ks_curspl s u = IPL_HIGH" "ks_iplhigh s u = 2"
    using park u(1) ncur [of _ u] T c by (cases "u = t"; force simp: parked_ok_def)+
  have "parked_ok s'"
    unfolding parked_ok_def
  proof (intro ballI impI)
    fix x assume x: "x \<in> ks_alloc s'" "\<forall>d < ks_ncpus s'. c_curthread (ks_cpu s' d) \<noteq> Some x"
    then have "x \<noteq> u" using M(1) s'(3,6) by auto
    show "ks_curspl s' x = IPL_HIGH \<and> ks_iplhigh s' x = 2 \<and> ctx_ok (t_context (ks_thread s' x))"
    proof (cases "x = t")
      case True
      then show ?thesis using T s' \<open>x \<noteq> u\<close> by auto
    next
      case False
      then have "\<forall>d < ks_ncpus s. c_curthread (ks_cpu s d) \<noteq> Some x" using x(2) s'(3,6) c by (metis fun_upd_other option.inject)
      then show ?thesis using park x(1) s' \<open>x \<noteq> u\<close> False by (simp add: parked_ok_def)
    qed
  qed
  moreover have "level_ok None s' d" if d: "d < ks_ncpus s'" for d
  proof (cases "d = c")
    case True
    have "held s' c = {}" using held_c s'(10) by (auto simp: held_def)
    then show ?thesis using True s' U by (simp add: level_ok_def IPL_HIGH_def)
  next
    case False
    have "Lk_runqueue c \<in> held s c" using held_c by simp
    then have "held s' d = held s d" using s'(10) False by (auto simp: held_def)
    moreover have "level_ok (Some c) s d" using lv d s'(3) by (simp add: sys_levels_def)
    ultimately show ?thesis using False s' ncur [of d u] d by (auto simp: level_ok_def)
  qed
  moreover have "locks_ok None s'" using lv s'(3,10) by (auto simp: sys_levels_def locks_ok_def)
  ultimately show ?thesis using lv s'(1) by (simp add: sys_levels_def)
qed

text \<open>What is left of the switch in the thread that runs next: the state before it, and its execution.\<close>

definition switched :: "nat \<Rightarrow> nat \<Rightarrow> nat \<Rightarrow> threadlists \<Rightarrow> ksys \<Rightarrow> ksys" where
  "switched c t u ls s = s\<lparr>ks_lists := ls, ks_cpu := (ks_cpu s)(c := (ks_cpu s c)\<lparr>c_isidle := False, c_curthread := Some u\<rparr>),
     ks_thread := (ks_thread s)(t := (ks_thread s t)\<lparr>t_context := Some (Ctx_switch (c_spl (ks_cpu s c)))\<rparr>)\<rparr>"

lemma sys_mid:
  assumes "sys_inv (Some c) s L T"
  obtains t where "c < ks_ncpus s" "c_isidle (ks_cpu s c)" "c_curthread (ks_cpu s c) = Some t" "t \<in> ks_alloc s" "cpu_ok c t s"
    "ks_curspl s t = IPL_HIGH" "ks_iplhigh s t = 2" "\<not> ks_irq s c" "ks_lock s (Lk_runqueue c) = cpu_lock c" "c_spl (ks_cpu s c) \<in> {IPL_NONE, IPL_HIGH}"
    "held s c = {Lk_runqueue c}"
proof -
  note I = sys_invD [OF assms]
  have M: "c < ks_ncpus s" "c_isidle (ks_cpu s c)" using I(4) by (simp_all add: sys_levels_def locks_ok_def)
  obtain t where t: "c_curthread (ks_cpu s c) = Some t" "cpu_ok c t s" using sys_current [OF assms M(1)] by metis
  note E = level_okE [OF I(4) M(1) t(1)]
  have h: "held s c = {Lk_runqueue c}" using E(6) M(2) by simp
  show ?thesis
    by (rule that [OF M t(1) _ t(2)]) (use E M h t held_lock [OF I(4), of "Lk_runqueue c" c] in \<open>auto simp: cpu_ok_def IPL_HIGH_def\<close>)
qed

lemma switched_ok:
  assumes inv: "sys_inv (Some c) s L T" and t: "c_curthread (ks_cpu s c) = Some t"
    and u: "L (tl_runqueue c) = Some (u # us)" "tl_rep ls (L(tl_runqueue c \<mapsto> us), T)"
  shows "ctx_ok (t_context (ks_thread (switched c t u ls s) u))" and "u \<in> ks_alloc s"
    and "\<exists>s4. kbind (th_mod u (\<lambda>th. th\<lparr>t_wchan_name := None, t_state := S_RUN\<rparr>)) (\<lambda>_. ks_release c (Lk_runqueue c)) (switched c t u ls s) = Ok () s4 \<and>
      sys_inv None s4 (L(tl_runqueue c \<mapsto> us)) T \<and> ks_ncpus s4 = ks_ncpus s \<and> ks_cpu s4 = ks_cpu (switched c t u ls s) \<and> held s4 c = {}"
proof -
  note I = sys_invD [OF inv]
  obtain M: "c < ks_ncpus s" "c_isidle (ks_cpu s c)" "t \<in> ks_alloc s" "ks_curspl s t = IPL_HIGH" "ks_iplhigh s t = 2" "\<not> ks_irq s c"
      "ks_lock s (Lk_runqueue c) = cpu_lock c" "c_spl (ks_cpu s c) \<in> {IPL_NONE, IPL_HIGH}" "held s c = {Lk_runqueue c}"
    using sys_mid [OF inv] t by (metis option.inject)
  show u_in: "u \<in> ks_alloc s" using listed_okD(1) [OF I(5) u(1)] by simp
  have u_cpu: "t_cpu (ks_thread s u) = Some c" using listed_okD(2) [OF I(5) u(1), of u] by (auto simp: spot_def)
  have "c_curthread (ks_cpu s d) \<noteq> Some u" if "u \<noteq> t" "d < ks_ncpus s" for d
    using current_okD(2) [OF I(6) that(2), of u] u_cpu t that(1) by auto
  then have U: "ks_curspl s u = IPL_HIGH" "ks_iplhigh s u = 2" "u \<noteq> t \<Longrightarrow> ctx_ok (t_context (ks_thread s u))"
    using I(4) u_in M by (cases "u = t"; auto simp: sys_levels_def parked_ok_def)+
  then show "ctx_ok (t_context (ks_thread (switched c t u ls s) u))" using M(8) by (auto simp: switched_def)
  let ?s2 = "switched c t u ls s"
  let ?s3 = "?s2\<lparr>ks_thread := (ks_thread ?s2)(u := (ks_thread ?s2 u)\<lparr>t_wchan_name := None, t_state := S_RUN\<rparr>)\<rparr>"
  let ?s4 = "st_release c u (Lk_runqueue c) ?s3"
  have "cpu_ok c u ?s3" using U M u_in I(4) by (simp add: cpu_ok_def switched_def sys_levels_def)
  then have "ks_release c (Lk_runqueue c) ?s3 = Ok () ?s4" using M U by (intro release_run) (simp_all add: switched_def)
  moreover have "th_mod u (\<lambda>th. th\<lparr>t_wchan_name := None, t_state := S_RUN\<rparr>) ?s2 = Ok () ?s3"
    using u_in by (simp add: th_mod_def th_get_def kfun_defs switched_def)
  ultimately have "kbind (th_mod u (\<lambda>th. th\<lparr>t_wchan_name := None, t_state := S_RUN\<rparr>)) (\<lambda>_. ks_release c (Lk_runqueue c)) ?s2 = Ok () ?s4"
    by (simp add: kbind_def)
  moreover have "sys_lists ?s4 (L(tl_runqueue c \<mapsto> us)) T" by (rule sys_lists_change [OF I(1)]) (use u in \<open>simp_all add: switched_def\<close>)
  moreover have "sys_places ?s4 (L(tl_runqueue c \<mapsto> us))"
    by (rule sys_places_pick [OF I(2,8) M(1) t M(2) u(1), where ctx = "\<lambda>x. t_context (ks_thread ?s2 x)"])
      (auto simp: switched_def)
  moreover have "sys_levels None ?s4"
    by (rule sys_levels_pick [OF I(4,6) t u_in u_cpu]) (use U M in \<open>auto simp: switched_def\<close>)
  moreover have "sys_threads ?s4" by (rule sys_threads_cong [OF I(3)]) (simp_all add: switched_def)
  ultimately show "\<exists>s4. kbind (th_mod u (\<lambda>th. th\<lparr>t_wchan_name := None, t_state := S_RUN\<rparr>)) (\<lambda>_. ks_release c (Lk_runqueue c)) ?s2 = Ok () s4 \<and>
      sys_inv None s4 (L(tl_runqueue c \<mapsto> us)) T \<and> ks_ncpus s4 = ks_ncpus s \<and> ks_cpu s4 = ks_cpu ?s2 \<and> held s4 c = {}"
    using M(9) by (intro exI [of _ ?s4]) (auto simp: sys_inv_def switched_def held_def)
qed

lemma switch_tail_ok:
  assumes inv: "sys_inv (Some c) s L T" and t: "c_curthread (ks_cpu s c) = Some t"
    and u: "L (tl_runqueue c) = Some (u # us)" "tl_rep ls (L(tl_runqueue c \<mapsto> us), T)" and v: "v \<in> {IPL_NONE, IPL_HIGH}"
  shows "\<exists>s'. thread_switch_tail c v (switched c t u ls s) = Ok () s' \<and> sys_inv None s' (L(tl_runqueue c \<mapsto> us, tl_zombies c \<mapsto> [])) T \<and>
    ks_ncpus s' = ks_ncpus s \<and> c_curthread (ks_cpu s' c) = Some u \<and> \<not> c_isidle (ks_cpu s' c) \<and> held s' c = {}"
proof -
  let ?s2 = "switched c t u ls s"
  have c: "c < ks_ncpus s" using sys_mid [OF inv] by metis
  from switched_ok(3) [OF inv t u] obtain s4 where
    s4: "kbind (th_mod u (\<lambda>th. th\<lparr>t_wchan_name := None, t_state := S_RUN\<rparr>)) (\<lambda>_. ks_release c (Lk_runqueue c)) ?s2 = Ok () s4"
      "sys_inv None s4 (L(tl_runqueue c \<mapsto> us)) T" "ks_ncpus s4 = ks_ncpus s" "ks_cpu s4 = ks_cpu ?s2" "held s4 c = {}" by blast
  have run: "c < ks_ncpus s4" "\<not> c_isidle (ks_cpu s4 c)" "c_curthread (ks_cpu s4 c) = Some u" using c s4(3,4) by (simp_all add: switched_def)
  from exorcise_ok [OF s4(2) run(1,2)] obtain ls' zs where
    x: "exorcise c s4 = Ok () (s4\<lparr>ks_lists := ls', ks_alloc := ks_alloc s4 - set zs\<rparr>)"
      "sys_inv None (s4\<lparr>ks_lists := ls', ks_alloc := ks_alloc s4 - set zs\<rparr>) (L(tl_runqueue c \<mapsto> us, tl_zombies c \<mapsto> [])) T" by blast
  let ?s5 = "s4\<lparr>ks_lists := ls', ks_alloc := ks_alloc s4 - set zs\<rparr>"
  have "ks_splx c v ?s5 = Ok (ks_curspl ?s5 u) (st_splx c u v ?s5) \<and> sys_inv None (st_splx c u v ?s5) (L(tl_runqueue c \<mapsto> us, tl_zombies c \<mapsto> [])) T"
    by (rule sys_splx_ok [OF x(2)]) (use run v in simp_all)
  moreover have "thread_switch_tail c v ?s2 =
      kbind (kbind (th_mod u (\<lambda>th. th\<lparr>t_wchan_name := None, t_state := S_RUN\<rparr>)) (\<lambda>_. ks_release c (Lk_runqueue c)))
        (\<lambda>_. kbind (exorcise c) (\<lambda>_. kbind (ks_splx c v) (\<lambda>_. kret ()))) ?s2"
    by (simp add: thread_switch_tail_def curthread_def kthe_def kbind_assoc kret_bind) (simp add: kbind_def kget_def switched_def kret_def)
  ultimately show ?thesis
    using s4(1) x(1) run s4(3,5) by (intro exI [of _ "st_splx c u v ?s5"]) (simp add: kbind_def kret_def held_def)
qed

text \<open>One turn of the loop: the processor stays idle, or the head of its run queue runs and its zombies are gone.\<close>

lemma switch_next_ok:
  assumes inv: "sys_inv (Some c) s L T" and q: "L (tl_runqueue c) = Some q"
  shows "\<exists>s'. ks_ncpus s' = ks_ncpus s \<and>
    (case q of
       [] \<Rightarrow> thread_switch_next c s = Ok False s' \<and> sys_inv None s' L T \<and> c_isidle (ks_cpu s' c)
     | u # us \<Rightarrow> thread_switch_next c s = Ok True s' \<and> sys_inv None s' (L(tl_runqueue c \<mapsto> us, tl_zombies c \<mapsto> [])) T \<and>
         c_curthread (ks_cpu s' c) = Some u \<and> \<not> c_isidle (ks_cpu s' c) \<and> held s' c = {})"
proof -
  note I = sys_invD [OF inv]
  obtain t where t: "c < ks_ncpus s" "c_isidle (ks_cpu s c)" "c_curthread (ks_cpu s c) = Some t" "t \<in> ks_alloc s" "cpu_ok c t s"
      "ks_curspl s t = IPL_HIGH" "ks_iplhigh s t = 2" "ks_lock s (Lk_runqueue c) = cpu_lock c" "c_spl (ks_cpu s c) \<in> {IPL_NONE, IPL_HIGH}"
      "held s c = {Lk_runqueue c}"
    using sys_mid [OF inv] by metis
  show ?thesis
  proof (cases q)
    case Nil
    obtain ls where ls: "threadlist_remhead (tl_runqueue c) (ks_lists s) = Ok None ls" "tl_rep ls (L, T)"
      using remhead_Nil [OF I(8)] q Nil by blast
    let ?s1 = "s\<lparr>ks_lists := ls\<rparr>" and ?s2 = "st_release c t (Lk_runqueue c) (s\<lparr>ks_lists := ls\<rparr>)"
    have inv1: "sys_inv (Some c) ?s1 L T" using sys_inv_lists [OF inv ls(2)] I(2) by simp
    note J = sys_invD [OF inv1]
    have "cpu_ok c t ?s1" by (rule cpu_ok_frame [OF t(5)]) (use t in simp_all)
    then have run: "ks_release c (Lk_runqueue c) ?s1 = Ok () ?s2" using t by (intro release_run) simp_all
    have h: "held ?s1 d = held s d" for d by (simp add: held_def)
    have "sys_levels None ?s2"
    proof (rule sys_levels_local [OF J(4,6), of c t])
      show "level_ok None ?s2 c" using t h by (auto simp: level_ok_def IPL_HIGH_def)
      show "locks_ok None ?s2" using J(4) by (auto simp: sys_levels_def locks_ok_def)
    qed (use t h in auto)
    then have "sys_inv None ?s2 L T" using J by (simp add: sys_inv_def)
    moreover have "thread_switch_next c s = Ok False ?s2"
      using ls(1) run by (simp add: thread_switch_next_def kbind_def on_lists_def kret_def)
    ultimately show ?thesis using Nil t(2) by (intro exI [of _ ?s2]) simp
  next
    case (Cons u us)
    obtain ls where ls: "threadlist_remhead (tl_runqueue c) (ks_lists s) = Ok (Some u) ls" "tl_rep ls (L(tl_runqueue c \<mapsto> us), T)"
      using remhead_Cons [OF I(8)] q Cons by blast
    let ?s2 = "switched c t u ls s"
    note W = switched_ok(1,2) [OF inv t(3) q [unfolded Cons] ls(2)]
    obtain v where v: "v \<in> {IPL_NONE, IPL_HIGH}" "thread_switch_next c s = kbind (thread_switch_tail c v) (\<lambda>_. kret True) ?s2"
    proof -
      have start: "thread_startup c = thread_switch_tail c IPL_NONE" by (simp add: thread_startup_def thread_switch_tail_def)
      let ?v = "case t_context (ks_thread ?s2 u) of Some (Ctx_switch w) \<Rightarrow> w | _ \<Rightarrow> IPL_NONE"
      have "thread_switch_next c s = kbind (thread_switch_tail c ?v) (\<lambda>_. kret True) ?s2"
        using ls(1) t W by (cases "t_context (ks_thread ?s2 u)" rule: ctx_ok.cases)
          (auto simp: thread_switch_next_def switchframe_switch_def kfun_defs on_lists_def curthread_def kthe_def cpu_mod_def th_mod_def th_get_def start
            switched_def)
      moreover have "?v \<in> {IPL_NONE, IPL_HIGH}" using W(1) by (cases "t_context (ks_thread ?s2 u)" rule: ctx_ok.cases) auto
      ultimately show ?thesis by (rule that [rotated])
    qed
    from switch_tail_ok [OF inv t(3) q [unfolded Cons] ls(2) v(1)] v(2) show ?thesis
      using Cons by (auto simp: kbind_def kret_def)
  qed
qed

lemma thread_idle_ok:
  assumes inv: "sys_inv None s L T" and c: "c < ks_ncpus s" "c_isidle (ks_cpu s c)"
  shows "\<exists>s1. thread_idle c s = thread_switch_next c s1 \<and> sys_inv (Some c) s1 L T \<and> ks_ncpus s1 = ks_ncpus s"
proof -
  note I = sys_invD [OF inv]
  obtain t where t: "c_curthread (ks_cpu s c) = Some t" "cpu_ok c t s" using sys_current [OF inv c(1)] by metis
  note E = level_okE [OF I(4) c(1) t(1)]
  have free: "ks_lock s (Lk_runqueue c) = free_lock" by (rule lock_free(3) [OF I(4)]) simp
  let ?s1 = "st_acquire c t (Lk_runqueue c) s"
  have "sys_levels (Some c) ?s1"
  proof (rule sys_levels_local [OF I(4,6) c(1) t(1)])
    show "level_ok (Some c) ?s1 c" using E c t(1) free by (auto simp: level_ok_def IPL_HIGH_def)
    show "locks_ok (Some c) ?s1" using I(4) c by (auto simp: sys_levels_def locks_ok_def)
  qed (use free in simp_all)
  then show ?thesis using acquire_run [OF t(2) free] I by (auto simp: thread_idle_def kbind_def sys_inv_def)
qed

text \<open>What a caller of \<^verbatim>\<open>thread_switch\<close> has to see to, and the list on which the thread will be.\<close>

fun switch_pre :: "nat \<Rightarrow> ksys \<Rightarrow> (nat \<rightharpoonup> nat list) \<Rightarrow> threadstate \<Rightarrow> nat option \<Rightarrow> bool" where
  "switch_pre c s L S_RUN wc \<longleftrightarrow> False"
| "switch_pre c s L S_READY wc \<longleftrightarrow> held s c = {}"
| "switch_pre c s L S_SLEEP wc \<longleftrightarrow> (\<exists>w. wc = Some w \<and> held s c = {Lk_wchan w} \<and> L (tl_wchan w) \<noteq> None)"
| "switch_pre c s L S_ZOMBIE wc \<longleftrightarrow> held s c = {} \<and> (\<forall>t. c_curthread (ks_cpu s c) = Some t \<longrightarrow> t_proc (ks_thread s t) = None)"

fun switch_list :: "nat \<Rightarrow> threadstate \<Rightarrow> nat option \<Rightarrow> nat" where
  "switch_list c S_READY wc = tl_runqueue c"
| "switch_list c S_SLEEP wc = tl_wchan (the wc)"
| "switch_list c S_ZOMBIE wc = tl_zombies c"
| "switch_list c S_RUN wc = 0"

lemma checkstack_run:
  assumes "sys_threads s" "t \<in> ks_alloc s"
  shows "thread_checkstack t s = Ok () s"
  using assms by (auto simp: thread_checkstack_def th_get_def kfun_defs sys_threads_def stack_ok_def split: option.splits)

lemma st_splx_id:
  assumes "cpu_ok c t s" "spl = ks_curspl s t"
  shows "st_splx c t spl s = s"
  using assms by (simp add: st_splx_def cpu_ok_def fun_upd_idem)

text \<open>The thread is put in its place, its state is set and the processor marked idle.\<close>

definition parked :: "nat \<Rightarrow> nat \<Rightarrow> threadlists \<Rightarrow> thread \<Rightarrow> int \<Rightarrow> ksys \<Rightarrow> ksys" where
  "parked c t ls th' spl s = s\<lparr>ks_thread := (ks_thread s)(t := th'), ks_iplhigh := (ks_iplhigh s)(t := 2), ks_irq := (ks_irq s)(c := False),
     ks_cpu := (ks_cpu s)(c := (ks_cpu s c)\<lparr>c_isidle := True, c_spl := spl\<rparr>), ks_lists := ls,
     ks_lock := (\<lambda>k. if k = Lk_runqueue c then cpu_lock c else if k \<in> held s c then free_lock else ks_lock s k)\<rparr>"

definition put_and_idle :: "nat \<Rightarrow> nat \<Rightarrow> threadstate \<Rightarrow> nat option \<Rightarrow> int \<Rightarrow> (ksys, unit) kfun" where
  "put_and_idle c t new wc spl = kbind (thread_put c t new wc) (\<lambda>_. kbind (th_mod t (\<lambda>th. th\<lparr>t_state := new\<rparr>)) (\<lambda>_.
     cpu_mod c (\<lambda>x. x\<lparr>c_isidle := True, c_spl := spl\<rparr>)))"

lemma put_ready_run:
  assumes "cpu_ok c t s" "t_cpu (ks_thread s t) = Some c" "held s c = {}" "ks_iplhigh s t = 1" "\<not> c_isidle (ks_cpu s c)"
    "threadlist_addtail (tl_runqueue c) t (ks_lists s) = Ok () ls"
  shows "put_and_idle c t S_READY wc spl (st_acquire c t (Lk_runqueue c) s) = Ok () (parked c t ls ((ks_thread s t)\<lparr>t_state := S_READY\<rparr>) spl s)"
proof -
  have "ks_do_i_hold c (Lk_runqueue c) (st_acquire c t (Lk_runqueue c) s) = Ok True (st_acquire c t (Lk_runqueue c) s)"
    using assms(1) by (intro do_i_hold_run [OF cpu_ok_st(1)]) simp_all
  moreover have "t \<in> ks_alloc s" using assms(1) by (simp add: cpu_ok_def)
  ultimately show ?thesis
    using assms(2-6) by (simp add: put_and_idle_def thread_put_def thread_make_runnable_def th_mod_def th_get_def cpu_mod_def kthe_def kfun_defs on_lists_def
        parked_def st_acquire_def fun_eq_iff)
qed

lemma put_zombie_run:
  assumes "cpu_ok c t s" "held s c = {}" "ks_iplhigh s t = 1" "threadlist_addtail (tl_zombies c) t (ks_lists s) = Ok () ls"
  shows "put_and_idle c t S_ZOMBIE wc spl (st_acquire c t (Lk_runqueue c) s) =
    Ok () (parked c t ls ((ks_thread s t)\<lparr>t_wchan_name := Some ''ZOMBIE'', t_state := S_ZOMBIE\<rparr>) spl s)"
  using assms by (simp add: put_and_idle_def thread_put_def th_mod_def th_get_def cpu_mod_def kfun_defs on_lists_def parked_def st_acquire_def
      fun_eq_iff cpu_ok_def)

lemma put_sleep_run:
  assumes ok: "cpu_ok c t s" and h: "held s c = {Lk_wchan w}" "ks_lock s (Lk_wchan w) = cpu_lock c" and n: "ks_iplhigh s t = 2"
    and ls: "threadlist_addtail (tl_wchan w) t (ks_lists s) = Ok () ls"
  shows "put_and_idle c t S_SLEEP (Some w) spl (st_acquire c t (Lk_runqueue c) s) =
    Ok () (parked c t ls ((ks_thread s t)\<lparr>t_wchan_name := Some (ks_wcname s w), t_state := S_SLEEP\<rparr>) spl s)"
proof -
  let ?a = "(st_acquire c t (Lk_runqueue c) s)\<lparr>ks_thread := (ks_thread s)(t := (ks_thread s t)\<lparr>t_wchan_name := Some (ks_wcname s w)\<rparr>), ks_lists := ls\<rparr>"
  have t: "t \<in> ks_alloc s" using ok by (simp add: cpu_ok_def)
  have "cpu_ok c t ?a" by (rule cpu_ok_frame [OF cpu_ok_st(1) [OF ok]]) (use t in simp_all)
  then have "ks_release c (Lk_wchan w) ?a = Ok () (st_release c t (Lk_wchan w) ?a)" using h n by (intro release_run) simp_all
  then show ?thesis
    using t h n ls by (simp add: put_and_idle_def thread_put_def th_mod_def th_get_def cpu_mod_def kthe_def kfun_defs on_lists_def)
      (simp add: parked_def st_acquire_def st_release_def fun_eq_iff)
qed

lemma thread_put_ok:
  assumes inv: "sys_inv None s L T" and c: "c < ks_ncpus s" "\<not> c_isidle (ks_cpu s c)" "c_curthread (ks_cpu s c) = Some t" "ks_curspl s t = IPL_HIGH"
    and pre: "switch_pre c s L new wc" and spl: "spl \<in> {IPL_NONE, IPL_HIGH}"
  shows "\<exists>s3 ts. put_and_idle c t new wc spl (st_acquire c t (Lk_runqueue c) s) = Ok () s3 \<and>
    L (switch_list c new wc) = Some ts \<and> sys_inv (Some c) s3 (L(switch_list c new wc \<mapsto> ts @ [t])) T \<and> ks_ncpus s3 = ks_ncpus s"
proof -
  note I = sys_invD [OF inv]
  note D = current_okD [OF I(6) c(1,3)]
  note E = level_okE [OF I(4) c(1,3)]
  let ?l = "switch_list c new wc"
  obtain ts where ts: "L ?l = Some ts" using sys_listsD(5,6) [OF I(1) c(1)] pre by (cases new) auto
  obtain ls where ls: "threadlist_addtail ?l t (ks_lists s) = Ok () ls" "tl_rep ls (L(?l \<mapsto> ts @ [t]), T)"
    using addtail_run [OF I(8) sys_can_add [OF I(1,5) D(1) D(4) [OF c(2)] ts]] ts by auto
  have ok: "cpu_ok c t s" by (rule sys_cpu_ok(1) [OF I(2,4) c(1,3)])
  have cnt: "ks_iplhigh s t = int (card (held s c)) + 1" using E(3) c(4) by (simp add: IPL_HIGH_def)
  have hl: "ks_lock s k = cpu_lock c" if "k \<in> held s c" for k using held_lock [OF I(4) that] .
  obtain n where run: "put_and_idle c t new wc spl (st_acquire c t (Lk_runqueue c) s) =
      Ok () (parked c t ls ((ks_thread s t)\<lparr>t_wchan_name := n, t_state := new\<rparr>) spl s)"
  proof (cases new)
    case S_READY
    then show ?thesis
      using that [of "t_wchan_name (ks_thread s t)"] put_ready_run [OF ok D(2) _ _ c(2), of ls wc spl] pre cnt ls(1) by simp
  next
    case S_SLEEP
    then obtain w where "wc = Some w" "held s c = {Lk_wchan w}" using pre by auto
    then show ?thesis using that [of "Some (ks_wcname s w)"] put_sleep_run [OF ok, of w ls spl] hl [of "Lk_wchan w"] cnt ls(1) S_SLEEP by simp
  next
    case S_ZOMBIE
    then show ?thesis using that [of "Some ''ZOMBIE''"] put_zombie_run [OF ok, of ls wc spl] pre cnt ls(1) by simp
  qed (use pre in simp)
  let ?th = "(ks_thread s t)\<lparr>t_wchan_name := n, t_state := new\<rparr>"
  have "spot (ks_ncpus s) ?th ?l" using D(2) c pre by (cases new) (auto simp: spot_def)
  then have "sys_inv (Some c) (parked c t ls ?th spl s) (L(?l \<mapsto> ts @ [t])) T"
    by (rule sys_park [OF inv c ts, rotated 1]) (use ls(2) spl in \<open>simp_all add: parked_def\<close>)
  then show ?thesis using run ts by (auto simp: parked_def)
qed

text \<open>
  \<^verbatim>\<open>thread_switch\<close> on a processor that is not idle: nothing happens when the thread only yields and no other is ready;
  otherwise it is put on its list and the processor looks for the next thread.
\<close>

lemma thread_switch_ok:
  assumes inv: "sys_inv None s L T" and c: "c < ks_ncpus s" "\<not> c_isidle (ks_cpu s c)" "c_curthread (ks_cpu s c) = Some t"
    and pre: "switch_pre c s L new wc"
  shows "if new = S_READY \<and> L (tl_runqueue c) = Some [] then thread_switch c new wc s = Ok () s
    else \<exists>s3 ts. thread_switch c new wc s = kbind (thread_switch_next c) (\<lambda>_. kret ()) s3 \<and> L (switch_list c new wc) = Some ts \<and>
      sys_inv (Some c) s3 (L(switch_list c new wc \<mapsto> ts @ [t])) T \<and> ks_ncpus s3 = ks_ncpus s"
proof -
  note I = sys_invD [OF inv]
  note D = current_okD [OF I(6) c(1,3)]
  note E = level_okE [OF I(4) c(1,3)]
  let ?s1 = "st_splx c t IPL_HIGH s" and ?spl = "ks_curspl s t"
  have s1: "ks_splx c IPL_HIGH s = Ok ?spl ?s1" "sys_inv None ?s1 L T" using sys_splx_ok [OF inv c, of IPL_HIGH] by simp_all
  note I1 = sys_invD [OF s1(2)]
  have ok: "cpu_ok c t s" "cpu_ok c t ?s1" by (rule sys_cpu_ok(1) [OF I(2,4) c(1,3)], rule sys_cpu_ok(1) [OF I1(2,4)]) (use c in simp_all)
  have free: "ks_lock ?s1 (Lk_runqueue c) = free_lock" by (rule lock_free(3) [OF I1(4)]) simp
  note acq = acquire_run [OF ok(2) free]
  obtain q where q: "L (tl_runqueue c) = Some q" using sys_listsD(6) [OF I(1) c(1)] by blast
  have ask: "on_lists (threadlist_isempty (tl_runqueue c)) (st_acquire c t (Lk_runqueue c) ?s1) = Ok (q = []) (st_acquire c t (Lk_runqueue c) ?s1)"
    using isempty_run [OF I(8) q] by (simp add: on_lists_def)
  have cur: "curthread c ?s1 = Ok t ?s1" using c(3) by (simp add: curthread_def kthe_def kfun_defs)
  note pre_run = s1(1) cur checkstack_run [OF I1(3), of t] acq ask
  show ?thesis
  proof (cases "new = S_READY \<and> q = []")
    case True
    have "0 < ks_iplhigh (st_acquire c t (Lk_runqueue c) ?s1) t" using ok(2) by (simp add: cpu_ok_def)
    then have rel: "ks_release c (Lk_runqueue c) (st_acquire c t (Lk_runqueue c) ?s1) = Ok () ?s1"
      using release_run [OF cpu_ok_st(1) [OF ok(2)]] free ok(2)
      by (simp add: st_release_def st_acquire_def cpu_ok_def fun_upd_idem st_splx_def)
    have "ks_splx c ?spl ?s1 = Ok IPL_HIGH (st_splx c t ?spl ?s1)"
      using splx_run [OF ok(2), of ?spl] E(1,3) by simp
    moreover have "st_splx c t ?spl ?s1 = s"
      using ok(1) by (simp add: st_splx_def cpu_ok_def fun_upd_idem)
    ultimately have "thread_switch c new wc s = Ok () s"
      using True pre_run D(1) c(2) rel by (simp add: thread_switch_def kbind_def kget_def kret_def)
    then show ?thesis using True q by simp
  next
    case False
    have "switch_pre c ?s1 L new wc" using pre by (cases new) auto
    then obtain s3 ts where s3: "put_and_idle c t new wc ?spl (st_acquire c t (Lk_runqueue c) ?s1) = Ok () s3" "L (switch_list c new wc) = Some ts"
        "sys_inv (Some c) s3 (L(switch_list c new wc \<mapsto> ts @ [t])) T" "ks_ncpus s3 = ks_ncpus s"
      using thread_put_ok [OF s1(2), of c t new wc ?spl] c E(1) by auto
    have "thread_switch c new wc s = kbind (put_and_idle c t new wc ?spl) (\<lambda>_. kbind (thread_switch_next c) (\<lambda>_. kret ())) (st_acquire c t (Lk_runqueue c) ?s1)"
      using False pre_run D(1) c(2) by (auto simp: thread_switch_def put_and_idle_def kbind_assoc kbind_def [of "ks_splx _ _"] kbind_def [of "curthread _"]
          kbind_def [of "kget _"] kbind_def [of "thread_checkstack _"] kbind_def [of "ks_acquire _ _"] kbind_def [of "on_lists _"] kget_def)
    also have "\<dots> = kbind (thread_switch_next c) (\<lambda>_. kret ()) s3" using s3(1) by (simp add: kbind_def)
    finally show ?thesis using False q s3 by auto
  qed
qed

text \<open>On an idle processor, as in an interrupt handler, it does nothing.\<close>

lemma thread_switch_idle:
  assumes inv: "sys_inv None s L T" and c: "c < ks_ncpus s" "c_isidle (ks_cpu s c)"
  shows "thread_switch c new wc s = Ok () s"
proof -
  note I = sys_invD [OF inv]
  obtain t where t: "c_curthread (ks_cpu s c) = Some t" "cpu_ok c t s" using sys_current [OF inv c(1)] by metis
  note E = level_okE [OF I(4) c(1) t(1)]
  have "ks_splx c IPL_HIGH s = Ok IPL_HIGH s"
    using splx_run [OF t(2), of IPL_HIGH] st_splx_id [OF t(2), of IPL_HIGH] E(3,5) c(2) by simp
  then show ?thesis using c(2) t(1) by (simp add: thread_switch_def kbind_def kget_def kret_def curthread_def kthe_def)
qed

text \<open>The whole switch, up to the state in which the next thread runs or the processor idles.\<close>

lemma sys_switch:
  assumes inv: "sys_inv None s L T" and c: "c < ks_ncpus s" and pre: "\<not> c_isidle (ks_cpu s c) \<Longrightarrow> switch_pre c s L new wc"
  shows "\<exists>s' L'. thread_switch c new wc s = Ok () s' \<and> sys_inv None s' L' T \<and> ks_ncpus s' = ks_ncpus s \<and> (\<forall>e. L' (tl_local e) = L (tl_local e)) \<and> same_wchans L L'"
proof (cases "c_isidle (ks_cpu s c)")
  case True
  then show ?thesis using thread_switch_idle [OF inv c True] inv by auto
next
  case False
  obtain t where t: "c_curthread (ks_cpu s c) = Some t" using sys_current [OF inv c] by metis
  show ?thesis
  proof (cases "new = S_READY \<and> L (tl_runqueue c) = Some []")
    case True
    then show ?thesis using thread_switch_ok [OF inv c False t pre [OF False]] inv by auto
  next
    case no: False
    let ?l = "switch_list c new wc"
    obtain s3 ts where s3: "thread_switch c new wc s = kbind (thread_switch_next c) (\<lambda>_. kret ()) s3" "L ?l = Some ts" "sys_inv (Some c) s3 (L(?l \<mapsto> ts @ [t])) T"
        "ks_ncpus s3 = ks_ncpus s"
      using thread_switch_ok [OF inv c False t pre [OF False]] no by auto
    obtain q where q: "(L(?l \<mapsto> ts @ [t])) (tl_runqueue c) = Some q" using sys_listsD(6) [OF sys_invD(1) [OF s3(3)]] c s3(4) by auto
    have loc: "tl_local e \<noteq> ?l" for e using pre [OF False] by (cases new) auto
    from switch_next_ok [OF s3(3) q] obtain s' b L' where s': "thread_switch_next c s3 = Ok b s'" "sys_inv None s' L' T" "ks_ncpus s' = ks_ncpus s3"
        "L' = (case q of [] \<Rightarrow> L(?l \<mapsto> ts @ [t]) | u # us \<Rightarrow> L(?l \<mapsto> ts @ [t], tl_runqueue c \<mapsto> us, tl_zombies c \<mapsto> []))"
      by (cases q) auto
    have "L' (tl_local e) = L (tl_local e)" for e using s'(4) loc [of e] by (auto split: list.splits)
    moreover have "same_wchans L L'" using s'(4) s3(2) by (auto simp: same_wchans_def split: list.splits)
    ultimately show ?thesis using s' s3 by (intro exI [of _ s'] exI [of _ L']) (simp add: kbind_def kret_def)
  qed
qed

subsection \<open>Membership in processes and exit\<close>

lemma locked_pthreads:
  assumes ok: "cpu_ok c cur s" and free: "ks_lock s (Lk_proc p) = free_lock"
  shows "kbind (ks_acquire c (Lk_proc p)) (\<lambda>_. kbind (kmod (\<lambda>s. s\<lparr>ks_pthreads := (ks_pthreads s)(p := ts)\<rparr>)) (\<lambda>_. kbind (ks_release c (Lk_proc p)) (\<lambda>_. f))) s =
    f (s\<lparr>ks_pthreads := (ks_pthreads s)(p := ts)\<rparr>)"
proof -
  let ?s' = "(st_acquire c cur (Lk_proc p) s)\<lparr>ks_pthreads := (ks_pthreads s)(p := ts)\<rparr>"
  have "cpu_ok c cur ?s'" by (rule cpu_ok_frame [OF cpu_ok_st(1) [OF ok]]) (use ok in \<open>auto simp: cpu_ok_def\<close>)
  then have "kbind (ks_acquire c (Lk_proc p)) (\<lambda>_. kbind (kmod (\<lambda>s. s\<lparr>ks_pthreads := (ks_pthreads s)(p := ts)\<rparr>)) (\<lambda>x. kbind (ks_release c (Lk_proc p)) (\<lambda>_. f))) s =
      f (?s'\<lparr>ks_iplhigh := ks_iplhigh s, ks_irq := ks_irq s, ks_lock := ks_lock s\<rparr>)"
    by - (rule locked_section [where t = cur and s' = ?s' and f = "\<lambda>_. f" and x = "()"], use ok free in \<open>simp_all add: kmod_def\<close>)
  then show ?thesis by (simp add: st_acquire_def)
qed

lemma locked_nothing:
  assumes ok: "cpu_ok c cur s" and free: "ks_lock s l = free_lock"
  shows "kbind (ks_acquire c l) (\<lambda>_. kbind (ks_release c l) (\<lambda>_. f)) s = f s"
proof -
  have "kbind (ks_acquire c l) (\<lambda>_. kbind (on_lists (kret ())) (\<lambda>x. kbind (ks_release c l) (\<lambda>_. f))) s = f (s\<lparr>ks_lists := ks_lists s\<rparr>)"
    by (rule locked_lists [where f = "\<lambda>_. f" and x = "()"]) (use assms in \<open>simp_all add: kret_def\<close>)
  moreover have "on_lists (kret ()) = kret ()" by (simp add: fun_eq_iff on_lists_def kret_def)
  ultimately show ?thesis by (simp add: kret_bind)
qed

lemma proc_addthread_run:
  assumes ok: "cpu_ok c cur s" and free: "ks_lock s (Lk_proc p) = free_lock" and t: "t \<in> ks_alloc s" "t_proc (ks_thread s t) = None"
  shows "proc_addthread c add_ok p t s =
    (if add_ok then Ok () (s\<lparr>ks_pthreads := (ks_pthreads s)(p := ks_pthreads s p @ [t]), ks_thread := (ks_thread s)(t := (ks_thread s t)\<lparr>t_proc := Some p\<rparr>)\<rparr>)
     else Err ENOMEM s)"
proof (cases add_ok)
  case True
  let ?m = "th_mod t (\<lambda>th. th\<lparr>t_proc := Some p\<rparr>)"
  have "proc_addthread c add_ok p t s =
      kbind (ks_acquire c (Lk_proc p)) (\<lambda>_. kbind (kmod (\<lambda>s. s\<lparr>ks_pthreads := (ks_pthreads s)(p := ks_pthreads s p @ [t])\<rparr>)) (\<lambda>_. kbind (ks_release c (Lk_proc p)) (\<lambda>_. ?m))) s"
    using True t by (simp add: proc_addthread_def th_get_def kassert_def kget_def kbind_def [of "kget _"] kbind_def [of "kassert _"] kbind_assoc)
  also have "\<dots> = kbind (ks_acquire c (Lk_proc p)) (\<lambda>_. kbind (kmod (\<lambda>s'. s'\<lparr>ks_pthreads := (ks_pthreads s')(p := ks_pthreads s p @ [t])\<rparr>)) (\<lambda>_. kbind (ks_release c (Lk_proc p)) (\<lambda>_. ?m))) s"
    using acquire_run [OF ok free] by (simp add: kbind_def kmod_def)
  also have "\<dots> = ?m (s\<lparr>ks_pthreads := (ks_pthreads s)(p := ks_pthreads s p @ [t])\<rparr>)" by (rule locked_pthreads [OF ok free])
  finally show ?thesis using True t(1) by (simp add: th_mod_def th_get_def kfun_defs)
next
  case False
  then have "proc_addthread c add_ok p t s = kbind (ks_acquire c (Lk_proc p)) (\<lambda>_. kbind (ks_release c (Lk_proc p)) (\<lambda>_. kerr ENOMEM)) s"
    using t by (simp add: proc_addthread_def th_get_def kassert_def kget_def kbind_def [of "kget _"] kbind_def [of "kassert _"] kbind_assoc kret_bind)
  then show ?thesis using locked_nothing [OF ok free, of "kerr ENOMEM"] False by (simp add: kerr_def)
qed

lemma current_ok_cong:
  assumes "current_ok s L" "ks_alloc s' = ks_alloc s" "ks_ncpus s' = ks_ncpus s" "ks_cpu s' = ks_cpu s"
    "\<And>t. t_cpu (ks_thread s' t) = t_cpu (ks_thread s t)" "\<And>t. t_state (ks_thread s' t) = t_state (ks_thread s t)"
  shows "current_ok s' L"
  using assms(1) unfolding current_ok_def assms(2-6) .

text \<open>A running thread leaves its process.\<close>

lemma proc_remthread_ok:
  assumes inv: "sys_inv None s L T" and c: "c < ks_ncpus s" "\<not> c_isidle (ks_cpu s c)" "c_curthread (ks_cpu s c) = Some t" and p: "t_proc (ks_thread s t) = Some p"
  shows "\<exists>s'. proc_remthread c t s = Ok () s' \<and> sys_inv None s' L T \<and> ks_ncpus s' = ks_ncpus s \<and> ks_cpu s' = ks_cpu s \<and> ks_lock s' = ks_lock s \<and>
    t_proc (ks_thread s' t) = None"
proof -
  note I = sys_invD [OF inv]
  note D = current_okD [OF I(6) c(1,3)]
  have ok: "cpu_ok c t s" by (rule sys_cpu_ok(1) [OF I(2,4) c(1,3)])
  note free = lock_free(2) [OF I(4), of p]
  have mem: "t \<in> set (ks_pthreads s p)" using I(3) D(1) p by (auto simp: sys_threads_def)
  let ?m = "th_mod t (\<lambda>th. th\<lparr>t_proc := None\<rparr>)" and ?ts = "remove1 t (ks_pthreads s p)"
  let ?s' = "s\<lparr>ks_pthreads := (ks_pthreads s)(p := ?ts), ks_thread := (ks_thread s)(t := (ks_thread s t)\<lparr>t_proc := None\<rparr>)\<rparr>"
  have "proc_remthread c t s =
      kbind (ks_acquire c (Lk_proc p)) (\<lambda>_. kbind (kmod (\<lambda>s. s\<lparr>ks_pthreads := (ks_pthreads s)(p := ?ts)\<rparr>)) (\<lambda>_. kbind (ks_release c (Lk_proc p)) (\<lambda>_. ?m))) s"
    using D(1) p mem acquire_run [OF ok free] by (simp add: proc_remthread_def th_get_def kthe_def kfun_defs)
  also have "\<dots> = ?m (s\<lparr>ks_pthreads := (ks_pthreads s)(p := ?ts)\<rparr>)" by (rule locked_pthreads [OF ok free])
  finally have run: "proc_remthread c t s = Ok () ?s'" using D(1) by (simp add: th_mod_def th_get_def kfun_defs)
  have "listed_ok ?s' L"
    using listed_okD [OF I(5)] D(4) [OF c(2)] by (intro listed_okI) (auto dest: unlistedD)
  moreover have "current_ok ?s' L" by (rule current_ok_cong [OF I(6)]) simp_all
  moreover have "none_lost ?s' L" using I(7) by (simp add: none_lost_def)
  moreover have "sys_lists ?s' L T" by (rule sys_lists_change [OF I(1)]) (use I(8) in simp_all)
  moreover have "sys_levels None ?s'" by (rule sys_levels_cong [OF _ I(4)]) (simp add: same_levels_def)
  moreover have "sys_threads ?s'" using I(3) by (auto simp: sys_threads_def)
  ultimately show ?thesis using run by (intro exI [of _ ?s']) (simp add: sys_inv_def sys_places_def)
qed

lemma thread_exit_ok:
  assumes inv: "sys_inv None s L T" and c: "c < ks_ncpus s" "\<not> c_isidle (ks_cpu s c)" "c_curthread (ks_cpu s c) = Some t" and h: "held s c = {}"
    and p: "t_proc (ks_thread s t) = Some kproc \<or> t_proc (ks_thread s t) = None"
  shows "\<exists>s' L'. thread_exit c s = Ok () s' \<and> sys_inv None s' L' T \<and> ks_ncpus s' = ks_ncpus s \<and> (\<forall>e. L' (tl_local e) = L (tl_local e)) \<and> same_wchans L L'"
proof -
  note I = sys_invD [OF inv]
  note D = current_okD [OF I(6) c(1,3)]
  obtain s1 where s1: "(if t_proc (ks_thread s t) = Some kproc then proc_remthread c t else kret ()) s = Ok () s1" "sys_inv None s1 L T" "ks_ncpus s1 = ks_ncpus s"
      "ks_cpu s1 = ks_cpu s" "ks_lock s1 = ks_lock s" "t_proc (ks_thread s1 t) = None"
    using proc_remthread_ok [OF inv c, of kproc] p inv by (cases "t_proc (ks_thread s t) = Some kproc") (auto simp: kret_def)
  have c1: "c < ks_ncpus s1" "\<not> c_isidle (ks_cpu s1 c)" "c_curthread (ks_cpu s1 c) = Some t" using c s1(3,4) by simp_all
  let ?s2 = "st_splx c t IPL_HIGH s1"
  have s2: "ks_splx c IPL_HIGH s1 = Ok (ks_curspl s1 t) ?s2" "sys_inv None ?s2 L T" using sys_splx_ok [OF s1(2) c1, of IPL_HIGH] by simp_all
  have "held s1 c = {}" using h s1(5) by (simp add: held_def)
  then have "switch_pre c ?s2 L S_ZOMBIE None" using s1(6) c1 by simp
  with sys_switch [OF s2(2), of c S_ZOMBIE None] c1 obtain s' L' where
    s': "thread_switch c S_ZOMBIE None ?s2 = Ok () s'" "sys_inv None s' L' T" "ks_ncpus s' = ks_ncpus s1" "\<forall>e. L' (tl_local e) = L (tl_local e)" "same_wchans L L'" by auto
  have "t \<in> ks_alloc s1" using current_okD(1) [OF sys_invD(6) [OF s1(2)] c1(1,3)] .
  then have "thread_exit c s = thread_switch c S_ZOMBIE None ?s2"
    using s1(1) s2(1) D(1) c(3) p s1(6) checkstack_run [OF sys_invD(3) [OF s1(2)], of t]
    by (simp add: thread_exit_def curthread_def kthe_def th_get_def kfun_defs)
  then show ?thesis using s' s1(3) by auto
qed

subsection \<open>Creation\<close>

lemma level_ok_frame:
  assumes "level_ok M s c" "c_curthread (ks_cpu s' c) = c_curthread (ks_cpu s c)" "c_isidle (ks_cpu s' c) = c_isidle (ks_cpu s c)"
    "c_spl (ks_cpu s' c) = c_spl (ks_cpu s c)" "ks_irq s' c = ks_irq s c" "ks_lock s' = ks_lock s"
    "\<And>x. c_curthread (ks_cpu s c) = Some x \<Longrightarrow> ks_curspl s' x = ks_curspl s x \<and> ks_iplhigh s' x = ks_iplhigh s x"
  shows "level_ok M s' c"
proof -
  have "held s' c = held s c" using assms(6) by (simp add: held_def)
  then show ?thesis using assms(1-5) assms(7) by (auto simp: level_ok_def)
qed

text \<open>A structure that is not live any more, or not yet, does not matter.\<close>

lemma sys_inv_fresh:
  assumes inv: "sys_inv None s L T" and t: "t \<notin> ks_alloc s" and rep: "tl_rep ls (L, insert t T)"
  shows "sys_inv None (s\<lparr>ks_thread := (ks_thread s)(t := th), ks_curspl := (ks_curspl s)(t := i), ks_iplhigh := (ks_iplhigh s)(t := j), ks_lists := ls\<rparr>) L (insert t T)"
    (is "sys_inv None ?s L _")
proof -
  note I = sys_invD [OF inv]
  have "sys_lists ?s L (insert t T)" using rep sys_listsD [OF I(1)] by (auto simp: sys_lists_def)
  moreover have "listed_ok ?s L" using listed_okD [OF I(5)] t by (intro listed_okI) auto
  moreover have "current_ok ?s L"
  proof (rule current_okI)
    fix c assume "c < ks_ncpus ?s"
    then have c: "c < ks_ncpus s" by simp
    obtain x where x: "c_curthread (ks_cpu s c) = Some x" using sys_current [OF inv c] by metis
    note D = current_okD [OF I(6) c x]
    then have "x \<noteq> t" using t by auto
    then show "\<exists>x. c_curthread (ks_cpu ?s c) = Some x \<and> x \<in> ks_alloc ?s \<and> t_cpu (ks_thread ?s x) = Some c \<and>
        (c_isidle (ks_cpu ?s c) \<longrightarrow> \<not> unlisted L x) \<and> (\<not> c_isidle (ks_cpu ?s c) \<longrightarrow> unlisted L x \<and> t_state (ks_thread ?s x) \<in> {S_RUN, S_READY})"
      using x D by simp
  qed
  moreover have "none_lost ?s L" using I(7) by (simp add: none_lost_def)
  moreover have "sys_threads ?s" using I(3) t by (auto simp: sys_threads_def)
  moreover have "c_curthread (ks_cpu s c) \<noteq> Some t" if "c < ks_ncpus s" for c using current_okD(1) [OF I(6) that] t by auto
  then have "level_ok None ?s c" if "c < ks_ncpus s" for c
    by - (rule level_ok_frame [of None s], use I(4) that in \<open>auto simp: sys_levels_def\<close>)
  then have "sys_levels None ?s" using I(4) t by (auto simp: sys_levels_def parked_ok_def locks_ok_def)
  ultimately show ?thesis by (simp add: sys_inv_def sys_places_def)
qed

text \<open>A new thread on the run queue of processor \<open>d\<close>.\<close>

lemma sys_inv_new:
  assumes inv: "sys_inv None s L T" and t: "t \<notin> ks_alloc s" and q: "L (tl_runqueue d) = Some q" "d < ks_ncpus s"
    and card: "card (ks_alloc s) + 1 < 2 ^ 32"
    and s': "ks_booted s' = ks_booted s" "ks_alloc s' = insert t (ks_alloc s)" "ks_ncpus s' = ks_ncpus s" "ipi_only (ks_cpu s) (ks_cpu s')"
      "\<And>x. x \<noteq> t \<Longrightarrow> ks_thread s' x = ks_thread s x" "\<And>x. x \<noteq> t \<Longrightarrow> ks_curspl s' x = ks_curspl s x" "\<And>x. x \<noteq> t \<Longrightarrow> ks_iplhigh s' x = ks_iplhigh s x"
      "ks_irq s' = ks_irq s" "ks_lock s' = ks_lock s" "tl_rep (ks_lists s') (L(tl_runqueue d \<mapsto> q @ [t]), insert t T)"
      "\<And>p. set (ks_pthreads s p) \<subseteq> set (ks_pthreads s' p)"
    and new: "t_state (ks_thread s' t) = S_READY" "t_cpu (ks_thread s' t) = Some d" "stack_ok (t_stack (ks_thread s' t))"
      "\<And>p. t_proc (ks_thread s' t) = Some p \<Longrightarrow> t \<in> set (ks_pthreads s' p)" "ctx_ok (t_context (ks_thread s' t))"
      "ks_curspl s' t = IPL_HIGH" "ks_iplhigh s' t = 2"
  shows "sys_inv None s' (L(tl_runqueue d \<mapsto> q @ [t])) (insert t T)"
proof -
  note I = sys_invD [OF inv]
  note sl = sys_listsD [OF I(1)]
  let ?L = "L(tl_runqueue d \<mapsto> q @ [t])"
  have un: "unlisted ?L x \<longleftrightarrow> unlisted L x \<and> x \<noteq> t" for x by (rule unlisted_ins [of _ _ q]) (use q in simp_all)
  have nc: "c_curthread (ks_cpu s c) \<noteq> Some t" if "c < ks_ncpus s" for c using current_okD(1) [OF I(6) that] t by auto
  have "sys_lists s' ?L (insert t T)"
    unfolding sys_lists_def using sl s'(2,3,10) card card_insert_le_m1 by (auto simp: card_insert_if)
  moreover have "listed_ok s' ?L"
  proof (rule listed_okI)
    fix k us x assume k: "?L k = Some us" "x \<in> set us"
    show "x \<in> ks_alloc s' \<and> spot (ks_ncpus s') (ks_thread s' x) k"
    proof (cases "x = t")
      case True
      then have "k = tl_runqueue d" using k unlistedD [of L t k us] unlisted_new [OF I(5) t] by (auto split: if_splits)
      then show ?thesis using True new q s' by (auto simp: spot_def)
    next
      case False
      then have "\<exists>us'. L k = Some us' \<and> x \<in> set us'" using k q by (auto split: if_splits)
      then show ?thesis using listed_okD [OF I(5)] s'(2,3) s'(5) [OF False] by auto
    qed
  qed
  moreover have "current_ok s' ?L"
  proof (rule current_okI)
    fix c assume "c < ks_ncpus s'"
    then have c: "c < ks_ncpus s" using s'(3) by simp
    obtain x where x: "c_curthread (ks_cpu s c) = Some x" using sys_current [OF inv c] by metis
    have "x \<noteq> t" using nc [OF c] x by auto
    then show "\<exists>x. c_curthread (ks_cpu s' c) = Some x \<and> x \<in> ks_alloc s' \<and> t_cpu (ks_thread s' x) = Some c \<and>
        (c_isidle (ks_cpu s' c) \<longrightarrow> \<not> unlisted ?L x) \<and> (\<not> c_isidle (ks_cpu s' c) \<longrightarrow> unlisted ?L x \<and> t_state (ks_thread s' x) \<in> {S_RUN, S_READY})"
      using current_okD [OF I(6) c x] x s'(2,5) ipi_onlyD [OF s'(4)] un by auto
  qed
  moreover have "none_lost s' ?L" using I(7) un s'(2,3) ipi_onlyD [OF s'(4)] by (auto simp: none_lost_def)
  moreover have "sys_threads s'" using I(3) new(3,4) s'(2,5,11) t by (fastforce simp: sys_threads_def)
  moreover have "sys_levels None s'"
  proof -
    have "level_ok None s' c" if c: "c < ks_ncpus s" for c
      by (rule level_ok_frame [of None s]) (use I(4) c nc [OF c] s'(6-9) ipi_onlyD [OF s'(4)] in \<open>auto simp: sys_levels_def\<close>)
    moreover have "parked_ok s'"
      unfolding parked_ok_def
    proof (intro ballI impI)
      fix x assume x: "x \<in> ks_alloc s'" "\<forall>c < ks_ncpus s'. c_curthread (ks_cpu s' c) \<noteq> Some x"
      then show "ks_curspl s' x = IPL_HIGH \<and> ks_iplhigh s' x = 2 \<and> ctx_ok (t_context (ks_thread s' x))"
        using I(4) new(5-7) s'(2,3) s'(5-7) [of x] ipi_onlyD(1) [OF s'(4)] by (cases "x = t") (auto simp: sys_levels_def parked_ok_def)
    qed
    ultimately show ?thesis using I(4) s'(1,3,9) ipi_onlyD [OF s'(4)] by (auto simp: sys_levels_def locks_ok_def)
  qed
  ultimately show ?thesis by (simp add: sys_inv_def sys_places_def)
qed

text \<open>The state in which a new thread exists, is linked nowhere, and is about to be attached to its process.\<close>

definition forked :: "nat \<Rightarrow> thread \<Rightarrow> threadlists \<Rightarrow> ksys \<Rightarrow> ksys" where
  "forked t th ls s = s\<lparr>ks_alloc := insert t (ks_alloc s), ks_curspl := (ks_curspl s)(t := IPL_HIGH), ks_iplhigh := (ks_iplhigh s)(t := 1),
     ks_lists := ls, ks_thread := (ks_thread s)(t := th)\<rparr>"

definition fork_thread :: "string \<Rightarrow> u32 list option \<Rightarrow> nat option \<Rightarrow> thread" where
  "fork_thread name st d = \<lparr>t_name = name, t_wchan_name = Some ''NEW'', t_state = S_READY, t_stack = st, t_context = None, t_cpu = d, t_proc = None,
     t_in_interrupt = False\<rparr>"

definition guarded :: "u32 list \<Rightarrow> u32 list" where
  "guarded st = st[0 := THREAD_STACK_MAGIC, 1 := THREAD_STACK_MAGIC, 2 := THREAD_STACK_MAGIC, 3 := THREAD_STACK_MAGIC]"

lemma guarded_ok:
  assumes "4 \<le> length st"
  shows "stack_ok (Some (guarded st))"
proof -
  have "guarded st ! i = THREAD_STACK_MAGIC" if i: "i < 4" for i
  proof -
    consider "i = 0" | "i = 1" | "i = 2" | "i = 3" using i by arith
    moreover have "0 < length st" "1 < length st" "2 < length st" "3 < length st" using assms by linarith+
    ultimately show ?thesis by cases (simp_all add: guarded_def nth_list_update)
  qed
  then show ?thesis using assms by (simp add: stack_ok_def guarded_def)
qed

lemma create_forked:
  "threadlistnode_init t (ks_lists s) = Ok () ls \<Longrightarrow> thread_create (Some t) True name s = Ok (Some t) (forked t (fork_thread name None None) ls s)"
  by (simp add: thread_create_def kfun_defs on_lists_def forked_def fork_thread_def)

lemma th_mod_run: "t \<in> ks_alloc s \<Longrightarrow> th_mod t f s = Ok () (s\<lparr>ks_thread := (ks_thread s)(t := f (ks_thread s t))\<rparr>)"
  by (simp add: th_mod_def th_get_def kfun_defs)

lemma th_mod_forked: "th_mod t f (forked t th ls s) = Ok () (forked t (f th) ls s)"
  by (simp add: th_mod_def th_get_def kfun_defs forked_def)

lemma checkstack_init_forked:
  "4 \<le> length st \<Longrightarrow> thread_checkstack_init t (forked t (fork_thread name (Some st) d) ls s) = Ok () (forked t (fork_thread name (Some (guarded st)) d) ls s)"
  by (simp add: thread_checkstack_init_def th_mod_def th_get_def kthe_def kfun_defs forked_def fork_thread_def guarded_def)

lemma curthread_forked: "c_curthread (ks_cpu s c) = Some cur \<Longrightarrow> curthread c (forked t th ls s) = Ok cur (forked t th ls s)"
  by (simp add: curthread_def kthe_def kfun_defs forked_def)

lemma th_get_forked: "cur \<in> ks_alloc s \<Longrightarrow> cur \<noteq> t \<Longrightarrow> th_get cur (forked t th ls s) = Ok (ks_thread s cur) (forked t th ls s)"
  by (simp add: th_get_def kfun_defs forked_def)

lemma fork_thread_upd:
  "(fork_thread name st d)\<lparr>t_stack := st'\<rparr> = fork_thread name st' d" "(fork_thread name st d)\<lparr>t_cpu := d'\<rparr> = fork_thread name st d'"
  by (simp_all add: fork_thread_def)

lemmas fork_run = create_forked th_mod_forked checkstack_init_forked curthread_forked th_get_forked

lemma destroy_forked:
  assumes inv: "sys_inv None s L T" and c: "c_curthread (ks_cpu s c) = Some cur" "cur \<noteq> t" and t: "t \<notin> ks_alloc s" and rep: "tl_rep ls (L, insert t T)"
    and th: "t_state th = S_READY" "t_proc th = None"
  shows "\<exists>s'. thread_destroy c t (forked t th ls s) = Ok () s' \<and> sys_inv None s' L (insert t T) \<and> ks_ncpus s' = ks_ncpus s \<and> ks_lock s' = ks_lock s \<and> ipi_only (ks_cpu s) (ks_cpu s')"
proof -
  note I = sys_invD [OF inv]
  let ?s = "s\<lparr>ks_thread := (ks_thread s)(t := th), ks_curspl := (ks_curspl s)(t := IPL_HIGH), ks_iplhigh := (ks_iplhigh s)(t := 1), ks_lists := ls\<rparr>"
  have "threadlistnode_cleanup t ls = Ok () ls" using node_cleanup_run [OF rep] unlisted_new [OF I(5) t] by simp
  then have "thread_destroy c t (forked t th ls s) = Ok () ?s"
    using c th t by (simp add: thread_destroy_def forked_def curthread_def kthe_def th_get_def kfun_defs on_lists_def insert_Diff_if)
  moreover have "sys_inv None ?s L (insert t T)" by (rule sys_inv_fresh [OF inv t rep])
  ultimately show ?thesis by auto
qed

lemma fork_ready:
  assumes inv: "sys_inv None s L T" and c: "c < ks_ncpus s" "c_curthread (ks_cpu s c) = Some cur" and t: "t \<notin> ks_alloc s" "card (ks_alloc s) + 1 < 2 ^ 32"
    and rep: "tl_rep ls (L, insert t T)" and st: "4 \<le> length st" and q: "L (tl_runqueue c) = Some q"
    and s1: "s1 = (forked t (fork_thread name (Some (guarded st)) (Some c)) ls s)
        \<lparr>ks_pthreads := (ks_pthreads s)(p := ks_pthreads s p @ [t]), ks_iplhigh := (ks_iplhigh s)(t := 2),
          ks_thread := (ks_thread s)(t := (fork_thread name (Some (guarded st)) (Some c))\<lparr>t_proc := Some p, t_context := Some (Ctx_startup e d1 d2)\<rparr>)\<rparr>"
  shows "\<exists>s'. thread_make_runnable c t False s1 = Ok () s' \<and> sys_inv None s' (L(tl_runqueue c \<mapsto> q @ [t])) (insert t T) \<and> ks_ncpus s' = ks_ncpus s \<and>
    ks_lock s' = ks_lock s \<and> ipi_only (ks_cpu s) (ks_cpu s')"
proof -
  note I = sys_invD [OF inv]
  have cur: "cur \<in> ks_alloc s" "cur \<noteq> t" using current_okD(1) [OF I(6) c] t by auto
  have ok: "cpu_ok c cur s1"
    by (rule cpu_ok_frame [OF sys_cpu_ok(1) [OF I(2,4) c]]) (use s1 cur in \<open>simp_all add: forked_def\<close>)
  have "set q \<subseteq> ks_alloc s" using listed_okD(1) [OF I(5) q] by blast
  then have "card (set q) \<le> card (ks_alloc s)" using sys_listsD(3) [OF I(1)] by (rule card_mono [rotated])
  moreover have "distinct q" using tl_repD(1) [OF I(8) q] by (simp add: tl_list_def)
  ultimately have "can_add (L, insert t T) (tl_runqueue c) t"
    using t(2) unlisted_new [OF I(5) t(1)] q by (auto simp: can_add_def distinct_card)
  then obtain ls' k where k: "thread_make_runnable c t False s1 = Ok () (s1\<lparr>ks_lists := ls', ks_cpu := k\<rparr>)"
      "tl_rep ls' (L(tl_runqueue c \<mapsto> q @ [t]), insert t T)" "ipi_only (ks_cpu s) k"
    using make_runnable_run [OF ok, of t c L "insert t T"] rep lock_free [OF I(4), of c] q s1 by (auto simp: forked_def fork_thread_def)
  have "sys_inv None (s1\<lparr>ks_lists := ls', ks_cpu := k\<rparr>) (L(tl_runqueue c \<mapsto> q @ [t])) (insert t T)"
    by (rule sys_inv_new [OF inv t(1) q c(1) t(2)]) (use s1 k guarded_ok [OF st] in \<open>auto simp: forked_def fork_thread_def\<close>)
  then show ?thesis using k(1,3) s1 by (auto simp: forked_def)
qed

lemma thread_fork_ok:
  assumes inv: "sys_inv None s L T" and c: "c < ks_ncpus s" "c_curthread (ks_cpu s c) = Some cur"
    and mem: "\<And>t. mem = Some t \<Longrightarrow> t \<notin> ks_alloc s \<and> card (ks_alloc s) + 1 < 2 ^ 32" and stack: "\<And>st. stack = Some st \<Longrightarrow> 4 \<le> length st"
    and proc: "proc = None \<Longrightarrow> t_proc (ks_thread s cur) \<noteq> None"
  shows "\<exists>s' L' T'. thread_fork c mem name_ok stack add_ok name proc e d1 d2 s =
      (if mem \<noteq> None \<and> name_ok \<and> stack \<noteq> None \<and> add_ok then Ok () s' else Err ENOMEM s') \<and> sys_inv None s' L' T' \<and> ks_ncpus s' = ks_ncpus s \<and>
      ks_lock s' = ks_lock s \<and> ipi_only (ks_cpu s) (ks_cpu s') \<and> L' = (if mem \<noteq> None \<and> name_ok \<and> stack \<noteq> None \<and> add_ok then L(tl_runqueue c \<mapsto> the (L (tl_runqueue c)) @ [the mem]) else L)"
proof (cases "mem \<noteq> None \<and> name_ok")
  case False
  then have "thread_fork c mem name_ok stack add_ok name proc e d1 d2 s = Err ENOMEM s"
    by (cases mem) (auto simp: thread_fork_def thread_create_def kfun_defs)
  then show ?thesis using False inv by (intro exI [of _ s] exI [of _ L] exI [of _ T]) (auto intro: ipi_only_refl)
next
  case True
  then obtain t where t: "mem = Some t" "name_ok" by auto
  note I = sys_invD [OF inv]
  note tf = mem [OF t(1)]
  have cur: "cur \<in> ks_alloc s" "cur \<noteq> t" "t_cpu (ks_thread s cur) = Some c" using current_okD(1,2) [OF I(6) c] tf by auto
  obtain ls where ls: "threadlistnode_init t (ks_lists s) = Ok () ls" "tl_rep ls (L, insert t T)"
    using node_init_run [OF I(8) unlisted_new [OF I(5)]] tf by blast
  show ?thesis
  proof (cases stack)
    case None
    obtain s' where s': "thread_destroy c t (forked t (fork_thread name None None) ls s) = Ok () s'" "sys_inv None s' L (insert t T)" "ks_ncpus s' = ks_ncpus s" "ks_lock s' = ks_lock s" "ipi_only (ks_cpu s) (ks_cpu s')"
      using destroy_forked [OF inv c(2) cur(2) _ ls(2), of "fork_thread name None None"] tf by (auto simp: fork_thread_def)
    have "thread_fork c mem name_ok stack add_ok name proc e d1 d2 s = Err ENOMEM s'"
      using None t ls(1) s'(1) by (simp add: thread_fork_def fork_run fork_thread_upd kfun_defs)
    then show ?thesis using None s' by auto
  next
    case (Some st)
    note len = stack [OF Some]
    obtain p where p: "(case proc of None \<Rightarrow> t_proc (ks_thread s cur) | Some p \<Rightarrow> Some p) = Some p" using proc by (cases proc) auto
    let ?f = "forked t (fork_thread name (Some (guarded st)) (Some c)) ls s"
    have ok: "cpu_ok c cur ?f"
      by (rule cpu_ok_frame [OF sys_cpu_ok(1) [OF I(2,4) c]]) (use cur in \<open>simp_all add: forked_def\<close>)
    have add: "proc_addthread c add_ok p t ?f = (if add_ok then Ok () (?f\<lparr>ks_pthreads := (ks_pthreads ?f)(p := ks_pthreads ?f p @ [t]),
        ks_thread := (ks_thread ?f)(t := (ks_thread ?f t)\<lparr>t_proc := Some p\<rparr>)\<rparr>) else Err ENOMEM ?f)"
      by (rule proc_addthread_run [OF ok]) (use lock_free(2) [OF I(4), of p] in \<open>simp_all add: forked_def fork_thread_def\<close>)
    show ?thesis
    proof (cases add_ok)
      case False
      obtain s' where s': "thread_destroy c t ?f = Ok () s'" "sys_inv None s' L (insert t T)" "ks_ncpus s' = ks_ncpus s" "ks_lock s' = ks_lock s" "ipi_only (ks_cpu s) (ks_cpu s')"
        using destroy_forked [OF inv c(2) cur(2) _ ls(2), of "fork_thread name (Some (guarded st)) (Some c)"] tf by (auto simp: fork_thread_def)
      have "thread_fork c mem name_ok stack add_ok name proc e d1 d2 s = Err ENOMEM s'"
        using Some t ls(1) s'(1) add False cur c p len
        by (simp add: thread_fork_def fork_run fork_thread_upd kthe_def kfun_defs ktry_def)
      then show ?thesis using False s' by auto
    next
      case True
      obtain q where q: "L (tl_runqueue c) = Some q" using sys_listsD(6) [OF I(1) c(1)] by blast
      let ?s1 = "(forked t (fork_thread name (Some (guarded st)) (Some c)) ls s)
        \<lparr>ks_pthreads := (ks_pthreads s)(p := ks_pthreads s p @ [t]), ks_iplhigh := (ks_iplhigh s)(t := 2),
          ks_thread := (ks_thread s)(t := (fork_thread name (Some (guarded st)) (Some c))\<lparr>t_proc := Some p, t_context := Some (Ctx_startup e d1 d2)\<rparr>)\<rparr>"
      have "thread_fork c mem name_ok stack add_ok name proc e d1 d2 s = thread_make_runnable c t False ?s1"
        using Some t ls(1) add True cur c p len
        by (simp add: thread_fork_def fork_run fork_thread_upd kthe_def kfun_defs ktry_def) (simp add: forked_def th_mod_run)
      moreover obtain s' where "thread_make_runnable c t False ?s1 = Ok () s'" "sys_inv None s' (L(tl_runqueue c \<mapsto> q @ [t])) (insert t T)"
          "ks_ncpus s' = ks_ncpus s" "ks_lock s' = ks_lock s" "ipi_only (ks_cpu s) (ks_cpu s')"
        using fork_ready [OF inv c _ _ ls(2) len q refl] tf by blast
      ultimately show ?thesis using True Some t q by auto
    qed
  qed
qed

end
