(* ===== verification/Thread_Sys.thy ===== *)
theory Thread_Sys
  imports Thread_Inv
begin

text \<open>
  The operations of the thread system put together: migration, the steps that processors take in any order, and the
  properties of every state they reach.
\<close>

section \<open>Migration\<close>

lemma st_release_acquire:
  "cpu_ok c t s \<Longrightarrow> ks_lock s l = free_lock \<Longrightarrow> ks_release c l (st_acquire c t l s) = Ok () s"
  using release_run [of c t "st_acquire c t l s" l] by (auto simp: cpu_ok_def st_release_def st_acquire_def fun_upd_idem)

lemma migration_count_run:
  assumes inv: "sys_inv None s L T" and c: "c < ks_ncpus s" and ids: "set is \<subseteq> {..< ks_ncpus s}"
  shows "\<exists>total. migration_count c is my total0 s = Ok (if c \<in> set is then length (the (L (tl_runqueue c))) else my, total) s"
  using ids
proof (induction "is" arbitrary: my total0)
  case Nil
  then show ?case by (simp add: kret_def)
next
  case (Cons i js)
  note I = sys_invD [OF inv]
  obtain t where t: "cpu_ok c t s" using sys_current [OF inv c] by blast
  obtain q where q: "L (tl_runqueue i) = Some q" using sys_listsD(6) [OF I(1), of i] Cons(2) by auto
  have "ks_lock s (Lk_runqueue i) = free_lock" using lock_free(3) [OF I(4)] by simp
  moreover have "tl_count (ks_lists s) (tl_runqueue i) = length q" by (rule count_run [OF I(8) q])
  ultimately have "migration_count c (i # js) my total0 s = migration_count c js (if i = c then length q else my) (add32 total0 (length q)) s"
    using acquire_run [OF t] st_release_acquire [OF t] by (simp add: kbind_def kget_def)
  moreover obtain total where "migration_count c js (if i = c then length q else my) (add32 total0 (length q)) s =
      Ok (if c \<in> set js then length (the (L (tl_runqueue c))) else if i = c then length q else my, total) s"
    using Cons.IH [of "if i = c then length q else my" "add32 total0 (length q)"] Cons.prems by fastforce
  ultimately show ?case using q by (cases "i = c") auto
qed

text \<open>A thread goes from the tail of one list to the head of another.\<close>

lemma sys_move_head:
  assumes inv: "sys_inv M s L T" and l: "L l = Some (us @ [u])" and k: "L k = Some vs" "k \<noteq> l" and at: "spot (ks_ncpus s) (ks_thread s u) k"
  shows "\<exists>ls ls'. threadlist_remtail l (ks_lists s) = Ok (Some u) ls \<and> threadlist_addhead k u ls = Ok () ls' \<and>
    sys_inv M (s\<lparr>ks_lists := ls'\<rparr>) (L(l \<mapsto> us, k \<mapsto> u # vs)) T"
proof -
  note I = sys_invD [OF inv]
  have H: "u \<notin> set us" using tl_repD(1,2) [OF I(8) l] by (auto simp: tl_list_def)
  obtain ls where ls: "threadlist_remtail l (ks_lists s) = Ok (Some u) ls" "tl_rep ls (L(l \<mapsto> us), T)"
    using remtail_run [OF I(8) l] by auto
  have un: "unlisted (L(l \<mapsto> us)) x \<longleftrightarrow> unlisted L x \<or> x = u" for x
    by (rule unlisted_rem [OF I(8)]) (use l H in auto)
  have "sys_lists (s\<lparr>ks_lists := ls\<rparr>) (L(l \<mapsto> us)) T" by (rule sys_lists_change [OF I(1)]) (use ls in simp_all)
  moreover have "listed_ok (s\<lparr>ks_lists := ls\<rparr>) (L(l \<mapsto> us))"
    using l listed_okD [OF I(5)] by (intro listed_okI) (force split: if_splits)
  ultimately have "can_add (L(l \<mapsto> us), T) k u"
    using sys_can_add [of "s\<lparr>ks_lists := ls\<rparr>" "L(l \<mapsto> us)" T u k vs] listed_okD(1) [OF I(5) l, of u] un k by auto
  then obtain ls' where ls': "threadlist_addhead k u ls = Ok () ls'" "tl_rep ls' (L(l \<mapsto> us, k \<mapsto> u # vs), T)"
    using addhead_run [OF ls(2), of k u] k by auto
  have "sys_places s (L(l \<mapsto> us, k \<mapsto> u # vs))"
    by (rule sys_places_move [where u = u and ls = "ks_lists s" and T = T and s = s and ts = "us @ [u]" and us = vs])
      (use I l k at H in auto)
  then have "sys_inv M (s\<lparr>ks_lists := ls'\<rparr>) (L(l \<mapsto> us, k \<mapsto> u # vs)) T" by (intro sys_inv_lists [OF inv ls'(2)]) simp_all
  then show ?thesis using ls(1) ls'(1) by blast
qed

lemma migration_collect_ok:
  assumes "sys_inv None s L T" "L (tl_runqueue c) = Some (q @ r)" "L (tl_local c) = Some vs"
  shows "\<exists>ls. (\<forall>s'. ks_lists s' = ks_lists s \<longrightarrow> migration_collect (length r) c s' = Ok () (s'\<lparr>ks_lists := ls\<rparr>)) \<and>
    sys_inv None (s\<lparr>ks_lists := ls\<rparr>) (L(tl_runqueue c \<mapsto> q, tl_local c \<mapsto> r @ vs)) T"
  using assms
proof (induction r arbitrary: s L vs rule: rev_induct)
  case Nil
  have same: "L(tl_runqueue c \<mapsto> q, tl_local c \<mapsto> vs) = L" using Nil(2,3) by (simp add: fun_upd_idem)
  have "\<forall>s'. ks_lists s' = ks_lists s \<longrightarrow> migration_collect (length []) c s' = Ok () (s'\<lparr>ks_lists := ks_lists s\<rparr>)" by (auto simp: kret_def)
  moreover have "sys_inv None (s\<lparr>ks_lists := ks_lists s\<rparr>) (L(tl_runqueue c \<mapsto> q, tl_local c \<mapsto> [] @ vs)) T"
    unfolding append_Nil same using Nil(1) by simp
  ultimately show ?case by blast
next
  case (snoc t r)
  note I = sys_invD [OF snoc(2)]
  have L1: "L (tl_runqueue c) = Some ((q @ r) @ [t])" using snoc(3) by simp
  have "spot (ks_ncpus s) (ks_thread s t) (tl_local c)"
    using listed_okD(2) [OF I(5) L1, of t] by (auto simp: spot_def)
  from sys_move_head [OF snoc(2) L1 snoc(4) _ this] obtain ls ls' where
    ls: "threadlist_remtail (tl_runqueue c) (ks_lists s) = Ok (Some t) ls" "threadlist_addhead (tl_local c) t ls = Ok () ls'"
      "sys_inv None (s\<lparr>ks_lists := ls'\<rparr>) (L(tl_runqueue c \<mapsto> q @ r, tl_local c \<mapsto> t # vs)) T" by auto
  have eq: "(L(tl_runqueue c \<mapsto> q @ r, tl_local c \<mapsto> t # vs))(tl_runqueue c \<mapsto> q, tl_local c \<mapsto> r @ t # vs) =
      L(tl_runqueue c \<mapsto> q, tl_local c \<mapsto> (r @ [t]) @ vs)"
    by (auto simp: fun_eq_iff)
  have "(L(tl_runqueue c \<mapsto> q @ r, tl_local c \<mapsto> t # vs)) (tl_runqueue c) = Some (q @ r)"
      "(L(tl_runqueue c \<mapsto> q @ r, tl_local c \<mapsto> t # vs)) (tl_local c) = Some (t # vs)" by simp_all
  from snoc.IH [OF ls(3) this] obtain ls2 where
    ls2: "\<forall>s'. ks_lists s' = ks_lists (s\<lparr>ks_lists := ls'\<rparr>) \<longrightarrow> migration_collect (length r) c s' = Ok () (s'\<lparr>ks_lists := ls2\<rparr>)"
      "sys_inv None (s\<lparr>ks_lists := ls', ks_lists := ls2\<rparr>) (L(tl_runqueue c \<mapsto> q, tl_local c \<mapsto> (r @ [t]) @ vs)) T"
    unfolding eq by blast
  have "migration_collect (length (r @ [t])) c s' = Ok () (s'\<lparr>ks_lists := ls2\<rparr>)" if "ks_lists s' = ks_lists s" for s'
    using ls ls2(1) that by (simp add: kbind_def on_lists_def kthe_def kret_def)
  moreover have "s\<lparr>ks_lists := ls', ks_lists := ls2\<rparr> = s\<lparr>ks_lists := ls2\<rparr>" by simp
  ultimately show ?case using ls2(2) by metis
qed


text \<open>The victims are on the list of processor \<open>c\<close>, and belong to it until they are sent.\<close>

definition victims :: "nat \<Rightarrow> ksys \<Rightarrow> (nat \<rightharpoonup> nat list) \<Rightarrow> nat list \<Rightarrow> bool" where
  "victims c s L vs \<longleftrightarrow> L (tl_local c) = Some vs \<and> (\<forall>t \<in> set vs. t_cpu (ks_thread s t) = Some c)"

text \<open>What the sending of victims leaves as it was.\<close>

definition sent :: "nat \<Rightarrow> nat \<Rightarrow> ksys \<Rightarrow> (nat \<rightharpoonup> nat list) \<Rightarrow> ksys \<Rightarrow> (nat \<rightharpoonup> nat list) \<Rightarrow> bool" where
  "sent c cur s L s' L' \<longleftrightarrow> ks_ncpus s' = ks_ncpus s \<and> c_curthread (ks_cpu s' c) = Some cur \<and> (\<forall>e. e \<noteq> c \<longrightarrow> L' (tl_local e) = L (tl_local e)) \<and> same_wchans L L'"

lemma sent_trans: "sent c cur s L s1 L1 \<Longrightarrow> sent c cur s1 L1 s2 L2 \<Longrightarrow> sent c cur s L s2 L2"
  by (simp add: sent_def same_wchans_def)

lemma sys_places_same:
  assumes "\<And>k x. (\<exists>ts. L' k = Some ts \<and> x \<in> set ts) \<longleftrightarrow> (\<exists>ts. L k = Some ts \<and> x \<in> set ts)"
  shows "sys_places s L' = sys_places s L"
proof -
  have "unlisted L' = unlisted L" using assms unfolding unlisted_def by (intro ext) blast
  moreover have "listed_ok s L' = listed_ok s L" unfolding listed_ok_def using assms by blast
  ultimately show ?thesis unfolding sys_places_def current_ok_def none_lost_def by presburger
qed

lemma rotate_victim:
  assumes inv: "sys_inv None s L T" and v: "victims c s L (t # vs)" and c: "c < ks_ncpus s" "c_curthread (ks_cpu s c) = Some cur"
  shows "\<exists>ls ls'. threadlist_remhead (tl_local c) (ks_lists s) = Ok (Some t) ls \<and> threadlist_addtail (tl_local c) t ls = Ok () ls' \<and>
    sys_inv None (s\<lparr>ks_lists := ls'\<rparr>) (L(tl_local c \<mapsto> vs @ [t])) T \<and> victims c (s\<lparr>ks_lists := ls'\<rparr>) (L(tl_local c \<mapsto> vs @ [t])) (vs @ [t]) \<and>
    sent c cur s L (s\<lparr>ks_lists := ls'\<rparr>) (L(tl_local c \<mapsto> vs @ [t]))"
proof -
  note I = sys_invD [OF inv]
  have l: "L (tl_local c) = Some (t # vs)" using v by (simp add: victims_def)
  note H = list_head [OF I(8) l]
  obtain ls where ls: "threadlist_remhead (tl_local c) (ks_lists s) = Ok (Some t) ls" "tl_rep ls (L(tl_local c \<mapsto> vs), T)"
    using remhead_Cons [OF I(8) l] by blast
  have un: "unlisted (L(tl_local c \<mapsto> vs)) x \<longleftrightarrow> unlisted L x \<or> x = t" for x by (rule unlisted_rem [OF I(8)]) (use l H in auto)
  have "sys_lists (s\<lparr>ks_lists := ls\<rparr>) (L(tl_local c \<mapsto> vs)) T" by (rule sys_lists_change [OF I(1)]) (use ls in simp_all)
  moreover have "listed_ok (s\<lparr>ks_lists := ls\<rparr>) (L(tl_local c \<mapsto> vs))"
    using l listed_okD [OF I(5)] by (intro listed_okI) (force split: if_splits)
  ultimately have "can_add (L(tl_local c \<mapsto> vs), T) (tl_local c) t"
    using sys_can_add [of "s\<lparr>ks_lists := ls\<rparr>" "L(tl_local c \<mapsto> vs)" T t "tl_local c" vs] listed_okD(1) [OF I(5) l, of t] un by auto
  then obtain ls' where ls': "threadlist_addtail (tl_local c) t ls = Ok () ls'" "tl_rep ls' (L(tl_local c \<mapsto> vs @ [t]), T)"
    using addtail_run [OF ls(2), of "tl_local c" t] by auto
  have on: "(\<exists>ts. (L(tl_local c \<mapsto> vs @ [t])) k = Some ts \<and> x \<in> set ts) \<longleftrightarrow> (\<exists>ts. L k = Some ts \<and> x \<in> set ts)" for k x
    using l by (cases "k = tl_local c") auto
  have "sys_places s (L(tl_local c \<mapsto> vs @ [t]))" using sys_places_same [of "L(tl_local c \<mapsto> vs @ [t])" L s, OF on] I(2) by blast
  then have "sys_inv None (s\<lparr>ks_lists := ls'\<rparr>) (L(tl_local c \<mapsto> vs @ [t])) T" by (intro sys_inv_lists [OF inv ls'(2)]) simp_all
  then show ?thesis using ls(1) ls'(1) v c by (intro exI [of _ ls] exI [of _ ls']) (simp add: victims_def sent_def same_wchans_def)
qed


lemma send_victim:
  assumes inv: "sys_inv None s L T" and v: "victims c s L (t # vs)" and c: "c < ks_ncpus s" "c_curthread (ks_cpu s c) = Some cur"
    and i: "i < ks_ncpus s" "i \<noteq> c" and t: "t \<noteq> cur"
  shows "\<exists>ls ls' k. threadlist_remhead (tl_local c) (ks_lists s) = Ok (Some t) ls \<and> threadlist_addtail (tl_runqueue i) t ls = Ok () ls' \<and>
    (\<forall>a. cpu_ok c cur a \<and> ks_lock a (Lk_ipi i) = free_lock \<and> ks_cpu a = ks_cpu s \<longrightarrow>
       (if c_isidle (ks_cpu a i) then ipi_send c i IPI_UNIDLE else kret ()) a = Ok () (a\<lparr>ks_cpu := k\<rparr>)) \<and>
    (let s' = s\<lparr>ks_thread := (ks_thread s)(t := (ks_thread s t)\<lparr>t_cpu := Some i\<rparr>), ks_lists := ls', ks_cpu := k\<rparr>;
         L' = L(tl_local c \<mapsto> vs, tl_runqueue i \<mapsto> the (L (tl_runqueue i)) @ [t])
     in sys_inv None s' L' T \<and> victims c s' L' vs \<and> sent c cur s L s' L')"
proof -
  note I = sys_invD [OF inv]
  have l: "L (tl_local c) = Some (t # vs)" and tc: "t_cpu (ks_thread s t) = Some c" using v by (simp_all add: victims_def)
  note H = list_head [OF I(8) l]
  obtain q where q: "L (tl_runqueue i) = Some q" using sys_listsD(6) [OF I(1) i(1)] by blast
  obtain ls where ls: "threadlist_remhead (tl_local c) (ks_lists s) = Ok (Some t) ls" "tl_rep ls (L(tl_local c \<mapsto> vs), T)"
    using remhead_Cons [OF I(8) l] by blast
  have un: "unlisted (L(tl_local c \<mapsto> vs)) x \<longleftrightarrow> unlisted L x \<or> x = t" for x by (rule unlisted_rem [OF I(8)]) (use l H in auto)
  have "sys_lists (s\<lparr>ks_lists := ls\<rparr>) (L(tl_local c \<mapsto> vs)) T" by (rule sys_lists_change [OF I(1)]) (use ls in simp_all)
  moreover have "listed_ok (s\<lparr>ks_lists := ls\<rparr>) (L(tl_local c \<mapsto> vs))"
    using l listed_okD [OF I(5)] by (intro listed_okI) (force split: if_splits)
  ultimately have "can_add (L(tl_local c \<mapsto> vs), T) (tl_runqueue i) t"
    using sys_can_add [of "s\<lparr>ks_lists := ls\<rparr>" "L(tl_local c \<mapsto> vs)" T t "tl_runqueue i" q] listed_okD(1) [OF I(5) l, of t] un q by auto
  then obtain ls' where ls': "threadlist_addtail (tl_runqueue i) t ls = Ok () ls'" "tl_rep ls' (L(tl_local c \<mapsto> vs, tl_runqueue i \<mapsto> q @ [t]), T)"
    using addtail_run [OF ls(2), of "tl_runqueue i" t] q by auto
  let ?k = "if c_isidle (ks_cpu s i) then (ks_cpu s)(i := (ks_cpu s i)\<lparr>c_ipi_pending := c_ipi_pending (ks_cpu s i) OR push_bit IPI_UNIDLE 1\<rparr>) else ks_cpu s"
  have k: "ipi_only (ks_cpu s) ?k" by (simp add: ipi_only_def)
  have ipi: "\<forall>a. cpu_ok c cur a \<and> ks_lock a (Lk_ipi i) = free_lock \<and> ks_cpu a = ks_cpu s \<longrightarrow>
      (if c_isidle (ks_cpu a i) then ipi_send c i IPI_UNIDLE else kret ()) a = Ok () (a\<lparr>ks_cpu := ?k\<rparr>)"
    using ipi_send_run [of c cur _ i IPI_UNIDLE] by (auto simp: IPI_UNIDLE_def kret_def)
  let ?s = "s\<lparr>ks_thread := (ks_thread s)(t := (ks_thread s t)\<lparr>t_cpu := Some i\<rparr>), ks_lists := ls', ks_cpu := ?k\<rparr>"
  have notcur: "c_curthread (ks_cpu s d) \<noteq> Some t" if "d < ks_ncpus s" for d
    using current_okD(2) [OF I(6) that, of t] tc c(2) t by auto
  have state: "t_state (ks_thread s t) \<in> {S_READY, S_SLEEP}" using listed_okD(2) [OF I(5) l, of t] by (auto simp: spot_def)
  have "sys_places ?s (L(tl_local c \<mapsto> vs, tl_runqueue i \<mapsto> q @ [t]))"
    by (rule sys_places_move [where u = t and ls = "ks_lists s" and T = T and s = s and ts = "t # vs" and us = q])
      (use I l q H k notcur i state in \<open>auto simp: spot_def\<close>)
  moreover have "sys_lists ?s (L(tl_local c \<mapsto> vs, tl_runqueue i \<mapsto> q @ [t])) T"
    by (rule sys_lists_change [OF I(1)]) (use ls'(2) in simp_all)
  moreover have "sys_levels None ?s" by (rule sys_levels_cong [OF _ I(4)]) (use k in \<open>simp add: same_levels_def\<close>)
  moreover have "sys_threads ?s" by (rule sys_threads_cong [OF I(3)]) simp_all
  ultimately have "sys_inv None ?s (L(tl_local c \<mapsto> vs, tl_runqueue i \<mapsto> the (L (tl_runqueue i)) @ [t])) T" using q by (simp add: sys_inv_def)
  moreover have "victims c ?s (L(tl_local c \<mapsto> vs, tl_runqueue i \<mapsto> the (L (tl_runqueue i)) @ [t])) vs" using v H by (auto simp: victims_def)
  moreover have "sent c cur s L ?s (L(tl_local c \<mapsto> vs, tl_runqueue i \<mapsto> the (L (tl_runqueue i)) @ [t]))" using c(2) i(2) by (simp add: sent_def same_wchans_def)
  ultimately show ?thesis using ls(1) ls'(1) ipi unfolding Let_def by blast
qed


lemma st_acquire_upd:
  "st_acquire c t l (s\<lparr>ks_lists := ls\<rparr>) = (st_acquire c t l s)\<lparr>ks_lists := ls\<rparr>"
  "st_acquire c t l (s\<lparr>ks_thread := th, ks_lists := ls, ks_cpu := k\<rparr>) = (st_acquire c t l s)\<lparr>ks_thread := th, ks_lists := ls, ks_cpu := k\<rparr>"
  by (rule ksys.equality; simp)+

lemma migration_fill_ok:
  assumes "sys_inv None s L T" "victims c s L vs" "c < ks_ncpus s" "c_curthread (ks_cpu s c) = Some cur" "i < ks_ncpus s" "i \<noteq> c" "n \<le> length vs"
  shows "\<exists>s' L' vs' n'. migration_fill n c i share (st_acquire c cur (Lk_runqueue i) s) = Ok n' (st_acquire c cur (Lk_runqueue i) s') \<and>
    sys_inv None s' L' T \<and> victims c s' L' vs' \<and> n' \<le> length vs' \<and> sent c cur s L s' L'"
  using assms
proof (induction n arbitrary: s L vs)
  case 0
  have "sent c cur s L s L" using 0 by (simp add: sent_def)
  then show ?case using 0 by (simp add: kret_def) blast
next
  case (Suc n)
  note I = sys_invD [OF Suc(2)]
  let ?l = "Lk_runqueue i"
  let ?a = "st_acquire c cur ?l s"
  have ok: "cpu_ok c cur ?a" using sys_cpu_ok(1) [OF I(2,4) Suc(4,5)] by simp
  have cur: "curthread c a = Ok cur a" if "ks_cpu a = ks_cpu s" for a using that Suc(5) by (simp add: curthread_def kthe_def kfun_defs)
  obtain t us where vs: "vs = t # us" using Suc(8) by (cases vs) auto
  have l: "L (tl_local c) = Some (t # us)" using Suc(3) vs by (simp add: victims_def)
  show ?case
  proof (cases "tl_count (ks_lists s) (tl_runqueue i) < share")
    case False
    have "sent c cur s L s L" using Suc by (simp add: sent_def)
    then show ?thesis using False Suc.prems by (simp add: kbind_def kget_def kret_def) blast
  next
    case less: True
    show ?thesis
    proof (cases "t = cur")
      case True
      obtain ls ls' where r: "threadlist_remhead (tl_local c) (ks_lists s) = Ok (Some t) ls" "threadlist_addtail (tl_local c) t ls = Ok () ls'"
          "sys_inv None (s\<lparr>ks_lists := ls'\<rparr>) (L(tl_local c \<mapsto> us @ [t])) T" "victims c (s\<lparr>ks_lists := ls'\<rparr>) (L(tl_local c \<mapsto> us @ [t])) (us @ [t])"
          "sent c cur s L (s\<lparr>ks_lists := ls'\<rparr>) (L(tl_local c \<mapsto> us @ [t]))"
        using rotate_victim [OF Suc(2) Suc(3) [unfolded vs] Suc(4,5)] by blast
      have eq: "migration_fill (Suc n) c i share ?a = migration_fill n c i share (st_acquire c cur ?l (s\<lparr>ks_lists := ls'\<rparr>))"
        using less True r(1,2) cur [of "?a\<lparr>ks_lists := ls\<rparr>"] by (simp add: kbind_def kget_def kret_def kthe_def on_lists_def st_acquire_upd)
      have "c < ks_ncpus (s\<lparr>ks_lists := ls'\<rparr>)" "c_curthread (ks_cpu (s\<lparr>ks_lists := ls'\<rparr>) c) = Some cur" "i < ks_ncpus (s\<lparr>ks_lists := ls'\<rparr>)"
          "n \<le> length (us @ [t])" using Suc(4-8) vs by simp_all
      from Suc.IH [OF r(3,4) this(1-3) Suc(7) this(4)] show ?thesis unfolding eq using sent_trans [OF r(5)] by blast
    next
      case False
      obtain ls ls' k where r: "threadlist_remhead (tl_local c) (ks_lists s) = Ok (Some t) ls" "threadlist_addtail (tl_runqueue i) t ls = Ok () ls'"
          "\<forall>a. cpu_ok c cur a \<and> ks_lock a (Lk_ipi i) = free_lock \<and> ks_cpu a = ks_cpu s \<longrightarrow>
             (if c_isidle (ks_cpu a i) then ipi_send c i IPI_UNIDLE else kret ()) a = Ok () (a\<lparr>ks_cpu := k\<rparr>)"
        and s': "let s' = s\<lparr>ks_thread := (ks_thread s)(t := (ks_thread s t)\<lparr>t_cpu := Some i\<rparr>), ks_lists := ls', ks_cpu := k\<rparr>;
           L' = L(tl_local c \<mapsto> us, tl_runqueue i \<mapsto> the (L (tl_runqueue i)) @ [t])
         in sys_inv None s' L' T \<and> victims c s' L' us \<and> sent c cur s L s' L'"
        using send_victim [OF Suc(2) Suc(3) [unfolded vs] Suc(4-7) False] by blast
      let ?s = "s\<lparr>ks_thread := (ks_thread s)(t := (ks_thread s t)\<lparr>t_cpu := Some i\<rparr>), ks_lists := ls', ks_cpu := k\<rparr>"
      have ta: "t \<in> ks_alloc s" using listed_okD(1) [OF I(5) l] by simp
      let ?b = "?a\<lparr>ks_thread := (ks_thread s)(t := (ks_thread s t)\<lparr>t_cpu := Some i\<rparr>), ks_lists := ls'\<rparr>"
      have "cpu_ok c cur ?b" by (rule cpu_ok_frame [OF ok]) (use ok in \<open>simp_all add: cpu_ok_def\<close>)
      then have ipi: "(if c_isidle (ks_cpu ?b i) then ipi_send c i IPI_UNIDLE else kret ()) ?b = Ok () (?b\<lparr>ks_cpu := k\<rparr>)"
        using r(3) lock_free(1) [OF I(4), of i] by simp
      have "migration_fill (Suc n) c i share ?a = migration_fill n c i share (?b\<lparr>ks_cpu := k\<rparr>)"
        using less False r(1,2) cur [of "?a\<lparr>ks_lists := ls\<rparr>"] ipi ta
        by (cases "c_isidle (ks_cpu s i)") (simp_all add: kbind_def kget_def kret_def kthe_def on_lists_def th_mod_run)
      also have "?b\<lparr>ks_cpu := k\<rparr> = st_acquire c cur ?l ?s" by (simp add: st_acquire_upd)
      finally have eq: "migration_fill (Suc n) c i share ?a = migration_fill n c i share (st_acquire c cur ?l ?s)" .
      let ?L = "L(tl_local c \<mapsto> us, tl_runqueue i \<mapsto> the (L (tl_runqueue i)) @ [t])"
      have S: "sys_inv None ?s ?L T" "victims c ?s ?L us" "sent c cur s L ?s ?L" using s' unfolding Let_def by blast+
      then have "c < ks_ncpus ?s" "c_curthread (ks_cpu ?s c) = Some cur" "i < ks_ncpus ?s" "n \<le> length us"
        using Suc(4-8) vs by (simp_all add: sent_def)
      from Suc.IH [OF S(1,2) this(1-3) Suc(7) this(4)] show ?thesis unfolding eq using sent_trans [OF S(3)] by blast
    qed
  qed
qed


lemma migration_send_ok:
  assumes "sys_inv None s L T" "victims c s L vs" "c < ks_ncpus s" "c_curthread (ks_cpu s c) = Some cur" "set ids \<subseteq> {..< ks_ncpus s}" "n \<le> length vs"
  shows "\<exists>s' L' vs'. migration_send c ids n share s = Ok () s' \<and> sys_inv None s' L' T \<and> victims c s' L' vs' \<and> sent c cur s L s' L'"
  using assms
proof (induction ids arbitrary: s L vs n)
  case Nil
  have "sent c cur s L s L" using Nil by (simp add: sent_def)
  then show ?case using Nil by (simp add: kret_def) blast
next
  case (Cons i ids)
  note I = sys_invD [OF Cons(2)]
  show ?case
  proof (cases "n = 0 \<or> i = c")
    case True
    have "sent c cur s L s L" using Cons by (simp add: sent_def)
    then show ?thesis using True Cons.IH [OF Cons(2-5) _ Cons(7)] Cons.prems by (cases "n = 0") (auto simp: kret_def)
  next
    case False
    let ?l = "Lk_runqueue i"
    have i: "i < ks_ncpus s" "i \<noteq> c" using Cons(6) False by auto
    have free: "ks_lock s ?l = free_lock" using lock_free(3) [OF I(4)] by simp
    obtain s1 L1 vs1 n1 where s1: "migration_fill n c i share (st_acquire c cur ?l s) = Ok n1 (st_acquire c cur ?l s1)"
        "sys_inv None s1 L1 T" "victims c s1 L1 vs1" "n1 \<le> length vs1" "sent c cur s L s1 L1"
      using migration_fill_ok [OF Cons(2-5) i Cons(7)] by blast
    note I1 = sys_invD [OF s1(2)]
    have c1: "c < ks_ncpus s1" "c_curthread (ks_cpu s1 c) = Some cur" "set ids \<subseteq> {..< ks_ncpus s1}" using s1(5) Cons(4,6) by (auto simp: sent_def)
    have ok1: "cpu_ok c cur s1" by (rule sys_cpu_ok(1) [OF I1(2,4) c1(1,2)])
    have "ks_release c ?l (st_acquire c cur ?l s1) = Ok () s1"
      by (rule st_release_acquire [OF ok1]) (use lock_free(3) [OF I1(4)] in simp)
    then have eq: "migration_send c (i # ids) n share s = migration_send c ids n1 share s1"
      using False acquire_run [OF sys_cpu_ok(1) [OF I(2,4) Cons(4,5)] free] s1(1) by (simp add: kbind_def)
    show ?thesis unfolding eq using Cons.IH [OF s1(2,3) c1 s1(4)] sent_trans [OF s1(5)] by blast
  qed
qed

lemma migration_back_ok:
  assumes inv: "sys_inv None s L T" and v: "victims c s L vs" and c: "c < ks_ncpus s"
  shows "\<exists>ls. (kbind (ks_acquire c (Lk_runqueue c)) (\<lambda>_. kbind (kget (\<lambda>s. tl_count (ks_lists s) (tl_local c))) (\<lambda>n.
      kbind (migration_back (Suc n) c) (\<lambda>_. ks_release c (Lk_runqueue c))))) s = Ok () (s\<lparr>ks_lists := ls\<rparr>) \<and>
    sys_inv None (s\<lparr>ks_lists := ls\<rparr>) (L(tl_local c \<mapsto> [], tl_runqueue c \<mapsto> the (L (tl_runqueue c)) @ vs)) T"
proof -
  note I = sys_invD [OF inv]
  have l: "L (tl_local c) = Some vs" using v by (simp add: victims_def)
  obtain q where q: "L (tl_runqueue c) = Some q" using sys_listsD(6) [OF I(1) c] by blast
  have "\<forall>t \<in> set vs. spot (ks_ncpus s) (ks_thread s t) (tl_runqueue c)"
    using listed_okD(2) [OF I(5) l] v c by (auto simp: spot_def victims_def)
  from move_all_ok [OF inv l q _ this] obtain ls where
    ls: "\<forall>s'. ks_lists s' = ks_lists s \<longrightarrow> move_all (Suc (length vs)) (tl_local c) (tl_runqueue c) s' = Ok () (s'\<lparr>ks_lists := ls\<rparr>)"
      "sys_inv None (s\<lparr>ks_lists := ls\<rparr>) (L(tl_local c \<mapsto> [], tl_runqueue c \<mapsto> q @ vs)) T" by auto
  obtain cur where cur: "c_curthread (ks_cpu s c) = Some cur" "cpu_ok c cur s" using sys_current [OF inv c] by blast
  have free: "ks_lock s (Lk_runqueue c) = free_lock" using lock_free(3) [OF I(4)] by simp
  have ok: "cpu_ok c cur (s\<lparr>ks_lists := ls\<rparr>)" by (rule cpu_ok_frame [OF cur(2)]) (use cur(2) in \<open>simp_all add: cpu_ok_def\<close>)
  have "migration_back (Suc (length vs)) c (st_acquire c cur (Lk_runqueue c) s) = Ok () (st_acquire c cur (Lk_runqueue c) (s\<lparr>ks_lists := ls\<rparr>))"
    using ls(1) by (simp only: migration_back_all st_acquire_upd st_simps)
  then show ?thesis
    using acquire_run [OF cur(2) free] st_release_acquire [OF ok, of "Lk_runqueue c"] free ls(2) count_run [OF I(8) l] q
    by (intro exI [of _ ls]) (simp add: kbind_def kget_def del: migration_back.simps)
qed


lemma locked_collect:
  assumes inv: "sys_inv None s L T" and c: "c < ks_ncpus s" and L: "L (tl_runqueue c) = Some q" "L (tl_local c) = Some []" and n: "n \<le> length q"
  shows "\<exists>ls L'. kbind (ks_acquire c (Lk_runqueue c)) (\<lambda>_. kbind (migration_collect n c) (\<lambda>_. kbind (ks_release c (Lk_runqueue c)) (\<lambda>_. f))) s =
      f (s\<lparr>ks_lists := ls\<rparr>) \<and> sys_inv None (s\<lparr>ks_lists := ls\<rparr>) L' T \<and> victims c (s\<lparr>ks_lists := ls\<rparr>) L' (drop (length q - n) q) \<and>
      (\<forall>e. e \<noteq> c \<longrightarrow> L' (tl_local e) = L (tl_local e)) \<and> same_wchans L L'"
proof -
  note I = sys_invD [OF inv]
  let ?q = "take (length q - n) q" and ?r = "drop (length q - n) q"
  have L1: "L (tl_runqueue c) = Some (?q @ ?r)" using L(1) by simp
  have n': "length ?r = n" using n by simp
  obtain ls where ls: "\<forall>s'. ks_lists s' = ks_lists s \<longrightarrow> migration_collect n c s' = Ok () (s'\<lparr>ks_lists := ls\<rparr>)"
      "sys_inv None (s\<lparr>ks_lists := ls\<rparr>) (L(tl_runqueue c \<mapsto> ?q, tl_local c \<mapsto> ?r @ [])) T"
    using migration_collect_ok [OF inv L1 L(2), unfolded n'] by blast
  obtain cur where cur: "c_curthread (ks_cpu s c) = Some cur" "cpu_ok c cur s" using sys_current [OF inv c] by blast
  have free: "ks_lock s (Lk_runqueue c) = free_lock" using lock_free(3) [OF I(4)] by simp
  have ok: "cpu_ok c cur (s\<lparr>ks_lists := ls\<rparr>)" by (rule cpu_ok_frame [OF cur(2)]) (use cur(2) in \<open>simp_all add: cpu_ok_def\<close>)
  have "migration_collect n c (st_acquire c cur (Lk_runqueue c) s) = Ok () (st_acquire c cur (Lk_runqueue c) (s\<lparr>ks_lists := ls\<rparr>))"
    using ls(1) by (simp only: st_acquire_upd st_simps)
  then have "kbind (ks_acquire c (Lk_runqueue c)) (\<lambda>_. kbind (migration_collect n c) (\<lambda>_. kbind (ks_release c (Lk_runqueue c)) (\<lambda>_. f))) s =
      f (s\<lparr>ks_lists := ls\<rparr>)"
    using acquire_run [OF cur(2) free] st_release_acquire [OF ok, of "Lk_runqueue c"] free by (simp add: kbind_def)
  moreover have "t_cpu (ks_thread s t) = Some c" if "t \<in> set ?r" for t
    using listed_okD(2) [OF I(5) L1, of t] in_set_dropD [OF that] by (auto simp: spot_def)
  then have "victims c (s\<lparr>ks_lists := ls\<rparr>) (L(tl_runqueue c \<mapsto> ?q, tl_local c \<mapsto> ?r @ [])) ?r" by (simp add: victims_def)
  moreover have "\<forall>e. e \<noteq> c \<longrightarrow> (L(tl_runqueue c \<mapsto> ?q, tl_local c \<mapsto> ?r @ [])) (tl_local e) = L (tl_local e)"
      "same_wchans L (L(tl_runqueue c \<mapsto> ?q, tl_local c \<mapsto> ?r @ []))" by (simp_all add: same_wchans_def)
  ultimately show ?thesis using ls(2) by blast
qed

text \<open>What is left goes back to the run queue of this processor.\<close>

definition migration_rest :: "nat \<Rightarrow> (ksys, unit) kfun" where
  "migration_rest c =
    kbind (on_lists (threadlist_isempty (tl_local c))) (\<lambda>none.
    kbind
      (if \<not> none then
         kbind (ks_acquire c (Lk_runqueue c)) (\<lambda>_.
         kbind (kget (\<lambda>s. tl_count (ks_lists s) (tl_local c))) (\<lambda>n.
         kbind (migration_back (Suc n) c) (\<lambda>_.
         ks_release c (Lk_runqueue c))))
       else kret ()) (\<lambda>_.
    kbind (on_lists (threadlist_isempty (tl_local c))) (\<lambda>none.
    kbind (kassert none) (\<lambda>_.
    on_lists (threadlist_cleanup (tl_local c))))))"

lemma migration_rest_ok:
  assumes inv: "sys_inv None s L T" and v: "victims c s L vs" and c: "c < ks_ncpus s"
  shows "\<exists>s' L'. migration_rest c s = Ok () s' \<and> sys_inv None s' L' T \<and> ks_ncpus s' = ks_ncpus s \<and> L' (tl_local c) = Some [] \<and>
    (\<forall>e. e \<noteq> c \<longrightarrow> L' (tl_local e) = L (tl_local e)) \<and> same_wchans L L'"
proof -
  obtain ls where s3: "(kbind (ks_acquire c (Lk_runqueue c)) (\<lambda>_. kbind (kget (\<lambda>s. tl_count (ks_lists s) (tl_local c))) (\<lambda>n.
      kbind (migration_back (Suc n) c) (\<lambda>_. ks_release c (Lk_runqueue c))))) s = Ok () (s\<lparr>ks_lists := ls\<rparr>)"
      "sys_inv None (s\<lparr>ks_lists := ls\<rparr>) (L(tl_local c \<mapsto> [], tl_runqueue c \<mapsto> the (L (tl_runqueue c)) @ vs)) T"
    using migration_back_ok [OF inv v c] by blast
  have e: "threadlist_isempty (tl_local c) (ks_lists s) = Ok (vs = []) (ks_lists s)"
    using isempty_run [OF sys_invD(8) [OF inv]] v by (simp add: victims_def)
  define s' where "s' = (if vs = [] then s else s\<lparr>ks_lists := ls\<rparr>)"
  define L' where "L' = (if vs = [] then L else L(tl_local c \<mapsto> [], tl_runqueue c \<mapsto> the (L (tl_runqueue c)) @ vs))"
  have inv': "sys_inv None s' L' T" "L' (tl_local c) = Some []" "ks_ncpus s' = ks_ncpus s" "\<forall>e. e \<noteq> c \<longrightarrow> L' (tl_local e) = L (tl_local e)"
      "same_wchans L L'" using inv v s3(2) by (simp_all add: s'_def L'_def victims_def same_wchans_def)
  note rep = sys_invD(8) [OF inv'(1)]
  have "migration_rest c s = kbind (on_lists (threadlist_isempty (tl_local c))) (\<lambda>none. kbind (kassert none) (\<lambda>_.
      on_lists (threadlist_cleanup (tl_local c)))) s'"
    using s3(1) e by (cases "vs = []") (simp_all add: migration_rest_def s'_def kbind_def on_lists_def kret_def del: migration_back.simps)
  also have "\<dots> = Ok () s'" using isempty_run [OF rep inv'(2)] cleanup_run [OF rep inv'(2)] by (simp add: kfun_defs on_lists_def)
  finally show ?thesis using inv' by blast
qed

lemma migration_ok:
  assumes inv: "sys_inv None s L T" and c: "c < ks_ncpus s" and loc: "L (tl_local c) = None \<or> L (tl_local c) = Some []"
  shows "\<exists>s' L'. thread_consider_migration c s = Ok () s' \<and> sys_inv None s' L' T \<and> ks_ncpus s' = ks_ncpus s \<and>
    (L' (tl_local c) = None \<or> L' (tl_local c) = Some []) \<and> (\<forall>e. e \<noteq> c \<longrightarrow> L' (tl_local e) = L (tl_local e)) \<and> same_wchans L L'"
proof -
  obtain q where q: "L (tl_runqueue c) = Some q" using sys_listsD(6) [OF sys_invD(1) [OF inv] c] by blast
  obtain total where total: "migration_count c [0..<ks_ncpus s] 0 0 s = Ok (length q, total) s"
    using migration_count_run [OF inv c, of "[0..<ks_ncpus s]" 0 0] c q by (auto simp: atLeast0LessThan)
  let ?share = "DIVROUNDUP total (ks_ncpus s)"
  show ?thesis
  proof (cases "length q < ?share")
    case True
    then have "thread_consider_migration c s = Ok () s" using total by (simp add: thread_consider_migration_def kbind_def kget_def kret_def)
    then show ?thesis using inv loc same_wchans_refl by blast
  next
    case False
    let ?n = "length q - ?share"
    obtain ls0 where ls0: "threadlist_init (tl_local c) (ks_lists s) = Ok () ls0" "sys_inv None (s\<lparr>ks_lists := ls0\<rparr>) (L(tl_local c \<mapsto> [])) T"
      using local_init_ok [OF inv loc] by blast
    let ?rest = "kbind (migration_send c [0..<ks_ncpus s] ?n ?share) (\<lambda>_. migration_rest c)"
    have "c < ks_ncpus (s\<lparr>ks_lists := ls0\<rparr>)" "(L(tl_local c \<mapsto> [])) (tl_runqueue c) = Some q" "(L(tl_local c \<mapsto> [])) (tl_local c) = Some []" "?n \<le> length q"
      using c q by simp_all
    from locked_collect [OF ls0(2) this, of ?rest] obtain ls L1 where
      s1: "kbind (ks_acquire c (Lk_runqueue c)) (\<lambda>_. kbind (migration_collect ?n c) (\<lambda>_. kbind (ks_release c (Lk_runqueue c)) (\<lambda>_. ?rest))) (s\<lparr>ks_lists := ls0\<rparr>) =
          ?rest (s\<lparr>ks_lists := ls\<rparr>)" "sys_inv None (s\<lparr>ks_lists := ls\<rparr>) L1 T" "victims c (s\<lparr>ks_lists := ls\<rparr>) L1 (drop (length q - ?n) q)"
        "\<forall>e. e \<noteq> c \<longrightarrow> L1 (tl_local e) = L (tl_local e)" "same_wchans L L1"
      by (auto simp: same_wchans_def)
    have run: "thread_consider_migration c s = ?rest (s\<lparr>ks_lists := ls\<rparr>)"
      unfolding s1(1) [symmetric] thread_consider_migration_def migration_rest_def [symmetric] using total ls0(1) False
      by (simp add: kbind_def [of "kget _"] kbind_def [of "migration_count _ _ _ _"] kget_def kbind_def [of "on_lists (threadlist_init _)"]
          on_lists_def [of "threadlist_init _"] Let_def)
    obtain cur where cur: "c_curthread (ks_cpu (s\<lparr>ks_lists := ls\<rparr>) c) = Some cur" using sys_current [OF s1(2)] c by auto
    have "c < ks_ncpus (s\<lparr>ks_lists := ls\<rparr>)" "set [0..<ks_ncpus s] \<subseteq> {..< ks_ncpus (s\<lparr>ks_lists := ls\<rparr>)}" "?n \<le> length (drop (length q - ?n) q)"
      using c False by auto
    from migration_send_ok [OF s1(2,3) this(1) cur this(2,3)] obtain s2 L2 vs where
      s2: "migration_send c [0..<ks_ncpus s] ?n ?share (s\<lparr>ks_lists := ls\<rparr>) = Ok () s2" "sys_inv None s2 L2 T" "victims c s2 L2 vs"
        "sent c cur (s\<lparr>ks_lists := ls\<rparr>) L1 s2 L2" by blast
    have "c < ks_ncpus s2" using s2(4) c by (simp add: sent_def)
    from migration_rest_ok [OF s2(2,3) this] show ?thesis using run s2(1,4) s1(4,5) by (auto simp: kbind_def sent_def same_wchans_def)
  qed
qed


section \<open>Creation of wait channels and processors\<close>

lemma free_lock_init [simp]: "spinlock_init lk = free_lock"
  by (simp add: spinlock_init_def free_lock_def spinlock_data_set_def)

lemma sys_inv_wcname [simp]: "sys_inv M (s\<lparr>ks_wcname := x\<rparr>) L T = sys_inv M s L T"
  unfolding sys_inv_def sys_lists_def sys_places_def listed_ok_def current_ok_def none_lost_def sys_threads_def sys_levels_def parked_ok_def level_ok_def
    locks_ok_def held_def by simp

lemma wchan_create_ok:
  assumes inv: "sys_inv None s L T" and w: "L (tl_wchan w) = None" "ks_lock s (Lk_wchan w) = free_lock"
  shows "\<exists>s'. wchan_create (Some w) name s = Ok (Some w) s' \<and> sys_inv None s' (L(tl_wchan w \<mapsto> [])) T \<and> ks_ncpus s' = ks_ncpus s"
proof -
  obtain ls where ls: "threadlist_init (tl_wchan w) (ks_lists s) = Ok () ls" "sys_inv None (s\<lparr>ks_lists := ls\<rparr>) (L(tl_wchan w \<mapsto> [])) T"
    using local_init_ok [OF inv] w(1) by blast
  let ?s = "s\<lparr>ks_lists := ls, ks_wcname := (ks_wcname s)(w := name)\<rparr>"
  have "sys_inv None ?s (L(tl_wchan w \<mapsto> [])) T" using ls(2) by (simp only: sys_inv_wcname)
  moreover have "wchan_create (Some w) name s = Ok (Some w) ?s"
    using ls(1) w(2) by (simp add: wchan_create_def kfun_defs on_lists_def fun_upd_idem)
  ultimately show ?thesis by (intro exI [of _ ?s]) simp
qed

lemma wchan_destroy_ok:
  assumes inv: "sys_inv None s L T" and w: "L (tl_wchan w) = Some []" "ks_lock s (Lk_wchan w) = free_lock"
  shows "wchan_destroy w s = Ok () s \<and> sys_inv None s (L(tl_wchan w := None)) T"
proof -
  note I = sys_invD [OF inv]
  have "wchan_destroy w s = Ok () s"
    using w cleanup_run [OF I(8) w(1)] by (simp add: wchan_destroy_def spinlock_cleanup_def free_lock_def spinlock_data_get_def kfun_defs on_lists_def)
  moreover have on: "(\<exists>ts. (L(tl_wchan w := None)) k = Some ts \<and> x \<in> set ts) \<longleftrightarrow> (\<exists>ts. L k = Some ts \<and> x \<in> set ts)" for k x
    using w(1) by (cases "k = tl_wchan w") auto
  have "sys_places s (L(tl_wchan w := None))" using sys_places_same [of "L(tl_wchan w := None)" L s, OF on] I(2) by blast
  moreover have un: "unlisted (L(tl_wchan w := None)) x = unlisted L x" for x unfolding unlisted_def using on by blast
  have "tl_rep (ks_lists s) (L(tl_wchan w := None), T)"
    using I(8) unfolding tl_rep.simps un by (simp only: fun_upd_apply split: if_splits) blast
  then have "sys_lists s (L(tl_wchan w := None)) T" using I(1) by (simp add: sys_lists_def)
  ultimately show ?thesis using I by (simp add: sys_inv_def)
qed


text \<open>A new processor with its first thread.\<close>

lemma sys_inv_cpu:
  assumes inv: "sys_inv None s L T" and t: "t \<notin> ks_alloc s" and card: "card (ks_alloc s) + 1 < 2 ^ 32" and n: "n = ks_ncpus s"
    and s': "ks_booted s' = ks_booted s" "ks_alloc s' = insert t (ks_alloc s)" "ks_ncpus s' = Suc n" "\<And>c. c \<noteq> n \<Longrightarrow> ks_cpu s' c = ks_cpu s c"
      "\<And>x. x \<noteq> t \<Longrightarrow> ks_thread s' x = ks_thread s x" "\<And>x. x \<noteq> t \<Longrightarrow> ks_curspl s' x = ks_curspl s x" "\<And>x. x \<noteq> t \<Longrightarrow> ks_iplhigh s' x = ks_iplhigh s x"
      "ks_irq s' = ks_irq s" "ks_lock s' = ks_lock s" "tl_rep (ks_lists s') (L(tl_zombies n \<mapsto> [], tl_runqueue n \<mapsto> []), insert t T)"
      "\<And>p. set (ks_pthreads s p) \<subseteq> set (ks_pthreads s' p)"
    and new: "c_curthread (ks_cpu s' n) = Some t" "\<not> c_isidle (ks_cpu s' n)" "\<not> ks_irq s n" "t_state (ks_thread s' t) = S_READY" "t_cpu (ks_thread s' t) = Some n"
      "stack_ok (t_stack (ks_thread s' t))" "\<And>p. t_proc (ks_thread s' t) = Some p \<Longrightarrow> t \<in> set (ks_pthreads s' p)"
      "ks_curspl s' t = IPL_HIGH" "ks_iplhigh s' t = 1"
  shows "sys_inv None s' (L(tl_zombies n \<mapsto> [], tl_runqueue n \<mapsto> [])) (insert t T)"
proof -
  note I = sys_invD [OF inv]
  note sl = sys_listsD [OF I(1)]
  let ?L = "L(tl_zombies n \<mapsto> [], tl_runqueue n \<mapsto> [])"
  have empty: "us = []" if "L (tl_zombies n) = Some us \<or> L (tl_runqueue n) = Some us" for us
    using that listed_okD(2) [OF I(5)] n by (cases us) (fastforce simp: spot_def)+
  have on: "(\<exists>ts. ?L k = Some ts \<and> x \<in> set ts) \<longleftrightarrow> (\<exists>ts. L k = Some ts \<and> x \<in> set ts)" for k x
    by (cases "k = tl_zombies n \<or> k = tl_runqueue n") (auto dest: empty [OF disjI1] empty [OF disjI2])
  then have un: "unlisted ?L x = unlisted L x" for x unfolding unlisted_def by blast
  have nc: "c_curthread (ks_cpu s c) \<noteq> Some t" if "c < ks_ncpus s" for c using current_okD(1) [OF I(6) that] t by auto
  have "sys_lists s' ?L (insert t T)"
    unfolding sys_lists_def using sl s'(2,3,10) card n by (auto simp: card_insert_if less_Suc_eq)
  moreover have "listed_ok s' ?L"
  proof (rule listed_okI)
    fix k us x assume "?L k = Some us" "x \<in> set us"
    then obtain us' where us': "L k = Some us'" "x \<in> set us'" using on [of k x] by blast
    note A = listed_okD [OF I(5) us']
    then have "x \<noteq> t" using t by auto
    then show "x \<in> ks_alloc s' \<and> spot (ks_ncpus s') (ks_thread s' x) k" using A s'(2,3) s'(5) [of x] n by (auto simp: spot_def)
  qed
  moreover have "current_ok s' ?L"
  proof (rule current_okI)
    fix c assume "c < ks_ncpus s'"
    then consider "c = n" | "c \<noteq> n" "c < ks_ncpus s" using s'(3) n by linarith
    then show "\<exists>x. c_curthread (ks_cpu s' c) = Some x \<and> x \<in> ks_alloc s' \<and> t_cpu (ks_thread s' x) = Some c \<and>
        (c_isidle (ks_cpu s' c) \<longrightarrow> \<not> unlisted ?L x) \<and> (\<not> c_isidle (ks_cpu s' c) \<longrightarrow> unlisted ?L x \<and> t_state (ks_thread s' x) \<in> {S_RUN, S_READY})"
    proof cases
      case 1
      then show ?thesis using new s'(2) un unlisted_new [OF I(5) t] by simp
    next
      case 2
      obtain x where x: "c_curthread (ks_cpu s c) = Some x" using sys_current [OF inv 2(2)] by metis
      note D = current_okD [OF I(6) 2(2) x]
      then have "x \<noteq> t" using t by auto
      then show ?thesis using x D un s'(2) s'(4) [OF 2(1)] s'(5) [of x] by simp
    qed
  qed
  moreover have "none_lost s' ?L"
    unfolding none_lost_def
  proof (intro ballI impI)
    fix x assume x: "x \<in> ks_alloc s'" "unlisted ?L x"
    show "\<exists>c < ks_ncpus s'. c_curthread (ks_cpu s' c) = Some x \<and> \<not> c_isidle (ks_cpu s' c)"
    proof (cases "x = t")
      case True
      then show ?thesis using new s'(3) by auto
    next
      case False
      then obtain c where c: "c < ks_ncpus s" "c_curthread (ks_cpu s c) = Some x" "\<not> c_isidle (ks_cpu s c)"
        using I(7) x un s'(2) by (auto simp: none_lost_def)
      then show ?thesis using s'(3) s'(4) [of c] n by (intro exI [of _ c]) simp
    qed
  qed
  moreover have "sys_threads s'"
    unfolding sys_threads_def
  proof
    fix x assume x: "x \<in> ks_alloc s'"
    show "stack_ok (t_stack (ks_thread s' x)) \<and> (\<forall>p. t_proc (ks_thread s' x) = Some p \<longrightarrow> x \<in> set (ks_pthreads s' p))"
      using x new(6,7) s'(2) s'(5) [of x] I(3) by (cases "x = t") (auto simp: sys_threads_def intro: subsetD [OF s'(11)])
  qed
  ultimately have places: "sys_lists s' ?L (insert t T)" "listed_ok s' ?L" "current_ok s' ?L" "none_lost s' ?L" "sys_threads s'" by blast+
  have "parked_ok s'"
    unfolding parked_ok_def
  proof (intro ballI impI)
    fix x assume x: "x \<in> ks_alloc s'" "\<forall>c < ks_ncpus s'. c_curthread (ks_cpu s' c) \<noteq> Some x"
    then have "x \<noteq> t" using new(1) s'(3) by auto
    moreover have "\<forall>c < ks_ncpus s. c_curthread (ks_cpu s c) \<noteq> Some x" using x(2) s'(3) s'(4) n by (metis less_SucI less_irrefl_nat)
    ultimately show "ks_curspl s' x = IPL_HIGH \<and> ks_iplhigh s' x = 2 \<and> ctx_ok (t_context (ks_thread s' x))"
      using I(4) x(1) s'(2) s'(5-7) [of x] by (auto simp: sys_levels_def parked_ok_def)
  qed
  moreover have "level_ok None s' c" if "c < ks_ncpus s" for c
    by (rule level_ok_frame [of None s]) (use I(4) that nc [OF that] s' n in \<open>auto simp: sys_levels_def\<close>)
  moreover have "ks_lock s l = free_lock \<or> (\<exists>c < n. ks_lock s l = cpu_lock c)" for l using I(4) n unfolding sys_levels_def locks_ok_def by blast
  then have "lk_holder (ks_lock s l) \<noteq> Some n" for l by (metis less_irrefl_nat locks_distinct(4,5) option.distinct(1) option.inject)
  then have "held s' n = {}" using s'(9) by (simp add: held_def)
  then have "level_ok None s' n" using new s'(8) by (simp add: level_ok_def IPL_HIGH_def)
  moreover have "locks_ok None s'" using I(4) s'(3,9) n by (auto simp: sys_levels_def locks_ok_def less_Suc_eq)
  ultimately have "sys_levels None s'" using I(4) s'(1,3) n by (auto simp: sys_levels_def less_Suc_eq)
  with places show ?thesis by (simp add: sys_inv_def sys_places_def)
qed


text \<open>The state of a processor that \<^verbatim>\<open>cpu_create\<close> has initialised, before it has a thread.\<close>

definition new_cpu :: "threadlists \<Rightarrow> ksys \<Rightarrow> ksys" where
  "new_cpu ls s = s\<lparr>ks_cpu := (ks_cpu s)(ks_ncpus s := (ks_cpu s (ks_ncpus s))\<lparr>c_curthread := None, c_isidle := False, c_ipi_pending := 0, c_numshootdown := 0\<rparr>),
     ks_lists := ls, ks_ncpus := Suc (ks_ncpus s)\<rparr>"

lemma new_cpu_simps [simp]:
  "ks_booted (new_cpu ls s) = ks_booted s" "ks_alloc (new_cpu ls s) = ks_alloc s" "ks_thread (new_cpu ls s) = ks_thread s" "ks_curspl (new_cpu ls s) = ks_curspl s"
  "ks_iplhigh (new_cpu ls s) = ks_iplhigh s" "ks_irq (new_cpu ls s) = ks_irq s" "ks_lock (new_cpu ls s) = ks_lock s" "ks_pthreads (new_cpu ls s) = ks_pthreads s"
  "ks_lists (new_cpu ls s) = ls" "ks_ncpus (new_cpu ls s) = Suc (ks_ncpus s)" "c \<noteq> ks_ncpus s \<Longrightarrow> ks_cpu (new_cpu ls s) c = ks_cpu s c"
  "\<not> c_isidle (ks_cpu (new_cpu ls s) (ks_ncpus s))"
  by (simp_all add: new_cpu_def)

lemma forked_simps [simp]:
  "ks_booted (forked t th ls s) = ks_booted s" "ks_alloc (forked t th ls s) = insert t (ks_alloc s)" "ks_thread (forked t th ls s) = (ks_thread s)(t := th)"
  "ks_curspl (forked t th ls s) = (ks_curspl s)(t := IPL_HIGH)" "ks_iplhigh (forked t th ls s) = (ks_iplhigh s)(t := 1)" "ks_irq (forked t th ls s) = ks_irq s"
  "ks_lock (forked t th ls s) = ks_lock s" "ks_pthreads (forked t th ls s) = ks_pthreads s" "ks_lists (forked t th ls s) = ls" "ks_ncpus (forked t th ls s) = ks_ncpus s"
  "ks_cpu (forked t th ls s) = ks_cpu s"
  by (simp_all add: forked_def)

lemma checkstack_init_run:
  assumes "t \<in> ks_alloc s" "t_stack (ks_thread s t) = Some st" "4 \<le> length st"
  shows "thread_checkstack_init t s = Ok () (s\<lparr>ks_thread := (ks_thread s)(t := (ks_thread s t)\<lparr>t_stack := Some (guarded st)\<rparr>)\<rparr>)"
  using assms by (simp add: thread_checkstack_init_def th_mod_def th_get_def kthe_def kfun_defs guarded_def)

text \<open>The first thread of processor \<open>n\<close>, and the state in which it is attached to the kernel process.\<close>

abbreviation boot_thread :: "nat \<Rightarrow> u32 list option \<Rightarrow> nat option \<Rightarrow> thread" where
  "boot_thread n st d \<equiv> fork_thread (''<boot #'' @ decimal n @ ''>'') st d"

definition cpu_born :: "nat \<Rightarrow> thread \<Rightarrow> threadlists \<Rightarrow> threadlists \<Rightarrow> ksys \<Rightarrow> ksys" where
  "cpu_born t th ls1 ls s = (let s1 = forked t th ls (new_cpu ls1 s) in
     s1\<lparr>ks_cpu := (ks_cpu s1)(ks_ncpus s := (ks_cpu s1 (ks_ncpus s))\<lparr>c_curthread := Some t\<rparr>)\<rparr>)"

lemma cpu_create_run:
  assumes free: "ks_lock s (Lk_runqueue n) = free_lock" "ks_lock s (Lk_ipi n) = free_lock" and n: "n = ks_ncpus s"
    and ls: "threadlist_init (tl_zombies n) (ks_lists s) = Ok () ls0" "threadlist_init (tl_runqueue n) ls0 = Ok () ls1" "threadlistnode_init t ls1 = Ok () ls"
    and add: "proc_addthread c True kproc t (cpu_born t (boot_thread n None None) ls1 ls s) = Ok () s2"
    and s2: "t \<in> ks_alloc s2" "ks_thread s2 t = (boot_thread n None None)\<lparr>t_proc := Some kproc\<rparr>"
    and st: "n \<noteq> 0 \<Longrightarrow> stack = Some st \<and> 4 \<le> length st"
  shows "cpu_create c True True (Some t) True True stack s =
    Ok n (s2\<lparr>ks_thread := (ks_thread s2)(t := (boot_thread n (if n = 0 then None else Some (guarded st)) (Some n))\<lparr>t_proc := Some kproc\<rparr>)\<rparr>)"
proof -
  have lock: "(ks_lock s)(Lk_runqueue n := free_lock, Lk_ipi n := free_lock) = ks_lock s"
    using free by (simp add: fun_upd_idem)
  have new: "s\<lparr>ks_cpu := (ks_cpu s)(ks_ncpus s := (ks_cpu s (ks_ncpus s))\<lparr>c_curthread := None, c_isidle := False, c_ipi_pending := 0, c_numshootdown := 0\<rparr>),
      ks_lists := ls1, ks_lock := ks_lock s, ks_ncpus := Suc (ks_ncpus s)\<rparr> = new_cpu ls1 s"
    by (rule ksys.equality) (simp_all add: new_cpu_def)
  have cr: "thread_create (Some t) True name (new_cpu ls1 s) = Ok (Some t) (forked t (fork_thread name None None) ls (new_cpu ls1 s))" for name
    by (rule create_forked) (use ls(3) in simp)
  show ?thesis
  proof (cases "n = 0")
    case True
    then show ?thesis
      using ls add s2 n lock new cr by (simp add: cpu_create_def kthe_def kfun_defs ktry_def cpu_mod_def on_lists_def cpu_born_def th_mod_run) (simp add: fork_thread_def)
  next
    case False
    then show ?thesis
      using ls add s2 n lock new cr st [OF False]
      by (simp add: cpu_create_def kthe_def kfun_defs ktry_def cpu_mod_def on_lists_def cpu_born_def th_mod_run checkstack_init_run) (simp add: fork_thread_def)
  qed
qed


lemma cpu_lists:
  assumes "tl_rep ls (L, T)" "L (tl_zombies n) = None \<or> L (tl_zombies n) = Some []" "L (tl_runqueue n) = None \<or> L (tl_runqueue n) = Some []" "unlisted L t"
  shows "\<exists>ls0 ls1 ls'. threadlist_init (tl_zombies n) ls = Ok () ls0 \<and> threadlist_init (tl_runqueue n) ls0 = Ok () ls1 \<and> threadlistnode_init t ls1 = Ok () ls' \<and>
    tl_rep ls' (L(tl_zombies n \<mapsto> [], tl_runqueue n \<mapsto> []), insert t T)"
proof -
  obtain ls0 where ls0: "threadlist_init (tl_zombies n) ls = Ok () ls0" "tl_rep ls0 (L(tl_zombies n \<mapsto> []), T)"
    using init_run [OF assms(1,2)] by blast
  have "(L(tl_zombies n \<mapsto> [])) (tl_runqueue n) = None \<or> (L(tl_zombies n \<mapsto> [])) (tl_runqueue n) = Some []" using assms(3) by simp
  then obtain ls1 where ls1: "threadlist_init (tl_runqueue n) ls0 = Ok () ls1" "tl_rep ls1 (L(tl_zombies n \<mapsto> [], tl_runqueue n \<mapsto> []), T)"
    using init_run [OF ls0(2)] by blast
  have "unlisted (L(tl_zombies n \<mapsto> [], tl_runqueue n \<mapsto> [])) t" using assms(4) by (auto simp: unlisted_def)
  then show ?thesis using node_init_run [OF ls1(2)] ls0(1) ls1(1) by blast
qed

lemma cpu_create_ok:
  assumes inv: "sys_inv None s L T" and c: "c < ks_ncpus s" and t: "t \<notin> ks_alloc s" "card (ks_alloc s) + 1 < 2 ^ 32" and irq: "\<not> ks_irq s (ks_ncpus s)"
    and st: "4 \<le> length st"
  shows "\<exists>s'. cpu_create c True True (Some t) True True (Some st) s = Ok (ks_ncpus s) s' \<and> ks_ncpus s' = Suc (ks_ncpus s) \<and>
    sys_inv None s' (L(tl_zombies (ks_ncpus s) \<mapsto> [], tl_runqueue (ks_ncpus s) \<mapsto> [])) (insert t T)"
proof -
  note I = sys_invD [OF inv]
  let ?n = "ks_ncpus s"
  obtain cur where cur: "c_curthread (ks_cpu s c) = Some cur" "cpu_ok c cur s" using sys_current [OF inv c] by blast
  have ca: "cur \<in> ks_alloc s" "cur \<noteq> t" using current_okD(1) [OF I(6) c cur(1)] t by auto
  have empty: "L l = None \<or> L l = Some []" if "l = tl_zombies ?n \<or> l = tl_runqueue ?n" for l
  proof (cases "L l")
    case (Some us)
    then show ?thesis using that listed_okD(2) [OF I(5) Some, of "hd us"] by (cases us) (auto simp: spot_def)
  qed simp
  obtain ls0 ls1 ls where ls: "threadlist_init (tl_zombies ?n) (ks_lists s) = Ok () ls0" "threadlist_init (tl_runqueue ?n) ls0 = Ok () ls1"
      "threadlistnode_init t ls1 = Ok () ls" "tl_rep ls (L(tl_zombies ?n \<mapsto> [], tl_runqueue ?n \<mapsto> []), insert t T)"
    using cpu_lists [OF I(8) empty empty unlisted_new [OF I(5) t(1)]] by blast
  let ?b = "cpu_born t (boot_thread ?n None None) ls1 ls s"
  have "cpu_ok c cur ?b" by (rule cpu_ok_frame [OF cur(2)]) (use ca c in \<open>simp_all add: cpu_born_def Let_def\<close>)
  then have add: "proc_addthread c True kproc t ?b = Ok () (?b\<lparr>ks_pthreads := (ks_pthreads ?b)(kproc := ks_pthreads ?b kproc @ [t]),
      ks_thread := (ks_thread ?b)(t := (ks_thread ?b t)\<lparr>t_proc := Some kproc\<rparr>)\<rparr>)" (is "_ = Ok () ?s2")
    using proc_addthread_run [of c cur ?b kproc t True] lock_free(2) [OF I(4), of kproc] by (simp add: cpu_born_def Let_def fork_thread_def)
  let ?s = "?s2\<lparr>ks_thread := (ks_thread ?s2)(t := (boot_thread ?n (if ?n = 0 then None else Some (guarded st)) (Some ?n))\<lparr>t_proc := Some kproc\<rparr>)\<rparr>"
  have "cpu_create c True True (Some t) True True (Some st) s = Ok ?n ?s"
    by (rule cpu_create_run [OF _ _ refl ls(1-3) add]) (use lock_free [OF I(4)] st in \<open>simp_all add: cpu_born_def Let_def\<close>)
  moreover have "sys_inv None ?s (L(tl_zombies ?n \<mapsto> [], tl_runqueue ?n \<mapsto> [])) (insert t T)"
    by (rule sys_inv_cpu [OF inv t refl]) (use ls(4) irq c guarded_ok [OF st] in \<open>auto simp: cpu_born_def Let_def fork_thread_def\<close>)
  ultimately show ?thesis by (intro exI [of _ ?s]) (simp add: cpu_born_def Let_def)
qed

text \<open>
  The state before \<^verbatim>\<open>thread_bootstrap\<close>: no thread structure, no processor, interrupts off, and every spinlock free
  (\<^verbatim>\<open>kproc\<close> and its lock exist, as \<^verbatim>\<open>proc_bootstrap\<close> leaves them).
\<close>

definition power_on :: "ksys \<Rightarrow> bool" where
  "power_on s \<longleftrightarrow> \<not> ks_booted s \<and> ks_alloc s = {} \<and> ks_lock s = (\<lambda>_. free_lock) \<and> ks_irq s = (\<lambda>_. False)"

lemma proc_addthread_early:
  assumes "\<not> ks_booted s" "ks_lock s (Lk_proc p) = free_lock" "t \<in> ks_alloc s" "t_proc (ks_thread s t) = None"
  shows "proc_addthread c True p t s = Ok () (s\<lparr>ks_pthreads := (ks_pthreads s)(p := ks_pthreads s p @ [t]), ks_thread := (ks_thread s)(t := (ks_thread s t)\<lparr>t_proc := Some p\<rparr>)\<rparr>)"
proof -
  have "s\<lparr>ks_pthreads := pt, ks_lock := (ks_lock s)(Lk_proc p := free_lock), ks_thread := th\<rparr> = s\<lparr>ks_pthreads := pt, ks_thread := th\<rparr>" for pt th
    by (rule ksys.equality) (use assms(2) in \<open>simp_all add: fun_upd_idem\<close>)
  then show ?thesis
    using assms by (simp add: proc_addthread_def ks_acquire_def ks_release_def ks_on_spl_def spinlock_acquire_def spinlock_release_def on_spl_def spl_defs th_get_def th_mod_def
        kfun_defs spinlock_data_get_def spinlock_data_testandset_def spinlock_data_set_def free_lock_def)
qed


lemma bootstrap_ok:
  assumes on: "power_on s"
  shows "\<exists>s'. thread_bootstrap True True (Some t) True True s = Ok () s' \<and> ks_ncpus s' = 1 \<and> ks_lock s' = ks_lock s \<and> ks_alloc s' = {t} \<and>
    c_curthread (ks_cpu s' 0) = Some t \<and> \<not> c_isidle (ks_cpu s' 0) \<and> t_proc (ks_thread s' t) = Some kproc \<and>
    sys_inv None s' [tl_zombies 0 \<mapsto> [], tl_runqueue 0 \<mapsto> []] {t}"
proof -
  let ?s = "s\<lparr>ks_ncpus := 0\<rparr>" and ?z = "s\<lparr>ks_booted := True, ks_ncpus := 0\<rparr>"
  have z: "sys_inv None ?z Map.empty {}"
    using on by (simp add: sys_inv_def sys_lists_def sys_places_def listed_ok_def current_ok_def none_lost_def sys_threads_def sys_levels_def parked_ok_def locks_ok_def power_on_def tl_rep.simps)
  have rep: "tl_rep (ks_lists ?s) (Map.empty, {})" by (simp add: tl_rep.simps)
  have un: "unlisted Map.empty t" by (simp add: unlisted_def)
  obtain ls0 ls1 ls where ls: "threadlist_init (tl_zombies 0) (ks_lists ?s) = Ok () ls0" "threadlist_init (tl_runqueue 0) ls0 = Ok () ls1"
      "threadlistnode_init t ls1 = Ok () ls" "tl_rep ls ([tl_zombies 0 \<mapsto> [], tl_runqueue 0 \<mapsto> []], insert t {})"
    using cpu_lists [OF rep disjI1 [OF refl] disjI1 [OF refl] un, of 0] by blast
  let ?b = "cpu_born t (boot_thread 0 None None) ls1 ls ?s"
  have add: "proc_addthread 0 True kproc t ?b = Ok () (?b\<lparr>ks_pthreads := (ks_pthreads ?b)(kproc := ks_pthreads ?b kproc @ [t]),
      ks_thread := (ks_thread ?b)(t := (ks_thread ?b t)\<lparr>t_proc := Some kproc\<rparr>)\<rparr>)" (is "_ = Ok () ?s2")
    by (rule proc_addthread_early) (use on in \<open>simp_all add: cpu_born_def Let_def power_on_def fork_thread_def\<close>)
  define s3 where "s3 = ?s2\<lparr>ks_thread := (ks_thread ?s2)(t := (boot_thread 0 None (Some 0))\<lparr>t_proc := Some kproc\<rparr>)\<rparr>"
  have "cpu_create 0 True True (Some t) True True None ?s = Ok 0 (?s2\<lparr>ks_thread := (ks_thread ?s2)(t := (boot_thread 0 (if (0::nat) = 0 then None else Some (guarded [])) (Some 0))
      \<lparr>t_proc := Some kproc\<rparr>)\<rparr>)"
    by (rule cpu_create_run [OF _ _ _ ls(1-3) add]) (use on in \<open>simp_all add: cpu_born_def Let_def power_on_def\<close>)
  then have run: "cpu_create 0 True True (Some t) True True None ?s = Ok 0 s3" by (simp add: s3_def)
  let ?s4 = "s3\<lparr>ks_booted := True\<rparr>"
  have cur: "t \<in> ks_alloc s3" "c_curthread (ks_cpu s3 0) = Some t" "t_proc (ks_thread s3 t) = Some kproc" "t_cpu (ks_thread s3 t) = Some 0"
    by (simp_all add: s3_def cpu_born_def Let_def fork_thread_def)
  then have "th_mod t (\<lambda>th. th\<lparr>t_cpu := Some 0\<rparr>) ?s4 = Ok () ?s4"
    by (simp add: th_mod_run) (rule ksys.equality; simp add: fun_upd_idem)
  then have "thread_bootstrap True True (Some t) True True s = Ok () ?s4"
    using run cur by (simp add: thread_bootstrap_def kfun_defs curthread_def kthe_def th_get_def)
  moreover have "sys_inv None ?s4 (Map.empty(tl_zombies 0 \<mapsto> [], tl_runqueue 0 \<mapsto> [])) (insert t {})"
    by (rule sys_inv_cpu [OF z]) (use on ls(4) in \<open>auto simp: cpu_born_def Let_def fork_thread_def power_on_def stack_ok_def s3_def new_cpu_def\<close>)
  moreover have "ks_ncpus ?s4 = 1" "ks_lock ?s4 = ks_lock s" "ks_alloc ?s4 = {t}" "c_curthread (ks_cpu ?s4 0) = Some t" "\<not> c_isidle (ks_cpu ?s4 0)"
      "t_proc (ks_thread ?s4 t) = Some kproc"
    using on by (simp_all add: cpu_born_def Let_def s3_def new_cpu_def power_on_def)
  ultimately show ?thesis by blast
qed


section \<open>The machine\<close>

text \<open>
  The processors take steps in any order. A step is a whole call of an operation of the thread system, by the current thread of a processor or by an
  interrupt handler on it; the spinlocks make the parts that work on shared lists appear at once. Every operation has the precondition its
  callers have to respect: who may sleep, yield or exit holds no other spinlock; memory that is allocated is not in use; a channel that is
  destroyed has no sleepers. Lock operations take place when the lock is free, until then the processor spins. \<open>W\<close> is the set of wait channels
  that exist.
\<close>

datatype sysop =
    Cpu_create nat nat "u32 list"
  | Fork nat "nat option" bool "u32 list option" bool string "nat option" nat nat nat
  | Yield nat
  | Exit nat
  | Leave_proc nat
  | Set_spl nat int
  | Wchan_create "nat option" string
  | Wchan_destroy nat
  | Wchan_lock nat nat
  | Wchan_unlock nat nat
  | Wchan_sleep nat nat
  | Wchan_wakeone nat nat
  | Wchan_wakeall nat nat
  | Migrate nat
  | Idle nat

fun sys_run :: "sysop \<Rightarrow> (ksys, unit) kfun" where
  "sys_run (Cpu_create c t st) = kbind (cpu_create c True True (Some t) True True (Some st)) (\<lambda>_. kret ())"
| "sys_run (Fork c mem name_ok stack add_ok name proc e d1 d2) = thread_fork c mem name_ok stack add_ok name proc e d1 d2"
| "sys_run (Yield c) = thread_yield c"
| "sys_run (Exit c) = thread_exit c"
| "sys_run (Leave_proc c) = kbind (curthread c) (proc_remthread c)"
| "sys_run (Set_spl c spl) = kbind (ks_splx c spl) (\<lambda>_. kret ())"
| "sys_run (Wchan_create mem name) = kbind (wchan_create mem name) (\<lambda>_. kret ())"
| "sys_run (Wchan_destroy w) = wchan_destroy w"
| "sys_run (Wchan_lock c w) = wchan_lock c w"
| "sys_run (Wchan_unlock c w) = wchan_unlock c w"
| "sys_run (Wchan_sleep c w) = wchan_sleep c w"
| "sys_run (Wchan_wakeone c w) = wchan_wakeone c w"
| "sys_run (Wchan_wakeall c w) = wchan_wakeall c w"
| "sys_run (Migrate c) = thread_consider_migration c"
| "sys_run (Idle c) = kbind (thread_idle c) (\<lambda>_. kret ())"

definition busy :: "nat \<Rightarrow> ksys \<Rightarrow> bool" where
  "busy c s \<longleftrightarrow> c < ks_ncpus s \<and> \<not> c_isidle (ks_cpu s c)"

definition on_cpu :: "nat \<Rightarrow> ksys \<Rightarrow> thread" where
  "on_cpu c s = ks_thread s (the (c_curthread (ks_cpu s c)))"

definition fresh_mem :: "nat \<Rightarrow> ksys \<Rightarrow> bool" where
  "fresh_mem t s \<longleftrightarrow> t \<notin> ks_alloc s \<and> card (ks_alloc s) + 1 < 2 ^ 32"

fun sys_can :: "sysop \<Rightarrow> ksys \<Rightarrow> nat set \<Rightarrow> bool" where
  "sys_can (Cpu_create c t st) s W \<longleftrightarrow> busy c s \<and> fresh_mem t s \<and> 4 \<le> length st \<and> \<not> ks_irq s (ks_ncpus s)"
| "sys_can (Fork c mem name_ok stack add_ok name proc e d1 d2) s W \<longleftrightarrow> busy c s \<and> (case mem of None \<Rightarrow> True | Some t \<Rightarrow> fresh_mem t s) \<and>
     (case stack of None \<Rightarrow> True | Some st \<Rightarrow> 4 \<le> length st) \<and> (proc = None \<longrightarrow> t_proc (on_cpu c s) \<noteq> None)"
| "sys_can (Yield c) s W \<longleftrightarrow> c < ks_ncpus s \<and> (busy c s \<longrightarrow> held s c = {})"
| "sys_can (Exit c) s W \<longleftrightarrow> busy c s \<and> held s c = {} \<and> t_proc (on_cpu c s) \<in> {Some kproc, None}"
| "sys_can (Leave_proc c) s W \<longleftrightarrow> busy c s \<and> t_proc (on_cpu c s) \<noteq> None"
| "sys_can (Set_spl c spl) s W \<longleftrightarrow> busy c s \<and> spl \<in> {IPL_NONE, IPL_HIGH}"
| "sys_can (Wchan_create mem name) s W \<longleftrightarrow> (case mem of None \<Rightarrow> True | Some w \<Rightarrow> w \<notin> W \<and> ks_lock s (Lk_wchan w) = free_lock)"
| "sys_can (Wchan_destroy w) s W \<longleftrightarrow> w \<in> W \<and> ks_lock s (Lk_wchan w) = free_lock \<and> tl_items (tl_wchan w) (ks_lists s) = []"
| "sys_can (Wchan_lock c w) s W \<longleftrightarrow> busy c s \<and> w \<in> W \<and> ks_lock s (Lk_wchan w) = free_lock"
| "sys_can (Wchan_unlock c w) s W \<longleftrightarrow> busy c s \<and> Lk_wchan w \<in> held s c"
| "sys_can (Wchan_sleep c w) s W \<longleftrightarrow> busy c s \<and> w \<in> W \<and> held s c = {Lk_wchan w} \<and> \<not> t_in_interrupt (on_cpu c s)"
| "sys_can (Wchan_wakeone c w) s W \<longleftrightarrow> c < ks_ncpus s \<and> w \<in> W \<and> ks_lock s (Lk_wchan w) = free_lock"
| "sys_can (Wchan_wakeall c w) s W \<longleftrightarrow> c < ks_ncpus s \<and> w \<in> W \<and> ks_lock s (Lk_wchan w) = free_lock"
| "sys_can (Migrate c) s W \<longleftrightarrow> c < ks_ncpus s"
| "sys_can (Idle c) s W \<longleftrightarrow> c < ks_ncpus s \<and> c_isidle (ks_cpu s c)"

fun sys_wchans :: "sysop \<Rightarrow> nat set \<Rightarrow> nat set" where
  "sys_wchans (Wchan_create (Some w) name) W = insert w W"
| "sys_wchans (Wchan_destroy w) W = W - {w}"
| "sys_wchans op W = W"

inductive sys_reachable :: "ksys \<Rightarrow> nat set \<Rightarrow> bool" where
  boot: "power_on s \<Longrightarrow> thread_bootstrap True True (Some t) True True s = Ok () s' \<Longrightarrow> sys_reachable s' {}"
| step: "sys_reachable s W \<Longrightarrow> sys_can op s W \<Longrightarrow> sys_run op s = Ok () s' \<or> sys_run op s = Err e s' \<Longrightarrow> sys_reachable s' (sys_wchans op W)"

definition sys_rep :: "ksys \<Rightarrow> nat set \<Rightarrow> (nat \<rightharpoonup> nat list) \<Rightarrow> nat set \<Rightarrow> bool" where
  "sys_rep s W L T \<longleftrightarrow> sys_inv None s L T \<and> (\<forall>c. L (tl_local c) = None \<or> L (tl_local c) = Some []) \<and> (\<forall>w. L (tl_wchan w) \<noteq> None \<longleftrightarrow> w \<in> W)"

definition sys_good :: "ksys \<Rightarrow> nat set \<Rightarrow> bool" where
  "sys_good s W \<longleftrightarrow> (\<exists>L T. sys_rep s W L T)"

text \<open>A result that is not a panic, in a state where the invariant holds again.\<close>

definition sys_fine :: "(unit, ksys) kres \<Rightarrow> nat set \<Rightarrow> bool" where
  "sys_fine r W \<longleftrightarrow> (case r of Ok _ s' \<Rightarrow> sys_good s' W | Err _ s' \<Rightarrow> sys_good s' W | Panic \<Rightarrow> False)"

lemma sys_repI:
  assumes "sys_rep s W L T" "sys_inv None s' L' T'" "\<And>e. e \<noteq> c \<Longrightarrow> L' (tl_local e) = L (tl_local e)"
    "L' (tl_local c) = L (tl_local c) \<or> L' (tl_local c) = None \<or> L' (tl_local c) = Some []" "same_wchans L L'"
  shows "sys_good s' W"
  using assms unfolding sys_good_def sys_rep_def same_wchans_def by metis

lemma sys_repD:
  assumes "sys_rep s W L T"
  shows "sys_inv None s L T" "L (tl_local c) = None \<or> L (tl_local c) = Some []" "w \<in> W \<Longrightarrow> \<exists>ts. L (tl_wchan w) = Some ts" "w \<notin> W \<Longrightarrow> L (tl_wchan w) = None"
  using assms unfolding sys_rep_def by (blast, blast, force, blast)


lemma sys_fine_Ok: "r = Ok () s' \<Longrightarrow> sys_good s' W \<Longrightarrow> sys_fine r W"
  by (simp add: sys_fine_def)

lemma busy_current:
  assumes "sys_inv None s L T" "busy c s"
  obtains t where "c < ks_ncpus s" "\<not> c_isidle (ks_cpu s c)" "c_curthread (ks_cpu s c) = Some t" "on_cpu c s = ks_thread s t" "t \<in> ks_alloc s"
proof -
  have c: "c < ks_ncpus s" "\<not> c_isidle (ks_cpu s c)" using assms(2) by (simp_all add: busy_def)
  obtain t where t: "c_curthread (ks_cpu s c) = Some t" using sys_current [OF assms(1) c(1)] by blast
  show ?thesis by (rule that [OF c t]) (use t current_okD(1) [OF sys_invD(6) [OF assms(1)] c(1) t] in \<open>simp_all add: on_cpu_def\<close>)
qed

lemma fine_cpu_create:
  assumes rep: "sys_rep s W L T" and can: "sys_can (Cpu_create c t st) s W"
  shows "sys_fine (sys_run (Cpu_create c t st) s) W"
proof -
  obtain s' where s': "cpu_create c True True (Some t) True True (Some st) s = Ok (ks_ncpus s) s'"
      "sys_inv None s' (L(tl_zombies (ks_ncpus s) \<mapsto> [], tl_runqueue (ks_ncpus s) \<mapsto> [])) (insert t T)"
    using cpu_create_ok [OF sys_repD(1) [OF rep], of c t st] can by (auto simp: busy_def fresh_mem_def)
  have "sys_good s' W" by (rule sys_repI [OF rep s'(2)]) (simp_all add: same_wchans_def)
  then show ?thesis using s'(1) by (simp add: sys_fine_def kbind_def kret_def)
qed

lemma fine_fork:
  assumes rep: "sys_rep s W L T" and can: "sys_can (Fork c mem name_ok stack add_ok name proc e d1 d2) s W"
  shows "sys_fine (sys_run (Fork c mem name_ok stack add_ok name proc e d1 d2) s) W"
proof -
  note inv = sys_repD(1) [OF rep]
  have "busy c s" using can by simp
  then obtain cur where cur: "c < ks_ncpus s" "c_curthread (ks_cpu s c) = Some cur" "on_cpu c s = ks_thread s cur" using busy_current [OF inv] by metis
  have mem: "t \<notin> ks_alloc s \<and> card (ks_alloc s) + 1 < 2 ^ 32" if "mem = Some t" for t using can that by (simp add: fresh_mem_def)
  have stack: "4 \<le> length st" if "stack = Some st" for st using can that by simp
  have proc: "t_proc (ks_thread s cur) \<noteq> None" if "proc = None" using can that cur(3) by simp
  let ?ok = "mem \<noteq> None \<and> name_ok \<and> stack \<noteq> None \<and> add_ok"
  obtain s' L' T' where s': "thread_fork c mem name_ok stack add_ok name proc e d1 d2 s = (if ?ok then Ok () s' else Err ENOMEM s')" "sys_inv None s' L' T'"
      "L' = (if ?ok then L(tl_runqueue c \<mapsto> the (L (tl_runqueue c)) @ [the mem]) else L)"
    using thread_fork_ok [OF inv cur(1,2), of mem stack proc name_ok add_ok name e d1 d2, OF mem stack proc] by blast
  have "sys_good s' W" by (rule sys_repI [OF rep s'(2)]) (auto simp: s'(3) same_wchans_def)
  then show ?thesis using s'(1) by (simp add: sys_fine_def)
qed

lemma fine_switch:
  assumes rep: "sys_rep s W L T" and c: "c < ks_ncpus s" and pre: "\<not> c_isidle (ks_cpu s c) \<Longrightarrow> switch_pre c s L new wc"
  shows "sys_fine (thread_switch c new wc s) W"
proof -
  obtain s' L' where s': "thread_switch c new wc s = Ok () s'" "sys_inv None s' L' T" "\<forall>e. L' (tl_local e) = L (tl_local e)" "same_wchans L L'"
    using sys_switch [OF sys_repD(1) [OF rep] c pre] by blast
  have "sys_good s' W" by (rule sys_repI [OF rep s'(2)]) (use s'(3,4) in simp_all)
  then show ?thesis using s'(1) by (simp add: sys_fine_def)
qed

lemma fine_sleep:
  assumes rep: "sys_rep s W L T" and can: "sys_can (Wchan_sleep c w) s W"
  shows "sys_fine (sys_run (Wchan_sleep c w) s) W"
proof -
  have "busy c s" using can by simp
  then obtain cur where cur: "c < ks_ncpus s" "c_curthread (ks_cpu s c) = Some cur" "on_cpu c s = ks_thread s cur" "cur \<in> ks_alloc s"
    using busy_current [OF sys_repD(1) [OF rep]] by metis
  have "sys_fine (thread_switch c S_SLEEP (Some w) s) W"
    by (rule fine_switch [OF rep cur(1)]) (use can sys_repD(3) [OF rep, of w] in auto)
  moreover have "wchan_sleep c w s = thread_switch c S_SLEEP (Some w) s"
    using can cur by (simp add: wchan_sleep_def curthread_def th_get_def kthe_def kfun_defs)
  ultimately show ?thesis by simp
qed

lemma fine_exit:
  assumes rep: "sys_rep s W L T" and can: "sys_can (Exit c) s W"
  shows "sys_fine (sys_run (Exit c) s) W"
proof -
  note inv = sys_repD(1) [OF rep]
  have "busy c s" using can by simp
  then obtain cur where cur: "c < ks_ncpus s" "\<not> c_isidle (ks_cpu s c)" "c_curthread (ks_cpu s c) = Some cur" "on_cpu c s = ks_thread s cur" using busy_current [OF inv] by metis
  obtain s' L' where s': "thread_exit c s = Ok () s'" "sys_inv None s' L' T" "\<forall>e. L' (tl_local e) = L (tl_local e)" "same_wchans L L'"
    using thread_exit_ok [OF inv cur(1-3)] can cur(4) by auto
  have "sys_good s' W" by (rule sys_repI [OF rep s'(2)]) (use s'(3,4) in simp_all)
  then show ?thesis using s'(1) by (simp add: sys_fine_def)
qed

lemma fine_idle:
  assumes rep: "sys_rep s W L T" and can: "sys_can (Idle c) s W"
  shows "sys_fine (sys_run (Idle c) s) W"
proof -
  note inv = sys_repD(1) [OF rep]
  obtain s1 where s1: "thread_idle c s = thread_switch_next c s1" "sys_inv (Some c) s1 L T" using thread_idle_ok [OF inv] can by auto
  obtain q where q: "L (tl_runqueue c) = Some q" using sys_listsD(6) [OF sys_invD(1) [OF inv]] can by auto
  obtain s' b L' where s': "thread_switch_next c s1 = Ok b s'" "sys_inv None s' L' T"
      "L' = (case q of [] \<Rightarrow> L | u # us \<Rightarrow> L(tl_runqueue c \<mapsto> us, tl_zombies c \<mapsto> []))"
    using switch_next_ok [OF s1(2) q] by (cases q) auto
  have "sys_good s' W" by (rule sys_repI [OF rep s'(2)]) (auto simp: s'(3) same_wchans_def split: list.splits)
  then show ?thesis using s1(1) s'(1) by (simp add: sys_fine_def kbind_def kret_def)
qed

lemma fine_wakeup:
  assumes rep: "sys_rep s W L T" and can: "sys_can (Wchan_wakeone c w) s W"
  shows "sys_fine (sys_run (Wchan_wakeone c w) s) W" "sys_fine (sys_run (Wchan_wakeall c w) s) W"
proof -
  note inv = sys_repD(1) [OF rep]
  have c: "c < ks_ncpus s" "ks_lock s (Lk_wchan w) = free_lock" using can by simp_all
  obtain ts where ts: "L (tl_wchan w) = Some ts" using sys_repD(3) [OF rep] can by auto
  obtain s' d where s': "wchan_wakeone c w s = Ok () s'"
      "sys_inv None s' (case ts of [] \<Rightarrow> L | u # us \<Rightarrow> L(tl_wchan w \<mapsto> us, tl_runqueue d \<mapsto> the (L (tl_runqueue d)) @ [u])) T"
    using wakeone_ok [OF inv c ts] by blast
  have "sys_good s' W" by (rule sys_repI [OF rep s'(2)]) (use ts in \<open>auto simp: same_wchans_def split: list.splits\<close>)
  then show "sys_fine (sys_run (Wchan_wakeone c w) s) W" using s'(1) by (simp add: sys_fine_def)
  obtain s' L' where s': "wchan_wakeall c w s = Ok () s'" "sys_inv None s' L' T" "L' (tl_local c) = Some []"
      "\<forall>e. e \<noteq> c \<longrightarrow> L' (tl_local e) = L (tl_local e)" "same_wchans L L'"
    using wakeall_ok [OF inv c ts sys_repD(2) [OF rep]] by blast
  have "sys_good s' W" by (rule sys_repI [OF rep s'(2)]) (use s'(3-5) in auto)
  then show "sys_fine (sys_run (Wchan_wakeall c w) s) W" using s'(1) by (simp add: sys_fine_def)
qed


lemma fine_wchan:
  assumes rep: "sys_rep s W L T"
  shows "sys_can (Wchan_create mem name) s W \<Longrightarrow> sys_fine (sys_run (Wchan_create mem name) s) (sys_wchans (Wchan_create mem name) W)"
    and "sys_can (Wchan_destroy w) s W \<Longrightarrow> sys_fine (sys_run (Wchan_destroy w) s) (W - {w})"
    and "sys_can (Wchan_lock c w) s W \<Longrightarrow> sys_fine (sys_run (Wchan_lock c w) s) W"
    and "sys_can (Wchan_unlock c w) s W \<Longrightarrow> sys_fine (sys_run (Wchan_unlock c w) s) W"
proof -
  note inv = sys_repD(1) [OF rep]
  show "sys_fine (sys_run (Wchan_create mem name) s) (sys_wchans (Wchan_create mem name) W)" if can: "sys_can (Wchan_create mem name) s W"
  proof (cases mem)
    case None
    then show ?thesis using rep by (auto simp: sys_fine_def sys_good_def wchan_create_def kbind_def kret_def)
  next
    case (Some v)
    obtain s' where s': "wchan_create (Some v) name s = Ok (Some v) s'" "sys_inv None s' (L(tl_wchan v \<mapsto> [])) T"
      using wchan_create_ok [OF inv sys_repD(4) [OF rep], of v name] can Some by auto
    have "sys_rep s' (insert v W) (L(tl_wchan v \<mapsto> [])) T" using s'(2) rep by (simp add: sys_rep_def)
    then show ?thesis using s'(1) Some by (auto simp: sys_fine_def sys_good_def kbind_def kret_def)
  qed
  show "sys_fine (sys_run (Wchan_destroy w) s) (W - {w})" if can: "sys_can (Wchan_destroy w) s W"
  proof -
    obtain ts where ts: "L (tl_wchan w) = Some ts" using sys_repD(3) [OF rep] can by auto
    then have "ts = []" using tl_items_ok [OF sys_invD(8) [OF inv] ts] can by simp
    then have d: "wchan_destroy w s = Ok () s" "sys_inv None s (L(tl_wchan w := None)) T" using wchan_destroy_ok [OF inv] ts can by auto
    have "sys_rep s (W - {w}) (L(tl_wchan w := None)) T" using d(2) rep by (simp add: sys_rep_def)
    then show ?thesis using d(1) by (auto simp: sys_fine_def sys_good_def)
  qed
  show "sys_fine (sys_run (Wchan_lock c w) s) W" if can: "sys_can (Wchan_lock c w) s W"
  proof -
    obtain s' where s': "wchan_lock c w s = Ok () s'" "sys_inv None s' L T" using wchan_lock_ok [OF inv] can by (auto simp: busy_def)
    have "sys_good s' W" by (rule sys_repI [OF rep s'(2)]) simp_all
    then show ?thesis using s'(1) by (simp add: sys_fine_def)
  qed
  show "sys_fine (sys_run (Wchan_unlock c w) s) W" if can: "sys_can (Wchan_unlock c w) s W"
  proof -
    obtain s' where s': "wchan_unlock c w s = Ok () s'" "sys_inv None s' L T" using wchan_unlock_ok [OF inv, of c w] can by (auto simp: busy_def)
    have "sys_good s' W" by (rule sys_repI [OF rep s'(2)]) simp_all
    then show ?thesis using s'(1) by (simp add: sys_fine_def)
  qed
qed

lemma fine_local:
  assumes rep: "sys_rep s W L T"
  shows "sys_can (Set_spl c spl) s W \<Longrightarrow> sys_fine (sys_run (Set_spl c spl) s) W"
    and "sys_can (Leave_proc c) s W \<Longrightarrow> sys_fine (sys_run (Leave_proc c) s) W"
    and "sys_can (Migrate c) s W \<Longrightarrow> sys_fine (sys_run (Migrate c) s) W"
proof -
  note inv = sys_repD(1) [OF rep]
  show "sys_fine (sys_run (Set_spl c spl) s) W" if can: "sys_can (Set_spl c spl) s W"
  proof -
    have "busy c s" using can by simp
    then obtain cur where cur: "c < ks_ncpus s" "\<not> c_isidle (ks_cpu s c)" "c_curthread (ks_cpu s c) = Some cur" using busy_current [OF inv] by metis
    have s': "ks_splx c spl s = Ok (ks_curspl s cur) (st_splx c cur spl s)" "sys_inv None (st_splx c cur spl s) L T" using sys_splx_ok [OF inv cur] can by auto
    have "sys_good (st_splx c cur spl s) W" by (rule sys_repI [OF rep s'(2)]) simp_all
    then show ?thesis using s'(1) by (simp add: sys_fine_def kbind_def kret_def)
  qed
  show "sys_fine (sys_run (Leave_proc c) s) W" if can: "sys_can (Leave_proc c) s W"
  proof -
    have "busy c s" using can by simp
    then obtain cur where cur: "c < ks_ncpus s" "\<not> c_isidle (ks_cpu s c)" "c_curthread (ks_cpu s c) = Some cur" "on_cpu c s = ks_thread s cur"
      using busy_current [OF inv] by metis
    obtain p where p: "t_proc (ks_thread s cur) = Some p" using can cur(4) by auto
    obtain s' where s': "proc_remthread c cur s = Ok () s'" "sys_inv None s' L T" using proc_remthread_ok [OF inv cur(1-3) p] by blast
    have "sys_good s' W" by (rule sys_repI [OF rep s'(2)]) simp_all
    then show ?thesis using s'(1) cur(3) by (simp add: sys_fine_def curthread_def kthe_def kfun_defs)
  qed
  show "sys_fine (sys_run (Migrate c) s) W" if can: "sys_can (Migrate c) s W"
  proof -
    obtain s' L' where s': "thread_consider_migration c s = Ok () s'" "sys_inv None s' L' T" "L' (tl_local c) = None \<or> L' (tl_local c) = Some []"
        "\<forall>e. e \<noteq> c \<longrightarrow> L' (tl_local e) = L (tl_local e)" "same_wchans L L'"
      using migration_ok [OF inv _ sys_repD(2) [OF rep], of c] can by auto
    have "sys_good s' W" by (rule sys_repI [OF rep s'(2)]) (use s'(3-5) in auto)
    then show ?thesis using s'(1) by (simp add: sys_fine_def)
  qed
qed

lemma sys_op_fine:
  assumes "sys_good s W" "sys_can op s W"
  shows "sys_fine (sys_run op s) (sys_wchans op W)"
proof -
  obtain L T where rep: "sys_rep s W L T" using assms(1) by (auto simp: sys_good_def)
  show ?thesis
  proof (cases op)
    case (Yield c)
    have "sys_fine (thread_switch c S_READY None s) W" by (rule fine_switch [OF rep]) (use Yield assms(2) in \<open>auto simp: busy_def\<close>)
    then show ?thesis using Yield by (simp add: thread_yield_def)
  next
    case (Wchan_wakeall c w)
    then show ?thesis using fine_wakeup(2) [OF rep, of c w] assms(2) by simp
  qed (use assms(2) fine_cpu_create [OF rep] fine_fork [OF rep] fine_exit [OF rep] fine_local [OF rep] fine_wchan [OF rep] fine_sleep [OF rep] fine_wakeup(1) [OF rep]
      fine_idle [OF rep] in \<open>simp_all del: sys_run.simps sys_can.simps\<close>)
qed

lemma sys_reachable_good: "sys_reachable s W \<Longrightarrow> sys_good s W"
proof (induction rule: sys_reachable.induct)
  case (boot s t s')
  obtain s2 where s2: "thread_bootstrap True True (Some t) True True s = Ok () s2" "sys_inv None s2 [tl_zombies 0 \<mapsto> [], tl_runqueue 0 \<mapsto> []] {t}"
    using bootstrap_ok [OF boot(1)] by blast
  then have "sys_rep s' {} [tl_zombies 0 \<mapsto> [], tl_runqueue 0 \<mapsto> []] {t}" using boot(2) by (simp add: sys_rep_def)
  then show ?case by (auto simp: sys_good_def)
next
  case (step s W op s' e)
  from sys_op_fine [OF step(4,2)] step(3) show ?case by (auto simp: sys_fine_def)
qed


subsection \<open>Turns\<close>

lemma yield_rotates:
  assumes rep: "sys_rep s W L T" and c: "busy c s" "held s c = {}" and q: "L (tl_runqueue c) = Some (u # us)"
  shows "\<exists>s' L' t. thread_yield c s = Ok () s' \<and> sys_rep s' W L' T \<and> busy c s' \<and> held s' c = {} \<and> c_curthread (ks_cpu s c) = Some t \<and>
    c_curthread (ks_cpu s' c) = Some u \<and> L' (tl_runqueue c) = Some (us @ [t])"
proof -
  note inv = sys_repD(1) [OF rep]
  obtain t where t: "c < ks_ncpus s" "\<not> c_isidle (ks_cpu s c)" "c_curthread (ks_cpu s c) = Some t" using busy_current [OF inv c(1)] by metis
  have "switch_pre c s L S_READY None" using c(2) by simp
  from thread_switch_ok [OF inv t this] q obtain s3 where
    s3: "thread_switch c S_READY None s = kbind (thread_switch_next c) (\<lambda>_. kret ()) s3" "sys_inv (Some c) s3 (L(tl_runqueue c \<mapsto> (u # us) @ [t])) T"
      "ks_ncpus s3 = ks_ncpus s" by auto
  let ?L = "L(tl_runqueue c \<mapsto> (u # us) @ [t])"
  have "?L (tl_runqueue c) = Some (u # us @ [t])" by simp
  from switch_next_ok [OF s3(2) this] obtain s' where
    s': "ks_ncpus s' = ks_ncpus s3" "thread_switch_next c s3 = Ok True s'" "sys_inv None s' (?L(tl_runqueue c \<mapsto> us @ [t], tl_zombies c \<mapsto> [])) T"
      "c_curthread (ks_cpu s' c) = Some u" "\<not> c_isidle (ks_cpu s' c)" "held s' c = {}" by auto
  let ?L' = "?L(tl_runqueue c \<mapsto> us @ [t], tl_zombies c \<mapsto> [])"
  have "sys_rep s' W ?L' T" using s'(3) rep by (simp add: sys_rep_def)
  moreover have "thread_yield c s = Ok () s'" using s3(1) s'(2) by (simp add: thread_yield_def kbind_def kret_def)
  moreover have "busy c s'" using s' s3(3) t(1) by (simp add: busy_def)
  moreover have "?L' (tl_runqueue c) = Some (us @ [t])" by simp
  ultimately show ?thesis using s'(4,6) t(3) by blast
qed

text \<open>The thread that runs gives up the processor, then the next one does, \<open>n\<close> times in all.\<close>

fun thread_turns :: "nat \<Rightarrow> nat \<Rightarrow> (ksys, unit) kfun" where
  "thread_turns 0 c = kret ()"
| "thread_turns (Suc n) c = kbind (thread_yield c) (\<lambda>_. thread_turns n c)"

lemma turns_run:
  assumes "sys_rep s W L T" "busy c s" "held s c = {}" "L (tl_runqueue c) = Some q" "k < length q"
  shows "\<exists>s'. thread_turns (Suc k) c s = Ok () s' \<and> c_curthread (ks_cpu s' c) = Some (q ! k)"
  using assms
proof (induction k arbitrary: s L q)
  case 0
  then obtain u us where q: "q = u # us" by (cases q) auto
  then show ?case using yield_rotates [OF 0(1-3), of u us] 0(4) by (auto simp: kbind_def kret_def)
next
  case (Suc k)
  then obtain u us where q: "q = u # us" by (cases q) auto
  have L: "L (tl_runqueue c) = Some (u # us)" using Suc(5) q by simp
  obtain s1 L1 t where s1: "thread_yield c s = Ok () s1" "sys_rep s1 W L1 T" "busy c s1" "held s1 c = {}" "L1 (tl_runqueue c) = Some (us @ [t])"
    using yield_rotates [OF Suc(2-4) L] by blast
  have k: "k < length (us @ [t])" "(us @ [t]) ! k = q ! Suc k" using Suc(6) q by (simp_all add: nth_append)
  have "thread_turns (Suc (Suc k)) c s = thread_turns (Suc k) c s1" using s1(1) by (simp add: kbind_def)
  then show ?case using Suc.IH [OF s1(2-5) k(1)] k(2) by simp
qed

subsection \<open>Shootdown requests\<close>

fun ipi_posts :: "nat \<Rightarrow> nat \<Rightarrow> nat list \<Rightarrow> (ksys, unit) kfun" where
  "ipi_posts c d [] = kret ()"
| "ipi_posts c d (m # ms) = kbind (ipi_tlbshootdown c d m) (\<lambda>_. ipi_posts c d ms)"

definition posted :: "nat \<Rightarrow> nat \<Rightarrow> ksys \<Rightarrow> ksys" where
  "posted d m s = (let x = ks_cpu s d in s\<lparr>ks_cpu := (ks_cpu s)(d := (if c_numshootdown x = TLBSHOOTDOWN_MAX then x\<lparr>c_numshootdown := TLBSHOOTDOWN_ALL\<rparr>
     else x\<lparr>c_shootdown := (c_shootdown x)[nat (c_numshootdown x) := m], c_numshootdown := c_numshootdown x + 1\<rparr>)
     \<lparr>c_ipi_pending := c_ipi_pending x OR push_bit IPI_TLBSHOOTDOWN 1\<rparr>)\<rparr>)"

lemma tlbshootdown_run:
  assumes ok: "cpu_ok c t s" and free: "ks_lock s (Lk_ipi d) = free_lock"
  shows "ipi_tlbshootdown c d m s = (if 0 \<le> c_numshootdown (ks_cpu s d) \<and> c_numshootdown (ks_cpu s d) \<le> TLBSHOOTDOWN_MAX then Ok () (posted d m s) else Panic)"
proof (cases "0 \<le> c_numshootdown (ks_cpu s d) \<and> c_numshootdown (ks_cpu s d) \<le> TLBSHOOTDOWN_MAX")
  case True
  have ok': "cpu_ok c t (posted d m s)" by (rule cpu_ok_frame [OF ok]) (use ok in \<open>auto simp: posted_def Let_def cpu_ok_def\<close>)
  have "ks_lock (posted d m s) (Lk_ipi d) = free_lock" using free by (simp add: posted_def Let_def)
  from st_release_acquire [OF ok' this] have "ks_release c (Lk_ipi d) (st_acquire c t (Lk_ipi d) (posted d m s)) = Ok () (posted d m s)" .
  moreover have "st_acquire c t (Lk_ipi d) (s\<lparr>ks_cpu := k\<rparr>) = (st_acquire c t (Lk_ipi d) s)\<lparr>ks_cpu := k\<rparr>" for k by (rule ksys.equality) simp_all
  ultimately show ?thesis
    using True acquire_run [OF ok free] by (auto simp: ipi_tlbshootdown_def posted_def Let_def kfun_defs cpu_mod_def)
next
  case False
  then show ?thesis using acquire_run [OF ok free] by (auto simp: ipi_tlbshootdown_def kfun_defs TLBSHOOTDOWN_MAX_def)
qed


text \<open>The requests \<open>ps\<close> are waiting at processor \<open>d\<close>.\<close>

definition waiting :: "nat \<Rightarrow> nat list \<Rightarrow> ksys \<Rightarrow> bool" where
  "waiting d ps s \<longleftrightarrow> length (c_shootdown (ks_cpu s d)) = 16 \<and>
     (if length ps \<le> 16 then c_numshootdown (ks_cpu s d) = int (length ps) \<and> take (length ps) (c_shootdown (ks_cpu s d)) = ps
      else c_numshootdown (ks_cpu s d) = TLBSHOOTDOWN_ALL)"

lemma posted_ok:
  assumes "cpu_ok c t s" "ks_lock s (Lk_ipi d) = free_lock" "waiting d ps s" "length ps \<le> 16"
  shows "cpu_ok c t (posted d m s)" "ks_lock (posted d m s) (Lk_ipi d) = free_lock" "waiting d (ps @ [m]) (posted d m s)"
proof -
  show "cpu_ok c t (posted d m s)" by (rule cpu_ok_frame [OF assms(1)]) (use assms(1) in \<open>auto simp: posted_def Let_def cpu_ok_def\<close>)
  show "ks_lock (posted d m s) (Lk_ipi d) = free_lock" using assms(2) by (simp add: posted_def Let_def)
  show "waiting d (ps @ [m]) (posted d m s)"
  proof (cases "length ps = 16")
    case True
    then show ?thesis using assms(3) by (simp add: waiting_def posted_def Let_def TLBSHOOTDOWN_MAX_def)
  next
    case False
    then have "length ps < 16" using assms(4) by simp
    then show ?thesis using assms(3) by (simp add: waiting_def posted_def Let_def TLBSHOOTDOWN_MAX_def take_Suc_conv_app_nth)
  qed
qed

lemma posts_run:
  assumes "cpu_ok c t s" "ks_lock s (Lk_ipi d) = free_lock" "waiting d ps s" "length ps \<le> 17"
  shows "if length ps + length ms \<le> 17 then \<exists>s'. ipi_posts c d ms s = Ok () s' \<and> waiting d (ps @ ms) s' else ipi_posts c d ms s = Panic"
  using assms
proof (induction ms arbitrary: s ps)
  case Nil
  then show ?case by (simp add: kret_def)
next
  case (Cons m ms)
  show ?case
  proof (cases "length ps = 17")
    case True
    then have "c_numshootdown (ks_cpu s d) = TLBSHOOTDOWN_ALL" using Cons(4) by (simp add: waiting_def)
    then show ?thesis using True tlbshootdown_run [OF Cons(2,3), of m] by (simp add: kbind_def TLBSHOOTDOWN_ALL_def)
  next
    case False
    then have len: "length ps \<le> 16" using Cons(5) by simp
    then have "ipi_tlbshootdown c d m s = Ok () (posted d m s)"
      using tlbshootdown_run [OF Cons(2,3), of m] Cons(4) by (simp add: waiting_def TLBSHOOTDOWN_MAX_def)
    then show ?thesis using Cons.IH [OF posted_ok [OF Cons(2-4) len, of m]] len by (simp add: kbind_def split: if_splits)
  qed
qed

section \<open>Properties\<close>

text \<open>
  C2: the thread system never panics. In every state that processors reach by creating processors, forking, yielding, exiting, sleeping, waking,
  migrating and idling in any order, each operation whose precondition holds returns, with success or with an error code; no assertion on the way
  fails, no pointer to a dead thread is followed and no spinlock is taken twice or released by another processor.
\<close>

theorem thread_system_never_panics:
  assumes "sys_reachable s W" "sys_can op s W"
  shows "sys_run op s \<noteq> Panic"
  using sys_op_fine [OF sys_reachable_good [OF assms(1)] assms(2)] by (auto simp: sys_fine_def)

text \<open>The lists that threads are on.\<close>

definition sys_heads :: "ksys \<Rightarrow> nat set \<Rightarrow> nat set" where
  "sys_heads s W = tl_zombies ` {..< ks_ncpus s} \<union> tl_runqueue ` {..< ks_ncpus s} \<union> tl_wchan ` W"

lemma sys_heads_Some:
  assumes rep: "sys_rep s W L T" and t: "L l = Some ts" "t \<in> set ts"
  shows "l \<in> sys_heads s W"
proof -
  have "spot (ks_ncpus s) (ks_thread s t) l" using listed_okD(2) [OF sys_invD(5) [OF sys_repD(1) [OF rep]] t] .
  then obtain d where d: "d < ks_ncpus s" "l = tl_runqueue d \<or> l = tl_zombies d \<or> (\<exists>w. l = tl_wchan w) \<or> (\<exists>c. l = tl_local c)" by (auto simp: spot_def)
  moreover have "l \<noteq> tl_local c" for c using sys_repD(2) [OF rep, of c] t by auto
  moreover have "w \<in> W" if "l = tl_wchan w" for w using sys_repD(4) [OF rep, of w] t that by auto
  ultimately show ?thesis by (auto simp: sys_heads_def)
qed

text \<open>
  C1: no thread is lost or in two places. In every reachable state each live thread either runs as the current thread of a busy processor and is on no
  list, or it is on exactly one of the run queues, zombie lists and wait channels, once, and that list fits its state and its processor; lists hold
  live threads only; and the current thread of each processor is live and belongs to that processor, also after migration.
\<close>

theorem thread_places:
  assumes "sys_reachable s W"
  shows "(\<forall>l \<in> sys_heads s W. distinct (tl_items l (ks_lists s)) \<and>
      (\<forall>t \<in> set (tl_items l (ks_lists s)). t \<in> ks_alloc s \<and> spot (ks_ncpus s) (ks_thread s t) l)) \<and>
    (\<forall>t \<in> ks_alloc s. if \<exists>c. busy c s \<and> c_curthread (ks_cpu s c) = Some t then \<forall>l \<in> sys_heads s W. t \<notin> set (tl_items l (ks_lists s))
      else \<exists>!l. l \<in> sys_heads s W \<and> t \<in> set (tl_items l (ks_lists s))) \<and>
    (\<forall>c < ks_ncpus s. \<exists>t \<in> ks_alloc s. c_curthread (ks_cpu s c) = Some t \<and> t_cpu (ks_thread s t) = Some c)"
proof -
  obtain L T where rep: "sys_rep s W L T" using sys_reachable_good [OF assms] by (auto simp: sys_good_def)
  note I = sys_invD [OF sys_repD(1) [OF rep]]
  have items: "\<exists>ts. L l = Some ts \<and> tl_items l (ks_lists s) = ts" if "l \<in> sys_heads s W" for l
  proof -
    have "L l \<noteq> None" using that sys_listsD(5,6) [OF I(1)] sys_repD(3) [OF rep] by (force simp: sys_heads_def)
    then show ?thesis using tl_items_ok [OF I(8)] by auto
  qed
  have on: "(\<exists>l \<in> sys_heads s W. t \<in> set (tl_items l (ks_lists s))) \<longleftrightarrow> \<not> unlisted L t" for t
    using items sys_heads_Some [OF rep] tl_items_ok [OF I(8)] unfolding unlisted_def by metis
  have once: "l = l'" if "l \<in> sys_heads s W" "t \<in> set (tl_items l (ks_lists s))" "l' \<in> sys_heads s W" "t \<in> set (tl_items l' (ks_lists s))" for l l' t
    using items [OF that(1)] items [OF that(3)] that(2,4) tl_repD(3) [OF I(8)] by (metis disjoint_iff)
  have "distinct (tl_items l (ks_lists s)) \<and> (\<forall>t \<in> set (tl_items l (ks_lists s)). t \<in> ks_alloc s \<and> spot (ks_ncpus s) (ks_thread s t) l)"
    if "l \<in> sys_heads s W" for l
    using items [OF that] listed_okD [OF I(5)] tl_repD(1) [OF I(8)] by (auto simp: tl_list_def)
  moreover have "if \<exists>c. busy c s \<and> c_curthread (ks_cpu s c) = Some t then \<forall>l \<in> sys_heads s W. t \<notin> set (tl_items l (ks_lists s))
      else \<exists>!l. l \<in> sys_heads s W \<and> t \<in> set (tl_items l (ks_lists s))" if t: "t \<in> ks_alloc s" for t
  proof (cases "\<exists>c. busy c s \<and> c_curthread (ks_cpu s c) = Some t")
    case True
    then have "unlisted L t" using current_okD(4) [OF I(6)] by (auto simp: busy_def)
    then show ?thesis using True on by auto
  next
    case False
    then have "\<not> unlisted L t" using I(7) t by (auto simp: none_lost_def busy_def)
    then show ?thesis using False on [of t] once [of _ t] by auto
  qed
  moreover have "\<exists>t \<in> ks_alloc s. c_curthread (ks_cpu s c) = Some t \<and> t_cpu (ks_thread s t) = Some c" if "c < ks_ncpus s" for c
    using current_okE [OF I(6) that] by metis
  ultimately show ?thesis by blast
qed


text \<open>
  C10: interrupt levels add up. In every reachable state the counter \<^verbatim>\<open>t_iplhigh_count\<close> of the thread that a processor runs is the number of spinlocks
  the processor holds plus one if the thread has raised its level, interrupts are on at the processor exactly when the counter is zero, and the only
  locks held between operations are those of wait channels; every thread that is not current waits with level high, counter 2 and a context to resume.
\<close>

theorem interrupt_accounting:
  assumes "sys_reachable s W"
  shows "(\<forall>c < ks_ncpus s. \<exists>t. c_curthread (ks_cpu s c) = Some t \<and> ks_iplhigh s t = int (card (held s c)) + ks_curspl s t \<and>
      ks_curspl s t \<in> {IPL_NONE, IPL_HIGH} \<and> (ks_irq s c \<longleftrightarrow> ks_iplhigh s t = 0) \<and> held s c \<subseteq> range Lk_wchan \<and> (c_isidle (ks_cpu s c) \<longrightarrow> held s c = {})) \<and>
    (\<forall>t \<in> ks_alloc s. (\<forall>c < ks_ncpus s. c_curthread (ks_cpu s c) \<noteq> Some t) \<longrightarrow> ks_curspl s t = IPL_HIGH \<and> ks_iplhigh s t = 2 \<and> ctx_ok (t_context (ks_thread s t)))"
proof -
  obtain L T where rep: "sys_rep s W L T" using sys_reachable_good [OF assms] by (auto simp: sys_good_def)
  have lv: "sys_levels None s" using sys_invD(4) [OF sys_repD(1) [OF rep]] .
  have "held s c \<subseteq> range Lk_wchan" for c
  proof
    fix l assume "l \<in> held s c"
    then have "ks_lock s l \<noteq> free_lock" by (auto simp: held_def)
    then show "l \<in> range Lk_wchan" using lv by (auto simp: sys_levels_def locks_ok_def)
  qed
  then show ?thesis using lv unfolding sys_levels_def level_ok_def parked_ok_def by fastforce
qed

text \<open>
  C22: round robin. From a reachable state in which the thread on a processor holds no spinlock, the thread at position \<open>k\<close> of the run queue is the
  current thread of the processor after \<open>k + 1\<close> turns: every runnable thread gets to run, in the order of the queue.
\<close>

theorem round_robin:
  assumes "sys_reachable s W" "busy c s" "held s c = {}" "k < length (tl_items (tl_runqueue c) (ks_lists s))"
  shows "\<exists>s'. thread_turns (Suc k) c s = Ok () s' \<and> c_curthread (ks_cpu s' c) = Some (tl_items (tl_runqueue c) (ks_lists s) ! k)"
proof -
  obtain L T where rep: "sys_rep s W L T" using sys_reachable_good [OF assms(1)] by (auto simp: sys_good_def)
  note I = sys_invD [OF sys_repD(1) [OF rep]]
  obtain q where q: "L (tl_runqueue c) = Some q" using sys_listsD(6) [OF I(1), of c] assms(2) by (auto simp: busy_def)
  then show ?thesis using turns_run [OF rep assms(2,3) q] assms(4) tl_items_ok [OF I(8) q] by simp
qed

text \<open>
  C40: shootdown requests overrun their array. Up to 16 requests that a processor has not yet served are kept in order, the 17th is recorded as a request
  to flush everything, and the 18th is stored at index \<open>TLBSHOOTDOWN_ALL\<close>, that is -1, before the array.
\<close>

theorem tlbshootdown_overruns:
  assumes "cpu_ok c t s" "ks_lock s (Lk_ipi d) = free_lock" "c_numshootdown (ks_cpu s d) = 0" "length (c_shootdown (ks_cpu s d)) = 16"
  shows "if length ms \<le> 17
    then \<exists>s'. ipi_posts c d ms s = Ok () s' \<and> (if length ms \<le> 16 then take (length ms) (c_shootdown (ks_cpu s' d)) = ms \<and> c_numshootdown (ks_cpu s' d) = int (length ms)
      else c_numshootdown (ks_cpu s' d) = TLBSHOOTDOWN_ALL)
    else ipi_posts c d ms s = Panic"
proof -
  have "waiting d [] s" using assms(3,4) by (simp add: waiting_def)
  from posts_run [OF assms(1,2) this, of ms] show ?thesis by (auto simp: waiting_def split: if_splits)
qed

subsection \<open>Witnesses\<close>

definition cold :: ksys where
  "cold = \<lparr>ks_booted = False, ks_alloc = {}, ks_thread = (\<lambda>_. fork_thread [] None None), ks_curspl = (\<lambda>_. 0), ks_iplhigh = (\<lambda>_. 0), ks_irq = (\<lambda>_. False),
     ks_ncpus = 0, ks_cpu = (\<lambda>_. \<lparr>c_curthread = None, c_isidle = False, c_spl = 0, c_ipi_pending = 0, c_shootdown = replicate 16 0, c_numshootdown = 0\<rparr>),
     ks_lists = \<lparr>tl_node = (\<lambda>_. \<lparr>tln_prev = None, tln_next = None, tln_self = None\<rparr>), tl_count = (\<lambda>_. 0)\<rparr>, ks_lock = (\<lambda>_. \<lparr>lk_lock = 0, lk_holder = None\<rparr>),
     ks_pthreads = (\<lambda>_. []), ks_wcname = (\<lambda>_. [])\<rparr>"

fun after :: "(unit, ksys) kres \<Rightarrow> ksys" where
  "after (Ok x s) = s"
| "after (Err e s) = s"
| "after Panic = cold"

definition demo_boot :: ksys where "demo_boot = after (thread_bootstrap True True (Some 7) True True cold)"
definition demo_op :: sysop where "demo_op = Fork 0 (Some 8) True (Some [0, 0, 0, 0, 0]) True ''menu'' None 1 2 3"
definition demo_fork :: ksys where "demo_fork = after (sys_run demo_op demo_boot)"

lemma demo_on: "power_on cold"
  by (simp add: power_on_def cold_def free_lock_def)

lemma demo_boot_run:
  "thread_bootstrap True True (Some 7) True True cold = Ok () demo_boot" "ks_lock demo_boot = (\<lambda>_. free_lock)" "ks_alloc demo_boot = {7}" "busy 0 demo_boot"
  "c_curthread (ks_cpu demo_boot 0) = Some 7" "t_proc (on_cpu 0 demo_boot) = Some kproc"
  using bootstrap_ok [OF demo_on, of 7] demo_on by (auto simp: demo_boot_def power_on_def busy_def on_cpu_def)

lemma demo_boot_reachable: "sys_reachable demo_boot {}"
  by (rule sys_reachable.boot [OF demo_on demo_boot_run(1)])

lemma demo_can: "sys_can demo_op demo_boot {}"
  using demo_boot_run by (simp add: demo_op_def fresh_mem_def)

lemma demo_fork_run:
  "sys_run demo_op demo_boot = Ok () demo_fork" "ks_lock demo_fork = (\<lambda>_. free_lock)" "busy 0 demo_fork" "tl_items (tl_runqueue 0) (ks_lists demo_fork) = [8]"
proof -
  obtain s where s: "thread_bootstrap True True (Some 7) True True cold = Ok () s" "sys_inv None s [tl_zombies 0 \<mapsto> [], tl_runqueue 0 \<mapsto> []] {7}"
    using bootstrap_ok [OF demo_on, of 7] by blast
  then have inv: "sys_inv None demo_boot [tl_zombies 0 \<mapsto> [], tl_runqueue 0 \<mapsto> []] {7}" using demo_boot_run(1) by simp
  obtain s' L' T' where s': "sys_run demo_op demo_boot = Ok () s'" "sys_inv None s' L' T'" "ks_lock s' = ks_lock demo_boot" "ks_ncpus s' = ks_ncpus demo_boot"
      "ipi_only (ks_cpu demo_boot) (ks_cpu s')" "L' = [tl_zombies 0 \<mapsto> [], tl_runqueue 0 \<mapsto> [] @ [8]]"
    using thread_fork_ok [OF inv _ demo_boot_run(5), of "Some 8" "Some [0, 0, 0, 0, 0]" None True True "''menu''" 1 2 3] demo_boot_run
    by (auto simp: demo_op_def busy_def on_cpu_def)
  then have run: "demo_fork = s'" by (simp add: demo_fork_def)
  have "tl_items (tl_runqueue 0) (ks_lists s') = [8]" by (rule tl_items_ok [OF sys_invD(8) [OF s'(2)]]) (use s'(6) in simp)
  then show "sys_run demo_op demo_boot = Ok () demo_fork" "ks_lock demo_fork = (\<lambda>_. free_lock)" "busy 0 demo_fork" "tl_items (tl_runqueue 0) (ks_lists demo_fork) = [8]"
    using s' run demo_boot_run ipi_onlyD [OF s'(5)] by (simp_all add: busy_def)
qed

lemma demo_fork_reachable: "sys_reachable demo_fork {}"
  using sys_reachable.step [OF demo_boot_reachable demo_can, of demo_fork] demo_fork_run(1) by (simp add: demo_op_def)

lemma demo_fork_held: "held demo_fork c = {}"
  using demo_fork_run(2) by (simp add: held_def)

theorem thread_system_never_panics_witness: "sys_run demo_op demo_boot \<noteq> Panic \<and> sys_run (Yield 0) demo_fork \<noteq> Panic"
  using thread_system_never_panics [OF demo_boot_reachable demo_can] thread_system_never_panics [OF demo_fork_reachable, of "Yield 0"] demo_fork_run demo_fork_held
  by (simp add: busy_def del: sys_run.simps)

theorem thread_places_witness: "tl_items (tl_runqueue 0) (ks_lists demo_fork) = [8] \<and> 8 \<in> ks_alloc demo_fork \<and> t_cpu (ks_thread demo_fork 8) = Some 0"
proof -
  have "tl_runqueue 0 \<in> sys_heads demo_fork {}" using demo_fork_run(3) by (simp add: sys_heads_def busy_def)
  then show ?thesis using thread_places [OF demo_fork_reachable] demo_fork_run(4) by (auto simp: spot_def)
qed

theorem interrupt_accounting_witness:
  "\<exists>t. c_curthread (ks_cpu demo_fork 0) = Some t \<and> ks_iplhigh demo_fork t = ks_curspl demo_fork t \<and> (ks_irq demo_fork 0 \<longleftrightarrow> ks_curspl demo_fork t = 0)"
  using interrupt_accounting [OF demo_fork_reachable] demo_fork_run(3) demo_fork_held [of 0] by (auto simp: busy_def)

theorem round_robin_witness: "\<exists>s'. thread_turns 1 0 demo_fork = Ok () s' \<and> c_curthread (ks_cpu s' 0) = Some 8"
  using round_robin [OF demo_fork_reachable demo_fork_run(3) demo_fork_held, of 0] demo_fork_run(4) by (simp del: thread_turns.simps)

definition demo_two :: ksys where
  "demo_two = cold\<lparr>ks_booted := True, ks_alloc := {7}, ks_irq := (\<lambda>_. True), ks_ncpus := 2, ks_cpu := (ks_cpu cold)(0 := (ks_cpu cold 0)\<lparr>c_curthread := Some 7\<rparr>)\<rparr>"

theorem tlbshootdown_overruns_witness: "ipi_posts 0 1 [1..<19] demo_two = Panic"
proof -
  have "cpu_ok 0 7 demo_two" "ks_lock demo_two (Lk_ipi 1) = free_lock" "c_numshootdown (ks_cpu demo_two 1) = 0" "length (c_shootdown (ks_cpu demo_two 1)) = 16"
    by (simp_all add: demo_two_def cold_def cpu_ok_def free_lock_def IPL_NONE_def)
  from tlbshootdown_overruns [OF this, of "[1..<19]"] show ?thesis by (simp del: upt_Suc upt_conv_Cons)
qed

end
