(* ===== verification/Synch.thy ===== *)
theory Synch
  imports Kernel_Base
begin

text \<open>
  Semaphores and locks (\<^verbatim>\<open>thread/synch.c\<close>) under arbitrary interleaving.

  \<^verbatim>\<open>P\<close> and \<^verbatim>\<open>lock_acquire\<close> are the same loop around a wait channel, and \<^verbatim>\<open>V\<close> and
  \<^verbatim>\<open>lock_release\<close> the same update and wakeup; they differ in the test and in the update. The model is one
  machine with these as parameters (\<open>wait_ops\<close>), instantiated for the semaphore (\<open>sem_ops\<close>) and for the
  lock (\<open>lock_ops\<close>). The state has a program counter for every thread; a step is one statement of one
  thread, and any thread may move next, so that every interleaving is a sequence of steps. A spinlock is
  its holder; a thread that finds it taken does not move. \<^verbatim>\<open>wchan_sleep\<close> puts the thread on the channel and
  unlocks the channel in one step, as \<^verbatim>\<open>thread_switch\<close> does under the lock of the run queue.
\<close>

section \<open>Model\<close>

text \<open>
  The statements at which a thread can be, in \<^verbatim>\<open>P\<close> and \<^verbatim>\<open>lock_acquire\<close>: about to take the spinlock
  (at the start and after being woken), about to test, about to lock the wait channel, to release the spinlock, to sleep;
  asleep; about to update, to release the spinlock and return. In \<^verbatim>\<open>V\<close> and \<^verbatim>\<open>lock_release\<close>: about to
  take the spinlock, to test whether it may go on, to update, and then in \<^verbatim>\<open>wchan_wakeone\<close> to lock the channel, to
  take a thread from it, to unlock it, to make that thread runnable; about to release the spinlock.
\<close>

datatype wl_pc = Idle | Acq | Test | Wlock | Unlock | Sleep | Asleep | Get | Out
  | Racq | Rtest | Put | Kacq | Krem | Krel "nat option" | Krun nat | Rout

record 'r wait_ops =
  op_busy :: "'r \<Rightarrow> bool"
  op_get :: "nat \<Rightarrow> 'r \<Rightarrow> 'r option"
  op_may_put :: "nat \<Rightarrow> 'r \<Rightarrow> bool"
  op_put :: "nat \<Rightarrow> 'r \<Rightarrow> 'r option"

record 'r wl =
  wl_res :: 'r
  wl_spin :: "nat option"
  wl_wclock :: "nat option"
  wl_sleepers :: "nat list"
  wl_pc :: "nat \<Rightarrow> wl_pc"
  wl_gets :: "nat \<Rightarrow> nat"
  wl_puts :: "nat \<Rightarrow> nat"

definition goto :: "nat \<Rightarrow> wl_pc \<Rightarrow> 'r wl \<Rightarrow> 'r wl" where
  "goto t p s = s\<lparr>wl_pc := (wl_pc s)(t := p)\<rparr>"

text \<open>
  The next statement of thread \<open>t\<close>; \<open>None\<close> when it is not inside one of the functions, asleep, waiting for a
  spinlock, or at a failing assertion. \<open>wl_gets\<close> and \<open>wl_puts\<close> count the completed updates.
\<close>

definition wl_next :: "'r wait_ops \<Rightarrow> nat \<Rightarrow> 'r wl \<Rightarrow> 'r wl option" where
  "wl_next ops t s =
    (case wl_pc s t of
       Idle \<Rightarrow> None
     | Acq \<Rightarrow> if wl_spin s = None then Some (goto t Test (s\<lparr>wl_spin := Some t\<rparr>)) else None
     | Test \<Rightarrow> Some (goto t (if op_busy ops (wl_res s) then Wlock else Get) s)
     | Wlock \<Rightarrow> if wl_wclock s = None then Some (goto t Unlock (s\<lparr>wl_wclock := Some t\<rparr>)) else None
     | Unlock \<Rightarrow> Some (goto t Sleep (s\<lparr>wl_spin := None\<rparr>))
     | Sleep \<Rightarrow> Some (goto t Asleep (s\<lparr>wl_sleepers := wl_sleepers s @ [t], wl_wclock := None\<rparr>))
     | Asleep \<Rightarrow> None
     | Get \<Rightarrow> (case op_get ops t (wl_res s) of None \<Rightarrow> None
         | Some r \<Rightarrow> Some (goto t Out (s\<lparr>wl_res := r, wl_gets := (wl_gets s)(t := Suc (wl_gets s t))\<rparr>)))
     | Out \<Rightarrow> Some (goto t Idle (s\<lparr>wl_spin := None\<rparr>))
     | Racq \<Rightarrow> if wl_spin s = None then Some (goto t Rtest (s\<lparr>wl_spin := Some t\<rparr>)) else None
     | Rtest \<Rightarrow> Some (goto t (if op_may_put ops t (wl_res s) then Put else Rout) s)
     | Put \<Rightarrow> (case op_put ops t (wl_res s) of None \<Rightarrow> None
         | Some r \<Rightarrow> Some (goto t Kacq (s\<lparr>wl_res := r, wl_puts := (wl_puts s)(t := Suc (wl_puts s t))\<rparr>)))
     | Kacq \<Rightarrow> if wl_wclock s = None then Some (goto t Krem (s\<lparr>wl_wclock := Some t\<rparr>)) else None
     | Krem \<Rightarrow> (case wl_sleepers s of [] \<Rightarrow> Some (goto t (Krel None) s)
         | u # us \<Rightarrow> Some (goto t (Krel (Some u)) (s\<lparr>wl_sleepers := us\<rparr>)))
     | Krel target \<Rightarrow> Some (goto t (case target of None \<Rightarrow> Rout | Some u \<Rightarrow> Krun u) (s\<lparr>wl_wclock := None\<rparr>))
     | Krun u \<Rightarrow> Some (goto t Rout (goto u Acq s))
     | Rout \<Rightarrow> Some (goto t Idle (s\<lparr>wl_spin := None\<rparr>)))"

text \<open>A step: a thread of \<open>N\<close> calls one of the two functions, or some thread executes a statement.\<close>

definition wl_run :: "'r wait_ops \<Rightarrow> 'r wl \<Rightarrow> 'r wl \<Rightarrow> bool" where
  "wl_run ops s s' \<longleftrightarrow> (\<exists>t. wl_next ops t s = Some s')"

inductive wl_step :: "nat set \<Rightarrow> 'r wait_ops \<Rightarrow> 'r wl \<Rightarrow> 'r wl \<Rightarrow> bool" for N ops where
  call_get: "t \<in> N \<Longrightarrow> wl_pc s t = Idle \<Longrightarrow> wl_step N ops s (goto t Acq s)"
| call_put: "t \<in> N \<Longrightarrow> wl_pc s t = Idle \<Longrightarrow> wl_step N ops s (goto t Racq s)"
| run: "wl_next ops t s = Some s' \<Longrightarrow> wl_step N ops s s'"

definition wl_init :: "'r \<Rightarrow> 'r wl" where
  "wl_init r = \<lparr>wl_res = r, wl_spin = None, wl_wclock = None, wl_sleepers = [], wl_pc = (\<lambda>_. Idle),
     wl_gets = (\<lambda>_. 0), wl_puts = (\<lambda>_. 0)\<rparr>"

inductive wl_reachable :: "nat set \<Rightarrow> 'r wait_ops \<Rightarrow> 'r \<Rightarrow> 'r wl \<Rightarrow> bool" for N ops r where
  start: "wl_reachable N ops r (wl_init r)"
| step: "wl_reachable N ops r s \<Longrightarrow> wl_step N ops s s' \<Longrightarrow> wl_reachable N ops r s'"

text \<open>Thread \<open>t\<close> is at an assertion that fails.\<close>

definition wl_panics :: "'r wait_ops \<Rightarrow> 'r wl \<Rightarrow> bool" where
  "wl_panics ops s \<longleftrightarrow> (\<exists>t. wl_pc s t = Get \<and> op_get ops t (wl_res s) = None \<or> wl_pc s t = Put \<and> op_put ops t (wl_res s) = None)"

subsection \<open>Semaphore\<close>

text \<open>The count is a signed 32-bit integer; \<^verbatim>\<open>V\<close> asserts that it is positive after the increment.\<close>

definition sem_ops :: "int wait_ops" where
  "sem_ops = \<lparr>op_busy = (\<lambda>n. n = 0),
     op_get = (\<lambda>t n. if n > 0 then Some (n - 1) else None),
     op_may_put = (\<lambda>t n. True),
     op_put = (\<lambda>t n. let n' = (n + 1 + 2 ^ 31) mod 2 ^ 32 - 2 ^ 31 in if n' > 0 then Some n' else None)\<rparr>"

text \<open>\<^verbatim>\<open>sem_create\<close>: the booleans are the outcomes of the three allocations.\<close>

definition sem_create :: "bool \<Rightarrow> bool \<Rightarrow> bool \<Rightarrow> int \<Rightarrow> ('s, int wl option) kfun" where
  "sem_create ok_sem ok_name ok_wchan initial_count =
    kbind (kassert (initial_count \<ge> 0)) (\<lambda>_.
    if \<not> ok_sem then kret None
    else if \<not> ok_name then kret None
    else if \<not> ok_wchan then kret None
    else kret (Some (wl_init initial_count)))"

text \<open>\<^verbatim>\<open>sem_destroy\<close> asserts that both spinlocks are free and that no thread is on the channel.\<close>

definition wl_destroy :: "'r wl \<Rightarrow> ('s, unit) kfun" where
  "wl_destroy s =
    kbind (kassert (wl_spin s = None)) (\<lambda>_.
    kbind (kassert (wl_wclock s = None)) (\<lambda>_.
    kassert (wl_sleepers s = [])))"

subsection \<open>Lock\<close>

record lock =
  lock_held :: int
  lock_holder :: "nat option"

definition lock_do_i_hold :: "nat \<Rightarrow> lock \<Rightarrow> bool" where
  "lock_do_i_hold t lk \<longleftrightarrow> lock_holder lk = Some t"

definition lock_ops :: "lock wait_ops" where
  "lock_ops = \<lparr>op_busy = (\<lambda>lk. lock_holder lk \<noteq> None),
     op_get = (\<lambda>t lk. Some (lk\<lparr>lock_holder := Some t, lock_held := 1\<rparr>)),
     op_may_put = lock_do_i_hold,
     op_put = (\<lambda>t lk. Some (lk\<lparr>lock_held := 0, lock_holder := None\<rparr>))\<rparr>"

definition lock0 :: lock where
  "lock0 = \<lparr>lock_held = 0, lock_holder = None\<rparr>"

text \<open>
  \<^verbatim>\<open>lock_create\<close>: when the channel cannot be created the lock is freed but the function goes on
  with the freed memory, modelled as a fault.
\<close>

definition lock_create :: "bool \<Rightarrow> bool \<Rightarrow> bool \<Rightarrow> ('s, lock wl option) kfun" where
  "lock_create ok_lock ok_name ok_wchan =
    (if \<not> ok_lock then kret None
     else if \<not> ok_name then kret None
     else if \<not> ok_wchan then kpanic
     else kret (Some (wl_init lock0)))"

text \<open>
  \<^verbatim>\<open>lock_destroy\<close> also calls \<^verbatim>\<open>kfree\<close> on the holder; the result is the thread it frees.
\<close>

definition lock_destroy :: "bool \<Rightarrow> lock wl \<Rightarrow> ('s, nat option) kfun" where
  "lock_destroy in_interrupt s =
    kbind (kassert (\<not> in_interrupt)) (\<lambda>_.
    kbind (wl_destroy s) (\<lambda>_.
    kret (lock_holder (wl_res s))))"

section \<open>Waiting loops\<close>

text \<open>
  What the proofs rely on: \<open>avail\<close> is the number of times the resource can be taken, the loop waits exactly
  when it is zero, taking lowers it by one and giving back raises it by one.
\<close>

locale waitable =
  fixes ops :: "'r wait_ops" and avail :: "'r \<Rightarrow> nat" and rok :: "'r \<Rightarrow> bool"
  assumes busy_avail: "rok r \<Longrightarrow> op_busy ops r \<longleftrightarrow> avail r = 0"
    and get_law: "rok r \<Longrightarrow> 0 < avail r \<Longrightarrow> \<exists>r'. op_get ops t r = Some r' \<and> rok r' \<and> avail r = Suc (avail r')"
    and put_law: "rok r \<Longrightarrow> op_may_put ops t r \<Longrightarrow> op_put ops t r = Some r' \<Longrightarrow> rok r' \<and> avail r' = Suc (avail r)"

fun spin_held :: "wl_pc \<Rightarrow> bool" where
  "spin_held Idle = False"
| "spin_held Acq = False"
| "spin_held Racq = False"
| "spin_held Sleep = False"
| "spin_held Asleep = False"
| "spin_held p = True"

fun wc_held :: "wl_pc \<Rightarrow> bool" where
  "wc_held (Krel target) = True"
| "wc_held p \<longleftrightarrow> p \<in> {Unlock, Sleep, Krem}"

text \<open>The thread that a waker has taken from the channel.\<close>

fun woken_by :: "wl_pc \<Rightarrow> nat option" where
  "woken_by (Krel target) = target"
| "woken_by (Krun u) = Some u"
| "woken_by p = None"

text \<open>A thread that will test the resource again, or that will make such a thread runnable.\<close>

fun pending :: "wl_pc \<Rightarrow> nat" where
  "pending (Krel target) = (if target = None then 0 else 1)"
| "pending (Krun u) = 1"
| "pending p = (if p \<in> {Acq, Test, Get, Kacq, Krem} then 1 else 0)"

definition wl_locks :: "'r wl \<Rightarrow> bool" where
  "wl_locks s \<longleftrightarrow> (\<forall>t. wl_spin s = Some t \<longleftrightarrow> spin_held (wl_pc s t)) \<and> (\<forall>t. wl_wclock s = Some t \<longleftrightarrow> wc_held (wl_pc s t))"

definition wl_queue :: "'r wl \<Rightarrow> bool" where
  "wl_queue s \<longleftrightarrow> distinct (wl_sleepers s) \<and> (\<forall>u \<in> set (wl_sleepers s). wl_pc s u = Asleep) \<and>
     (\<forall>t u. woken_by (wl_pc s t) = Some u \<longrightarrow> wl_pc s u = Asleep \<and> u \<notin> set (wl_sleepers s)) \<and>
     (\<forall>u. wl_pc s u = Asleep \<longrightarrow> u \<in> set (wl_sleepers s) \<or> (\<exists>t. woken_by (wl_pc s t) = Some u))"

lemma goto_simps [simp]:
  "wl_pc (goto t p s) = (wl_pc s)(t := p)" "wl_res (goto t p s) = wl_res s" "wl_spin (goto t p s) = wl_spin s"
  "wl_wclock (goto t p s) = wl_wclock s" "wl_sleepers (goto t p s) = wl_sleepers s" "wl_gets (goto t p s) = wl_gets s"
  "wl_puts (goto t p s) = wl_puts s"
  by (simp_all add: goto_def)

lemma wl_queueD:
  assumes "wl_queue s"
  shows "distinct (wl_sleepers s)" "u \<in> set (wl_sleepers s) \<Longrightarrow> wl_pc s u = Asleep"
    "woken_by (wl_pc s t) = Some u \<Longrightarrow> wl_pc s u = Asleep" "woken_by (wl_pc s t) = Some u \<Longrightarrow> u \<notin> set (wl_sleepers s)"
    "wl_pc s u = Asleep \<Longrightarrow> u \<in> set (wl_sleepers s) \<or> (\<exists>t. woken_by (wl_pc s t) = Some u)"
  using assms unfolding wl_queue_def by blast+

lemma wl_queueI:
  assumes "distinct (wl_sleepers s)" "\<And>u. u \<in> set (wl_sleepers s) \<Longrightarrow> wl_pc s u = Asleep"
    "\<And>t u. woken_by (wl_pc s t) = Some u \<Longrightarrow> wl_pc s u = Asleep \<and> u \<notin> set (wl_sleepers s)"
    "\<And>u. wl_pc s u = Asleep \<Longrightarrow> u \<in> set (wl_sleepers s) \<or> (\<exists>t. woken_by (wl_pc s t) = Some u)"
  shows "wl_queue s"
  using assms unfolding wl_queue_def by blast

lemma woken_by_spin: "woken_by p = Some u \<Longrightarrow> spin_held p"
  by (cases p) auto

lemma wl_locks_unique:
  assumes "wl_locks s" "spin_held (wl_pc s t)" "spin_held (wl_pc s u)"
  shows "t = u"
proof -
  have "wl_spin s = Some t" "wl_spin s = Some u" using assms by (simp_all add: wl_locks_def)
  then show ?thesis by simp
qed

lemma wl_locks_free:
  assumes "wl_locks s" "wl_spin s = None"
  shows "\<not> spin_held (wl_pc s t)"
  using assms by (metis option.distinct(1) wl_locks_def)

lemma wl_locks_wcfree:
  assumes "wl_locks s" "wl_wclock s = None"
  shows "\<not> wc_held (wl_pc s t)"
  using assms by (metis option.distinct(1) wl_locks_def)

lemma wl_locks_wcunique:
  assumes "wl_locks s" "wc_held (wl_pc s t)" "wc_held (wl_pc s u)"
  shows "t = u"
  using assms by (metis option.inject wl_locks_def)

text \<open>Only the thread that moves and the thread it makes runnable change their place.\<close>

lemma wl_locks_move:
  assumes inv: "wl_locks s" and pc: "\<And>u. u \<noteq> t \<Longrightarrow> spin_held (wl_pc s' u) = spin_held (wl_pc s u) \<and> wc_held (wl_pc s' u) = wc_held (wl_pc s u)"
    and spin: "wl_spin s' = (if spin_held (wl_pc s' t) then Some t else if spin_held (wl_pc s t) then None else wl_spin s)"
    and spin_ok: "spin_held (wl_pc s' t) \<Longrightarrow> spin_held (wl_pc s t) \<or> wl_spin s = None"
    and wc: "wl_wclock s' = (if wc_held (wl_pc s' t) then Some t else if wc_held (wl_pc s t) then None else wl_wclock s)"
    and wc_ok: "wc_held (wl_pc s' t) \<Longrightarrow> wc_held (wl_pc s t) \<or> wl_wclock s = None"
  shows "wl_locks s'"
proof -
  have I: "wl_spin s = Some u \<longleftrightarrow> spin_held (wl_pc s u)" "wl_wclock s = Some u \<longleftrightarrow> wc_held (wl_pc s u)" for u
    using inv by (simp_all add: wl_locks_def)
  have "wl_spin s' = Some u \<longleftrightarrow> spin_held (wl_pc s' u)" for u
    using I(1) [of u] I(1) [of t] pc [of u] spin spin_ok by (cases "u = t") auto
  moreover have "wl_wclock s' = Some u \<longleftrightarrow> wc_held (wl_pc s' u)" for u
    using I(2) [of u] I(2) [of t] pc [of u] wc wc_ok by (cases "u = t") auto
  ultimately show ?thesis by (simp add: wl_locks_def)
qed

lemma wl_next_locks:
  assumes step: "wl_next ops t s = Some s'" and inv: "wl_locks s" "wl_queue s"
  shows "wl_locks s'"
proof -
  have I: "wl_spin s = Some t \<longleftrightarrow> spin_held (wl_pc s t)" "wl_wclock s = Some t \<longleftrightarrow> wc_held (wl_pc s t)"
    using inv(1) by (simp_all add: wl_locks_def)
  show ?thesis
  proof (cases "wl_pc s t")
    case (Krun u)
    then have u: "wl_pc s u = Asleep" using wl_queueD(3) [OF inv(2), of t u] by simp
    then have "u \<noteq> t" using Krun by auto
    then show ?thesis
      using step Krun u I by (intro wl_locks_move [OF inv(1), where t = t]) (auto simp: wl_next_def split: if_splits)
  qed (use step I in \<open>auto simp: wl_next_def intro!: wl_locks_move [OF inv(1), where t = t] split: if_splits option.splits list.splits\<close>)
qed

lemma wl_queue_move:
  assumes inv: "wl_queue s" and s': "wl_sleepers s' = wl_sleepers s" "wl_pc s' = (wl_pc s)(t := p)"
    and p: "wl_pc s t \<noteq> Asleep" "p \<noteq> Asleep" "woken_by p = woken_by (wl_pc s t)"
  shows "wl_queue s'"
proof -
  have w: "woken_by (wl_pc s' x) = woken_by (wl_pc s x)" "wl_pc s' x = Asleep \<longleftrightarrow> wl_pc s x = Asleep" for x
    using p s'(2) by simp_all
  show ?thesis using inv unfolding wl_queue_def s'(1) w .
qed

lemma wl_queue_Sleep:
  assumes inv: "wl_queue s" and t: "wl_pc s t = Sleep" and s': "wl_sleepers s' = wl_sleepers s @ [t]" "wl_pc s' = (wl_pc s)(t := Asleep)"
  shows "wl_queue s'"
proof -
  note D = wl_queueD [OF inv]
  have fresh: "t \<notin> set (wl_sleepers s)" using D(2) t by force
  have w: "woken_by (wl_pc s' x) = woken_by (wl_pc s x)" for x using t s'(2) by simp
  have a: "wl_pc s' x = Asleep \<longleftrightarrow> x = t \<or> wl_pc s x = Asleep" for x using s'(2) by simp
  show ?thesis
  proof (rule wl_queueI, unfold w a s'(1))
    show "(u = t \<or> wl_pc s u = Asleep) \<and> u \<notin> set (wl_sleepers s @ [t])" if "woken_by (wl_pc s x) = Some u" for x u
      using D(3,4) [OF that] t by auto
    show "u \<in> set (wl_sleepers s @ [t]) \<or> (\<exists>x. woken_by (wl_pc s x) = Some u)" if "u = t \<or> wl_pc s u = Asleep" for u
      using D(5) [of u] that by auto
  qed (use D(1,2) fresh in auto)
qed

lemma wl_queue_Krem:
  assumes inv: "wl_queue s" and t: "wl_pc s t = Krem" "wl_sleepers s = u # us"
    and alone: "\<And>x. x \<noteq> t \<Longrightarrow> woken_by (wl_pc s x) = None"
    and s': "wl_sleepers s' = us" "wl_pc s' = (wl_pc s)(t := Krel (Some u))"
  shows "wl_queue s'"
proof -
  note D = wl_queueD [OF inv]
  have w: "woken_by (wl_pc s' x) = (if x = t then Some u else None)" for x using alone s'(2) by simp
  have a: "wl_pc s' x = Asleep \<longleftrightarrow> wl_pc s x = Asleep" for x using s'(2) t(1) by simp
  have none: "woken_by (wl_pc s x) = None" for x using alone t(1) by (cases "x = t") simp_all
  show ?thesis
  proof (rule wl_queueI, unfold w a s'(1))
    show "x \<in> set us \<or> (\<exists>y. (if y = t then Some u else None) = Some x)" if "wl_pc s x = Asleep" for x
      using D(5) [OF that] none t(2) by auto
  qed (use D(1,2) t(2) in \<open>auto split: if_splits\<close>)
qed

lemma wl_queue_Krun:
  assumes inv: "wl_queue s" and t: "wl_pc s t = Krun u"
    and alone: "\<And>x. x \<noteq> t \<Longrightarrow> woken_by (wl_pc s x) = None"
    and s': "wl_sleepers s' = wl_sleepers s" "wl_pc s' = (wl_pc s)(u := Acq, t := Rout)"
  shows "wl_queue s'"
proof -
  note D = wl_queueD [OF inv]
  have u: "wl_pc s u = Asleep" "u \<notin> set (wl_sleepers s)" "u \<noteq> t" using D(3,4) [of t u] t by auto
  have w: "woken_by (wl_pc s' x) = None" for x using alone u s'(2) by (cases "x = u") simp_all
  have a: "wl_pc s' x = Asleep \<longleftrightarrow> wl_pc s x = Asleep \<and> x \<noteq> u" for x using s'(2) t(1) by simp
  have "wl_pc s x = Asleep \<Longrightarrow> x \<noteq> u \<Longrightarrow> x \<in> set (wl_sleepers s)" for x
    using D(5) [of x] alone t by (metis option.distinct(1) option.inject woken_by.simps(2))
  then show ?thesis
    by (intro wl_queueI, unfold w a s'(1)) (use D(1,2) u(2) in auto)
qed

lemma wl_alone:
  assumes "wl_locks s" "spin_held (wl_pc s t)" "x \<noteq> t"
  shows "woken_by (wl_pc s x) = None"
  using wl_locks_unique [OF assms(1,2), of x] woken_by_spin [of "wl_pc s x"] assms(3) by (cases "woken_by (wl_pc s x)") auto

lemma wl_next_queue:
  assumes step: "wl_next ops t s = Some s'" and inv: "wl_locks s" "wl_queue s"
  shows "wl_queue s'"
proof (cases "wl_pc s t")
  case Sleep
  then show ?thesis using step by (intro wl_queue_Sleep [OF inv(2)]) (auto simp: wl_next_def)
next
  case (Krun u)
  then show ?thesis
    using step wl_alone [OF inv(1), of t] by (intro wl_queue_Krun [OF inv(2)]) (auto simp: wl_next_def)
next
  case Krem
  show ?thesis
  proof (cases "wl_sleepers s")
    case Nil
    then show ?thesis
      using step Krem by (intro wl_queue_move [OF inv(2), where t = t and p = "Krel None"]) (auto simp: wl_next_def)
  next
    case (Cons u us)
    then show ?thesis
      using step Krem wl_alone [OF inv(1), of t] by (intro wl_queue_Krem [OF inv(2)]) (auto simp: wl_next_def)
  qed
next
  case (Krel target)
  then show ?thesis
    using step by (intro wl_queue_move [OF inv(2), where t = t and p = "case target of None \<Rightarrow> Rout | Some u \<Rightarrow> Krun u"])
      (auto simp: wl_next_def split: option.splits)
qed (use step in \<open>auto simp: wl_next_def intro!: wl_queue_move [OF inv(2), where t = t] split: if_splits option.splits\<close>)

section \<open>No wakeup is lost\<close>

definition wl_pending :: "nat set \<Rightarrow> 'r wl \<Rightarrow> nat" where
  "wl_pending N s = (\<Sum>t \<in> N. pending (wl_pc s t))"

text \<open>
  The resource is as the statements at which the threads are require it, and, when a thread sleeps or is about to,
  the units that are available are covered by threads that will test again or wake one that does.
\<close>

definition wl_supply :: "nat set \<Rightarrow> 'r wait_ops \<Rightarrow> ('r \<Rightarrow> nat) \<Rightarrow> ('r \<Rightarrow> bool) \<Rightarrow> 'r wl \<Rightarrow> bool" where
  "wl_supply N ops avail rok s \<longleftrightarrow> rok (wl_res s) \<and>
     (\<forall>t. wl_pc s t \<in> {Wlock, Unlock} \<longrightarrow> avail (wl_res s) = 0) \<and> (\<forall>t. wl_pc s t = Get \<longrightarrow> 0 < avail (wl_res s)) \<and>
     (\<forall>t. wl_pc s t = Put \<longrightarrow> op_may_put ops t (wl_res s)) \<and> (\<forall>t. wl_pc s t \<noteq> Idle \<longrightarrow> t \<in> N) \<and>
     (wl_sleepers s \<noteq> [] \<or> (\<exists>t. wl_pc s t = Sleep) \<longrightarrow> avail (wl_res s) \<le> wl_pending N s)"

lemma wl_supplyD:
  assumes "wl_supply N ops avail rok s"
  shows "rok (wl_res s)" "wl_pc s t = Wlock \<Longrightarrow> avail (wl_res s) = 0" "wl_pc s t = Unlock \<Longrightarrow> avail (wl_res s) = 0"
    "wl_pc s t = Get \<Longrightarrow> 0 < avail (wl_res s)" "wl_pc s t = Put \<Longrightarrow> op_may_put ops t (wl_res s)"
    "wl_pc s t \<noteq> Idle \<Longrightarrow> t \<in> N" "wl_sleepers s \<noteq> [] \<Longrightarrow> avail (wl_res s) \<le> wl_pending N s"
    "wl_pc s t = Sleep \<Longrightarrow> avail (wl_res s) \<le> wl_pending N s"
  using assms unfolding wl_supply_def by blast+

lemma wl_supplyI:
  assumes "rok (wl_res s)" "\<And>t. wl_pc s t = Wlock \<Longrightarrow> avail (wl_res s) = 0" "\<And>t. wl_pc s t = Unlock \<Longrightarrow> avail (wl_res s) = 0"
    "\<And>t. wl_pc s t = Get \<Longrightarrow> 0 < avail (wl_res s)" "\<And>t. wl_pc s t = Put \<Longrightarrow> op_may_put ops t (wl_res s)"
    "\<And>t. wl_pc s t \<noteq> Idle \<Longrightarrow> t \<in> N" "wl_sleepers s \<noteq> [] \<Longrightarrow> avail (wl_res s) \<le> wl_pending N s"
    "\<And>t. wl_pc s t = Sleep \<Longrightarrow> avail (wl_res s) \<le> wl_pending N s"
  shows "wl_supply N ops avail rok s"
  using assms unfolding wl_supply_def by blast

lemma sum_update:
  assumes "finite N" "t \<in> N"
  shows "(\<Sum>x \<in> N. f ((g(t := p)) x)) + f (g t) = (\<Sum>x \<in> N. f (g x)) + (f p :: nat)"
proof -
  have "(\<Sum>x \<in> N - {t}. f ((g(t := p)) x)) = (\<Sum>x \<in> N - {t}. f (g x))" by (rule sum.cong) simp_all
  then show ?thesis using sum.remove [OF assms, of "\<lambda>x. f ((g(t := p)) x)"] sum.remove [OF assms, of "\<lambda>x. f (g x)"] by simp
qed

text \<open>Steps of a thread that leave the resource and the channel alone.\<close>

lemma wl_supply_move:
  assumes inv: "wl_supply N ops avail rok s" and fin: "finite N" "t \<in> N"
    and s': "wl_res s' = wl_res s" "wl_sleepers s' = wl_sleepers s" "wl_pc s' = (wl_pc s)(t := p)"
    and p: "p \<in> {Wlock, Unlock, Sleep} \<Longrightarrow> avail (wl_res s) = 0" "p = Get \<Longrightarrow> 0 < avail (wl_res s)"
      "p = Put \<Longrightarrow> op_may_put ops t (wl_res s)"
    and drop: "pending p < pending (wl_pc s t) \<Longrightarrow>
      avail (wl_res s) = 0 \<or> wl_sleepers s = [] \<and> (\<forall>x. wl_pc s x \<noteq> Sleep)"
  shows "wl_supply N ops avail rok s'"
proof -
  note D = wl_supplyD [OF inv]
  have sum: "wl_pending N s' + pending (wl_pc s t) = wl_pending N s + pending p"
    unfolding wl_pending_def s'(3) by (rule sum_update [OF fin])
  have "avail (wl_res s) \<le> wl_pending N s'" if "wl_sleepers s \<noteq> [] \<or> (\<exists>x. ((wl_pc s)(t := p)) x = Sleep)"
  proof (cases "avail (wl_res s) = 0")
    case False
    then have "p \<noteq> Sleep" using p(1) by auto
    then have old: "wl_sleepers s \<noteq> [] \<or> (\<exists>x. wl_pc s x = Sleep)" using that by (auto split: if_splits)
    then have "\<not> pending p < pending (wl_pc s t)" using drop False by blast
    then show ?thesis using D(7) D(8) old sum by fastforce
  qed simp
  then have le: "wl_sleepers s \<noteq> [] \<Longrightarrow> avail (wl_res s) \<le> wl_pending N s'"
      "\<And>x. ((wl_pc s)(t := p)) x = Sleep \<Longrightarrow> avail (wl_res s) \<le> wl_pending N s'" by blast+
  show ?thesis
  proof (rule wl_supplyI, unfold s')
    show "((wl_pc s)(t := p)) x = Sleep \<Longrightarrow> avail (wl_res s) \<le> wl_pending N s'" for x by (rule le(2))
  qed (use D(1) p fin(2) le(1) in \<open>auto split: if_splits dest: D(2-6)\<close>)
qed

context waitable
begin

lemma wl_next_supply:
  assumes step: "wl_next ops t s = Some s'" and inv: "wl_locks s" "wl_queue s" "wl_supply N ops avail rok s" and fin: "finite N"
  shows "wl_supply N ops avail rok s'"
proof -
  note D = wl_supplyD [OF inv(3)] and L = wl_locks_unique [OF inv(1)]
  have "wl_pc s t \<noteq> Idle" using step by (intro notI) (simp add: wl_next_def)
  then have t: "t \<in> N" by (rule D(6))
  note move = wl_supply_move [OF inv(3) fin t]
  show ?thesis
  proof (cases "wl_pc s t")
    case Test
    then show ?thesis
      using step busy_avail [OF D(1)] by (intro move [where p = "if op_busy ops (wl_res s) then Wlock else Get"]) (auto simp: wl_next_def)
  next
    case Sleep
    have "wl_pending N s' = wl_pending N s"
      using step Sleep sum_update [OF fin t, of pending "wl_pc s" Asleep] by (auto simp: wl_next_def wl_pending_def)
    then show ?thesis
      using step Sleep D(1) D(8) [OF Sleep] t by (intro wl_supplyI) (auto simp: wl_next_def split: if_splits dest: D(2-6))
  next
    case Get
    from get_law [OF D(1) D(4) [OF Get], of t] obtain r where
      r: "op_get ops t (wl_res s) = Some r" "rok r" "avail (wl_res s) = Suc (avail r)" by blast
    have other: "\<not> spin_held (wl_pc s x)" if "x \<noteq> t" for x using L [of t x] Get that by auto
    have s': "wl_res s' = r" "wl_pc s' = (wl_pc s)(t := Out)" "wl_sleepers s' = wl_sleepers s"
      using step Get r(1) by (auto simp: wl_next_def)
    have "wl_pending N s' + 1 = wl_pending N s"
      using sum_update [OF fin t, of pending "wl_pc s" Out] Get by (simp add: wl_pending_def s')
    then show ?thesis
      using r other t D(7) by (intro wl_supplyI, unfold s') (force split: if_splits dest: D(6,8))+
  next
    case Put
    from step Put obtain r where r: "op_put ops t (wl_res s) = Some r" by (auto simp: wl_next_def split: option.splits)
    have r': "rok r" "avail r = Suc (avail (wl_res s))" using put_law [OF D(1) D(5) [OF Put] r] by simp_all
    have other: "\<not> spin_held (wl_pc s x)" if "x \<noteq> t" for x using L [of t x] Put that by auto
    have s': "wl_res s' = r" "wl_pc s' = (wl_pc s)(t := Kacq)" "wl_sleepers s' = wl_sleepers s"
      using step Put r by (auto simp: wl_next_def)
    have "wl_pending N s' = wl_pending N s + 1"
      using sum_update [OF fin t, of pending "wl_pc s" Kacq] Put by (simp add: wl_pending_def s')
    then show ?thesis
      using r' other t D(7) by (intro wl_supplyI, unfold s') (force split: if_splits dest: D(6,8))+
  next
    case Krem
    have nosleep: "wl_pc s x \<noteq> Sleep" for x
      using wl_locks_wcunique [OF inv(1), of t x] Krem by (cases "x = t") auto
    show ?thesis
    proof (cases "wl_sleepers s")
      case Nil
      then show ?thesis using step Krem nosleep by (intro move [where p = "Krel None"]) (auto simp: wl_next_def)
    next
      case (Cons u us)
      then have "wl_pending N s' = wl_pending N s"
        using step Krem sum_update [OF fin t, of pending "wl_pc s" "Krel (Some u)"] by (auto simp: wl_next_def wl_pending_def)
      then show ?thesis
        using step Krem Cons D(1,7) nosleep t by (intro wl_supplyI) (auto simp: wl_next_def split: if_splits dest: D(2-6))
    qed
  next
    case (Krel target)
    then show ?thesis
      using step by (intro move [where p = "case target of None \<Rightarrow> Rout | Some u \<Rightarrow> Krun u"]) (auto simp: wl_next_def split: option.splits)
  next
    case (Krun u)
    have u: "wl_pc s u = Asleep" "u \<noteq> t" using wl_queueD(3) [OF inv(2), of t u] Krun by auto
    then have "u \<in> N" using D(6) [of u] by simp
    from step Krun have s': "s' = goto t Rout (goto u Acq s)" by (simp add: wl_next_def)
    have "wl_pending N s' = wl_pending N s"
      using sum_update [OF fin \<open>u \<in> N\<close>, of pending "wl_pc s" Acq] sum_update [OF fin t, of pending "(wl_pc s)(u := Acq)" Rout] u Krun
      by (simp add: wl_pending_def s')
    then show ?thesis
      using D(1,7) t \<open>u \<in> N\<close> by (intro wl_supplyI, unfold s') (auto split: if_splits dest: D(2-6,8))
  qed (use step in \<open>auto simp: wl_next_def intro!: move split: if_splits dest: D(2-5)\<close>)
qed

end

section \<open>Invariants of reachable states and progress\<close>

fun work :: "wl_pc \<Rightarrow> nat" where
  "work Acq = 7" | "work Test = 6" | "work Wlock = 5" | "work Unlock = 4" | "work Sleep = 3" | "work Get = 2" | "work Out = 1"
| "work Racq = 17" | "work Rtest = 16" | "work Put = 15" | "work Kacq = 14" | "work Krem = 13" | "work (Krel target) = 12"
| "work (Krun u) = 11" | "work Rout = 1" | "work Idle = 0" | "work Asleep = 0"

text \<open>A bound on the statements that are left to execute when no function is called any more.\<close>

definition wl_work :: "nat set \<Rightarrow> 'r wl \<Rightarrow> nat" where
  "wl_work N s = (\<Sum>t \<in> N. work (wl_pc s t))"

lemma wl_call_inv:
  assumes "wl_pc s t = Idle" "p \<in> {Acq, Racq}"
  shows "wl_locks s \<Longrightarrow> wl_locks (goto t p s)" "wl_queue s \<Longrightarrow> wl_queue (goto t p s)"
    "finite N \<Longrightarrow> t \<in> N \<Longrightarrow> wl_supply N ops avail rok s \<Longrightarrow> wl_supply N ops avail rok (goto t p s)"
proof -
  show "wl_locks s \<Longrightarrow> wl_locks (goto t p s)"
    using assms unfolding wl_locks_def by auto
  show "wl_queue s \<Longrightarrow> wl_queue (goto t p s)"
    by (rule wl_queue_move [of s _ t p]) (use assms in auto)
  show "finite N \<Longrightarrow> t \<in> N \<Longrightarrow> wl_supply N ops avail rok s \<Longrightarrow> wl_supply N ops avail rok (goto t p s)"
    by (rule wl_supply_move [of N ops avail rok s t _ p]) (use assms in auto)
qed

lemma wl_next_work:
  assumes step: "wl_next ops t s = Some s'" and inv: "wl_queue s" "\<And>t. wl_pc s t \<noteq> Idle \<Longrightarrow> t \<in> N" and fin: "finite N"
  shows "wl_work N s' < wl_work N s"
proof -
  have "wl_pc s t \<noteq> Idle" using step by (intro notI) (simp add: wl_next_def)
  then have t: "t \<in> N" by (rule inv(2))
  have W: "wl_work N s' + work (wl_pc s t) = wl_work N s + work p" if "wl_pc s' = (wl_pc s)(t := p)" for p
    using sum_update [OF fin t, of work "wl_pc s" p] that by (simp add: wl_work_def)
  show ?thesis
  proof (cases "wl_pc s t")
    case (Krun u)
    have u: "wl_pc s u = Asleep" "u \<noteq> t" using wl_queueD(3) [OF inv(1), of t u] Krun by auto
    then have "u \<in> N" using inv(2) [of u] by simp
    from step Krun have "wl_pc s' = (wl_pc s)(u := Acq, t := Rout)" by (auto simp: wl_next_def)
    then show ?thesis
      using sum_update [OF fin \<open>u \<in> N\<close>, of work "wl_pc s" Acq] sum_update [OF fin t, of work "(wl_pc s)(u := Acq)" Rout] u Krun
      by (simp add: wl_work_def)
  next
    case (Krel target)
    then show ?thesis
      using step W [of "case target of None \<Rightarrow> Rout | Some u \<Rightarrow> Krun u"] by (cases target) (auto simp: wl_next_def)
  next
    case Krem
    then show ?thesis
      using step W [of "Krel None"] W [of "Krel (Some (hd (wl_sleepers s)))"] by (cases "wl_sleepers s") (auto simp: wl_next_def)
  qed (use step W in \<open>fastforce simp: wl_next_def split: if_splits option.splits\<close>)+
qed

lemma wl_progress:
  assumes inv: "wl_locks s" and t: "wl_pc s t \<notin> {Idle, Asleep}" and ok: "\<not> wl_panics ops s"
  shows "\<exists>s'. wl_run ops s s'"
proof -
  have wc: "\<exists>s'. wl_run ops s s'" if "wc_held (wl_pc s x)" for x
  proof -
    have "wl_next ops x s \<noteq> None"
      using that by (cases "wl_pc s x") (auto simp: wl_next_def split: list.splits option.splits)
    then show ?thesis by (auto simp: wl_run_def)
  qed
  have spin: "\<exists>s'. wl_run ops s s'" if x: "spin_held (wl_pc s x)" for x
  proof (cases "wl_pc s x \<in> {Wlock, Kacq} \<and> wl_wclock s \<noteq> None")
    case True
    then obtain y where "wl_wclock s = Some y" by blast
    then have "wc_held (wl_pc s y)" using inv unfolding wl_locks_def by blast
    then show ?thesis by (rule wc)
  next
    case False
    have "wl_next ops x s \<noteq> None"
      using x False ok by (cases "wl_pc s x") (auto simp: wl_next_def wl_panics_def split: list.splits option.splits)
    then show ?thesis by (auto simp: wl_run_def)
  qed
  show ?thesis
  proof (cases "wl_spin s")
    case None
    then have "\<not> spin_held (wl_pc s t)" using wl_locks_free [OF inv] by blast
    then have "wl_next ops t s \<noteq> None" using t None by (cases "wl_pc s t") (auto simp: wl_next_def)
    then show ?thesis by (auto simp: wl_run_def)
  next
    case (Some x)
    then have "spin_held (wl_pc s x)" using inv unfolding wl_locks_def by blast
    then show ?thesis by (rule spin)
  qed
qed

definition wl_balance :: "nat set \<Rightarrow> ('r \<Rightarrow> nat) \<Rightarrow> 'r \<Rightarrow> 'r wl \<Rightarrow> bool" where
  "wl_balance N avail r s \<longleftrightarrow> avail (wl_res s) + (\<Sum>t \<in> N. wl_gets s t) = avail r + (\<Sum>t \<in> N. wl_puts s t)"

context waitable
begin

lemma wl_next_balance:
  assumes step: "wl_next ops t s = Some s'" and inv: "wl_supply N ops avail rok s" "wl_balance N avail r s" and fin: "finite N"
  shows "wl_balance N avail r s'"
proof -
  note D = wl_supplyD [OF inv(1)]
  have "wl_pc s t \<noteq> Idle" using step by (intro notI) (simp add: wl_next_def)
  then have t: "t \<in> N" by (rule D(6))
  show ?thesis
  proof (cases "wl_pc s t")
    case Get
    from get_law [OF D(1) D(4) [OF Get], of t] obtain r' where "op_get ops t (wl_res s) = Some r'" "avail (wl_res s) = Suc (avail r')"
      by blast
    then show ?thesis
      using step Get inv(2) sum_update [OF fin t, of "\<lambda>x. x" "wl_gets s" "Suc (wl_gets s t)"] by (auto simp: wl_next_def wl_balance_def)
  next
    case Put
    with step obtain r' where r': "op_put ops t (wl_res s) = Some r'" by (auto simp: wl_next_def split: option.splits)
    then have "avail r' = Suc (avail (wl_res s))" using put_law [OF D(1) D(5) [OF Put]] by blast
    then show ?thesis
      using r' step Put inv(2) sum_update [OF fin t, of "\<lambda>x. x" "wl_puts s" "Suc (wl_puts s t)"] by (auto simp: wl_next_def wl_balance_def)
  qed (use step inv(2) in \<open>auto simp: wl_next_def wl_balance_def split: if_splits option.splits list.splits\<close>)
qed

lemma wl_reachable_inv:
  assumes "wl_reachable N ops r s" "finite N" "rok r"
  shows "wl_locks s \<and> wl_queue s \<and> wl_supply N ops avail rok s \<and> wl_balance N avail r s"
  using assms(1)
proof induction
  case start
  show ?case
    using assms(3) by (auto simp: wl_init_def wl_locks_def wl_queue_def wl_balance_def intro!: wl_supplyI)
next
  case (step s s')
  from step.hyps(2) show ?case
  proof cases
    case (call_get t)
    then show ?thesis
      using step.IH wl_call_inv [OF call_get(3), of Acq] assms(2) by (auto simp: wl_balance_def)
  next
    case (call_put t)
    then show ?thesis
      using step.IH wl_call_inv [OF call_put(3), of Racq] assms(2) by (auto simp: wl_balance_def)
  next
    case (run t)
    then show ?thesis
      using step.IH assms(2) by (blast intro: wl_next_locks wl_next_queue wl_next_supply wl_next_balance)
  qed
qed

text \<open>When no statement is left to execute, every thread is outside the functions or asleep, and asleep only for good reason.\<close>

lemma wl_quiescent:
  assumes inv: "wl_locks s" "wl_queue s" "wl_supply N ops avail rok s" and stop: "\<not> (\<exists>s'. wl_run ops s s')" "\<not> wl_panics ops s"
  shows "wl_pc s t \<in> {Idle, Asleep}" "wl_pc s t = Asleep \<Longrightarrow> op_busy ops (wl_res s)"
proof -
  show idle: "wl_pc s t \<in> {Idle, Asleep}" for t using wl_progress [OF inv(1) _ stop(2)] stop(1) by blast
  show "op_busy ops (wl_res s)" if "wl_pc s t = Asleep"
  proof -
    have "woken_by (wl_pc s x) = None" "pending (wl_pc s x) = 0" for x using idle [of x] by auto
    then have "t \<in> set (wl_sleepers s)" "wl_pending N s = 0"
      using wl_queueD(5) [OF inv(2) that] by (auto simp: wl_pending_def)
    then have "avail (wl_res s) = 0" using wl_supplyD(7) [OF inv(3)] by (cases "wl_sleepers s") auto
    then show ?thesis using busy_avail [OF wl_supplyD(1) [OF inv(3)]] by simp
  qed
qed

lemma wl_run_bounded:
  assumes "wl_locks s" "wl_queue s" "wl_supply N ops avail rok s" "finite N" "(wl_run ops ^^ n) s s'"
  shows "n + wl_work N s' \<le> wl_work N s \<and> wl_locks s' \<and> wl_queue s' \<and> wl_supply N ops avail rok s'"
  using assms(5)
proof (induction n arbitrary: s')
  case 0
  then show ?case using assms by simp
next
  case (Suc n)
  then obtain s1 where s1: "(wl_run ops ^^ n) s s1" "wl_run ops s1 s'" by (auto elim: relpowp_Suc_E)
  from s1(2) obtain t where t: "wl_next ops t s1 = Some s'" by (auto simp: wl_run_def)
  have inv: "wl_locks s1" "wl_queue s1" "wl_supply N ops avail rok s1" "n + wl_work N s1 \<le> wl_work N s"
    using Suc.IH [OF s1(1)] by simp_all
  have "wl_work N s' < wl_work N s1" using wl_next_work [OF t inv(2) _ assms(4)] wl_supplyD(6) [OF inv(3)] by blast
  then show ?case
    using inv wl_next_locks [OF t] wl_next_queue [OF t] wl_next_supply [OF t inv(1-3) assms(4)] by simp
qed

end

section \<open>Semaphores\<close>

definition sem_avail_ok :: "int \<Rightarrow> bool" where
  "sem_avail_ok n \<longleftrightarrow> 0 \<le> n \<and> n < 2 ^ 31"

lemma sem_incr:
  assumes "sem_avail_ok n"
  shows "op_put sem_ops t n = (if n = 2 ^ 31 - 1 then None else Some (n + 1))"
proof -
  have "(n + 1 + 2 ^ 31) mod 2 ^ 32 - 2 ^ 31 = (if n = 2 ^ 31 - 1 then - (2 ^ 31) else n + 1)"
    using assms by (auto simp: sem_avail_ok_def)
  then show ?thesis using assms unfolding sem_ops_def by (simp add: Let_def sem_avail_ok_def)
qed

interpretation sem: waitable sem_ops nat sem_avail_ok
proof
  fix r r' :: int and t :: nat
  assume r: "sem_avail_ok r"
  show "op_busy sem_ops r \<longleftrightarrow> nat r = 0" using r by (auto simp: sem_ops_def sem_avail_ok_def)
  show "\<exists>r'. op_get sem_ops t r = Some r' \<and> sem_avail_ok r' \<and> nat r = Suc (nat r')" if "0 < nat r"
    using r that by (auto simp: sem_ops_def sem_avail_ok_def)
  show "sem_avail_ok r' \<and> nat r' = Suc (nat r)" if "op_put sem_ops t r = Some r'"
    using r that by (auto simp: sem_incr sem_avail_ok_def split: if_splits)
qed

text \<open>A schedule of calls and statements, to exhibit concrete states.\<close>

datatype wl_act = Call_get nat | Call_put nat | Run nat

fun wl_do :: "'r wait_ops \<Rightarrow> wl_act \<Rightarrow> 'r wl \<Rightarrow> 'r wl option" where
  "wl_do ops (Call_get t) s = (if wl_pc s t = Idle then Some (goto t Acq s) else None)"
| "wl_do ops (Call_put t) s = (if wl_pc s t = Idle then Some (goto t Racq s) else None)"
| "wl_do ops (Run t) s = wl_next ops t s"

fun act_thread :: "wl_act \<Rightarrow> nat" where
  "act_thread (Call_get t) = t" | "act_thread (Call_put t) = t" | "act_thread (Run t) = t"

fun wl_acts :: "'r wait_ops \<Rightarrow> wl_act list \<Rightarrow> 'r wl \<Rightarrow> 'r wl option" where
  "wl_acts ops [] s = Some s"
| "wl_acts ops (a # as) s = Option.bind (wl_do ops a s) (wl_acts ops as)"

lemma wl_acts_reachable:
  assumes "wl_acts ops as s = Some s'" "wl_reachable N ops r s" "\<forall>a \<in> set as. act_thread a \<in> N"
  shows "wl_reachable N ops r s'"
  using assms
proof (induction as arbitrary: s)
  case (Cons a as)
  then obtain s1 where s1: "wl_do ops a s = Some s1" "wl_acts ops as s1 = Some s'" by (auto simp: Option.bind_eq_Some_conv)
  then have "wl_step N ops s s1"
    using Cons.prems(3) by (cases a) (auto intro: wl_step.intros split: if_splits)
  then show ?case using Cons.IH [OF s1(2)] Cons.prems by (auto intro: wl_reachable.step)
qed simp

text \<open>Thread 0 goes to sleep in \<^verbatim>\<open>P\<close> on a semaphore with count 0, thread 1 calls \<^verbatim>\<open>V\<close> and wakes it.\<close>

definition sleep_acts :: "wl_act list" where
  "sleep_acts = [Call_get 0, Run 0, Run 0, Run 0, Run 0, Run 0]"

definition wake_acts :: "wl_act list" where
  "wake_acts = Call_put 1 # replicate 8 (Run 1)"

lemmas wl_eval = sleep_acts_def wake_acts_def wl_init_def wl_next_def goto_def sem_ops_def lock_ops_def lock_do_i_hold_def eval_nat_numeral

text \<open>
  C20: However the threads are interleaved, the count of a semaphore is its initial value plus the completed \<^verbatim>\<open>V\<close>s
  minus the completed \<^verbatim>\<open>P\<close>s, it never becomes negative, and the only assertion that can fail is the overflow
  assertion of \<^verbatim>\<open>V\<close>.
\<close>

theorem sem_conserves:
  assumes "wl_reachable N sem_ops c s" and "finite N" "0 \<le> c" "c < 2 ^ 31"
  shows "wl_res s = c + (\<Sum>t \<in> N. int (wl_puts s t)) - (\<Sum>t \<in> N. int (wl_gets s t))
      \<and> 0 \<le> wl_res s \<and> (wl_panics sem_ops s \<longrightarrow> wl_res s = 2 ^ 31 - 1)"
proof (intro conjI)
  have inv: "wl_supply N sem_ops nat sem_avail_ok s" "wl_balance N nat c s"
    using sem.wl_reachable_inv [OF assms(1,2)] assms(3,4) by (simp_all add: sem_avail_ok_def)
  have ok: "sem_avail_ok (wl_res s)" by (rule wl_supplyD(1) [OF inv(1)])
  then show pos: "0 \<le> wl_res s" by (simp add: sem_avail_ok_def)
  have "int (nat (wl_res s) + (\<Sum>t \<in> N. wl_gets s t)) = int (nat c + (\<Sum>t \<in> N. wl_puts s t))"
    using inv(2) by (simp only: wl_balance_def)
  then show "wl_res s = c + (\<Sum>t \<in> N. int (wl_puts s t)) - (\<Sum>t \<in> N. int (wl_gets s t))"
    using pos assms(3) by simp
  show "wl_panics sem_ops s \<longrightarrow> wl_res s = 2 ^ 31 - 1"
  proof
    assume "wl_panics sem_ops s"
    then obtain t where "wl_pc s t = Get \<and> op_get sem_ops t (wl_res s) = None \<or> op_put sem_ops t (wl_res s) = None"
      by (auto simp: wl_panics_def)
    then show "wl_res s = 2 ^ 31 - 1"
    proof
      assume g: "wl_pc s t = Get \<and> op_get sem_ops t (wl_res s) = None"
      then have "0 < nat (wl_res s)" using wl_supplyD(4) [OF inv(1)] by blast
      with g show ?thesis by (simp add: sem_ops_def)
    qed (use sem_incr [OF ok] in \<open>simp split: if_splits\<close>)
  qed
qed

theorem sem_conserves_witness:
  "\<exists>s. wl_acts sem_ops (sleep_acts @ wake_acts @ replicate 3 (Run 0)) (wl_init 0) = Some s \<and> wl_pc s 0 = Out \<and>
     wl_res s = 0 + (\<Sum>t \<in> {0, 1}. int (wl_puts s t)) - (\<Sum>t \<in> {0, 1}. int (wl_gets s t))"
proof -
  have "\<exists>s. wl_acts sem_ops (sleep_acts @ wake_acts @ replicate 3 (Run 0)) (wl_init 0) = Some s \<and> wl_pc s 0 = Out"
    by (simp add: wl_eval)
  then obtain s where s: "wl_acts sem_ops (sleep_acts @ wake_acts @ replicate 3 (Run 0)) (wl_init 0) = Some s" "wl_pc s 0 = Out"
    by blast
  have "wl_reachable {0, 1} sem_ops 0 s"
    by (rule wl_acts_reachable [OF s(1) wl_reachable.start]) (auto simp: sleep_acts_def wake_acts_def)
  then show ?thesis using s sem_conserves [of "{0, 1}" 0 s] by auto
qed

text \<open>
  C21: No wakeup of a semaphore is lost. From any reachable state the calls in progress execute at most \<open>wl_work N s\<close>
  further statements, and when none is left to execute and no assertion has failed, every thread has returned or is
  asleep in \<^verbatim>\<open>P\<close>, and no thread is asleep unless the count is zero.
\<close>

theorem sem_no_lost_wakeup:
  assumes "wl_reachable N sem_ops c s" and "finite N" "0 \<le> c" "c < 2 ^ 31" and "(wl_run sem_ops ^^ n) s s'"
  shows "n \<le> wl_work N s \<and>
    (\<not> (\<exists>s''. wl_run sem_ops s' s'') \<and> \<not> wl_panics sem_ops s' \<longrightarrow>
       (\<forall>t. wl_pc s' t \<in> {Idle, Asleep} \<and> (wl_pc s' t = Asleep \<longrightarrow> wl_res s' = 0)))"
proof -
  have inv: "wl_locks s" "wl_queue s" "wl_supply N sem_ops nat sem_avail_ok s"
    using sem.wl_reachable_inv [OF assms(1,2)] assms(3,4) by (simp_all add: sem_avail_ok_def)
  note R = sem.wl_run_bounded [OF inv assms(2,5)]
  then have inv': "wl_locks s'" "wl_queue s'" "wl_supply N sem_ops nat sem_avail_ok s'" by simp_all
  have "wl_pc s' t \<in> {Idle, Asleep} \<and> (wl_pc s' t = Asleep \<longrightarrow> wl_res s' = 0)"
    if "\<not> (\<exists>s''. wl_run sem_ops s' s'')" "\<not> wl_panics sem_ops s'" for t
    using sem.wl_quiescent [OF inv' that, of t] by (auto simp: sem_ops_def)
  then show ?thesis using R by simp
qed

lemma wl_acts_run:
  assumes "wl_acts ops (map Run ts) s = Some s'" "n = length ts"
  shows "(wl_run ops ^^ n) s s'"
  unfolding assms(2) using assms(1)
proof (induction ts arbitrary: s)
  case (Cons t ts)
  then obtain s1 where "wl_next ops t s = Some s1" "wl_acts ops (map Run ts) s1 = Some s'" by (auto simp: Option.bind_eq_Some_conv)
  then show ?case using Cons.IH by (auto simp: wl_run_def simp del: relpowp.simps intro: relpowp_Suc_I2)
qed simp

lemma wl_idle_stops: "(\<And>t. wl_pc s t = Idle) \<Longrightarrow> \<not> (\<exists>s'. wl_run ops s s') \<and> \<not> wl_panics ops s"
  by (simp add: wl_run_def wl_next_def wl_panics_def)

theorem sem_no_lost_wakeup_witness:
  "\<exists>s s'. wl_acts sem_ops (sleep_acts @ [Call_put 1]) (wl_init 0) = Some s \<and> (wl_run sem_ops ^^ 12) s s' \<and>
     12 \<le> wl_work {0, 1} s \<and> (\<forall>t. wl_pc s' t \<in> {Idle, Asleep})"
proof -
  have "\<exists>s s'. wl_acts sem_ops (sleep_acts @ [Call_put 1]) (wl_init 0) = Some s \<and>
      wl_acts sem_ops (map Run [1, 1, 1, 1, 1, 1, 1, 1, 0, 0, 0, 0]) s = Some s' \<and> (\<forall>t. wl_pc s' t = Idle)"
    by (simp add: wl_eval)
  then obtain s s' where s: "wl_acts sem_ops (sleep_acts @ [Call_put 1]) (wl_init 0) = Some s"
      "wl_acts sem_ops (map Run [1, 1, 1, 1, 1, 1, 1, 1, 0, 0, 0, 0]) s = Some s'" "\<And>t. wl_pc s' t = Idle" by blast
  have r: "wl_reachable {0, 1} sem_ops 0 s"
    by (rule wl_acts_reachable [OF s(1) wl_reachable.start]) (auto simp: sleep_acts_def)
  have n: "(wl_run sem_ops ^^ 12) s s'" by (rule wl_acts_run [OF s(2)]) simp
  show ?thesis using sem_no_lost_wakeup [OF r _ _ _ n] s(1) n wl_idle_stops [OF s(3), of sem_ops] by auto
qed

section \<open>Locks\<close>

definition lock_avail :: "lock \<Rightarrow> nat" where
  "lock_avail lk = (if lock_holder lk = None then 1 else 0)"

interpretation lk: waitable lock_ops lock_avail "\<lambda>lk. lock_held lk = (if lock_holder lk = None then 0 else 1)"
  by unfold_locales (auto simp: lock_ops_def lock_avail_def lock_do_i_hold_def split: if_splits)

text \<open>A thread has completed one acquisition more than releases when it is the holder, and as many otherwise.\<close>

definition lock_owned :: "lock wl \<Rightarrow> bool" where
  "lock_owned s \<longleftrightarrow> (\<forall>t. wl_gets s t = wl_puts s t + (if lock_holder (wl_res s) = Some t then 1 else 0))"

lemma lock_next_owned:
  assumes step: "wl_next lock_ops t s = Some s'" and inv: "lock_owned s"
    and sup: "wl_pc s t = Get \<Longrightarrow> 0 < lock_avail (wl_res s)" "wl_pc s t = Put \<Longrightarrow> op_may_put lock_ops t (wl_res s)"
  shows "lock_owned s'"
proof (cases "wl_pc s t \<in> {Get, Put}")
  case True
  have a: "wl_gets s u = wl_puts s u + (if lock_holder (wl_res s) = Some u then 1 else 0)" for u
    using inv by (simp add: lock_owned_def)
  from True show ?thesis
  proof
    assume "wl_pc s t = Get"
    then show ?thesis using step sup(1) a by (auto simp: wl_next_def lock_ops_def lock_owned_def lock_avail_def split: if_splits)
  next
    assume "wl_pc s t \<in> {Put}"
    then show ?thesis using step sup(2) a by (auto simp: wl_next_def lock_ops_def lock_owned_def lock_do_i_hold_def)
  qed
next
  case False
  then have "wl_res s' = wl_res s \<and> wl_gets s' = wl_gets s \<and> wl_puts s' = wl_puts s"
    using step by (cases "wl_pc s t") (auto simp: wl_next_def split: if_splits option.splits list.splits)
  then show ?thesis using inv by (simp add: lock_owned_def)
qed

lemma lock_reachable_owned:
  assumes "wl_reachable N lock_ops lock0 s" "finite N"
  shows "lock_owned s"
  using assms(1)
proof induction
  case start
  then show ?case by (simp add: lock_owned_def wl_init_def lock0_def)
next
  case (step s s')
  have "wl_supply N lock_ops lock_avail (\<lambda>lk. lock_held lk = (if lock_holder lk = None then 0 else 1)) s"
    using lk.wl_reachable_inv [OF step.hyps(1) assms(2)] by (simp add: lock0_def)
  note D = wl_supplyD [OF this]
  from step.hyps(2) show ?case
  proof cases
    case (run t)
    show ?thesis by (rule lock_next_owned [OF run step.IH]) (use D(4,5) in blast)+
  qed (use step.IH in \<open>simp_all add: lock_owned_def\<close>)
qed

lemma lock_never_panics: "\<not> wl_panics lock_ops s"
  by (simp add: wl_panics_def lock_ops_def)

text \<open>
  C6: A lock excludes. In every reachable state the threads that have completed \<^verbatim>\<open>lock_acquire\<close> once more than
  \<^verbatim>\<open>lock_release\<close> are exactly the holder, every other thread has given back every acquisition, and the two fields
  of the lock agree.
\<close>

theorem lock_mutual_exclusion:
  assumes "wl_reachable N lock_ops lock0 s" and "finite N"
  shows "(\<forall>t. wl_gets s t = wl_puts s t + (if lock_do_i_hold t (wl_res s) then 1 else 0)) \<and>
    (\<forall>t u. wl_puts s t < wl_gets s t \<and> wl_puts s u < wl_gets s u \<longrightarrow> t = u) \<and>
    lock_held (wl_res s) = (if lock_holder (wl_res s) = None then 0 else 1)"
proof -
  have a: "wl_gets s t = wl_puts s t + (if lock_holder (wl_res s) = Some t then 1 else 0)" for t
    using lock_reachable_owned [OF assms] by (simp add: lock_owned_def)
  have "wl_supply N lock_ops lock_avail (\<lambda>lk. lock_held lk = (if lock_holder lk = None then 0 else 1)) s"
    using lk.wl_reachable_inv [OF assms] by (simp add: lock0_def)
  then have "lock_held (wl_res s) = (if lock_holder (wl_res s) = None then 0 else 1)" by (rule wl_supplyD(1))
  then show ?thesis using a by (auto simp: lock_do_i_hold_def split: if_splits)
qed

text \<open>Thread 0 takes the lock and thread 1 goes to sleep on it.\<close>

definition lock_acts :: "wl_act list" where
  "lock_acts = [Call_get 0, Run 0, Run 0, Run 0, Run 0, Call_get 1, Run 1, Run 1, Run 1, Run 1, Run 1]"

theorem lock_mutual_exclusion_witness:
  "\<exists>s. wl_acts lock_ops lock_acts (wl_init lock0) = Some s \<and> wl_sleepers s = [1] \<and>
     (\<forall>t. wl_gets s t = wl_puts s t + (if lock_do_i_hold t (wl_res s) then 1 else 0))"
proof -
  have "\<exists>s. wl_acts lock_ops lock_acts (wl_init lock0) = Some s \<and> wl_sleepers s = [1]"
    by (simp add: wl_eval lock_acts_def lock0_def)
  then obtain s where s: "wl_acts lock_ops lock_acts (wl_init lock0) = Some s" "wl_sleepers s = [1]" by blast
  have "wl_reachable {0, 1} lock_ops lock0 s"
    by (rule wl_acts_reachable [OF s(1) wl_reachable.start]) (auto simp: lock_acts_def)
  then show ?thesis using s lock_mutual_exclusion [of "{0, 1}" s] by auto
qed

text \<open>
  C7: No wakeup of a lock is lost and no assertion fails. The calls in progress execute at most \<open>wl_work N s\<close> further
  statements, and when none is left to execute every thread has returned or is asleep in \<^verbatim>\<open>lock_acquire\<close>, and no
  thread is asleep unless some thread holds the lock.
\<close>

theorem lock_no_lost_wakeup:
  assumes "wl_reachable N lock_ops lock0 s" and "finite N" and "(wl_run lock_ops ^^ n) s s'"
  shows "n \<le> wl_work N s \<and>
    (\<not> (\<exists>s''. wl_run lock_ops s' s'') \<longrightarrow>
       (\<forall>t. wl_pc s' t \<in> {Idle, Asleep} \<and> (wl_pc s' t = Asleep \<longrightarrow> (\<exists>u. lock_do_i_hold u (wl_res s')))))"
proof -
  let ?ok = "\<lambda>lk. lock_held lk = (if lock_holder lk = None then 0 else 1)"
  have inv: "wl_locks s" "wl_queue s" "wl_supply N lock_ops lock_avail ?ok s"
    using lk.wl_reachable_inv [OF assms(1,2)] by (simp_all add: lock0_def)
  note R = lk.wl_run_bounded [OF inv assms(2,3)]
  then have inv': "wl_locks s'" "wl_queue s'" "wl_supply N lock_ops lock_avail ?ok s'" by simp_all
  have "wl_pc s' t \<in> {Idle, Asleep} \<and> (wl_pc s' t = Asleep \<longrightarrow> (\<exists>u. lock_do_i_hold u (wl_res s')))"
    if "\<not> (\<exists>s''. wl_run lock_ops s' s'')" for t
    using lk.wl_quiescent [OF inv' that lock_never_panics, of t] by (auto simp: lock_ops_def lock_do_i_hold_def)
  then show ?thesis using R by simp
qed

theorem lock_no_lost_wakeup_witness:
  "\<exists>s s'. wl_acts lock_ops (lock_acts @ [Call_put 0]) (wl_init lock0) = Some s \<and> (wl_run lock_ops ^^ 12) s s' \<and>
     12 \<le> wl_work {0, 1} s \<and> (\<forall>t. wl_pc s' t \<in> {Idle, Asleep})"
proof -
  have "\<exists>s s'. wl_acts lock_ops (lock_acts @ [Call_put 0]) (wl_init lock0) = Some s \<and>
      wl_acts lock_ops (map Run [0, 0, 0, 0, 0, 0, 0, 0, 1, 1, 1, 1]) s = Some s' \<and> (\<forall>t. wl_pc s' t = Idle)"
    by (simp add: wl_eval lock_acts_def lock0_def)
  then obtain s s' where s: "wl_acts lock_ops (lock_acts @ [Call_put 0]) (wl_init lock0) = Some s"
      "wl_acts lock_ops (map Run [0, 0, 0, 0, 0, 0, 0, 0, 1, 1, 1, 1]) s = Some s'" "\<And>t. wl_pc s' t = Idle" by blast
  have r: "wl_reachable {0, 1} lock_ops lock0 s"
    by (rule wl_acts_reachable [OF s(1) wl_reachable.start]) (auto simp: lock_acts_def)
  have n: "(wl_run lock_ops ^^ 12) s s'" by (rule wl_acts_run [OF s(2)]) simp
  show ?thesis using lock_no_lost_wakeup [OF r _ n] s(1) n wl_idle_stops [OF s(3), of lock_ops] by auto
qed

end
