(* ===== verification/Synch_Cv.thy ===== *)
theory Synch_Cv
  imports Synch
begin

text \<open>
  Condition variables (\<^verbatim>\<open>cv_create\<close>, \<^verbatim>\<open>cv_destroy\<close>, \<^verbatim>\<open>cv_wait\<close>, \<^verbatim>\<open>cv_signal\<close> and \<^verbatim>\<open>cv_broadcast\<close> of \<^verbatim>\<open>thread/synch.c\<close>) with one lock, under
  arbitrary interleaving. The lock is the machine of \<open>lock_ops\<close>: the calls of \<^verbatim>\<open>lock_release\<close> and \<^verbatim>\<open>lock_acquire\<close> in
  \<^verbatim>\<open>cv_wait\<close> are calls of that machine, which then takes its own statements. Signal and broadcast are the statements of \<^verbatim>\<open>wchan_wakeone\<close> and
  \<^verbatim>\<open>wchan_wakeall\<close>.
\<close>

section \<open>Model\<close>

text \<open>
  Inside \<^verbatim>\<open>cv_wait\<close>: releasing the lock, about to lock the channel, to sleep, asleep, acquiring the lock. Inside a wakeup (of all threads if the
  flag is set): about to lock the channel, to take threads from it, to unlock it, to make the threads runnable.
\<close>

datatype cv_pc = Cnone | Crel | Cwlock | Csleep | Casleep | Cacq | Cklock bool | Ckrem bool | Ckrel "nat list" | Ckrun "nat list"

record cvm =
  cv_lk :: "lock wl"
  cv_wclock :: "nat option"
  cv_sleepers :: "nat list"
  cv_pc :: "nat \<Rightarrow> cv_pc"

definition cv_goto :: "nat \<Rightarrow> cv_pc \<Rightarrow> cvm \<Rightarrow> cvm" where
  "cv_goto t p s = s\<lparr>cv_pc := (cv_pc s)(t := p)\<rparr>"

definition cv_next :: "nat \<Rightarrow> cvm \<Rightarrow> cvm option" where
  "cv_next t s =
    (case cv_pc s t of
       Cnone \<Rightarrow> None
     | Crel \<Rightarrow> if wl_pc (cv_lk s) t = Idle then Some (cv_goto t Cwlock s) else None
     | Cwlock \<Rightarrow> if cv_wclock s = None then Some (cv_goto t Csleep (s\<lparr>cv_wclock := Some t\<rparr>)) else None
     | Csleep \<Rightarrow> Some (cv_goto t Casleep (s\<lparr>cv_sleepers := cv_sleepers s @ [t], cv_wclock := None\<rparr>))
     | Casleep \<Rightarrow> None
     | Cacq \<Rightarrow> if wl_pc (cv_lk s) t = Idle then Some (cv_goto t Cnone s) else None
     | Cklock all \<Rightarrow> if cv_wclock s = None then Some (cv_goto t (Ckrem all) (s\<lparr>cv_wclock := Some t\<rparr>)) else None
     | Ckrem all \<Rightarrow>
         (let us = (if all then cv_sleepers s else take 1 (cv_sleepers s)) in
          Some (cv_goto t (Ckrel us) (s\<lparr>cv_sleepers := drop (length us) (cv_sleepers s)\<rparr>)))
     | Ckrel us \<Rightarrow> Some (cv_goto t (Ckrun us) (s\<lparr>cv_wclock := None\<rparr>))
     | Ckrun us \<Rightarrow>
         (case us of
            [] \<Rightarrow> Some (cv_goto t Cnone s)
          | u # vs \<Rightarrow> Some (cv_goto t (Ckrun vs) (cv_goto u Cacq (s\<lparr>cv_lk := goto u Acq (cv_lk s)\<rparr>)))))"

text \<open>What a thread can do next: call a function, or execute a statement of the lock or of the condition variable.\<close>

datatype cv_act = Call_acquire nat | Call_release nat | Call_wait nat | Call_wakeup nat bool | Lock_stmt nat | Cv_stmt nat

definition free_thread :: "nat \<Rightarrow> cvm \<Rightarrow> bool" where
  "free_thread t s \<longleftrightarrow> cv_pc s t = Cnone \<and> wl_pc (cv_lk s) t = Idle"

fun cv_do :: "cv_act \<Rightarrow> cvm \<Rightarrow> cvm option" where
  "cv_do (Call_acquire t) s = (if free_thread t s then Some (s\<lparr>cv_lk := goto t Acq (cv_lk s)\<rparr>) else None)"
| "cv_do (Call_release t) s = (if free_thread t s then Some (s\<lparr>cv_lk := goto t Racq (cv_lk s)\<rparr>) else None)"
| "cv_do (Call_wait t) s = (if free_thread t s then Some (cv_goto t Crel (s\<lparr>cv_lk := goto t Racq (cv_lk s)\<rparr>)) else None)"
| "cv_do (Call_wakeup t all) s = (if free_thread t s then Some (cv_goto t (Cklock all) s) else None)"
| "cv_do (Lock_stmt t) s = map_option (\<lambda>k. s\<lparr>cv_lk := k\<rparr>) (wl_next lock_ops t (cv_lk s))"
| "cv_do (Cv_stmt t) s = cv_next t s"

fun cv_acts :: "cv_act list \<Rightarrow> cvm \<Rightarrow> cvm option" where
  "cv_acts [] s = Some s"
| "cv_acts (a # as) s = (case cv_do a s of None \<Rightarrow> None | Some s' \<Rightarrow> cv_acts as s')"

definition cv_init :: cvm where
  "cv_init = \<lparr>cv_lk = wl_init lock0, cv_wclock = None, cv_sleepers = [], cv_pc = (\<lambda>_. Cnone)\<rparr>"

fun cv_act_thread :: "cv_act \<Rightarrow> nat" where
  "cv_act_thread (Call_acquire t) = t"
| "cv_act_thread (Call_release t) = t"
| "cv_act_thread (Call_wait t) = t"
| "cv_act_thread (Call_wakeup t all) = t"
| "cv_act_thread (Lock_stmt t) = t"
| "cv_act_thread (Cv_stmt t) = t"

inductive cv_reachable :: "nat set \<Rightarrow> cvm \<Rightarrow> bool" for N where
  start: "cv_reachable N cv_init"
| step: "cv_reachable N s \<Longrightarrow> cv_act_thread a \<in> N \<Longrightarrow> cv_do a s = Some s' \<Longrightarrow> cv_reachable N s'"

text \<open>\<^verbatim>\<open>cv_create\<close>: the booleans are the outcomes of the allocations. \<^verbatim>\<open>cv_destroy\<close> asserts what \<^verbatim>\<open>wchan_destroy\<close> asserts.\<close>

definition cv_create :: "bool \<Rightarrow> bool \<Rightarrow> bool \<Rightarrow> ('s, cvm option) kfun" where
  "cv_create ok_cv ok_name ok_wchan =
    (if \<not> ok_cv then kret None
     else if \<not> ok_name then kret None
     else if \<not> ok_wchan then kret None
     else kret (Some cv_init))"

definition cv_destroy :: "cvm \<Rightarrow> ('s, unit) kfun" where
  "cv_destroy s = kbind (kassert (cv_wclock s = None)) (\<lambda>_. kassert (cv_sleepers s = []))"

section \<open>Waiting returns with the lock\<close>

text \<open>The threads that a waker has taken from the channel and not yet made runnable.\<close>

fun cv_taken :: "cv_pc \<Rightarrow> nat list" where
  "cv_taken (Ckrel us) = us"
| "cv_taken (Ckrun us) = us"
| "cv_taken p = []"

definition acq_pcs :: "wl_pc set" where
  "acq_pcs = {Acq, Test, Wlock, Unlock, Sleep, Asleep, Get, Out, Idle}"

text \<open>
  Outside its calls of the lock functions a thread is idle there; the sleepers and the threads taken by wakers are asleep and all different; and a
  thread whose last call of \<^verbatim>\<open>lock_acquire\<close> is done, or about to return, has acquired the lock once more than released it.
\<close>

definition cv_idle :: "nat set \<Rightarrow> cvm \<Rightarrow> bool" where
  "cv_idle N s \<longleftrightarrow> (\<forall>t. cv_pc s t \<notin> {Cnone, Crel, Cacq} \<longrightarrow> wl_pc (cv_lk s) t = Idle) \<and> (\<forall>t. cv_pc s t \<noteq> Cnone \<longrightarrow> t \<in> N)"

definition cv_asleep :: "cvm \<Rightarrow> bool" where
  "cv_asleep s \<longleftrightarrow> distinct (cv_sleepers s) \<and> (\<forall>u \<in> set (cv_sleepers s). cv_pc s u = Casleep) \<and>
    (\<forall>t. distinct (cv_taken (cv_pc s t))) \<and>
    (\<forall>t u. u \<in> set (cv_taken (cv_pc s t)) \<longrightarrow> cv_pc s u = Casleep \<and> u \<notin> set (cv_sleepers s)) \<and>
    (\<forall>t t'. t \<noteq> t' \<longrightarrow> set (cv_taken (cv_pc s t)) \<inter> set (cv_taken (cv_pc s t')) = {})"

definition cv_owns :: "cvm \<Rightarrow> bool" where
  "cv_owns s \<longleftrightarrow> (\<forall>t. cv_pc s t = Cacq \<longrightarrow> wl_pc (cv_lk s) t \<in> acq_pcs \<and>
    (wl_pc (cv_lk s) t \<in> {Out, Idle} \<longrightarrow> wl_gets (cv_lk s) t = Suc (wl_puts (cv_lk s) t)))"

lemma wl_next_moves:
  assumes "wl_next ops t s = Some s'"
  shows "wl_pc s t \<noteq> Idle" "x \<noteq> t \<Longrightarrow> wl_gets s' x = wl_gets s x" "x \<noteq> t \<Longrightarrow> wl_puts s' x = wl_puts s x"
    "x \<noteq> t \<Longrightarrow> wl_pc s' x = wl_pc s x \<or> woken_by (wl_pc s t) = Some x \<and> wl_pc s' x = Acq"
  using assms by (auto simp: wl_next_def split: wl_pc.splits if_splits option.splits list.splits)

lemma wl_next_acq:
  assumes "wl_next lock_ops t s = Some s'" "wl_pc s t \<in> acq_pcs" "lock_owned s'"
    "wl_pc s t = Out \<Longrightarrow> wl_gets s t = Suc (wl_puts s t)"
  shows "wl_pc s' t \<in> acq_pcs \<and> (wl_pc s' t \<in> {Out, Idle} \<longrightarrow> wl_gets s' t = Suc (wl_puts s' t))"
proof (cases "wl_pc s t = Get")
  case True
  then have "wl_pc s' t = Out" "lock_holder (wl_res s') = Some t"
    using assms(1) by (auto simp: wl_next_def lock_ops_def)
  then show ?thesis
    using assms(3) by (simp add: acq_pcs_def lock_owned_def)
next
  case False
  have "wl_pc s' t \<in> acq_pcs - {Out}" "wl_pc s' t = Idle \<longrightarrow> wl_pc s t = Out"
    "wl_gets s' = wl_gets s" "wl_puts s' = wl_puts s"
    using assms(1,2) False by (cases "wl_pc s t"; simp add: wl_next_def acq_pcs_def split: if_splits; auto)+
  then show ?thesis
    using assms(4) by auto
qed

lemma cv_asleep_cong: "cv_sleepers s' = cv_sleepers s \<Longrightarrow> cv_pc s' = cv_pc s \<Longrightarrow> cv_asleep s' = cv_asleep s"
  by (simp only: cv_asleep_def)

lemma cv_lock_step:
  assumes N: "finite N" and k: "wl_next lock_ops t (cv_lk s) = Some k" and r: "wl_reachable N lock_ops lock0 (cv_lk s)"
    and inv: "cv_idle N s" "cv_asleep s" "cv_owns s"
  shows "cv_idle N (s\<lparr>cv_lk := k\<rparr>)" "cv_asleep (s\<lparr>cv_lk := k\<rparr>)" "cv_owns (s\<lparr>cv_lk := k\<rparr>)"
proof -
  have r': "wl_reachable N lock_ops lock0 k"
    using r wl_step.run [OF k] by (rule wl_reachable.step)
  have queue: "wl_queue (cv_lk s)"
    using lk.wl_reachable_inv [OF r N] by (simp add: lock0_def)
  have woken: "wl_pc (cv_lk s) x = Asleep" if "woken_by (wl_pc (cv_lk s) t) = Some x" for x
    by (rule wl_queueD(3) [OF queue that])
  have idle: "wl_pc (cv_lk s) x = Idle \<Longrightarrow> wl_pc k x = Idle" for x
    using wl_next_moves(1,4) [OF k] woken by (cases "x = t") force+
  show "cv_idle N (s\<lparr>cv_lk := k\<rparr>)"
    using inv(1) idle by (simp add: cv_idle_def)
  show "cv_asleep (s\<lparr>cv_lk := k\<rparr>)"
    using inv(2) cv_asleep_cong [of "s\<lparr>cv_lk := k\<rparr>" s] by simp
  have owned: "lock_owned k"
    by (rule lock_reachable_owned [OF r' N])
  have own: "wl_pc (cv_lk s) x \<in> acq_pcs" "wl_pc (cv_lk s) x \<in> {Out, Idle} \<longrightarrow> wl_gets (cv_lk s) x = Suc (wl_puts (cv_lk s) x)"
    if "cv_pc s x = Cacq" for x
    using inv(3) that unfolding cv_owns_def by blast+
  have "wl_pc k x \<in> acq_pcs \<and> (wl_pc k x \<in> {Out, Idle} \<longrightarrow> wl_gets k x = Suc (wl_puts k x))" if x: "cv_pc s x = Cacq" for x
  proof (cases "x = t")
    case True
    then show ?thesis
      using wl_next_acq [OF k _ owned] own [OF x] by blast
  next
    case False
    from wl_next_moves(4) [OF k False] show ?thesis
    proof
      assume "wl_pc k x = wl_pc (cv_lk s) x"
      then show ?thesis
        using own [OF x] wl_next_moves(2,3) [OF k False] by simp
    next
      assume "woken_by (wl_pc (cv_lk s) t) = Some x \<and> wl_pc k x = Acq"
      then show ?thesis
        by (simp add: acq_pcs_def)
    qed
  qed
  then show "cv_owns (s\<lparr>cv_lk := k\<rparr>)"
    by (simp add: cv_owns_def)
qed

lemma cv_goto_simps [simp]:
  "cv_pc (cv_goto t p s) = (cv_pc s)(t := p)" "cv_lk (cv_goto t p s) = cv_lk s" "cv_sleepers (cv_goto t p s) = cv_sleepers s" "cv_wclock (cv_goto t p s) = cv_wclock s"
  by (simp_all add: cv_goto_def)

lemma cv_asleep_move:
  assumes inv: "cv_asleep s" and s': "cv_sleepers s' = cv_sleepers s" "cv_pc s' = (cv_pc s)(t := p)"
    and p: "cv_pc s t \<noteq> Casleep" "cv_taken p = cv_taken (cv_pc s t)"
  shows "cv_asleep s'"
proof -
  have taken: "cv_taken (cv_pc s' x) = cv_taken (cv_pc s x)" for x
    using p(2) s'(2) by simp
  have "cv_pc s x = Casleep \<longrightarrow> cv_pc s' x = Casleep" for x
    using p(1) s'(2) by auto
  then show ?thesis
    using inv unfolding cv_asleep_def s'(1) taken by blast
qed

lemma cv_next_lk: "cv_next t s = Some s' \<Longrightarrow> (\<forall>us. cv_pc s t \<noteq> Ckrun us) \<Longrightarrow> cv_lk s' = cv_lk s"
  by (auto simp: cv_next_def Let_def split: cv_pc.splits if_splits list.splits)

lemma cv_asleepD:
  assumes "cv_asleep s"
  shows "distinct (cv_sleepers s)" "u \<in> set (cv_sleepers s) \<Longrightarrow> cv_pc s u = Casleep" "distinct (cv_taken (cv_pc s t))"
    "u \<in> set (cv_taken (cv_pc s t)) \<Longrightarrow> cv_pc s u = Casleep" "u \<in> set (cv_taken (cv_pc s t)) \<Longrightarrow> u \<notin> set (cv_sleepers s)"
    "t \<noteq> t' \<Longrightarrow> u \<in> set (cv_taken (cv_pc s t)) \<Longrightarrow> u \<notin> set (cv_taken (cv_pc s t'))"
  using assms unfolding cv_asleep_def by blast+

lemma cv_asleepI:
  assumes "distinct (cv_sleepers s)" "\<And>u. u \<in> set (cv_sleepers s) \<Longrightarrow> cv_pc s u = Casleep" "\<And>t. distinct (cv_taken (cv_pc s t))"
    "\<And>t u. u \<in> set (cv_taken (cv_pc s t)) \<Longrightarrow> cv_pc s u = Casleep" "\<And>t u. u \<in> set (cv_taken (cv_pc s t)) \<Longrightarrow> u \<notin> set (cv_sleepers s)"
    "\<And>t t' u. t \<noteq> t' \<Longrightarrow> u \<in> set (cv_taken (cv_pc s t)) \<Longrightarrow> u \<notin> set (cv_taken (cv_pc s t'))"
  shows "cv_asleep s"
  unfolding cv_asleep_def using assms by blast

lemma cv_asleep_Csleep:
  assumes inv: "cv_asleep s" and t: "cv_pc s t = Csleep" and s': "cv_pc s' = (cv_pc s)(t := Casleep)" "cv_sleepers s' = cv_sleepers s @ [t]"
  shows "cv_asleep s'"
proof -
  note D = cv_asleepD [OF inv]
  have fresh: "t \<notin> set (cv_sleepers s)" "t \<notin> set (cv_taken (cv_pc s x))" for x
    using D(2,4) t by fastforce+
  have taken: "cv_taken (cv_pc s' x) = cv_taken (cv_pc s x)" for x
    using t by (simp add: s')
  have sl: "cv_pc s' x = Casleep \<longleftrightarrow> x = t \<or> cv_pc s x = Casleep" for x
    by (simp add: s')
  show ?thesis
  proof (rule cv_asleepI; unfold taken sl s'(2))
    show "distinct (cv_sleepers s @ [t])"
      using D(1) fresh(1) by simp
    show "u = t \<or> cv_pc s u = Casleep" if "u \<in> set (cv_sleepers s @ [t])" for u
      using D(2) [of u] that by auto
    show "u \<notin> set (cv_sleepers s @ [t])" if "u \<in> set (cv_taken (cv_pc s x))" for x u
      using D(5) [OF that] fresh(2) [of x] that by auto
  qed (use D(3,4,6) in blast)+
qed

lemma cv_asleep_Ckrem:
  assumes inv: "cv_asleep s" and t: "cv_pc s t = Ckrem all" and us: "us = (if all then cv_sleepers s else take 1 (cv_sleepers s))"
    and s': "cv_pc s' = (cv_pc s)(t := Ckrel us)" "cv_sleepers s' = drop (length us) (cv_sleepers s)"
  shows "cv_asleep s'"
proof -
  note D = cv_asleepD [OF inv]
  define vs where "vs = drop (length us) (cv_sleepers s)"
  have vs: "cv_sleepers s = us @ vs" "cv_sleepers s' = vs"
    using us s'(2) by (cases "cv_sleepers s"; simp add: vs_def)+
  have taken: "cv_taken (cv_pc s' x) = (if x = t then us else cv_taken (cv_pc s x))" for x
    by (simp add: s')
  have sl: "cv_pc s' x = Casleep \<longleftrightarrow> cv_pc s x = Casleep" for x
    using t by (simp add: s')
  have dist: "distinct us" "distinct vs" "set us \<inter> set vs = {}"
    using D(1) vs(1) by simp_all
  have asleep: "u \<in> set us \<or> u \<in> set vs \<Longrightarrow> cv_pc s u = Casleep" for u
    using D(2) vs(1) by simp
  have other: "u \<in> set (cv_taken (cv_pc s x)) \<Longrightarrow> u \<notin> set us \<and> u \<notin> set vs" for u x
    using D(5) [of u x] vs(1) by simp
  show ?thesis
  proof (rule cv_asleepI; unfold taken sl vs(2))
    show "distinct (if x = t then us else cv_taken (cv_pc s x))" for x
      using dist(1) D(3) by simp
    show "cv_pc s u = Casleep" if "u \<in> set (if x = t then us else cv_taken (cv_pc s x))" for x u
      using that asleep D(4) [of u x] by (auto split: if_splits)
    show "u \<notin> set vs" if "u \<in> set (if x = t then us else cv_taken (cv_pc s x))" for x u
      using that dist(3) other [of u x] by (auto split: if_splits)
    show "u \<notin> set (if x' = t then us else cv_taken (cv_pc s x'))" if "x \<noteq> x'" "u \<in> set (if x = t then us else cv_taken (cv_pc s x))" for x x' u
      using that other [of u x] other [of u x'] D(6) [of x x' u] by (auto split: if_splits)
  qed (use dist asleep in blast)+
qed

lemma cv_asleep_Ckrun:
  assumes inv: "cv_asleep s" and t: "cv_pc s t = Ckrun (u # vs)" and s': "cv_pc s' = (cv_pc s)(u := Cacq, t := Ckrun vs)" "cv_sleepers s' = cv_sleepers s"
  shows "cv_asleep s'"
proof -
  note D = cv_asleepD [OF inv]
  have tk: "cv_taken (cv_pc s t) = u # vs"
    by (simp add: t)
  have u: "cv_pc s u = Casleep" "u \<notin> set (cv_sleepers s)" "u \<notin> set vs" "distinct vs"
    using D(3) [of t] D(4,5) [of u t] tk by simp_all
  have other: "u \<notin> set (cv_taken (cv_pc s x))" if "x \<noteq> t" for x
    using D(6) [of t x u] tk that by simp
  have taken: "cv_taken (cv_pc s' x) = (if x = t then vs else cv_taken (cv_pc s x))" for x
    using u(1) by (auto simp: s')
  have sl: "cv_pc s x = Casleep \<Longrightarrow> x \<noteq> u \<Longrightarrow> cv_pc s' x = Casleep" for x
    using t by (auto simp: s')
  have vs: "y \<in> set vs \<Longrightarrow> y \<in> set (cv_taken (cv_pc s t))" for y
    by (simp add: tk)
  show ?thesis
  proof (rule cv_asleepI; unfold taken s'(2))
    show "cv_pc s' y = Casleep" if "y \<in> set (cv_sleepers s)" for y
      using sl D(2) [OF that] u(2) that by metis
    show "cv_pc s' y = Casleep" if y: "y \<in> set (if x = t then vs else cv_taken (cv_pc s x))" for x y
    proof (rule sl)
      show "cv_pc s y = Casleep" "y \<noteq> u"
        using y vs D(4) u(3) other by (cases "x = t"; auto)+
    qed
    show "y \<notin> set (cv_sleepers s)" if "y \<in> set (if x = t then vs else cv_taken (cv_pc s x))" for x y
      using that vs D(5) by (cases "x = t") auto
    show "y \<notin> set (if x' = t then vs else cv_taken (cv_pc s x'))" if "x \<noteq> x'" "y \<in> set (if x = t then vs else cv_taken (cv_pc s x))" for x x' y
      using that vs D(6) [of x x' y] by (cases "x = t"; cases "x' = t") auto
  qed (use D(1,3) u(4) in auto)
qed

lemma cv_asleep_next:
  assumes step: "cv_next t s = Some s'" and inv: "cv_asleep s"
  shows "cv_asleep s'"
proof (cases "cv_pc s t")
  case Csleep
  with step show ?thesis
    by (intro cv_asleep_Csleep [OF inv Csleep]) (auto simp: cv_next_def)
next
  case (Ckrem all)
  with step show ?thesis
    by (intro cv_asleep_Ckrem [OF inv Ckrem refl]) (auto simp: cv_next_def Let_def)
next
  case (Ckrun us)
  show ?thesis
  proof (cases us)
    case Nil
    then show ?thesis
      using step Ckrun by (intro cv_asleep_move [OF inv, of s' t Cnone]) (auto simp: cv_next_def)
  next
    case (Cons u vs)
    with step Ckrun show ?thesis
      by (intro cv_asleep_Ckrun [OF inv, of t u vs]) (auto simp: cv_next_def)
  qed
qed (use step in \<open>auto simp: cv_next_def intro: cv_asleep_move [OF inv] split: if_splits\<close>)

definition cv_inv :: "nat set \<Rightarrow> cvm \<Rightarrow> bool" where
  "cv_inv N s \<longleftrightarrow> wl_reachable N lock_ops lock0 (cv_lk s) \<and> cv_idle N s \<and> cv_asleep s \<and> cv_owns s"

lemma cv_next_frame:
  assumes "cv_next t s = Some s'" "\<nexists>u vs. cv_pc s t = Ckrun (u # vs)"
  shows "cv_lk s' = cv_lk s" "cv_pc s' = (cv_pc s)(t := cv_pc s' t)" "cv_pc s' t \<noteq> Cacq" "cv_pc s t \<noteq> Cnone" "cv_pc s t \<in> {Crel, Cacq} \<longrightarrow> wl_pc (cv_lk s) t = Idle"
  using assms by (auto simp: cv_next_def Let_def split: cv_pc.splits if_splits list.splits)

lemma cv_inv_next:
  assumes step: "cv_next t s = Some s'" and inv: "cv_inv N s" and t: "t \<in> N"
  shows "cv_inv N s'"
proof (cases "\<exists>u vs. cv_pc s t = Ckrun (u # vs)")
  case True
  then obtain u vs where pc: "cv_pc s t = Ckrun (u # vs)"
    by blast
  have u: "cv_pc s u = Casleep"
    using inv cv_asleepD(4) [of s u t] pc by (simp add: cv_inv_def)
  then have idle: "wl_pc (cv_lk s) u = Idle" "u \<in> N" "u \<noteq> t"
    using inv pc by (auto simp: cv_inv_def cv_idle_def)
  have s': "cv_pc s' = (cv_pc s)(u := Cacq, t := Ckrun vs)" "cv_lk s' = goto u Acq (cv_lk s)"
    using step pc by (auto simp: cv_next_def)
  have "wl_reachable N lock_ops lock0 (cv_lk s')"
    using inv wl_step.call_get [OF idle(2,1)] unfolding s'(2) cv_inv_def by (blast intro: wl_reachable.step)
  moreover have "cv_idle N s'" "cv_owns s'"
    using inv idle pc t by (auto simp: cv_inv_def cv_idle_def cv_owns_def s' acq_pcs_def)
  ultimately show ?thesis
    using cv_asleep_next [OF step] inv by (simp add: cv_inv_def)
next
  case False
  note frame = cv_next_frame [OF step False]
  have idle: "wl_pc (cv_lk s) t = Idle"
    using frame(4,5) inv by (auto simp: cv_inv_def cv_idle_def)
  have pcs: "cv_pc s' x = (if x = t then cv_pc s' t else cv_pc s x)" for x
    using frame(2) by (metis fun_upd_apply)
  have "cv_idle N s'"
    unfolding cv_idle_def frame(1)
  proof (intro conjI allI impI)
    show "wl_pc (cv_lk s) x = Idle" if "cv_pc s' x \<notin> {Cnone, Crel, Cacq}" for x
      using that idle pcs [of x] inv by (cases "x = t") (auto simp: cv_inv_def cv_idle_def)
    show "x \<in> N" if "cv_pc s' x \<noteq> Cnone" for x
      using that t pcs [of x] inv by (cases "x = t") (auto simp: cv_inv_def cv_idle_def)
  qed
  moreover have "cv_owns s'"
    unfolding cv_owns_def frame(1)
  proof (intro allI impI)
    fix x
    assume x: "cv_pc s' x = Cacq"
    then have "x \<noteq> t"
      using frame(3) by blast
    then have "cv_pc s x = Cacq"
      using x pcs [of x] by simp
    then show "wl_pc (cv_lk s) x \<in> acq_pcs \<and> (wl_pc (cv_lk s) x \<in> {Out, Idle} \<longrightarrow> wl_gets (cv_lk s) x = Suc (wl_puts (cv_lk s) x))"
      using inv unfolding cv_inv_def cv_owns_def by blast
  qed
  ultimately show ?thesis
    using cv_asleep_next [OF step] inv frame(1) by (simp add: cv_inv_def)
qed

lemma cv_inv_call:
  assumes inv: "cv_inv N s" and t: "t \<in> N" "free_thread t s" and s': "cv_pc s' = (cv_pc s)(t := p)" "cv_sleepers s' = cv_sleepers s"
    and lk: "cv_lk s' = cv_lk s \<and> p \<in> range Cklock \<or> cv_lk s' = goto t Acq (cv_lk s) \<and> p = Cnone \<or> cv_lk s' = goto t Racq (cv_lk s) \<and> p \<in> {Cnone, Crel}"
  shows "cv_inv N s'"
proof -
  have pc: "cv_pc s t = Cnone" "wl_pc (cv_lk s) t = Idle"
    using t(2) by (simp_all add: free_thread_def)
  have "wl_reachable N lock_ops lock0 (cv_lk s')"
    using lk inv wl_step.call_get [OF t(1) pc(2)] wl_step.call_put [OF t(1) pc(2)] unfolding cv_inv_def by (metis wl_reachable.step)
  moreover have "cv_asleep s'"
    by (rule cv_asleep_move [OF _ s'(2,1)]) (use inv pc lk in \<open>auto simp: cv_inv_def\<close>)
  moreover have "cv_idle N s'" "cv_owns s'"
    using inv pc t(1) lk by (auto simp: cv_inv_def cv_idle_def cv_owns_def s' acq_pcs_def)
  ultimately show ?thesis
    by (simp add: cv_inv_def)
qed

lemma cv_reachable_inv:
  assumes "cv_reachable N s" "finite N"
  shows "cv_inv N s"
  using assms(1)
proof induction
  case start
  show ?case
    by (auto simp: cv_inv_def cv_init_def cv_idle_def cv_asleep_def cv_owns_def wl_init_def intro: wl_reachable.start [of N lock_ops lock0, unfolded wl_init_def])
next
  case (step s a s')
  show ?case
  proof (cases a)
    case (Lock_stmt t)
    then obtain k where k: "wl_next lock_ops t (cv_lk s) = Some k" "s' = s\<lparr>cv_lk := k\<rparr>"
      using step.hyps(3) by auto
    have r: "wl_reachable N lock_ops lock0 (cv_lk s)" and i: "cv_idle N s" "cv_asleep s" "cv_owns s"
      using step.IH by (simp_all add: cv_inv_def)
    have "wl_reachable N lock_ops lock0 k"
      using r wl_step.run [OF k(1)] by (rule wl_reachable.step)
    then show ?thesis
      using cv_lock_step [OF assms(2) k(1) r i] k(2) by (simp add: cv_inv_def)
  next
    case (Cv_stmt t)
    then show ?thesis
      using cv_inv_next [OF _ step.IH] step.hyps(2,3) by simp
  next
    case (Call_acquire t)
    with step.hyps(2,3) show ?thesis
      by (intro cv_inv_call [OF step.IH, of t s' Cnone]) (auto simp: free_thread_def split: if_splits)
  next
    case (Call_release t)
    with step.hyps(2,3) show ?thesis
      by (intro cv_inv_call [OF step.IH, of t s' Cnone]) (auto simp: free_thread_def split: if_splits)
  next
    case (Call_wait t)
    with step.hyps(2,3) show ?thesis
      by (intro cv_inv_call [OF step.IH, of t s' Crel]) (auto simp: free_thread_def split: if_splits)
  next
    case (Call_wakeup t all)
    with step.hyps(2,3) show ?thesis
      by (intro cv_inv_call [OF step.IH, of t s' "Cklock all"]) (auto simp: free_thread_def split: if_splits)
  qed
qed

text \<open>
  C8: a thread that returns from \<^verbatim>\<open>cv_wait\<close> holds the lock, and it is the only one that does, however threads interleave the statements of the lock and of the condition variable;
  and a thread that is asleep on the channel is on it once and outside the lock functions, so that no wakeup is spent on a thread that does not sleep.
\<close>

theorem cv_wait_returns_holding:
  assumes "cv_reachable N s" "finite N"
  shows "(\<forall>t s'. cv_pc s t = Cacq \<and> cv_next t s = Some s' \<longrightarrow>
      lock_do_i_hold t (wl_res (cv_lk s')) \<and> (\<forall>u. wl_puts (cv_lk s') u < wl_gets (cv_lk s') u \<longrightarrow> u = t)) \<and>
    distinct (cv_sleepers s) \<and> (\<forall>u \<in> set (cv_sleepers s). cv_pc s u = Casleep \<and> wl_pc (cv_lk s) u = Idle)"
proof -
  have inv: "cv_inv N s"
    by (rule cv_reachable_inv [OF assms])
  have owned: "wl_gets (cv_lk s) t = wl_puts (cv_lk s) t + (if lock_holder (wl_res (cv_lk s)) = Some t then 1 else 0)" for t
    using lock_reachable_owned [OF _ assms(2), of "cv_lk s"] inv by (simp add: cv_inv_def lock_owned_def)
  have "lock_do_i_hold t (wl_res (cv_lk s')) \<and> (\<forall>u. wl_puts (cv_lk s') u < wl_gets (cv_lk s') u \<longrightarrow> u = t)"
    if "cv_pc s t = Cacq" "cv_next t s = Some s'" for t s'
  proof -
    have s': "wl_pc (cv_lk s) t = Idle" "cv_lk s' = cv_lk s"
      using that by (auto simp: cv_next_def split: if_splits)
    have "wl_gets (cv_lk s) t = Suc (wl_puts (cv_lk s) t)"
      using inv that(1) s'(1) by (simp add: cv_inv_def cv_owns_def)
    then have "lock_holder (wl_res (cv_lk s)) = Some t"
      using owned [of t] by (simp split: if_splits)
    then show ?thesis
      using owned s'(2) by (auto simp: lock_do_i_hold_def split: if_splits)
  qed
  moreover have "distinct (cv_sleepers s)" "\<forall>u \<in> set (cv_sleepers s). cv_pc s u = Casleep \<and> wl_pc (cv_lk s) u = Idle"
    using inv cv_asleepD(1,2) by (auto simp: cv_inv_def cv_idle_def)
  ultimately show ?thesis
    by blast
qed

lemma cv_acts_reachable:
  assumes "cv_acts as s = Some s'" "cv_reachable N s" "\<forall>a \<in> set as. cv_act_thread a \<in> N"
  shows "cv_reachable N s'"
  using assms by (induction as arbitrary: s) (auto split: option.splits intro: cv_reachable.step)

lemmas cv_eval = cv_init_def cv_next_def cv_goto_def free_thread_def wl_init_def wl_next_def goto_def lock_ops_def lock_do_i_hold_def lock0_def eval_nat_numeral

text \<open>Thread 0 waits, thread 1 signals, and thread 0 takes the lock again.\<close>

definition cv_turn :: "cv_act list" where
  "cv_turn = Call_acquire 0 # replicate 4 (Lock_stmt 0) @ Call_wait 0 # replicate 7 (Lock_stmt 0) @ replicate 3 (Cv_stmt 0) @
    Call_wakeup 1 False # replicate 5 (Cv_stmt 1) @ replicate 4 (Lock_stmt 0)"

theorem cv_wait_returns_holding_witness:
  "\<exists>s s'. cv_acts cv_turn cv_init = Some s \<and> cv_pc s 0 = Cacq \<and> cv_next 0 s = Some s' \<and> lock_do_i_hold 0 (wl_res (cv_lk s'))"
proof -
  have "\<exists>s s'. cv_acts cv_turn cv_init = Some s \<and> cv_pc s 0 = Cacq \<and> cv_next 0 s = Some s'"
    by (simp add: cv_turn_def cv_eval)
  then obtain s s' where s: "cv_acts cv_turn cv_init = Some s" "cv_pc s 0 = Cacq" "cv_next 0 s = Some s'"
    by blast
  have "cv_reachable {0, 1} s"
    by (rule cv_acts_reachable [OF s(1) cv_reachable.start]) (auto simp: cv_turn_def)
  from cv_wait_returns_holding [OF this] s show ?thesis
    by blast
qed

section \<open>A signal can be lost\<close>

text \<open>
  Thread 0 takes the lock and calls \<^verbatim>\<open>cv_wait\<close>. When it has released the lock, but before it locks the channel, thread 1 takes the lock, signals, and
  releases the lock. The signal finds no sleeper, and thread 0 goes to sleep.
\<close>

definition cv_race :: "cv_act list" where
  "cv_race = Call_acquire 0 # replicate 4 (Lock_stmt 0) @ Call_wait 0 # replicate 7 (Lock_stmt 0) @
    Call_acquire 1 # replicate 4 (Lock_stmt 1) @ Call_wakeup 1 False # replicate 4 (Cv_stmt 1) @ Call_release 1 # replicate 7 (Lock_stmt 1) @
    replicate 3 (Cv_stmt 0)"

lemma cv_lost_signal:
  "\<exists>s. cv_acts cv_race cv_init = Some s \<and> cv_sleepers s = [0] \<and> cv_pc s 0 = Casleep \<and>
    lock_holder (wl_res (cv_lk s)) = None \<and> (\<forall>t. cv_next t s = None \<and> wl_next lock_ops t (cv_lk s) = None)"
  by (simp add: cv_race_def cv_eval)

end
