(* ===== verification/Kern_Array.thy ===== *)
theory Kern_Array
  imports Kernel_Base
begin

text \<open>
  \<^verbatim>\<open>lib/array.c\<close> and \<^verbatim>\<open>include/array.h\<close>: resizable arrays of pointers. The storage \<open>v\<close>
  is a list of cells, as long as the block that was allocated for it. A fresh block has
  unspecified contents, the function \<open>junk\<close> of each operation that allocates; whether
  \<^verbatim>\<open>kmalloc\<close> succeeds is the argument \<open>ok\<close>. The doubling loop of \<^verbatim>\<open>array_setsize\<close> can
  run forever, so the functions that contain it return \<open>None\<close> when they do not return.
  The contract offered to clients is the locale \<open>sequence_store\<close>.
\<close>

section \<open>Model\<close>

record 'a array =
  arr_v :: "'a list"
  arr_num :: nat
  arr_max :: nat

definition array_init :: "'a array" where
  "array_init = \<lparr>arr_v = [], arr_num = 0, arr_max = 0\<rparr>"

definition array_create :: "bool \<Rightarrow> 'a array option" where
  "array_create ok = (if ok then Some array_init else None)"

definition array_cleanup :: "('a array, unit) kfun" where
  "array_cleanup a = (if arr_num a = 0 then Ok () (a\<lparr>arr_v := []\<rparr>) else Panic)"

definition array_destroy :: "('a array, unit) kfun" where
  "array_destroy = array_cleanup"

definition array_num :: "'a array \<Rightarrow> nat" where
  "array_num a = arr_num a"

definition array_get :: "nat \<Rightarrow> ('a array, 'a) kfun" where
  "array_get index a =
    (if \<not> index < arr_num a then Panic
     else if length (arr_v a) \<le> index then Panic
     else Ok (arr_v a ! index) a)"

definition array_set :: "nat \<Rightarrow> 'a \<Rightarrow> ('a array, unit) kfun" where
  "array_set index val a =
    (if \<not> index < arr_num a then Panic
     else if length (arr_v a) \<le> index then Panic
     else Ok () (a\<lparr>arr_v := (arr_v a)[index := val]\<rparr>))"

partial_function (option) array_newmax :: "nat \<Rightarrow> nat \<Rightarrow> nat option" where
  "array_newmax num newmax =
    (if num > newmax then array_newmax num (if newmax \<noteq> 0 then mul32 newmax 2 else 4)
     else Some newmax)"

text \<open>The size of a pointer is 4 bytes.\<close>

definition array_setsize ::
    "bool \<Rightarrow> (nat \<Rightarrow> 'a) \<Rightarrow> nat \<Rightarrow> 'a array \<Rightarrow> (unit, 'a array) kres option" where
  "array_setsize ok junk num a =
    (if num > arr_max a then
       case array_newmax num (arr_max a) of
         None \<Rightarrow> None
       | Some newmax \<Rightarrow> Some (
           if \<not> ok then Err ENOMEM a
           else
             let newptr = map junk [0..<mul32 newmax 4 div 4];
                 cnt = mul32 (arr_num a) 4 div 4
             in if length newptr < cnt \<or> length (arr_v a) < cnt then Panic
                else Ok () (a\<lparr>arr_v := take cnt (arr_v a) @ drop cnt newptr,
                              arr_max := newmax, arr_num := num\<rparr>))
     else Some (Ok () (a\<lparr>arr_num := num\<rparr>)))"

definition array_add ::
    "bool \<Rightarrow> (nat \<Rightarrow> 'a) \<Rightarrow> 'a \<Rightarrow> 'a array \<Rightarrow> (nat, 'a array) kres option" where
  "array_add ok junk val a =
    (let index = arr_num a in
     case array_setsize ok junk (add32 index 1) a of
       None \<Rightarrow> None
     | Some Panic \<Rightarrow> Some Panic
     | Some (Err e a') \<Rightarrow> Some (Err e a')
     | Some (Ok _ a') \<Rightarrow> Some (
         if length (arr_v a') \<le> index then Panic
         else Ok index (a'\<lparr>arr_v := (arr_v a')[index := val]\<rparr>)))"

definition array_remove :: "nat \<Rightarrow> ('a array, unit) kfun" where
  "array_remove index a =
    (if \<not> arr_num a \<le> arr_max a then Panic
     else if \<not> index < arr_num a then Panic
     else let num_to_move = arr_num a - (index + 1) in
       if length (arr_v a) < index + 1 + num_to_move then Panic
       else Ok () (a\<lparr>arr_v := overwrite index (take num_to_move (drop (index + 1) (arr_v a))) (arr_v a),
                     arr_num := arr_num a - 1\<rparr>))"

section \<open>Invariant and abstraction\<close>

definition array_list :: "'a array \<Rightarrow> 'a list" where
  "array_list a = take (arr_num a) (arr_v a)"

text \<open>
  The capacity is 0 or a power of two below \<open>2 ^ 30\<close>, so that the byte size of the block does
  not wrap around.
\<close>

definition array_inv :: "'a array \<Rightarrow> bool" where
  "array_inv a \<longleftrightarrow> arr_num a \<le> arr_max a \<and> length (arr_v a) = arr_max a \<and>
     (arr_max a = 0 \<or> (\<exists>k \<in> {2..<30}. arr_max a = 2 ^ k))"

lemma array_list_length: "array_inv a \<Longrightarrow> length (array_list a) = arr_num a"
  by (simp add: array_list_def array_inv_def)

lemma array_inv_max: "array_inv a \<Longrightarrow> arr_max a < 2 ^ 30"
proof -
  have "(2 :: nat) ^ k < 2 ^ 30" if "k \<in> {2..<30}" for k
    using that power_strict_increasing [of k 30 "2 :: nat"] by simp
  then show "array_inv a \<Longrightarrow> arr_max a < 2 ^ 30" by (auto simp: array_inv_def)
qed

lemma array_init_inv [simp]: "array_inv array_init" "array_list array_init = []"
  by (simp_all add: array_inv_def array_init_def array_list_def)

lemma array_newmax_done: "num \<le> m \<Longrightarrow> array_newmax num m = Some m"
  by (simp add: array_newmax.simps [of num m])

lemma array_newmax_double:
  "m < num \<Longrightarrow> 0 < m \<Longrightarrow> m < 2 ^ 31 \<Longrightarrow> array_newmax num m = array_newmax num (2 * m)"
  by (simp add: array_newmax.simps [of num m] mul32_def mult.commute)

lemma array_newmax_power:
  assumes "num \<le> 2 ^ n" "k \<le> n" "n < 32"
  shows "\<exists>j. k \<le> j \<and> j \<le> n \<and> array_newmax num (2 ^ k) = Some (2 ^ j) \<and> num \<le> 2 ^ j"
  using assms(2)
proof (induction k rule: inc_induct)
  case base
  then show ?case using array_newmax_done [OF assms(1)] assms(1) by blast
next
  case (step k)
  show ?case
  proof (cases "num \<le> 2 ^ k")
    case True
    then show ?thesis using array_newmax_done [OF True] step(2) by (intro exI [of _ k]) simp
  next
    case False
    have "(2 :: nat) ^ k < 2 ^ 31"
      using power_strict_increasing [of k 31 "2 :: nat"] step(2) assms(3) by simp
    then have "array_newmax num (2 ^ k) = array_newmax num (2 ^ Suc k)"
      using array_newmax_double [of "2 ^ k" num] False by simp
    then show ?thesis using step.IH by auto
  qed
qed

lemma array_newmax_grow:
  assumes "array_inv a" "num \<le> 2 ^ 29" "arr_max a < num"
  shows "\<exists>k \<in> {2..<30}. array_newmax num (arr_max a) = Some (2 ^ k) \<and> num \<le> 2 ^ k"
proof (cases "arr_max a = 0")
  case True
  then have "array_newmax num (arr_max a) = array_newmax num (2 ^ 2)"
    using assms(3) by (simp add: array_newmax.simps [of num 0])
  then show ?thesis using array_newmax_power [OF assms(2), of 2] by force
next
  case False
  then obtain k where k: "k \<in> {2..<30}" "arr_max a = 2 ^ k" using assms(1) by (auto simp: array_inv_def)
  then show ?thesis using array_newmax_power [OF assms(2), of k] by force
qed

lemma array_setsize_eq:
  assumes inv: "array_inv a" and num: "num \<le> 2 ^ 29"
  shows "\<exists>r. array_setsize ok junk num a = Some r \<and>
    (case r of
       Ok _ a' \<Rightarrow> array_inv a' \<and> arr_num a' = num \<and> (arr_max a < num \<longrightarrow> ok) \<and>
         (\<forall>i < min num (arr_num a). array_list a' ! i = array_list a ! i)
     | Err e a' \<Rightarrow> e = ENOMEM \<and> a' = a \<and> \<not> ok \<and> arr_max a < num
     | Panic \<Rightarrow> False)"
proof (cases "arr_max a < num")
  case True
  from array_newmax_grow [OF inv num True] obtain k where
    k: "k \<in> {2..<30}" "array_newmax num (arr_max a) = Some (2 ^ k)" "num \<le> 2 ^ k" by blast
  have "(2 :: nat) ^ k < 2 ^ 30" using k(1) power_strict_increasing [of k 30 "2 :: nat"] by simp
  then have m: "mul32 (2 ^ k) 4 div 4 = 2 ^ k" "mul32 (arr_num a) 4 div 4 = arr_num a" "arr_num a < 2 ^ k"
    using inv array_inv_max [OF inv] True k(3) by (simp_all add: mul32_id array_inv_def)
  show ?thesis
  proof (cases ok)
    case True
    then show ?thesis
      using \<open>arr_max a < num\<close> m inv k
      by (auto simp: array_setsize_def array_inv_def array_list_def Let_def nth_append)
  next
    case False
    then show ?thesis using \<open>arr_max a < num\<close> k by (simp add: array_setsize_def)
  qed
next
  case False
  then show ?thesis using inv by (auto simp: array_setsize_def array_inv_def array_list_def)
qed
lemma array_add_eq:
  assumes inv: "array_inv a" and num: "length (array_list a) < 2 ^ 29"
  shows "\<exists>r. array_add ok junk x a = Some r \<and>
    (case r of
       Ok i a' \<Rightarrow> array_inv a' \<and> i = length (array_list a) \<and> array_list a' = array_list a @ [x] \<and>
         (arr_num a = arr_max a \<longrightarrow> ok)
     | Err e a' \<Rightarrow> e = ENOMEM \<and> a' = a \<and> \<not> ok \<and> arr_num a = arr_max a
     | Panic \<Rightarrow> False)"
proof -
  have n: "length (array_list a) = arr_num a" by (rule array_list_length [OF inv])
  then have s: "add32 (arr_num a) 1 = Suc (arr_num a)" "Suc (arr_num a) \<le> 2 ^ 29"
    using num by (simp_all add: add32_def)
  have full: "arr_max a < Suc (arr_num a) \<longleftrightarrow> arr_num a = arr_max a"
    using inv by (auto simp: array_inv_def)
  from array_setsize_eq [OF inv s(2)] obtain r where
    r: "array_setsize ok junk (Suc (arr_num a)) a = Some r" and
    post: "case r of
       Ok _ a' \<Rightarrow> array_inv a' \<and> arr_num a' = Suc (arr_num a) \<and> (arr_max a < Suc (arr_num a) \<longrightarrow> ok) \<and>
         (\<forall>i < min (Suc (arr_num a)) (arr_num a). array_list a' ! i = array_list a ! i)
     | Err e a' \<Rightarrow> e = ENOMEM \<and> a' = a \<and> \<not> ok \<and> arr_max a < Suc (arr_num a)
     | Panic \<Rightarrow> False" by blast
  show ?thesis
  proof (cases r)
    case (Ok u a')
    with post have a': "array_inv a'" "arr_num a' = Suc (arr_num a)"
        "\<forall>i < arr_num a. array_list a' ! i = array_list a ! i" and ok: "arr_num a = arr_max a \<longrightarrow> ok"
      using full by simp_all
    then have len: "arr_num a < length (arr_v a')" by (simp add: array_inv_def)
    define a'' where "a'' = a'\<lparr>arr_v := (arr_v a')[arr_num a := x]\<rparr>"
    have "array_add ok junk x a = Some (Ok (arr_num a) a'')"
      using r Ok len s(1) by (simp add: array_add_def a''_def Let_def)
    moreover have "array_inv a''" using a'(1) by (simp add: array_inv_def a''_def)
    moreover have "array_list a'' = array_list a @ [x]"
    proof (rule nth_equalityI)
      show "length (array_list a'') = length (array_list a @ [x])"
        using array_list_length [OF \<open>array_inv a''\<close>] a'(2) n by (simp add: a''_def)
      fix i assume "i < length (array_list a'')"
      then have "i < Suc (arr_num a)"
        using array_list_length [OF \<open>array_inv a''\<close>] a'(2) by (simp add: a''_def)
      then show "array_list a'' ! i = (array_list a @ [x]) ! i"
        using a'(2,3) n len by (auto simp: a''_def array_list_def nth_append less_Suc_eq)
    qed
    ultimately show ?thesis using ok n by simp
  next
    case (Err e a')
    then show ?thesis using r post s(1) full by (simp add: array_add_def Let_def)
  next
    case Panic
    with post show ?thesis by simp
  qed
qed

lemma array_get_eq:
  "array_inv a \<Longrightarrow> array_get i a = (if i < length (array_list a) then Ok (array_list a ! i) a else Panic)"
  by (auto simp: array_get_def array_list_length) (auto simp: array_inv_def array_list_def)

lemma array_set_eq:
  assumes "array_inv a"
  shows "if i < length (array_list a)
    then \<exists>a'. array_set i x a = Ok () a' \<and> array_inv a' \<and> array_list a' = (array_list a)[i := x]
    else array_set i x a = Panic"
  using assms by (auto simp: array_set_def array_list_length)
    (auto simp: array_inv_def array_list_def take_update_swap)

lemma array_remove_eq:
  assumes "array_inv a"
  shows "if i < length (array_list a)
    then \<exists>a'. array_remove i a = Ok () a' \<and> array_inv a' \<and>
           array_list a' = take i (array_list a) @ drop (Suc i) (array_list a)
    else array_remove i a = Panic"
proof (cases "i < arr_num a")
  case True
  define mv where "mv = take (arr_num a - (i + 1)) (drop (i + 1) (arr_v a))"
  define a' where "a' = a\<lparr>arr_v := overwrite i mv (arr_v a), arr_num := arr_num a - 1\<rparr>"
  have len: "arr_num a \<le> length (arr_v a)" "length mv = arr_num a - Suc i"
    using assms by (auto simp: array_inv_def mv_def)
  have "array_remove i a = Ok () a'"
    using True assms len by (auto simp: array_remove_def a'_def mv_def Let_def array_inv_def)
  moreover have "array_inv a'"
    using assms True len by (auto simp: array_inv_def a'_def length_overwrite)
  moreover have "array_list a' = take i (array_list a) @ drop (Suc i) (array_list a)"
    using True len by (auto simp: array_list_def a'_def overwrite_def mv_def drop_take min.absorb1)
  ultimately show ?thesis using True by (simp add: array_list_length [OF assms])
next
  case False
  then show ?thesis using assms by (simp add: array_remove_def array_list_length)
qed

section \<open>The contract of a sequence of items\<close>

locale sequence_store =
  fixes seq_add :: "bool \<Rightarrow> 'a \<Rightarrow> 's \<Rightarrow> (nat, 's) kres option"
    and seq_get :: "nat \<Rightarrow> ('s, 'a) kfun"
    and seq_set :: "nat \<Rightarrow> 'a \<Rightarrow> ('s, unit) kfun"
    and seq_remove :: "nat \<Rightarrow> ('s, unit) kfun"
    and contents :: "'s \<Rightarrow> 'a list"
    and seq_inv :: "'s \<Rightarrow> bool"
    and limit :: nat
  assumes add_law: "seq_inv s \<Longrightarrow> length (contents s) < limit \<Longrightarrow> \<exists>r. seq_add ok x s = Some r \<and>
      (case r of Ok i s' \<Rightarrow> seq_inv s' \<and> i = length (contents s) \<and> contents s' = contents s @ [x]
       | Err e s' \<Rightarrow> e = ENOMEM \<and> s' = s \<and> \<not> ok
       | Panic \<Rightarrow> False)"
    and get_law: "seq_inv s \<Longrightarrow> i < length (contents s) \<Longrightarrow> seq_get i s = Ok (contents s ! i) s"
    and set_law: "seq_inv s \<Longrightarrow> i < length (contents s) \<Longrightarrow>
      \<exists>s'. seq_set i x s = Ok () s' \<and> seq_inv s' \<and> contents s' = (contents s)[i := x]"
    and remove_law: "seq_inv s \<Longrightarrow> i < length (contents s) \<Longrightarrow>
      \<exists>s'. seq_remove i s = Ok () s' \<and> seq_inv s' \<and>
        contents s' = take i (contents s) @ drop (Suc i) (contents s)"
begin

lemma add_ok:
  assumes "seq_inv s" "length (contents s) < limit"
  obtains s' where "seq_add True x s = Some (Ok (length (contents s)) s')" "seq_inv s'"
    "contents s' = contents s @ [x]"
  using add_law [OF assms, of True x] by (elim exE conjE kres_caseE) (auto intro: that)

lemma add_get:
  assumes "seq_inv s" "length (contents s) < limit" "seq_add ok x s = Some (Ok i s')"
  shows "seq_get i s' = Ok x s'"
  using add_law [OF assms(1,2), of ok x] assms(3) get_law [of s' i] by auto

lemma add_remove:
  assumes "seq_inv s" "length (contents s) < limit" "seq_add ok x s = Some (Ok i s')"
  shows "\<exists>s''. seq_remove i s' = Ok () s'' \<and> contents s'' = contents s"
  using add_law [OF assms(1,2), of ok x] assms(3) remove_law [of s' i] by auto

primrec add_all :: "'a list \<Rightarrow> 's \<Rightarrow> 's option" where
  "add_all [] s = Some s"
| "add_all (x # xs) s = (case seq_add True x s of Some (Ok _ s') \<Rightarrow> add_all xs s' | _ \<Rightarrow> None)"

lemma add_all_contents:
  assumes "seq_inv s" "length (contents s) + length xs \<le> limit"
  shows "\<exists>s'. add_all xs s = Some s' \<and> seq_inv s' \<and> contents s' = contents s @ xs"
  using assms
proof (induction xs arbitrary: s)
  case Nil
  then show ?case by simp
next
  case (Cons x xs)
  have "length (contents s) < limit" using Cons.prems(2) by simp
  from add_ok [OF Cons.prems(1) this, of x] obtain s1 where
    s1: "seq_add True x s = Some (Ok (length (contents s)) s1)" "seq_inv s1" "contents s1 = contents s @ [x]" .
  then show ?case using Cons.IH [OF s1(2)] Cons.prems(2) by simp
qed

end

interpretation arr: sequence_store "\<lambda>ok. array_add ok junk" array_get array_set array_remove
  array_list array_inv "2 ^ 29"
proof (unfold_locales, goal_cases)
  case (1 s ok x)
  from array_add_eq [OF 1, of ok junk x] obtain r where
    "array_add ok junk x s = Some r" "case r of
       Ok i a' \<Rightarrow> array_inv a' \<and> i = length (array_list s) \<and> array_list a' = array_list s @ [x] \<and>
         (arr_num s = arr_max s \<longrightarrow> ok)
     | Err e a' \<Rightarrow> e = ENOMEM \<and> a' = s \<and> \<not> ok \<and> arr_num s = arr_max s
     | Panic \<Rightarrow> False" by blast
  then show ?case by (cases r) simp_all
next
  case (2 s i)
  then show ?case by (simp add: array_get_eq)
next
  case (3 s i x)
  then show ?case using array_set_eq [of s i x] by simp
next
  case (4 s i)
  then show ?case using array_remove_eq [of s i] by simp
qed

section \<open>Properties\<close>



text \<open>
  C27: a size above \<open>2 ^ 31\<close> makes the doubling loop of \<^verbatim>\<open>array_setsize\<close> wrap around and run
  forever: from every well-formed array the call does not return, whatever \<^verbatim>\<open>kmalloc\<close> would do.
\<close>

theorem array_setsize_diverges:
  assumes "array_inv a" "2 ^ 31 < num"
  shows "array_setsize ok junk num a = None"
proof -
  have never: "\<not> (n = num \<and> (m = 0 \<or> (\<exists>k \<in> {2..<32}. m = 2 ^ k)))"
    if "array_newmax n m = Some y" for n m y
  proof (induction rule: array_newmax.raw_induct [OF _ that])
    case (1 loop n m y)
    show ?case
    proof
      assume st: "n = num \<and> (m = 0 \<or> (\<exists>k \<in> {2..<32}. m = 2 ^ k))"
      have "(2 :: nat) ^ k \<le> 2 ^ 31" if "k \<in> {2..<32}" for k
        using that by (intro power_increasing) auto
      then have "m \<le> 2 ^ 31" using st by fastforce
      then have less: "m < num" using assms(2) by (rule le_less_trans)
      define m' where "m' = (if m \<noteq> 0 then mul32 m 2 else 4)"
      have "loop n m' = Some y" using 1(2) less st by (simp add: m'_def)
      moreover have "m' = 0 \<or> (\<exists>k \<in> {2..<32}. m' = 2 ^ k)"
      proof (cases "m = 0 \<or> m = 2 ^ 31")
        case True
        then show ?thesis by (auto simp: m'_def mul32_def intro!: bexI [of _ 2])
      next
        case False
        with st obtain k where k: "2 \<le> k" "k < 32" "m = 2 ^ k" by auto
        with False have "k \<noteq> 31" by auto
        with k have k': "Suc k \<in> {2..<32}" by auto
        then have "(2 :: nat) ^ Suc k < 2 ^ 32" by (intro power_strict_increasing) auto
        then have "m' = 2 ^ Suc k" using k(3) by (simp add: m'_def mul32_def)
        with k' show ?thesis by blast
      qed
      ultimately show False using 1(1) st by blast
    qed
  qed
  have "arr_max a < num" using array_inv_max [OF assms(1)] assms(2) by simp
  moreover have "array_newmax num (arr_max a) = None"
    using never [of num "arr_max a"] assms(1)
    by (cases "array_newmax num (arr_max a)") (auto simp: array_inv_def)
  ultimately show ?thesis by (simp add: array_setsize_def)
qed

theorem array_setsize_diverges_witness:
  "array_setsize True (\<lambda>i. 0 :: nat) (2 ^ 31 + 1) array_init = None"
  by (rule array_setsize_diverges) simp_all

text \<open>
  Adding items one at a time to a fresh array, growing it as needed, gives exactly the list of
  these items, for up to \<open>2 ^ 29\<close> of them.
\<close>

lemma array_add_all:
  assumes "length xs \<le> 2 ^ 29"
  shows "\<exists>a. arr.add_all junk xs array_init = Some a \<and> array_inv a \<and> array_list a = xs \<and>
    (\<forall>i < length xs. array_get i a = Ok (xs ! i) a)"
proof -
  obtain a where "arr.add_all junk xs array_init = Some a" "array_inv a" "array_list a = xs"
    using arr.add_all_contents [of array_init xs junk] assms by auto
  then show ?thesis by (auto simp: array_get_eq)
qed

end
