(* ===== verification/Kern_Queue.thy ===== *)
theory Kern_Queue
  imports Fifo
begin

text \<open>
  \<^verbatim>\<open>lib/queue.c\<close>: the growable circular queue of pointers. All index arithmetic is on
  non-negative \<^verbatim>\<open>int\<close> values, for which the remainder of C is \<open>mod\<close>. \<open>ok\<close> is the outcome of
  \<^verbatim>\<open>kmalloc\<close> and \<open>junk\<close> the contents of a fresh block. An access outside the data block and
  a failed assertion are \<open>Panic\<close>.
\<close>

section \<open>Model\<close>

record 'a queue =
  q_size :: int
  nextwrite :: int
  nextread :: int
  q_data :: "'a list"

definition q_block :: "(nat \<Rightarrow> 'a) \<Rightarrow> int \<Rightarrow> 'a list" where
  "q_block junk n = map junk [0..<nat ((n * 4) mod 2 ^ 32) div 4]"

text \<open>
  The doubling loop of \<^verbatim>\<open>q_grow\<close>. For a positive 32-bit \<open>nsize\<close> the doubled value is
  positive as an \<^verbatim>\<open>int\<close> exactly when it is below \<open>2 ^ 31\<close>; otherwise the assertion fails.
\<close>

function q_growsize :: "int \<Rightarrow> int \<Rightarrow> int option" where
  "q_growsize nsize targetsize =
    (if nsize < targetsize then
       if 0 < nsize * 2 \<and> nsize * 2 < 2 ^ 31 then q_growsize (nsize * 2) targetsize else None
     else Some nsize)"
  by pat_completeness auto
termination by (relation "measure (\<lambda>(n, t). nat (t - n))") auto

declare q_growsize.simps [simp del]

text \<open>
  The copying loop of \<^verbatim>\<open>q_grow\<close>, with \<open>addtail\<close> the function \<^verbatim>\<open>q_addtail\<close> it calls. It runs
  at most once per cell of the old block.
\<close>

primrec q_copy ::
    "nat \<Rightarrow> ('a \<Rightarrow> ('a queue, unit) kfun) \<Rightarrow> 'a list \<Rightarrow> int \<Rightarrow> int \<Rightarrow> int \<Rightarrow> ('a queue, unit) kfun" where
  "q_copy 0 addtail olddata osize onw i = (if i = onw then kret () else kpanic)"
| "q_copy (Suc n) addtail olddata osize onw i =
    (if i = onw then kret ()
     else if nat i \<ge> length olddata then kpanic
     else kbind (ktry (addtail (olddata ! nat i))) (\<lambda>result.
          kbind (kassert (result = Inr ())) (\<lambda>_.
          q_copy n addtail olddata osize onw ((i + 1) mod osize))))"

definition q_grow ::
    "('a \<Rightarrow> ('a queue, unit) kfun) \<Rightarrow> bool \<Rightarrow> (nat \<Rightarrow> 'a) \<Rightarrow> int \<Rightarrow> ('a queue, unit) kfun" where
  "q_grow addtail ok junk targetsize q =
    (case q_growsize (q_size q) targetsize of
       None \<Rightarrow> Panic
     | Some nsize \<Rightarrow>
         if \<not> ok then Err ENOMEM q
         else q_copy (length (q_data q)) addtail (q_data q) (q_size q) (nextwrite q) (nextread q)
                (q\<lparr>q_size := nsize, q_data := q_block junk nsize, nextread := 0, nextwrite := 0\<rparr>))"

definition q_store :: "'a \<Rightarrow> int \<Rightarrow> ('a queue, unit) kfun" where
  "q_store ptr nextnext q =
    (if nat (nextwrite q) \<ge> length (q_data q) then Panic
     else Ok () (q\<lparr>q_data := (q_data q)[nat (nextwrite q) := ptr], nextwrite := nextnext\<rparr>))"

text \<open>
  \<^verbatim>\<open>q_addtail\<close> and \<^verbatim>\<open>q_grow\<close> call each other; the first argument bounds the depth of
  the calls. Depth 2 is enough (\<open>q_addtail_grow\<close> below): the calls made while copying never find
  the new block full.
\<close>

primrec q_addtail_depth ::
    "nat \<Rightarrow> bool \<Rightarrow> (nat \<Rightarrow> 'a) \<Rightarrow> 'a \<Rightarrow> ('a queue, unit) kfun" where
  "q_addtail_depth 0 ok junk ptr = kpanic"
| "q_addtail_depth (Suc d) ok junk ptr = (\<lambda>q.
    if \<not> q_size q > 0 then Panic
    else if (nextwrite q + 1) mod q_size q = nextread q then
      kbind (q_grow (q_addtail_depth d ok junk) ok junk (q_size q + 1)) (\<lambda>_ q'.
        q_store ptr ((nextwrite q' + 1) mod q_size q') q') q
    else q_store ptr ((nextwrite q + 1) mod q_size q) q)"

declare q_addtail_depth.simps(2) [simp del]

definition q_addtail :: "bool \<Rightarrow> (nat \<Rightarrow> 'a) \<Rightarrow> 'a \<Rightarrow> ('a queue, unit) kfun" where
  "q_addtail = q_addtail_depth 2"

definition q_create :: "bool \<Rightarrow> bool \<Rightarrow> (nat \<Rightarrow> 'a) \<Rightarrow> int \<Rightarrow> 'a queue option" where
  "q_create ok_q ok_data junk sz =
    (if \<not> ok_q then None
     else if \<not> ok_data then None
     else Some \<lparr>q_size = sz, nextwrite = 0, nextread = 0, q_data = q_block junk sz\<rparr>)"

definition q_preallocate :: "bool \<Rightarrow> (nat \<Rightarrow> 'a) \<Rightarrow> int \<Rightarrow> ('a queue, unit) kfun" where
  "q_preallocate ok junk sz q =
    (if \<not> q_size q > 0 then Panic
     else if sz > q_size q then q_grow (q_addtail ok junk) ok junk sz q
     else Ok () q)"

definition q_empty :: "'a queue \<Rightarrow> bool" where
  "q_empty q \<longleftrightarrow> nextwrite q = nextread q"

definition q_remhead :: "('a queue, 'a) kfun" where
  "q_remhead q =
    (if \<not> q_size q > 0 then Panic
     else if q_empty q then Panic
     else if nat (nextread q) \<ge> length (q_data q) then Panic
     else Ok (q_data q ! nat (nextread q)) (q\<lparr>nextread := (nextread q + 1) mod q_size q\<rparr>))"

definition q_destroy :: "'a queue \<Rightarrow> (unit, unit) kres" where
  "q_destroy q = (if q_empty q then Ok () () else Panic)"

definition q_getstart :: "'a queue \<Rightarrow> int" where
  "q_getstart q = nextread q"

definition q_getend :: "'a queue \<Rightarrow> int" where
  "q_getend q = nextwrite q"

definition q_getsize :: "'a queue \<Rightarrow> int" where
  "q_getsize q = q_size q"

definition q_getguy :: "int \<Rightarrow> ('a queue, 'a) kfun" where
  "q_getguy index q =
    (if \<not> (index \<ge> 0 \<and> index < q_size q) then Panic
     else if nat index \<ge> length (q_data q) then Panic
     else Ok (q_data q ! nat index) q)"

definition q_peek :: "('a queue, 'a option) kfun" where
  "q_peek q =
    (if \<not> q_size q > 0 then Panic
     else if q_empty q then Ok None q
     else if nat (nextread q) \<ge> length (q_data q) then Panic
     else Ok (Some (q_data q ! nat (nextread q))) q)"

partial_function (option) q_len_loop :: "int \<Rightarrow> int \<Rightarrow> int \<Rightarrow> int \<Rightarrow> int option" where
  "q_len_loop sz nw tmp count =
    (if tmp \<noteq> nw then q_len_loop sz nw ((tmp + 1) mod sz) (count + 1) else Some count)"

definition q_len :: "'a queue \<Rightarrow> int option" where
  "q_len q = q_len_loop (q_size q) (nextwrite q) (nextread q) 0"

section \<open>Invariant and abstraction\<close>

definition q_inv :: "'a queue \<Rightarrow> bool" where
  "q_inv q \<longleftrightarrow> 0 < q_size q \<and> q_size q < 2 ^ 30 \<and> length (q_data q) = nat (q_size q) \<and>
     0 \<le> nextread q \<and> nextread q < q_size q \<and> 0 \<le> nextwrite q \<and> nextwrite q < q_size q"

definition q_count :: "'a queue \<Rightarrow> nat" where
  "q_count q = nat ((nextwrite q - nextread q) mod q_size q)"

definition q_item :: "'a queue \<Rightarrow> nat \<Rightarrow> 'a" where
  "q_item q j = q_data q ! nat ((nextread q + int j) mod q_size q)"

definition q_list :: "'a queue \<Rightarrow> 'a list" where
  "q_list q = map (q_item q) [0..<q_count q]"

lemma q_block_length: "0 < n \<Longrightarrow> n < 2 ^ 30 \<Longrightarrow> length (q_block junk n) = nat n"
  by (simp add: q_block_def)

lemma q_count_int: "q_inv q \<Longrightarrow> int (q_count q) = (nextwrite q - nextread q) mod q_size q"
  by (simp add: q_count_def q_inv_def)

lemma q_count_less: "q_inv q \<Longrightarrow> q_count q < nat (q_size q)"
  by (simp add: q_count_def q_inv_def)

lemma q_list_length [simp]: "length (q_list q) = q_count q"
  by (simp add: q_list_def)

lemma q_empty_iff: "q_inv q \<Longrightarrow> q_empty q \<longleftrightarrow> q_list q = []"
proof -
  assume inv: "q_inv q"
  have "(nextwrite q - nextread q) mod q_size q = 0 \<longleftrightarrow> nextwrite q mod q_size q = nextread q mod q_size q"
    by (simp add: mod_eq_dvd_iff mod_eq_0_iff_dvd)
  then have "q_count q = 0 \<longleftrightarrow> nextwrite q = nextread q"
    using inv q_count_int [OF inv] by (simp add: q_inv_def flip: of_nat_eq_0_iff [where 'a = int])
  then show ?thesis by (auto simp: q_empty_def q_list_def)
qed

lemma circ_index:
  fixes s :: int
  assumes "0 \<le> a" "a < s" "0 \<le> b" "b < s" "j < nat s"
  shows "(a + int j) mod s = b \<longleftrightarrow> j = nat ((b - a) mod s)"
proof -
  have j: "int j mod s = int j" using assms(5) by simp
  have "(a + int j) mod s = b \<longleftrightarrow> (a + int j) mod s = b mod s" using assms(3,4) by simp
  also have "\<dots> \<longleftrightarrow> int j mod s = (b - a) mod s"
    by (simp add: mod_eq_dvd_iff algebra_simps)
  also have "\<dots> \<longleftrightarrow> j = nat ((b - a) mod s)" using j assms by auto
  finally show ?thesis .
qed

lemma q_pos:
  assumes "q_inv q" "j < nat (q_size q)"
  shows "(nextread q + int j) mod q_size q = nextwrite q \<longleftrightarrow> j = q_count q"
  using circ_index [of "nextread q" "q_size q" "nextwrite q" j] assms by (simp add: q_inv_def q_count_def)

lemma q_full_iff: "q_inv q \<Longrightarrow> (nextwrite q + 1) mod q_size q = nextread q \<longleftrightarrow> Suc (q_count q) = nat (q_size q)"
proof -
  assume inv: "q_inv q"
  let ?s = "q_size q" and ?d = "nextwrite q - nextread q"
  have "(nextwrite q + 1) mod ?s = nextread q \<longleftrightarrow> (nextwrite q + 1) mod ?s = nextread q mod ?s"
    using inv by (simp add: q_inv_def)
  also have "\<dots> \<longleftrightarrow> (?d + 1) mod ?s = 0" by (simp add: mod_eq_dvd_iff mod_eq_0_iff_dvd algebra_simps)
  also have "\<dots> \<longleftrightarrow> (?d mod ?s + 1) mod ?s = 0" by (simp add: mod_add_left_eq)
  also have "\<dots> \<longleftrightarrow> ?d mod ?s + 1 = ?s"
  proof -
    have "0 \<le> ?d mod ?s" "?d mod ?s < ?s" using inv by (auto simp: q_inv_def)
    then show ?thesis by (cases "?d mod ?s + 1 = ?s") (auto simp: zmod_trivial_iff)
  qed
  also have "\<dots> \<longleftrightarrow> Suc (q_count q) = nat ?s" using inv q_count_int [OF inv] by (auto simp: q_inv_def)
  finally show ?thesis .
qed
lemma q_store_list:
  assumes inv: "q_inv q" and room: "Suc (q_count q) < nat (q_size q)"
  shows "\<exists>q'. q_store x ((nextwrite q + 1) mod q_size q) q = Ok () q' \<and> q_inv q' \<and>
    q_list q' = q_list q @ [x] \<and> q_size q' = q_size q"
proof -
  let ?s = "q_size q" and ?nw = "nextwrite q" and ?nr = "nextread q"
  define q' where "q' = q\<lparr>q_data := (q_data q)[nat ?nw := x], nextwrite := (?nw + 1) mod ?s\<rparr>"
  have b: "0 \<le> ?nr" "?nr < ?s" "0 \<le> ?nw" "?nw < ?s" "0 < ?s" "length (q_data q) = nat ?s"
    using inv by (auto simp: q_inv_def)
  have store: "q_store x ((?nw + 1) mod ?s) q = Ok () q'"
    using b by (simp add: q_store_def q'_def)
  have inv': "q_inv q'" using inv by (simp add: q_inv_def q'_def)
  have "((?nw + 1) mod ?s - ?nr) mod ?s = ((?nw - ?nr) mod ?s + 1) mod ?s"
    by (simp add: mod_simps algebra_simps)
  also have "\<dots> = int (Suc (q_count q))"
    using room q_count_int [OF inv] b by (simp add: mod_pos_pos_trivial)
  finally have cnt: "q_count q' = Suc (q_count q)"
    by (simp add: q_count_def [of q']) (simp add: q'_def)
  have item: "q_item q' j = (if j = q_count q then x else q_item q j)" if "j < Suc (q_count q)" for j
  proof -
    have "nat ((?nr + int j) mod ?s) = nat ?nw \<longleftrightarrow> j = q_count q"
      using q_pos [OF inv, of j] that room b by (simp add: eq_nat_nat_iff)
    then show ?thesis using b by (cases "j = q_count q") (auto simp: q_item_def q'_def nth_list_update)
  qed
  have "q_list q' = q_list q @ [x]" by (simp add: q_list_def cnt item)
  then show ?thesis using store inv' by (auto simp: q'_def)
qed

lemma q_addtail_room:
  assumes inv: "q_inv q" and room: "Suc (q_count q) < nat (q_size q)"
  shows "\<exists>q'. q_addtail_depth (Suc d) ok junk x q = Ok () q' \<and> q_inv q' \<and>
    q_list q' = q_list q @ [x] \<and> q_size q' = q_size q"
  using q_store_list [OF assms, of x] q_full_iff [OF inv] inv room
  by (simp add: q_inv_def q_addtail_depth.simps(2))

lemma q_growsize_bound:
  assumes "0 < n" "n < 2 * target" "target \<le> 2 ^ 29"
  shows "\<exists>m. q_growsize n target = Some m \<and> target \<le> m \<and> m < 2 * target"
  using assms
proof (induction n target rule: q_growsize.induct)
  case (1 n target)
  show ?case
  proof (cases "n < target")
    case True
    then have "0 < n * 2 \<and> n * 2 < 2 ^ 31" using 1 by simp
    with 1 True show ?thesis by (simp add: q_growsize.simps [of n])
  next
    case False
    then show ?thesis using 1 by (simp add: q_growsize.simps [of n])
  qed
qed

lemma q_copy_list:
  assumes old: "q_inv q0" and k: "k \<le> q_count q0" "q_count q0 - k \<le> fuel"
    and new: "q_inv q" "q_list q = take k (q_list q0)" "q_size q0 < q_size q"
    and i: "i = (nextread q0 + int k) mod q_size q0"
  shows "\<exists>q'. q_copy fuel (q_addtail_depth (Suc d) ok junk) (q_data q0) (q_size q0) (nextwrite q0) i q
      = Ok () q' \<and> q_inv q' \<and> q_list q' = q_list q0 \<and> q_size q' = q_size q"
  using k new i
proof (induction fuel arbitrary: k q i)
  case 0
  then have "i = nextwrite q0"
    using q_pos [OF old, of k] q_count_less [OF old] by simp
  then show ?case using 0 by (simp add: kret_def)
next
  case (Suc fuel)
  have b: "0 \<le> nextread q0" "nextread q0 < q_size q0" "0 \<le> nextwrite q0" "nextwrite q0 < q_size q0"
    "0 < q_size q0" "length (q_data q0) = nat (q_size q0)" using old by (auto simp: q_inv_def)
  have kl: "k < nat (q_size q0)" using Suc.prems(1) q_count_less [OF old] by simp
  then have iw: "i = nextwrite q0 \<longleftrightarrow> k = q_count q0"
    using q_pos [OF old kl] Suc.prems(6) by simp
  show ?case
  proof (cases "k = q_count q0")
    case True
    then show ?thesis using iw Suc.prems by (simp add: kret_def)
  next
    case False
    with Suc.prems(1) have k: "k < q_count q0" by simp
    have ib: "nat i < length (q_data q0)" using b Suc.prems(6) by simp
    have "length (q_list q) = k" using Suc.prems(1,4) by simp
    then have "Suc (q_count q) < nat (q_size q)" using k q_count_less [OF old] Suc.prems(5) by simp
    from q_addtail_room [OF Suc.prems(3) this, of d ok junk "q_data q0 ! nat i"] obtain q1 where
      q1: "q_addtail_depth (Suc d) ok junk (q_data q0 ! nat i) q = Ok () q1" "q_inv q1"
        "q_list q1 = q_list q @ [q_data q0 ! nat i]" "q_size q1 = q_size q" by blast
    have "q_data q0 ! nat i = q_list q0 ! k"
      using k Suc.prems(6) by (simp add: q_list_def q_item_def)
    then have "q_list q1 = take (Suc k) (q_list q0)"
      using q1(3) Suc.prems(4) k by (simp add: take_Suc_conv_app_nth)
    moreover have "(i + 1) mod q_size q0 = (nextread q0 + int (Suc k)) mod q_size q0"
      using Suc.prems(6) by (simp add: mod_simps algebra_simps)
    moreover have "q_count q0 - Suc k \<le> fuel" using Suc.prems(2) by linarith
    ultimately obtain q' where "q_copy fuel (q_addtail_depth (Suc d) ok junk) (q_data q0) (q_size q0)
        (nextwrite q0) ((i + 1) mod q_size q0) q1 = Ok () q'" "q_inv q'" "q_list q' = q_list q0"
        "q_size q' = q_size q1"
      using Suc.IH [of "Suc k" q1 "(i + 1) mod q_size q0"] Suc.prems(5) k q1(2,4) by auto
    then show ?thesis using iw False ib q1(1,4) by (simp add: kbind_def ktry_def kassert_def)
  qed
qed

lemma q_grow_list:
  assumes inv: "q_inv q" and t: "q_size q < target" "target \<le> 2 ^ 29"
  shows "if ok then \<exists>q'. q_grow (q_addtail_depth (Suc d) ok junk) ok junk target q = Ok () q' \<and>
      q_inv q' \<and> q_list q' = q_list q \<and> target \<le> q_size q'
    else q_grow (q_addtail_depth (Suc d) ok junk) ok junk target q = Err ENOMEM q"
proof -
  have "0 < q_size q" "q_size q < 2 * target" using inv t by (auto simp: q_inv_def)
  from q_growsize_bound [OF this t(2)] obtain m where
    m: "q_growsize (q_size q) target = Some m" "target \<le> m" "m < 2 * target" by blast
  define q1 where "q1 = q\<lparr>q_size := m, q_data := q_block junk m, nextread := 0, nextwrite := 0\<rparr>"
  have "0 < m" "m < 2 ^ 30" using m t inv by (auto simp: q_inv_def)
  then have q1: "q_inv q1" "q_list q1 = []" "q_size q < q_size q1"
    using m t by (auto simp: q1_def q_inv_def q_block_length q_list_def q_count_def)
  have "q_count q - 0 \<le> length (q_data q)" "nextread q = (nextread q + int 0) mod q_size q"
    using q_count_less [OF inv] inv by (auto simp: q_inv_def)
  then obtain q' where "q_copy (length (q_data q)) (q_addtail_depth (Suc d) ok junk) (q_data q)
      (q_size q) (nextwrite q) (nextread q) q1 = Ok () q'" "q_inv q'" "q_list q' = q_list q"
      "q_size q' = q_size q1"
    using q_copy_list [OF inv, of 0 _ q1 _ d ok junk] q1 by auto
  then show ?thesis using m by (cases ok) (auto simp: q_grow_def q1_def)
qed

lemma q_addtail_grow:
  assumes inv: "q_inv q" and cnt: "q_count q < 2 ^ 29 - 1"
  shows "if ok \<or> Suc (q_count q) < nat (q_size q)
    then \<exists>q'. q_addtail ok junk x q = Ok () q' \<and> q_inv q' \<and> q_list q' = q_list q @ [x]
    else q_addtail ok junk x q = Err ENOMEM q"
proof (cases "Suc (q_count q) < nat (q_size q)")
  case True
  then show ?thesis using q_addtail_room [OF inv True, of 1 ok junk x]
    by (auto simp: q_addtail_def numeral_2_eq_2)
next
  case False
  with q_count_less [OF inv] have full: "Suc (q_count q) = nat (q_size q)" by simp
  have t: "q_size q < q_size q + 1" "q_size q + 1 \<le> 2 ^ 29"
    using full cnt by auto
  have pos: "0 < q_size q" using inv by (simp add: q_inv_def)
  have eq: "q_addtail ok junk x q = kbind (q_grow (q_addtail_depth (Suc 0) ok junk) ok junk (q_size q + 1))
      (\<lambda>_ q'. q_store x ((nextwrite q' + 1) mod q_size q') q') q"
    using q_full_iff [OF inv] full pos
    by (simp add: q_addtail_def numeral_2_eq_2 q_addtail_depth.simps(2))
  show ?thesis
  proof (cases ok)
    case True
    then obtain q1 where q1: "q_grow (q_addtail_depth (Suc 0) ok junk) ok junk (q_size q + 1) q = Ok () q1"
        "q_inv q1" "q_list q1 = q_list q" "q_size q + 1 \<le> q_size q1"
      using q_grow_list [OF inv t, of ok 0 junk] by auto
    then have "q_count q1 = q_count q" by (metis q_list_length)
    then have "Suc (q_count q1) < nat (q_size q1)" using full q1(4) pos by simp
    from q_store_list [OF q1(2) this, of x] show ?thesis
      using eq q1(1,3) True by (auto simp: kbind_def)
  next
    case False
    then show ?thesis using q_grow_list [OF inv t, of ok 0 junk] eq full by (simp add: kbind_def)
  qed
qed

lemma q_remhead_list:
  assumes inv: "q_inv q"
  shows "case q_list q of [] \<Rightarrow> q_remhead q = Panic
    | x # xs \<Rightarrow> \<exists>q'. q_remhead q = Ok x q' \<and> q_inv q' \<and> q_list q' = xs"
proof (cases "q_count q")
  case 0
  then have "q_list q = []" by (simp add: q_list_def)
  then show ?thesis using q_empty_iff [OF inv] by (simp add: q_remhead_def)
next
  case (Suc n)
  let ?s = "q_size q" and ?nw = "nextwrite q" and ?nr = "nextread q"
  define q' where "q' = q\<lparr>nextread := (?nr + 1) mod ?s\<rparr>"
  have b: "0 < ?s" "0 \<le> ?nr" "?nr < ?s" "length (q_data q) = nat ?s" using inv by (auto simp: q_inv_def)
  have list: "q_list q = q_item q 0 # map (\<lambda>j. q_item q (Suc j)) [0..<n]"
    by (simp add: q_list_def Suc upt_conv_Cons map_Suc_upt [symmetric] comp_def del: upt_Suc)
  have "(?nw - (?nr + 1) mod ?s) mod ?s = ((?nw - ?nr) mod ?s - 1) mod ?s"
    by (simp add: mod_simps algebra_simps)
  also have "\<dots> = int n"
    using Suc q_count_int [OF inv] q_count_less [OF inv] b by (simp add: mod_pos_pos_trivial flip: q_count_int)
  finally have "q_count q' = n" by (simp add: q_count_def [of q']) (simp add: q'_def)
  moreover have "q_item q' j = q_item q (Suc j)" for j
    by (simp add: q_item_def q'_def mod_simps algebra_simps)
  ultimately have "q_list q' = map (\<lambda>j. q_item q (Suc j)) [0..<n]" by (simp add: q_list_def)
  moreover have "q_inv q'" using inv by (simp add: q_inv_def q'_def)
  moreover have "q_remhead q = Ok (q_item q 0) q'"
    using q_empty_iff [OF inv] list b by (simp add: q_remhead_def q'_def q_item_def)
  ultimately show ?thesis using list by simp
qed

lemma q_len_loop_steps:
  assumes inv: "q_inv q" and k: "k \<le> q_count q"
  shows "q_len_loop (q_size q) (nextwrite q) ((nextread q + int (q_count q - k)) mod q_size q) c =
    Some (c + int k)"
  using k
proof (induction k arbitrary: c)
  case 0
  then show ?case
    using q_pos [OF inv, of "q_count q"] q_count_less [OF inv] by (simp add: q_len_loop.simps)
next
  case (Suc k)
  let ?i = "(nextread q + int (q_count q - Suc k)) mod q_size q"
  have "?i \<noteq> nextwrite q"
    using q_pos [OF inv, of "q_count q - Suc k"] q_count_less [OF inv] Suc.prems by simp
  moreover have "(?i + 1) mod q_size q = (nextread q + int (q_count q - k)) mod q_size q"
    using Suc.prems by (simp add: mod_simps of_nat_diff algebra_simps)
  ultimately show ?case
    using Suc.IH [of "c + 1"] Suc.prems by (subst q_len_loop.simps) (simp add: add.assoc)
qed

text \<open>The number of items up to which the byte size of a grown block does not wrap around.\<close>

definition q_max :: nat where
  "q_max = 2 ^ 29 - 1"

interpretation q: fifo "q_addtail True junk" q_remhead q_list q_inv "\<lambda>x xs. length xs < q_max"
proof (unfold_locales, goal_cases)
  case (1 q x)
  then show ?case using q_addtail_grow [of q True junk x] by (simp add: q_max_def)
next
  case (2 q x xs)
  then show ?case using q_remhead_list [of q] by simp
qed

section \<open>Properties\<close>

text \<open>
  The circular queue implements a list. \<^verbatim>\<open>q_addtail\<close> appends, growing the block when it is
  full, or returns \<open>ENOMEM\<close> and leaves the queue untouched when the growth fails; the recursion
  between \<^verbatim>\<open>q_addtail\<close> and \<^verbatim>\<open>q_grow\<close> ends and no assertion fails.
\<close>

lemma q_addtail_refines:
  assumes "q_inv q" "length (q_list q) < q_max"
  shows "case q_addtail ok junk x q of
      Ok _ q' \<Rightarrow> q_inv q' \<and> q_list q' = q_list q @ [x]
    | Err e q' \<Rightarrow> e = ENOMEM \<and> q' = q \<and> \<not> ok \<and> Suc (length (q_list q)) = nat (q_size q)
    | Panic \<Rightarrow> False"
proof (cases "ok \<or> Suc (q_count q) < nat (q_size q)")
  case True
  then show ?thesis using q_addtail_grow [of q ok junk x] assms by (auto simp: q_max_def)
next
  case False
  then show ?thesis
    using q_addtail_grow [of q ok junk x] q_count_less [OF assms(1)] assms by (auto simp: q_max_def)
qed

definition sample_queue :: "nat queue" where
  "sample_queue = \<lparr>q_size = 2, nextwrite = 0, nextread = 1, q_data = [8, 9]\<rparr>"

text \<open>
  C28: any sequence of \<^verbatim>\<open>q_addtail\<close> and \<^verbatim>\<open>q_remhead\<close> calls that never removes from an
  empty queue returns the items in the order of insertion, as the same calls on a list do.
\<close>

theorem q_session_fifo:
  assumes "q_inv q" "q.admissible ops (q_list q)" "fifo_spec ops (q_list q) = Some (out, ys)"
  shows "\<exists>q'. q.session junk ops q = Ok out q' \<and> q_inv q' \<and> q_list q' = ys"
  using assms by (rule q.session_refines)

theorem q_session_fifo_witness:
  "\<exists>q'. q.session (\<lambda>i. 0) [Insert 4, Remove, Insert 6, Insert 7, Remove] sample_queue = Ok [9, 4] q' \<and>
    q_list q' = [6, 7]"
proof -
  have "q_inv sample_queue" by (simp add: sample_queue_def q_inv_def)
  moreover have "q_list sample_queue = [9]" by code_simp
  moreover have "4 < q_max" by (simp add: q_max_def)
  ultimately show ?thesis
    using q_session_fifo [of sample_queue "[Insert 4, Remove, Insert 6, Insert 7, Remove]"
        "[9, 4]" "[6, 7]" "\<lambda>i. 0"] by auto
qed

text \<open>
  \<^verbatim>\<open>q_len\<close> terminates on a well-formed queue and counts its items, \<^verbatim>\<open>q_peek\<close> returns
  the head without changing the queue, and \<^verbatim>\<open>q_empty\<close> holds exactly when there is no item.
\<close>

lemma q_observers:
  assumes "q_inv q"
  shows "q_len q = Some (int (length (q_list q))) \<and> (q_empty q \<longleftrightarrow> q_list q = []) \<and>
    q_peek q = Ok (case q_list q of [] \<Rightarrow> None | x # _ \<Rightarrow> Some x) q"
proof (intro conjI)
  show "q_len q = Some (int (length (q_list q)))"
    using q_len_loop_steps [OF assms, of "q_count q" 0] assms by (simp add: q_len_def q_inv_def)
  show "q_empty q \<longleftrightarrow> q_list q = []" by (rule q_empty_iff [OF assms])
  show "q_peek q = Ok (case q_list q of [] \<Rightarrow> None | x # _ \<Rightarrow> Some x) q"
    using q_remhead_list [OF assms] q_empty_iff [OF assms] assms
    by (auto simp: q_peek_def q_remhead_def q_inv_def split: list.splits if_splits)
qed

end
