(* ===== verification/Bswap.thy ===== *)
theory Bswap
  imports Kernel_Base
begin

text \<open>
  \<^verbatim>\<open>lib/bswap.c\<close>: byte swapping, network byte order and pairs of 32-bit words, for the
  big-endian configuration that the MIPS port builds. A left shift of a narrow operand drops the
  bits that leave the result type, as the conversion of the C expression to that type does.
\<close>

section \<open>Model\<close>

definition bswap16 :: "u16 \<Rightarrow> u16" where
  "bswap16 val = push_bit 8 (val AND 0x00ff) OR drop_bit 8 (val AND 0xff00)"

definition bswap32 :: "u32 \<Rightarrow> u32" where
  "bswap32 val =
    push_bit 24 (val AND 0x000000ff)
    OR push_bit 8 (val AND 0x0000ff00)
    OR drop_bit 8 (val AND 0x00ff0000)
    OR drop_bit 24 (val AND 0xff000000)"

definition bswap64 :: "u64 \<Rightarrow> u64" where
  "bswap64 val =
    push_bit 56 (val AND 0x00000000000000ff)
    OR push_bit 40 (val AND 0x000000000000ff00)
    OR push_bit 24 (val AND 0x0000000000ff0000)
    OR push_bit 8 (val AND 0x00000000ff000000)
    OR push_bit 8 (val AND 0x000000ff00000000)
    OR push_bit 24 (val AND 0x0000ff0000000000)
    OR drop_bit 40 (val AND 0x00ff000000000000)
    OR drop_bit 56 (val AND 0xff00000000000000)"

definition ntohs :: "u16 \<Rightarrow> u16" where "ntohs val = val"
definition htons :: "u16 \<Rightarrow> u16" where "htons val = val"
definition ntohl :: "u32 \<Rightarrow> u32" where "ntohl val = val"
definition htonl :: "u32 \<Rightarrow> u32" where "htonl val = val"
definition ntohll :: "u64 \<Rightarrow> u64" where "ntohll val = val"
definition htonll :: "u64 \<Rightarrow> u64" where "htonll val = val"

definition join32to64 :: "u32 \<Rightarrow> u32 \<Rightarrow> u64" where
  "join32to64 x1 x2 = push_bit 32 (ucast x1 :: u64) OR (ucast x2 :: u64)"

definition split64to32 :: "u64 \<Rightarrow> u32 \<times> u32" where
  "split64to32 x = (ucast (drop_bit 32 x), ucast (x AND 0xffffffff))"

section \<open>Byte positions\<close>

text \<open>The masks of the code select one byte each.\<close>

lemma bit_byte_mask:
  "bit (val AND push_bit k (mask 8) :: 'a::len word) n \<longleftrightarrow> k \<le> n \<and> n < k + 8 \<and> bit val n"
  by (auto simp: bit_simps dest: bit_imp_le_length)

lemma masks16: "(0x00ff :: u16) = push_bit 0 (mask 8)" "(0xff00 :: u16) = push_bit 8 (mask 8)"
  by (simp_all add: mask_eq_exp_minus_1 push_bit_eq_mult)

lemma masks32:
  "(0x000000ff :: u32) = push_bit 0 (mask 8)" "(0x0000ff00 :: u32) = push_bit 8 (mask 8)"
  "(0x00ff0000 :: u32) = push_bit 16 (mask 8)" "(0xff000000 :: u32) = push_bit 24 (mask 8)"
  by (simp_all add: mask_eq_exp_minus_1 push_bit_eq_mult)

lemma masks64:
  "(0x00000000000000ff :: u64) = push_bit 0 (mask 8)" "(0x000000000000ff00 :: u64) = push_bit 8 (mask 8)"
  "(0x0000000000ff0000 :: u64) = push_bit 16 (mask 8)" "(0x00000000ff000000 :: u64) = push_bit 24 (mask 8)"
  "(0x000000ff00000000 :: u64) = push_bit 32 (mask 8)" "(0x0000ff0000000000 :: u64) = push_bit 40 (mask 8)"
  "(0x00ff000000000000 :: u64) = push_bit 48 (mask 8)" "(0xff00000000000000 :: u64) = push_bit 56 (mask 8)"
  by (simp_all add: mask_eq_exp_minus_1 push_bit_eq_mult)

lemma bit_bswap16: "n < 16 \<Longrightarrow> bit (bswap16 v) n = bit v (if n < 8 then 8 + n else n - 8)"
  unfolding bswap16_def masks16
  by (simp only: bit_or_iff bit_push_bit_iff bit_drop_bit_eq comp_def bit_byte_mask) auto

lemma bit_bswap32:
  "n < 32 \<Longrightarrow> bit (bswap32 v) n =
    bit v (if n < 8 then 24 + n else if n < 16 then 8 + n else if n < 24 then n - 8 else n - 24)"
  unfolding bswap32_def masks32
  by (simp only: bit_or_iff bit_push_bit_iff bit_drop_bit_eq comp_def bit_byte_mask) auto

lemma bit_bswap64_clear:
  assumes "16 \<le> n" "n < 32"
  shows "\<not> bit (bswap64 v) n"
proof -
  have "\<not> (40 \<le> n)" "\<not> (56 \<le> n)" "\<not> (16 \<le> n - 24)" "\<not> (24 \<le> n - 8)" "\<not> (32 \<le> n - 8)"
    "\<not> (40 \<le> n - 24)" "\<not> (40 + n < 48 + 8)" "\<not> (56 + n < 56 + 8)"
    using assms by linarith+
  then show ?thesis
    unfolding bswap64_def masks64 bit_or_iff bit_push_bit_iff bit_drop_bit_eq comp_def bit_byte_mask
    by blast
qed

text \<open>Byte \<open>k\<close> of a value, counted from the least significant one.\<close>

definition byte_at :: "nat \<Rightarrow> 'a::len word \<Rightarrow> 'a word" where
  "byte_at k v = take_bit 8 (drop_bit (8 * k) v)"

lemma byte_at_eqI:
  "(\<And>n. n < 8 \<Longrightarrow> bit v (8 * j + n) \<longleftrightarrow> bit w (8 * k + n)) \<Longrightarrow> byte_at j v = byte_at k (w :: 'a::len word)"
  by (rule bit_word_eqI) (auto simp: byte_at_def bit_simps)

section \<open>Properties\<close>

text \<open>
  C34: \<^verbatim>\<open>bswap16\<close> and \<^verbatim>\<open>bswap32\<close> reverse the order of the bytes of their argument, and are
  their own inverses.
\<close>

theorem bswap_reverses:
  "byte_at (k mod 2) (bswap16 u) = byte_at (1 - k mod 2) u \<and> bswap16 (bswap16 u) = u \<and>
   byte_at (k mod 4) (bswap32 v) = byte_at (3 - k mod 4) v \<and> bswap32 (bswap32 v) = v"
proof (intro conjI)
  have k: "k mod 2 < 2" "k mod 4 < 4" by simp_all
  from k(1) consider "k mod 2 = 0" | "k mod 2 = 1" by linarith
  then show "byte_at (k mod 2) (bswap16 u) = byte_at (1 - k mod 2) u"
    by cases (simp_all add: bit_bswap16 byte_at_eqI)
  from k(2) consider "k mod 4 = 0" | "k mod 4 = 1" | "k mod 4 = 2" | "k mod 4 = 3" by linarith
  then show "byte_at (k mod 4) (bswap32 v) = byte_at (3 - k mod 4) v"
    by cases (simp_all add: bit_bswap32 byte_at_eqI)
  show "bswap16 (bswap16 u) = u"
  proof (rule bit_word_eqI)
    fix n assume "n < LENGTH(16)"
    then consider "n < 8" | "8 \<le> n" "n - 8 < 8" by fastforce
    then show "bit (bswap16 (bswap16 u)) n \<longleftrightarrow> bit u n" by cases (simp_all add: bit_bswap16)
  qed
  show "bswap32 (bswap32 v) = v"
  proof (rule bit_word_eqI)
    fix n assume "n < LENGTH(32)"
    then consider "n < 8" | "8 \<le> n" "n < 16" | "16 \<le> n" "n < 24" "n - 8 < 16" "\<not> n - 8 < 8" | "24 \<le> n" "n - 24 < 8" by fastforce
    then show "bit (bswap32 (bswap32 v)) n \<longleftrightarrow> bit v n" by cases (simp_all add: bit_bswap32)
  qed
qed

text \<open>
  \<^verbatim>\<open>bswap64\<close> is not a byte swap. Bits 16 to 31 of its result are always clear, so bytes 4
  and 5 of the argument never reach their place, and a value with nothing but byte 5 is mapped to 0.
\<close>

lemma bswap64_not_swap:
  "byte_at 2 (bswap64 v) = 0 \<and> byte_at 3 (bswap64 v) = 0 \<and>
   bswap64 0x0000ff0000000000 = 0 \<and> byte_at 5 (0x0000ff0000000000 :: u64) = 0xff"
proof (intro conjI)
  show "byte_at 2 (bswap64 v) = 0" "byte_at 3 (bswap64 v) = 0"
    by (rule bit_word_eqI, auto simp: byte_at_def bit_simps bit_bswap64_clear)+
  show "bswap64 0x0000ff0000000000 = 0" "byte_at 5 (0x0000ff0000000000 :: u64) = 0xff"
    by (simp_all add: bswap64_def byte_at_def)
qed

text \<open>
  \<^verbatim>\<open>join32to64\<close> and \<^verbatim>\<open>split64to32\<close> are inverse to each other, in the big-endian order
  in which the two words appear in memory.
\<close>

lemma join_split_inverse:
  "split64to32 (join32to64 x1 x2) = (x1, x2) \<and> (case split64to32 y of (y1, y2) \<Rightarrow> join32to64 y1 y2 = y)"
proof -
  have m: "(0xffffffff :: u64) = mask 32" by (simp add: mask_eq_exp_minus_1)
  have "ucast (drop_bit 32 (join32to64 x1 x2)) = x1" "ucast (join32to64 x1 x2 AND 0xffffffff) = x2"
    unfolding m by (rule bit_word_eqI, auto simp: join32to64_def bit_simps dest: bit_imp_le_length)+
  moreover have "join32to64 (ucast (drop_bit 32 y)) (ucast (y AND 0xffffffff)) = y"
    unfolding m by (rule bit_word_eqI) (auto simp: join32to64_def bit_simps)
  ultimately show ?thesis by (simp add: split64to32_def)
qed

end
