(* ===== verification/Vfs.thy ===== *)
theory Vfs
  imports Kernel_Base
begin

text \<open>
  The virtual file system layer (\<^verbatim>\<open>vfs/vfslist.c\<close>, \<^verbatim>\<open>vfs/vfslookup.c\<close>, \<^verbatim>\<open>vfs/vfspath.c\<close>,
  \<^verbatim>\<open>vfs/vfscwd.c\<close>): the table of named devices, the translation of pathnames and the operations on them.

  The layer works on vnodes and file systems through function tables. The functions behind the tables are the fields of
  \<open>vops\<close>, on a state \<open>'w\<close> of their own, which has the vnodes, the file systems and the caller's uio; what the layer relies
  on is the contract \<open>vnode_layer\<close>. The big lock is the depth at which the current thread holds it; the spinlock of
  the current process covers single statements and is not part of the state.
\<close>

section \<open>State\<close>

record knowndev =
  kd_name :: string
  kd_rawname :: "string option"
  kd_device :: "nat option"
  kd_vnode :: nat
  kd_fs :: "nat option"

record 'w vfs =
  knowndevs :: "knowndev list"
  vfs_depth :: nat
  p_cwd :: "nat option"
  bootfs_vnode :: "nat option"
  vfs_world :: 'w

text \<open>
  The operations of vnodes (\<^verbatim>\<open>struct vnode_ops\<close> and the counts of \<^verbatim>\<open>vfs/vnode.c\<close>), of file systems
  (\<^verbatim>\<open>struct fs\<close>), the creation of vnodes for devices, \<^verbatim>\<open>uiomove\<close> of a string into the caller's uio, and the function that
  \<^verbatim>\<open>vfs_mount\<close> is given.
\<close>

record 'w vops =
  vop_incref :: "nat \<Rightarrow> ('w, unit) kfun"
  vop_decref :: "nat \<Rightarrow> ('w, unit) kfun"
  vop_incopen :: "nat \<Rightarrow> ('w, unit) kfun"
  vop_decopen :: "nat \<Rightarrow> ('w, unit) kfun"
  vop_open :: "nat \<Rightarrow> u32 \<Rightarrow> ('w, unit) kfun"
  vop_truncate :: "nat \<Rightarrow> int \<Rightarrow> ('w, unit) kfun"
  vop_gettype :: "nat \<Rightarrow> ('w, nat) kfun"
  vop_readlink :: "nat \<Rightarrow> ('w, unit) kfun"
  vop_namefile :: "nat \<Rightarrow> ('w, unit) kfun"
  vop_creat :: "nat \<Rightarrow> string \<Rightarrow> bool \<Rightarrow> nat \<Rightarrow> ('w, nat) kfun"
  vop_symlink :: "nat \<Rightarrow> string \<Rightarrow> string \<Rightarrow> ('w, unit) kfun"
  vop_mkdir :: "nat \<Rightarrow> string \<Rightarrow> nat \<Rightarrow> ('w, unit) kfun"
  vop_link :: "nat \<Rightarrow> string \<Rightarrow> nat \<Rightarrow> ('w, unit) kfun"
  vop_remove :: "nat \<Rightarrow> string \<Rightarrow> ('w, unit) kfun"
  vop_rmdir :: "nat \<Rightarrow> string \<Rightarrow> ('w, unit) kfun"
  vop_rename :: "nat \<Rightarrow> string \<Rightarrow> nat \<Rightarrow> string \<Rightarrow> ('w, unit) kfun"
  vop_lookup :: "nat \<Rightarrow> string \<Rightarrow> ('w, nat) kfun"
  vop_lookparent :: "nat \<Rightarrow> string \<Rightarrow> nat \<Rightarrow> ('w, nat \<times> string) kfun"
  vn_fs :: "nat \<Rightarrow> 'w \<Rightarrow> nat option"
  fsop_getroot :: "nat \<Rightarrow> ('w, nat) kfun"
  fsop_getvolname :: "nat \<Rightarrow> 'w \<Rightarrow> string option"
  fsop_sync :: "nat \<Rightarrow> ('w, unit) kfun"
  fsop_unmount :: "nat \<Rightarrow> ('w, unit) kfun"
  dev_create_vnode :: "nat option \<Rightarrow> ('w, nat option) kfun"
  dev_free_vnode :: "nat \<Rightarrow> ('w, unit) kfun"
  dev_setnumber :: "nat \<Rightarrow> nat \<Rightarrow> ('w, unit) kfun"
  uio_put :: "string \<Rightarrow> ('w, unit) kfun"
  mountfunc :: "nat \<Rightarrow> ('w, nat) kfun"

definition on_world :: "('w, 'a) kfun \<Rightarrow> ('w vfs, 'a) kfun" where
  "on_world m s = (case m (vfs_world s) of Ok x w \<Rightarrow> Ok x (s\<lparr>vfs_world := w\<rparr>) | Err e w \<Rightarrow> Err e (s\<lparr>vfs_world := w\<rparr>) | Panic \<Rightarrow> Panic)"

definition biglock_acquire :: "('w vfs, unit) kfun" where
  "biglock_acquire = kmod (\<lambda>s. s\<lparr>vfs_depth := Suc (vfs_depth s)\<rparr>)"

definition biglock_release :: "('w vfs, unit) kfun" where
  "biglock_release = kbind (kget vfs_depth) (\<lambda>d. kbind (kassert (0 < d)) (\<lambda>_. kmod (\<lambda>s. s\<lparr>vfs_depth := d - 1\<rparr>)))"

definition biglock_held :: "('w vfs, unit) kfun" where
  "biglock_held = kbind (kget vfs_depth) (\<lambda>d. kassert (0 < d))"

text \<open>A function that holds the lock from the beginning to each of its returns.\<close>

definition locked :: "('w vfs, 'a) kfun \<Rightarrow> ('w vfs, 'a) kfun" where
  "locked m =
    kbind biglock_acquire (\<lambda>_.
    kbind (ktry m) (\<lambda>r.
    kbind biglock_release (\<lambda>_.
    case r of Inl e \<Rightarrow> kerr e | Inr x \<Rightarrow> kret x)))"

section \<open>The table of devices\<close>

fun vfs_sync_all :: "'w vops \<Rightarrow> knowndev list \<Rightarrow> ('w vfs, unit) kfun" where
  "vfs_sync_all V [] = kret ()"
| "vfs_sync_all V (d # ds) =
    kbind (case kd_fs d of None \<Rightarrow> kret () | Some f \<Rightarrow> kbind (ktry (on_world (fsop_sync V f))) (\<lambda>_. kret ())) (\<lambda>_. vfs_sync_all V ds)"

definition vfs_sync :: "'w vops \<Rightarrow> ('w vfs, unit) kfun" where
  "vfs_sync V = locked (kbind (kget knowndevs) (vfs_sync_all V))"

fun vfs_getroot_loop :: "'w vops \<Rightarrow> string \<Rightarrow> knowndev list \<Rightarrow> ('w vfs, nat) kfun" where
  "vfs_getroot_loop V devname [] = kerr ENODEV"
| "vfs_getroot_loop V devname (kd # kds) =
    (let itself = kbind (on_world (vop_incref V (kd_vnode kd))) (\<lambda>_. kret (kd_vnode kd));
         next =
           (if kd_name kd = devname then
              kbind (kassert (kd_fs kd = None)) (\<lambda>_.
              kbind (kassert (kd_rawname kd = None)) (\<lambda>_.
              kbind (kassert (kd_device kd \<noteq> None)) (\<lambda>_. itself)))
            else if kd_rawname kd = Some devname then
              kbind (kassert (kd_device kd \<noteq> None)) (\<lambda>_. itself)
            else vfs_getroot_loop V devname kds)
     in
     case kd_fs kd of
       Some f \<Rightarrow>
         kbind (kget (\<lambda>s. fsop_getvolname V f (vfs_world s))) (\<lambda>volname.
         if kd_name kd = devname \<or> volname = Some devname then on_world (fsop_getroot V f) else next)
     | None \<Rightarrow> if kd_rawname kd \<noteq> None \<and> kd_name kd = devname then kerr ENXIO else next)"

definition vfs_getroot :: "'w vops \<Rightarrow> string \<Rightarrow> ('w vfs, nat) kfun" where
  "vfs_getroot V devname = kbind biglock_held (\<lambda>_. kbind (kget knowndevs) (vfs_getroot_loop V devname))"

fun vfs_getdevname_loop :: "nat \<Rightarrow> knowndev list \<Rightarrow> string option" where
  "vfs_getdevname_loop f [] = None"
| "vfs_getdevname_loop f (kd # kds) = (if kd_fs kd = Some f then Some (kd_name kd) else vfs_getdevname_loop f kds)"

definition vfs_getdevname :: "nat \<Rightarrow> ('w vfs, string option) kfun" where
  "vfs_getdevname f = kbind biglock_held (\<lambda>_. kbind (kget knowndevs) (\<lambda>ds. kret (vfs_getdevname_loop f ds)))"

definition mkrawname :: "string \<Rightarrow> string" where
  "mkrawname name = name @ ''raw''"

definition samestring :: "string option \<Rightarrow> string option \<Rightarrow> bool" where
  "samestring a b \<longleftrightarrow> a \<noteq> None \<and> b \<noteq> None \<and> a = b"

definition samestring3 :: "string option \<Rightarrow> string option \<Rightarrow> string option \<Rightarrow> string option \<Rightarrow> bool" where
  "samestring3 a b c d \<longleftrightarrow> samestring a b \<or> samestring a c \<or> samestring a d"

fun badnames_loop :: "'w vops \<Rightarrow> 'w \<Rightarrow> string option \<Rightarrow> string option \<Rightarrow> string option \<Rightarrow> knowndev list \<Rightarrow> bool" where
  "badnames_loop V w n1 n2 n3 [] = False"
| "badnames_loop V w n1 n2 n3 (kd # kds) \<longleftrightarrow>
    (case kd_fs kd of None \<Rightarrow> False | Some f \<Rightarrow> samestring3 (fsop_getvolname V f w) n1 n2 n3) \<or>
    samestring3 (kd_rawname kd) n1 n2 n3 \<or> samestring3 (Some (kd_name kd)) n1 n2 n3 \<or> badnames_loop V w n1 n2 n3 kds"

definition badnames :: "'w vops \<Rightarrow> string option \<Rightarrow> string option \<Rightarrow> string option \<Rightarrow> ('w vfs, bool) kfun" where
  "badnames V n1 n2 n3 = kbind biglock_held (\<lambda>_. kget (\<lambda>s. badnames_loop V (vfs_world s) n1 n2 n3 (knowndevs s)))"

text \<open>
  The arguments after \<open>V\<close> are the outcomes of the allocations of the name, the raw name, the entry and the slot of the table. The second half begins
  when the vnode \<open>v\<close> exists. A duplicate name returns without freeing anything.
\<close>

definition vfs_doadd_entry :: "'w vops \<Rightarrow> bool \<Rightarrow> bool \<Rightarrow> string \<Rightarrow> string option \<Rightarrow> nat option \<Rightarrow> nat option \<Rightarrow> nat \<Rightarrow> ('w vfs, unit) kfun" where
  "vfs_doadd_entry V kd_ok add_ok name rawname dev fs v =
    (if \<not> kd_ok then kbind (on_world (dev_free_vnode V v)) (\<lambda>_. kerr ENOMEM)
     else
       kbind (case fs of None \<Rightarrow> kret None | Some f \<Rightarrow> kget (\<lambda>s. fsop_getvolname V f (vfs_world s))) (\<lambda>volname.
       kbind (badnames V (Some name) rawname volname) (\<lambda>bad.
       if bad then kerr EEXIST
       else if \<not> add_ok then kerr ENOMEM
       else
         kbind (kget (\<lambda>s. length (knowndevs s))) (\<lambda>index.
         kbind (kmod (\<lambda>s. s\<lparr>knowndevs := knowndevs s @ [\<lparr>kd_name = name, kd_rawname = rawname, kd_device = dev, kd_vnode = v, kd_fs = fs\<rparr>]\<rparr>)) (\<lambda>_.
         case dev of None \<Rightarrow> kret () | Some d \<Rightarrow> on_world (dev_setnumber V d (Suc index)))))))"

definition vfs_doadd :: "'w vops \<Rightarrow> bool \<Rightarrow> bool \<Rightarrow> bool \<Rightarrow> bool \<Rightarrow> string \<Rightarrow> bool \<Rightarrow> nat option \<Rightarrow> nat option \<Rightarrow> ('w vfs, unit) kfun" where
  "vfs_doadd V name_ok raw_ok kd_ok add_ok dname mountable dev fs = locked (
    if \<not> name_ok \<or> mountable \<and> \<not> raw_ok then kerr ENOMEM
    else
      let rawname = (if mountable then Some (mkrawname dname) else None) in
      kbind (on_world (dev_create_vnode V dev)) (\<lambda>vnode.
      case vnode of
        None \<Rightarrow> kerr ENOMEM
      | Some v \<Rightarrow> vfs_doadd_entry V kd_ok add_ok dname rawname dev fs v))"

definition vfs_adddev :: "'w vops \<Rightarrow> bool \<Rightarrow> bool \<Rightarrow> bool \<Rightarrow> bool \<Rightarrow> string \<Rightarrow> nat \<Rightarrow> bool \<Rightarrow> ('w vfs, unit) kfun" where
  "vfs_adddev V name_ok raw_ok kd_ok add_ok devname dev mountable = vfs_doadd V name_ok raw_ok kd_ok add_ok devname mountable (Some dev) None"

definition vfs_addfs :: "'w vops \<Rightarrow> bool \<Rightarrow> bool \<Rightarrow> bool \<Rightarrow> string \<Rightarrow> nat \<Rightarrow> ('w vfs, unit) kfun" where
  "vfs_addfs V name_ok kd_ok add_ok devname fs = vfs_doadd V name_ok True kd_ok add_ok devname False None (Some fs)"

text \<open>The result of \<^verbatim>\<open>findmount\<close> is the position of the entry.\<close>

fun findmount_loop :: "string \<Rightarrow> knowndev list \<Rightarrow> nat \<Rightarrow> nat option" where
  "findmount_loop devname [] i = None"
| "findmount_loop devname (d # ds) i =
    (if kd_rawname d = None then findmount_loop devname ds (Suc i)
     else if devname = kd_name d then Some i
     else findmount_loop devname ds (Suc i))"

definition findmount :: "string \<Rightarrow> ('w vfs, nat) kfun" where
  "findmount devname =
    kbind biglock_held (\<lambda>_.
    kbind (kget (\<lambda>s. findmount_loop devname (knowndevs s) 0)) (\<lambda>r.
    case r of None \<Rightarrow> kerr ENODEV | Some i \<Rightarrow> kret i))"

definition set_kd_fs :: "nat \<Rightarrow> nat option \<Rightarrow> ('w vfs, unit) kfun" where
  "set_kd_fs i f = kmod (\<lambda>s. s\<lparr>knowndevs := (knowndevs s)[i := (knowndevs s ! i)\<lparr>kd_fs := f\<rparr>]\<rparr>)"

definition vfs_mount :: "'w vops \<Rightarrow> string \<Rightarrow> ('w vfs, unit) kfun" where
  "vfs_mount V devname = locked (
    kbind (findmount devname) (\<lambda>i.
    kbind (kget (\<lambda>s. knowndevs s ! i)) (\<lambda>kd.
    if kd_fs kd \<noteq> None then kerr EBUSY
    else
      kbind (kassert (kd_rawname kd \<noteq> None)) (\<lambda>_.
      case kd_device kd of
        None \<Rightarrow> kpanic
      | Some d \<Rightarrow> kbind (on_world (mountfunc V d)) (\<lambda>f. set_kd_fs i (Some f))))))"

definition vfs_unmount :: "'w vops \<Rightarrow> string \<Rightarrow> ('w vfs, unit) kfun" where
  "vfs_unmount V devname = locked (
    kbind (findmount devname) (\<lambda>i.
    kbind (kget (\<lambda>s. knowndevs s ! i)) (\<lambda>kd.
    case kd_fs kd of
      None \<Rightarrow> kerr EINVAL
    | Some f \<Rightarrow>
        kbind (kassert (kd_rawname kd \<noteq> None)) (\<lambda>_.
        kbind (kassert (kd_device kd \<noteq> None)) (\<lambda>_.
        kbind (on_world (fsop_sync V f)) (\<lambda>_.
        kbind (on_world (fsop_unmount V f)) (\<lambda>_.
        set_kd_fs i None)))))))"

fun vfs_unmount_loop :: "'w vops \<Rightarrow> nat list \<Rightarrow> ('w vfs, unit) kfun" where
  "vfs_unmount_loop V [] = kret ()"
| "vfs_unmount_loop V (i # is) =
    kbind (kget (\<lambda>s. knowndevs s ! i)) (\<lambda>dev.
    case (kd_rawname dev, kd_fs dev) of
      (Some _, Some f) \<Rightarrow>
        kbind (ktry (on_world (fsop_sync V f))) (\<lambda>r1.
        kbind (case r1 of Inr _ \<Rightarrow> kret r1 | Inl _ \<Rightarrow> ktry (on_world (fsop_sync V f))) (\<lambda>r2.
        case r2 of
          Inl _ \<Rightarrow> vfs_unmount_loop V is
        | Inr _ \<Rightarrow>
            kbind (ktry (on_world (fsop_unmount V f))) (\<lambda>r3.
            case r3 of
              Inl _ \<Rightarrow> vfs_unmount_loop V is
            | Inr _ \<Rightarrow> kbind (set_kd_fs i None) (\<lambda>_. vfs_unmount_loop V is))))
    | _ \<Rightarrow> vfs_unmount_loop V is)"

definition vfs_unmountall :: "'w vops \<Rightarrow> ('w vfs, unit) kfun" where
  "vfs_unmountall V = locked (kbind (kget (\<lambda>s. length (knowndevs s))) (\<lambda>num. vfs_unmount_loop V [0..<num]))"

section \<open>The current directory\<close>

definition vfs_getcurdir :: "'w vops \<Rightarrow> ('w vfs, nat) kfun" where
  "vfs_getcurdir V =
    kbind (kget p_cwd) (\<lambda>cwd.
    case cwd of
      None \<Rightarrow> kerr ENOENT
    | Some v \<Rightarrow> kbind (on_world (vop_incref V v)) (\<lambda>_. kret v))"

definition drop_old :: "'w vops \<Rightarrow> nat option \<Rightarrow> ('w vfs, unit) kfun" where
  "drop_old V old = (case old of None \<Rightarrow> kret () | Some v \<Rightarrow> on_world (vop_decref V v))"

definition vfs_setcurdir :: "'w vops \<Rightarrow> nat \<Rightarrow> ('w vfs, unit) kfun" where
  "vfs_setcurdir V dir =
    kbind (on_world (vop_gettype V dir)) (\<lambda>vtype.
    if vtype \<noteq> S_IFDIR then kerr ENOTDIR
    else
      kbind (on_world (vop_incref V dir)) (\<lambda>_.
      kbind (kget p_cwd) (\<lambda>old.
      kbind (kmod (\<lambda>s. s\<lparr>p_cwd := Some dir\<rparr>)) (\<lambda>_.
      drop_old V old))))"

definition vfs_clearcurdir :: "'w vops \<Rightarrow> ('w vfs, unit) kfun" where
  "vfs_clearcurdir V =
    kbind (kget p_cwd) (\<lambda>old.
    kbind (kmod (\<lambda>s. s\<lparr>p_cwd := None\<rparr>)) (\<lambda>_.
    drop_old V old))"

section \<open>Pathname translation\<close>

definition char_at :: "string \<Rightarrow> nat \<Rightarrow> char" where
  "char_at path i = (if i < length path then path ! i else CHR 0x00)"

text \<open>The first colon or slash; the other of the two variables stays -1.\<close>

fun find_sep :: "string \<Rightarrow> int \<Rightarrow> int \<times> int" where
  "find_sep [] i = (- 1, - 1)"
| "find_sep (x # xs) i = (if x = CHR '':'' then (i, - 1) else if x = CHR ''/'' then (- 1, i) else find_sep xs (i + 1))"

function skip_slashes :: "string \<Rightarrow> nat \<Rightarrow> nat" where
  "skip_slashes path c = (if char_at path (c + 1) = CHR ''/'' then skip_slashes path (c + 1) else c)"
  by auto
termination
  by (relation "measure (\<lambda>(path, c). length path - c)") (auto simp: char_at_def split: if_splits)

declare skip_slashes.simps [simp del]

definition getdevice :: "'w vops \<Rightarrow> string \<Rightarrow> ('w vfs, string \<times> nat) kfun" where
  "getdevice V path =
    kbind biglock_held (\<lambda>_.
    let (colon, slash) = find_sep path 0 in
    if colon < 0 \<and> slash \<noteq> 0 then kbind (vfs_getcurdir V) (\<lambda>v. kret (path, v))
    else if 0 < colon then
      kbind (vfs_getroot V (take (nat colon) path)) (\<lambda>v.
      kret (drop (skip_slashes path (nat colon) + 1) path, v))
    else
      kbind (kassert (colon = 0 \<or> slash = 0)) (\<lambda>_.
      kbind
        (if char_at path 0 = CHR ''/'' then
           kbind (kget bootfs_vnode) (\<lambda>b.
           case b of
             None \<Rightarrow> kerr ENOENT
           | Some v \<Rightarrow> kbind (on_world (vop_incref V v)) (\<lambda>_. kret v))
         else
           kbind (kassert (char_at path 0 = CHR '':'')) (\<lambda>_.
           kbind (vfs_getcurdir V) (\<lambda>vn.
           kbind (kget (\<lambda>s. vn_fs V vn (vfs_world s))) (\<lambda>fs.
           case fs of
             None \<Rightarrow> kpanic
           | Some f \<Rightarrow>
               kbind (on_world (fsop_getroot V f)) (\<lambda>root.
               kbind (on_world (vop_decref V vn)) (\<lambda>_. kret root)))))) (\<lambda>startvn.
      kret (drop (skip_slashes path 0 + 1) path, startvn))))"

definition NAME_MAX :: nat where "NAME_MAX = 255"

definition vfs_lookparent :: "'w vops \<Rightarrow> string \<Rightarrow> nat \<Rightarrow> ('w vfs, nat \<times> string) kfun" where
  "vfs_lookparent V path buflen = locked (
    kbind (getdevice V path) (\<lambda>(sub, startvn).
    kbind (ktry (if length sub = 0 then kerr EINVAL else on_world (vop_lookparent V startvn sub buflen))) (\<lambda>result.
    kbind (on_world (vop_decref V startvn)) (\<lambda>_.
    case result of Inl e \<Rightarrow> kerr e | Inr r \<Rightarrow> kret r))))"

definition vfs_lookup :: "'w vops \<Rightarrow> string \<Rightarrow> ('w vfs, nat) kfun" where
  "vfs_lookup V path = locked (
    kbind (getdevice V path) (\<lambda>(sub, startvn).
    if length sub = 0 then kret startvn
    else
      kbind (ktry (on_world (vop_lookup V startvn sub))) (\<lambda>result.
      kbind (on_world (vop_decref V startvn)) (\<lambda>_.
      case result of Inl e \<Rightarrow> kerr e | Inr r \<Rightarrow> kret r))))"

definition vfs_chdir :: "'w vops \<Rightarrow> string \<Rightarrow> ('w vfs, unit) kfun" where
  "vfs_chdir V path =
    kbind (vfs_lookup V path) (\<lambda>vn.
    kbind (ktry (vfs_setcurdir V vn)) (\<lambda>result.
    kbind (on_world (vop_decref V vn)) (\<lambda>_.
    case result of Inl e \<Rightarrow> kerr e | Inr _ \<Rightarrow> kret ())))"

definition change_bootfs :: "'w vops \<Rightarrow> nat option \<Rightarrow> ('w vfs, unit) kfun" where
  "change_bootfs V newvn =
    kbind (kget bootfs_vnode) (\<lambda>oldvn.
    kbind (kmod (\<lambda>s. s\<lparr>bootfs_vnode := newvn\<rparr>)) (\<lambda>_.
    drop_old V oldvn))"

text \<open>
  \<^verbatim>\<open>snprintf\<close> into \<^verbatim>\<open>sizeof(tmp)-1\<close> bytes keeps \<open>NAME_MAX - 1\<close> characters. The string at the colon that \<^verbatim>\<open>strchr\<close> found
  begins with that colon.
\<close>

definition vfs_setbootfs :: "'w vops \<Rightarrow> string \<Rightarrow> ('w vfs, unit) kfun" where
  "vfs_setbootfs V fsname = locked (
    let tmp = take (NAME_MAX - 1) fsname; s = dropWhile (\<lambda>x. x \<noteq> CHR '':'') tmp in
    if s \<noteq> [] \<and> 0 < length s then kerr EINVAL
    else
      kbind (vfs_chdir V (tmp @ '':'')) (\<lambda>_.
      kbind (vfs_getcurdir V) (\<lambda>newguy.
      change_bootfs V (Some newguy))))"

definition vfs_clearbootfs :: "'w vops \<Rightarrow> ('w vfs, unit) kfun" where
  "vfs_clearbootfs V = locked (change_bootfs V None)"

definition vfs_getcwd :: "'w vops \<Rightarrow> bool \<Rightarrow> ('w vfs, unit) kfun" where
  "vfs_getcwd V uio_read =
    kbind (kassert uio_read) (\<lambda>_.
    kbind (vfs_getcurdir V) (\<lambda>cwd.
    kbind (kget (\<lambda>s. vn_fs V cwd (vfs_world s))) (\<lambda>fs.
    case fs of
      None \<Rightarrow> kpanic
    | Some f \<Rightarrow>
        kbind (kget (\<lambda>s. fsop_getvolname V f (vfs_world s))) (\<lambda>volname.
        kbind (case volname of Some n \<Rightarrow> kret volname | None \<Rightarrow> locked (vfs_getdevname f)) (\<lambda>name.
        case name of
          None \<Rightarrow> kpanic
        | Some n \<Rightarrow>
            kbind (ktry (on_world (kbind (uio_put V n) (\<lambda>_. kbind (uio_put V '':'') (\<lambda>_. vop_namefile V cwd))))) (\<lambda>result.
            kbind (on_world (vop_decref V cwd)) (\<lambda>_.
            case result of Inl e \<Rightarrow> kerr e | Inr _ \<Rightarrow> kret ())))))))"

section \<open>Operations on pathnames\<close>

text \<open>The frame of the operations on a name in a directory.\<close>

definition in_parent :: "'w vops \<Rightarrow> string \<Rightarrow> (nat \<Rightarrow> string \<Rightarrow> ('w, 'a) kfun) \<Rightarrow> ('w vfs, 'a) kfun" where
  "in_parent V path m =
    kbind (vfs_lookparent V path (NAME_MAX + 1)) (\<lambda>(dir, name).
    kbind (ktry (on_world (m dir name))) (\<lambda>result.
    kbind (on_world (vop_decref V dir)) (\<lambda>_.
    case result of Inl e \<Rightarrow> kerr e | Inr x \<Rightarrow> kret x)))"

definition vfs_open :: "'w vops \<Rightarrow> string \<Rightarrow> u32 \<Rightarrow> nat \<Rightarrow> ('w vfs, nat) kfun" where
  "vfs_open V path openflags mode =
    (let how = openflags AND O_ACCMODE in
     if how \<noteq> O_RDONLY \<and> how \<noteq> O_WRONLY \<and> how \<noteq> O_RDWR then kerr EINVAL
     else
       let canwrite = (how \<noteq> O_RDONLY) in
       kbind
         (if openflags AND O_CREAT \<noteq> 0
          then in_parent V path (\<lambda>dir name. vop_creat V dir name (openflags AND O_EXCL \<noteq> 0) mode)
          else vfs_lookup V path) (\<lambda>vn.
       kbind (ktry (on_world (vop_open V vn openflags))) (\<lambda>result.
       case result of
         Inl e \<Rightarrow> kbind (on_world (vop_decref V vn)) (\<lambda>_. kerr e)
       | Inr _ \<Rightarrow>
           kbind (on_world (vop_incopen V vn)) (\<lambda>_.
           if openflags AND O_TRUNC \<noteq> 0 then
             kbind (ktry (if \<not> canwrite then kerr EINVAL else on_world (vop_truncate V vn 0))) (\<lambda>result.
             case result of
               Inl e \<Rightarrow>
                 kbind (on_world (vop_decopen V vn)) (\<lambda>_.
                 kbind (on_world (vop_decref V vn)) (\<lambda>_. kerr e))
             | Inr _ \<Rightarrow> kret vn)
           else kret vn))))"

definition vfs_close :: "'w vops \<Rightarrow> nat \<Rightarrow> ('w vfs, unit) kfun" where
  "vfs_close V vn = kbind (on_world (vop_decopen V vn)) (\<lambda>_. on_world (vop_decref V vn))"

definition vfs_remove :: "'w vops \<Rightarrow> string \<Rightarrow> ('w vfs, unit) kfun" where
  "vfs_remove V path = in_parent V path (vop_remove V)"

definition vfs_rename :: "'w vops \<Rightarrow> string \<Rightarrow> string \<Rightarrow> ('w vfs, unit) kfun" where
  "vfs_rename V oldpath newpath =
    kbind (vfs_lookparent V oldpath (NAME_MAX + 1)) (\<lambda>(olddir, oldname).
    kbind (ktry (vfs_lookparent V newpath (NAME_MAX + 1))) (\<lambda>r.
    case r of
      Inl e \<Rightarrow> kbind (on_world (vop_decref V olddir)) (\<lambda>_. kerr e)
    | Inr (newdir, newname) \<Rightarrow>
        kbind (kget (\<lambda>s. (vn_fs V olddir (vfs_world s), vn_fs V newdir (vfs_world s)))) (\<lambda>(f, g).
        kbind (ktry (if f = None \<or> g = None \<or> f \<noteq> g then kerr EXDEV else on_world (vop_rename V olddir oldname newdir newname))) (\<lambda>result.
        kbind (on_world (vop_decref V newdir)) (\<lambda>_.
        kbind (on_world (vop_decref V olddir)) (\<lambda>_.
        case result of Inl e \<Rightarrow> kerr e | Inr _ \<Rightarrow> kret ()))))))"

definition vfs_link :: "'w vops \<Rightarrow> string \<Rightarrow> string \<Rightarrow> ('w vfs, unit) kfun" where
  "vfs_link V oldpath newpath =
    kbind (vfs_lookup V oldpath) (\<lambda>oldfile.
    kbind (ktry (vfs_lookparent V newpath (NAME_MAX + 1))) (\<lambda>r.
    case r of
      Inl e \<Rightarrow> kbind (on_world (vop_decref V oldfile)) (\<lambda>_. kerr e)
    | Inr (newdir, newname) \<Rightarrow>
        kbind (kget (\<lambda>s. (vn_fs V oldfile (vfs_world s), vn_fs V newdir (vfs_world s)))) (\<lambda>(f, g).
        kbind (ktry (if f = None \<or> g = None \<or> f \<noteq> g then kerr EXDEV else on_world (vop_link V newdir newname oldfile))) (\<lambda>result.
        kbind (on_world (vop_decref V newdir)) (\<lambda>_.
        kbind (on_world (vop_decref V oldfile)) (\<lambda>_.
        case result of Inl e \<Rightarrow> kerr e | Inr _ \<Rightarrow> kret ()))))))"

text \<open>The arguments of \<^verbatim>\<open>VOP_SYMLINK\<close> are in the order in which \<^verbatim>\<open>vfs_symlink\<close> passes them on.\<close>

definition vfs_symlink :: "'w vops \<Rightarrow> string \<Rightarrow> string \<Rightarrow> ('w vfs, unit) kfun" where
  "vfs_symlink V contents path = in_parent V path (\<lambda>newdir newname. vop_symlink V newdir newname contents)"

definition vfs_readlink :: "'w vops \<Rightarrow> string \<Rightarrow> ('w vfs, unit) kfun" where
  "vfs_readlink V path =
    kbind (vfs_lookup V path) (\<lambda>vn.
    kbind (ktry (on_world (vop_readlink V vn))) (\<lambda>result.
    kbind (on_world (vop_decref V vn)) (\<lambda>_.
    case result of Inl e \<Rightarrow> kerr e | Inr _ \<Rightarrow> kret ())))"

definition vfs_mkdir :: "'w vops \<Rightarrow> string \<Rightarrow> nat \<Rightarrow> ('w vfs, unit) kfun" where
  "vfs_mkdir V path mode = in_parent V path (\<lambda>parent name. vop_mkdir V parent name mode)"

definition vfs_rmdir :: "'w vops \<Rightarrow> string \<Rightarrow> ('w vfs, unit) kfun" where
  "vfs_rmdir V path = in_parent V path (vop_rmdir V)"

section \<open>Rules for the layer\<close>

lemma wp_on_world [wp_simps]:
  "wp (on_world m) Q E s = wp m (\<lambda>x w. Q x (s\<lparr>vfs_world := w\<rparr>)) (\<lambda>e w. E e (s\<lparr>vfs_world := w\<rparr>)) (vfs_world s)"
  by (simp add: wp_def on_world_def split: kres.splits)

lemma wp_biglock_held [wp_simps]: "wp biglock_held Q E s = (0 < vfs_depth s \<and> Q () s)"
  by (simp add: biglock_held_def wp_simps)

lemma wp_locked [wp_simps]:
  "wp (locked m) Q E s =
    wp m (\<lambda>x s'. 0 < vfs_depth s' \<and> Q x (s'\<lparr>vfs_depth := vfs_depth s' - 1\<rparr>))
         (\<lambda>e s'. 0 < vfs_depth s' \<and> E e (s'\<lparr>vfs_depth := vfs_depth s' - 1\<rparr>)) (s\<lparr>vfs_depth := Suc (vfs_depth s)\<rparr>)"
  by (simp add: locked_def biglock_acquire_def biglock_release_def wp_def kfun_defs split: kres.splits)

section \<open>Pathnames\<close>

text \<open>
  What the translation of a pathname means, as the comments of \<^verbatim>\<open>getdevice\<close> say it: the part before the first colon or slash
  decides where the lookup begins, and the slashes after the separator do not count.
\<close>

datatype start = From_cwd | From_device string | From_boot | From_cwdfs

definition separator :: "char \<Rightarrow> bool" where
  "separator x \<longleftrightarrow> x = CHR '':'' \<or> x = CHR ''/''"

definition path_spec :: "string \<Rightarrow> start \<times> string" where
  "path_spec path =
    (let prefix = takeWhile (\<lambda>x. \<not> separator x) path in
     case dropWhile (\<lambda>x. \<not> separator x) path of
       [] \<Rightarrow> (From_cwd, path)
     | x # rest \<Rightarrow>
         if x = CHR '':'' then (if prefix = [] then From_cwdfs else From_device prefix, dropWhile (\<lambda>x. x = CHR ''/'') rest)
         else if prefix = [] then (From_boot, dropWhile (\<lambda>x. x = CHR ''/'') rest)
         else (From_cwd, path))"

definition start_vnode :: "'w vops \<Rightarrow> start \<Rightarrow> ('w vfs, nat) kfun" where
  "start_vnode V st =
    (case st of
       From_cwd \<Rightarrow> vfs_getcurdir V
     | From_device n \<Rightarrow> vfs_getroot V n
     | From_boot \<Rightarrow>
         kbind (kget bootfs_vnode) (\<lambda>b.
         case b of None \<Rightarrow> kerr ENOENT | Some v \<Rightarrow> kbind (on_world (vop_incref V v)) (\<lambda>_. kret v))
     | From_cwdfs \<Rightarrow>
         kbind (vfs_getcurdir V) (\<lambda>vn.
         kbind (kget (\<lambda>s. vn_fs V vn (vfs_world s))) (\<lambda>fs.
         case fs of
           None \<Rightarrow> kpanic
         | Some f \<Rightarrow>
             kbind (on_world (fsop_getroot V f)) (\<lambda>root.
             kbind (on_world (vop_decref V vn)) (\<lambda>_. kret root)))))"

lemma skip_slashes_drop:
  "drop (skip_slashes path c + 1) path = dropWhile (\<lambda>x. x = CHR ''/'') (drop (c + 1) path)"
proof (induction path c rule: skip_slashes.induct)
  case (1 path c)
  show ?case
  proof (cases "char_at path (c + 1) = CHR ''/''")
    case True
    then have c: "c + 1 < length path" "path ! (c + 1) = CHR ''/''"
      by (auto simp: char_at_def split: if_splits)
    then have "drop (c + 1) path = CHR ''/'' # drop (c + 2) path"
      by (metis Cons_nth_drop_Suc Suc_eq_plus1 add_2_eq_Suc')
    then show ?thesis
      using 1 True by (subst skip_slashes.simps) simp
  next
    case False
    then have "dropWhile (\<lambda>x. x = CHR ''/'') (drop (c + 1) path) = drop (c + 1) path"
      by (cases "c + 1 < length path") (simp_all add: char_at_def Cons_nth_drop_Suc [symmetric])
    then show ?thesis
      using False by (subst skip_slashes.simps) simp
  qed
qed

lemma find_sep_shift:
  "find_sep path i =
    (case dropWhile (\<lambda>x. \<not> separator x) path of
       [] \<Rightarrow> (- 1, - 1)
     | x # rest \<Rightarrow>
         let n = i + int (length (takeWhile (\<lambda>x. \<not> separator x) path)) in if x = CHR '':'' then (n, - 1) else (- 1, n))"
proof (induction path arbitrary: i)
  case (Cons x xs)
  show ?case
  proof (cases "separator x")
    case True
    then show ?thesis
      by (auto simp: separator_def)
  next
    case False
    then have step: "find_sep (x # xs) i = find_sep xs (i + 1)"
      by (simp add: separator_def)
    show ?thesis
      unfolding step Cons.IH using False by (simp add: Let_def del: dropWhile_eq_Nil_conv split: list.split)
  qed
qed simp

lemma kbind_kret_assoc: "kbind (kbind m f) g = kbind m (\<lambda>x. kbind (f x) g)"
  by (rule ext) (simp add: kbind_def split: kres.splits)

lemma getdevice_split:
  assumes "dropWhile (\<lambda>x. \<not> separator x) path = x # rest" "takeWhile (\<lambda>x. \<not> separator x) path = prefix"
  shows "path = prefix @ x # rest" "separator x" "drop (skip_slashes path (length prefix) + 1) path = dropWhile (\<lambda>x. x = CHR ''/'') rest"
proof -
  show path: "path = prefix @ x # rest"
    using assms takeWhile_dropWhile_id by metis
  show "separator x"
    using assms(1) dropWhile_eq_Cons_conv by metis
  show "drop (skip_slashes path (length prefix) + 1) path = dropWhile (\<lambda>x. x = CHR ''/'') rest"
    unfolding skip_slashes_drop by (simp add: path)
qed

lemma path_scan:
  assumes "dropWhile (\<lambda>x. \<not> separator x) path = x # rest" "takeWhile (\<lambda>x. \<not> separator x) path = prefix"
  shows "find_sep path 0 = (if x = CHR '':'' then (int (length prefix), - 1) else (- 1, int (length prefix)))"
    and "path_spec path =
      (if x = CHR '':'' then (if prefix = [] then From_cwdfs else From_device prefix, dropWhile (\<lambda>x. x = CHR ''/'') rest)
       else if prefix = [] then (From_boot, dropWhile (\<lambda>x. x = CHR ''/'') rest) else (From_cwd, path))"
  unfolding find_sep_shift [of path 0] path_spec_def assms by (simp_all add: Let_def)

lemma kassert_True: "kbind (kassert True) f = f ()"
  by (rule ext) (simp add: kbind_def kassert_def)

lemma kbind_case_option: "kbind (case r of None \<Rightarrow> m | Some x \<Rightarrow> m' x) f = (case r of None \<Rightarrow> kbind m f | Some x \<Rightarrow> kbind (m' x) f)"
  by (cases r) simp_all

lemma getdevice_eq:
  "getdevice V path =
    kbind biglock_held (\<lambda>_. case path_spec path of (st, sub) \<Rightarrow> kbind (start_vnode V st) (\<lambda>v. kret (sub, v)))"
proof (cases "dropWhile (\<lambda>x. \<not> separator x) path")
  case Nil
  have "find_sep path 0 = (- 1, - 1)" "path_spec path = (From_cwd, path)"
    unfolding find_sep_shift [of path 0] path_spec_def Nil by simp_all
  then show ?thesis
    by (simp add: getdevice_def start_vnode_def)
next
  case (Cons x rest)
  define prefix where "prefix = takeWhile (\<lambda>x. \<not> separator x) path"
  note split = getdevice_split [OF Cons prefix_def [symmetric]] and scan = path_scan [OF Cons prefix_def [symmetric]]
  consider (dev) "x = CHR '':''" "prefix \<noteq> []" | (cwdfs) "x = CHR '':''" "prefix = []"
    | (boot) "x = CHR ''/''" "prefix = []" | (cwd) "x = CHR ''/''" "prefix \<noteq> []"
    using split(2) unfolding separator_def by blast
  then show ?thesis
  proof cases
    case dev
    have "take (length prefix) path = prefix"
      by (simp add: split(1))
    with dev show ?thesis
      unfolding getdevice_def scan start_vnode_def using split(3) by simp
  next
    case cwdfs
    with split have "char_at path 0 = CHR '':''" "drop (skip_slashes path 0 + 1) path = dropWhile (\<lambda>x. x = CHR ''/'') rest"
      by (simp_all add: char_at_def)
    with cwdfs show ?thesis
      unfolding getdevice_def scan start_vnode_def by (simp add: kassert_True kbind_kret_assoc kbind_case_option)
  next
    case boot
    with split have "char_at path 0 = CHR ''/''" "drop (skip_slashes path 0 + 1) path = dropWhile (\<lambda>x. x = CHR ''/'') rest"
      by (simp_all add: char_at_def)
    with boot show ?thesis
      unfolding getdevice_def scan start_vnode_def by (simp add: kassert_True kbind_kret_assoc kbind_case_option)
  next
    case cwd
    then show ?thesis
      unfolding getdevice_def scan start_vnode_def by simp
  qed
qed

text \<open>
  C17: the in-place scan of \<^verbatim>\<open>getdevice\<close>, with its two indices and its slash-skipping loops, computes the documented meaning
  of a pathname for every pathname and in every state: the same starting vnode, the same remaining path, the same errors and the same effects. A relative
  path starts at the current directory, \<open>dev:path\<close> at the root of the device, \<open>/path\<close> at the boot file system and \<open>:path\<close> at the root of the
  file system of the current directory.
\<close>

theorem getdevice_meets_path_spec:
  "getdevice V path =
    kbind biglock_held (\<lambda>_. case path_spec path of (st, sub) \<Rightarrow> kbind (start_vnode V st) (\<lambda>v. kret (sub, v)))"
  by (rule getdevice_eq)

section \<open>The calls of the layer\<close>

text \<open>
  The entry points as one function; the result is the vnode that the caller gets, if any. The flags of the two calls that add to the table
  are the outcomes of their allocations.
\<close>

datatype vfs_call =
    Vopen string u32 nat | Vclose nat | Vremove string | Vrename string string | Vlink string string | Vsymlink string string
  | Vreadlink string | Vmkdir string nat | Vrmdir string | Vchdir string | Vgetcwd bool | Vgetcurdir | Vclearcurdir
  | Vlookup string | Vlookparent string nat | Vdecref nat | Vsetbootfs string | Vclearbootfs | Vsync
  | Vadddev bool bool bool bool string nat bool | Vaddfs bool bool bool string nat
  | Vmount string | Vunmount string | Vunmountall

definition no_vnode :: "('w vfs, unit) kfun \<Rightarrow> ('w vfs, nat option) kfun" where
  "no_vnode m = kbind m (\<lambda>_. kret None)"

definition a_vnode :: "('w vfs, nat) kfun \<Rightarrow> ('w vfs, nat option) kfun" where
  "a_vnode m = kbind m (\<lambda>v. kret (Some v))"

fun vfs_do :: "'w vops \<Rightarrow> vfs_call \<Rightarrow> ('w vfs, nat option) kfun" where
  "vfs_do V (Vopen p fl mode) = a_vnode (vfs_open V p fl mode)"
| "vfs_do V (Vclose v) = no_vnode (vfs_close V v)"
| "vfs_do V (Vremove p) = no_vnode (vfs_remove V p)"
| "vfs_do V (Vrename p q) = no_vnode (vfs_rename V p q)"
| "vfs_do V (Vlink p q) = no_vnode (vfs_link V p q)"
| "vfs_do V (Vsymlink c p) = no_vnode (vfs_symlink V c p)"
| "vfs_do V (Vreadlink p) = no_vnode (vfs_readlink V p)"
| "vfs_do V (Vmkdir p mode) = no_vnode (vfs_mkdir V p mode)"
| "vfs_do V (Vrmdir p) = no_vnode (vfs_rmdir V p)"
| "vfs_do V (Vchdir p) = no_vnode (vfs_chdir V p)"
| "vfs_do V (Vgetcwd r) = no_vnode (vfs_getcwd V r)"
| "vfs_do V Vgetcurdir = a_vnode (vfs_getcurdir V)"
| "vfs_do V Vclearcurdir = no_vnode (vfs_clearcurdir V)"
| "vfs_do V (Vlookup p) = a_vnode (vfs_lookup V p)"
| "vfs_do V (Vlookparent p n) = a_vnode (kbind (vfs_lookparent V p n) (\<lambda>(v, _). kret v))"
| "vfs_do V (Vdecref v) = no_vnode (on_world (vop_decref V v))"
| "vfs_do V (Vsetbootfs n) = no_vnode (vfs_setbootfs V n)"
| "vfs_do V Vclearbootfs = no_vnode (vfs_clearbootfs V)"
| "vfs_do V Vsync = no_vnode (vfs_sync V)"
| "vfs_do V (Vadddev a b c d n dev m) = no_vnode (vfs_adddev V a b c d n dev m)"
| "vfs_do V (Vaddfs a c d n f) = no_vnode (vfs_addfs V a c d n f)"
| "vfs_do V (Vmount n) = no_vnode (vfs_mount V n)"
| "vfs_do V (Vunmount n) = no_vnode (vfs_unmount V n)"
| "vfs_do V Vunmountall = no_vnode (vfs_unmountall V)"

section \<open>The table of devices is well formed\<close>

definition kd_names :: "knowndev \<Rightarrow> string set" where
  "kd_names kd = insert (kd_name kd) (set_option (kd_rawname kd))"

definition kd_wf :: "knowndev \<Rightarrow> bool" where
  "kd_wf kd \<longleftrightarrow> (kd_fs kd = None \<longrightarrow> kd_device kd \<noteq> None) \<and>
    (\<forall>r. kd_rawname kd = Some r \<longrightarrow> r = mkrawname (kd_name kd) \<and> kd_device kd \<noteq> None)"

definition table_wf :: "knowndev list \<Rightarrow> bool" where
  "table_wf ds \<longleftrightarrow> (\<forall>kd \<in> set ds. kd_wf kd) \<and>
    (\<forall>i < length ds. \<forall>j < length ds. i \<noteq> j \<longrightarrow> kd_names (ds ! i) \<inter> kd_names (ds ! j) = {})"

text \<open>What holds after a run that returns; a panic satisfies everything.\<close>

definition wlp :: "('s, 'a) kfun \<Rightarrow> ('a \<Rightarrow> 's \<Rightarrow> bool) \<Rightarrow> (errno \<Rightarrow> 's \<Rightarrow> bool) \<Rightarrow> 's \<Rightarrow> bool" where
  "wlp m Q E s = (case m s of Ok x s' \<Rightarrow> Q x s' | Err e s' \<Rightarrow> E e s' | Panic \<Rightarrow> True)"

named_theorems wlp_simps "weakest liberal preconditions"

lemma wlp_kret [wlp_simps]: "wlp (kret x) Q E s = Q x s"
  by (simp add: wlp_def kret_def)

lemma wlp_kerr [wlp_simps]: "wlp (kerr e) Q E s = E e s"
  by (simp add: wlp_def kerr_def)

lemma wlp_kpanic [wlp_simps]: "wlp kpanic Q E s"
  by (simp add: wlp_def kpanic_def)

lemma wlp_kassert [wlp_simps]: "wlp (kassert b) Q E s = (b \<longrightarrow> Q () s)"
  by (simp add: wlp_def kassert_def)

lemma wlp_kget [wlp_simps]: "wlp (kget f) Q E s = Q (f s) s"
  by (simp add: wlp_def kget_def)

lemma wlp_kmod [wlp_simps]: "wlp (kmod f) Q E s = Q () (f s)"
  by (simp add: wlp_def kmod_def)

lemma wlp_kbind [wlp_simps]: "wlp (kbind m f) Q E s = wlp m (\<lambda>x. wlp (f x) Q E) E s"
  by (simp add: wlp_def kbind_def split: kres.splits)

lemma wlp_ktry [wlp_simps]: "wlp (ktry m) Q E s = wlp m (\<lambda>x. Q (Inr x)) (\<lambda>e. Q (Inl e)) s"
  by (simp add: wlp_def ktry_def split: kres.splits)

lemma wlp_mono:
  assumes "wlp m Q E s" "\<And>x s'. Q x s' \<Longrightarrow> Q' x s'" "\<And>e s'. E e s' \<Longrightarrow> E' e s'"
  shows "wlp m Q' E' s"
  using assms by (auto simp: wlp_def split: kres.splits)

text \<open>A function that does not touch the table.\<close>

definition same_table :: "('w vfs, 'a) kfun \<Rightarrow> bool" where
  "same_table m \<longleftrightarrow> (\<forall>s. wlp m (\<lambda>_ s'. knowndevs s' = knowndevs s) (\<lambda>_ s'. knowndevs s' = knowndevs s) s)"

named_theorems st_intros "functions that do not touch the table"

lemma st_basic [st_intros]:
  "same_table (kret x)" "same_table (kerr e)" "same_table kpanic" "same_table (kassert b)" "same_table (kget f)"
  "same_table (on_world w)"
  by (auto simp: same_table_def wlp_simps, simp add: wlp_def on_world_def split: kres.splits)

lemma st_kmod [st_intros]: "(\<And>s. knowndevs (f s) = knowndevs s) \<Longrightarrow> same_table (kmod f)"
  by (simp add: same_table_def wlp_simps)

lemma st_wlp:
  assumes "same_table m" "\<And>x s'. knowndevs s' = knowndevs s \<Longrightarrow> Q x s'" "\<And>e s'. knowndevs s' = knowndevs s \<Longrightarrow> E e s'"
  shows "wlp m Q E s"
proof -
  have "wlp m (\<lambda>_ s'. knowndevs s' = knowndevs s) (\<lambda>_ s'. knowndevs s' = knowndevs s) s"
    using assms(1) unfolding same_table_def by blast
  then show ?thesis
    by (rule wlp_mono) (fact assms(2,3))+
qed

lemma st_kbind [st_intros]: "same_table m \<Longrightarrow> (\<And>x. same_table (f x)) \<Longrightarrow> same_table (kbind m f)"
proof -
  assume m: "same_table m" and f: "\<And>x. same_table (f x)"
  show "same_table (kbind m f)"
    unfolding same_table_def wlp_kbind
    by (intro allI st_wlp [OF m] st_wlp [OF f]) simp_all
qed

lemma st_ktry [st_intros]: "same_table m \<Longrightarrow> same_table (ktry m)"
  by (simp add: same_table_def wlp_simps)

lemma st_locked [st_intros]: "same_table m \<Longrightarrow> same_table (locked m)"
  unfolding locked_def biglock_acquire_def biglock_release_def by (intro st_intros) (auto intro!: st_intros split: sum.split)

lemma st_case [st_intros]:
  "same_table m \<Longrightarrow> (\<And>x. same_table (f x)) \<Longrightarrow> same_table (case r of None \<Rightarrow> m | Some x \<Rightarrow> f x)"
  "(\<And>e. same_table (g e)) \<Longrightarrow> (\<And>x. same_table (f x)) \<Longrightarrow> same_table (case q of Inl e \<Rightarrow> g e | Inr x \<Rightarrow> f x)"
  "(\<And>x y. same_table (h x y)) \<Longrightarrow> same_table (case p of (x, y) \<Rightarrow> h x y)"
  "same_table m \<Longrightarrow> same_table n \<Longrightarrow> same_table (if b then m else n)"
  by (auto split: option.split sum.split prod.split)

lemma st_loops [st_intros]: "same_table (vfs_sync_all V ds)" "same_table (vfs_getroot_loop V n ds)"
  by (induction ds) (auto intro!: st_intros simp: Let_def)

definition keeps_wf :: "('w vfs, 'a) kfun \<Rightarrow> bool" where
  "keeps_wf m \<longleftrightarrow> (\<forall>s. table_wf (knowndevs s) \<longrightarrow> wlp m (\<lambda>_ s'. table_wf (knowndevs s')) (\<lambda>_ s'. table_wf (knowndevs s')) s)"

lemma keeps_wf_same: "same_table m \<Longrightarrow> keeps_wf m"
  unfolding keeps_wf_def by (auto intro: st_wlp)

lemma keeps_wfD:
  assumes "keeps_wf m" "table_wf (knowndevs s)" "\<And>x s'. table_wf (knowndevs s') \<Longrightarrow> Q x s'" "\<And>e s'. table_wf (knowndevs s') \<Longrightarrow> E e s'"
  shows "wlp m Q E s"
proof -
  have "wlp m (\<lambda>_ s'. table_wf (knowndevs s')) (\<lambda>_ s'. table_wf (knowndevs s')) s"
    using assms(1,2) unfolding keeps_wf_def by blast
  then show ?thesis
    by (rule wlp_mono) (fact assms(3,4))+
qed

lemma keeps_wf_kbind: "keeps_wf m \<Longrightarrow> (\<And>x. keeps_wf (f x)) \<Longrightarrow> keeps_wf (kbind m f)"
proof -
  assume m: "keeps_wf m" and f: "\<And>x. keeps_wf (f x)"
  show "keeps_wf (kbind m f)"
    unfolding keeps_wf_def wlp_kbind by (intro allI impI keeps_wfD [OF m] keeps_wfD [OF f])
qed

lemma keeps_wf_locked: "keeps_wf m \<Longrightarrow> keeps_wf (locked m)"
proof -
  assume m: "keeps_wf m"
  have "keeps_wf (ktry m)"
    using m by (simp add: keeps_wf_def wlp_simps)
  moreover have "keeps_wf biglock_acquire" "keeps_wf biglock_release" "\<And>r. keeps_wf (case r of Inl e \<Rightarrow> kerr e | Inr x \<Rightarrow> kret x)"
    unfolding biglock_acquire_def biglock_release_def by (auto intro!: keeps_wf_same st_intros)
  ultimately show ?thesis
    unfolding locked_def by (intro keeps_wf_kbind)
qed

lemma keeps_wf_if: "keeps_wf m \<Longrightarrow> keeps_wf n \<Longrightarrow> keeps_wf (if b then m else n)"
  by simp

lemma keeps_wf_option: "keeps_wf m \<Longrightarrow> (\<And>x. keeps_wf (f x)) \<Longrightarrow> keeps_wf (case r of None \<Rightarrow> m | Some x \<Rightarrow> f x)"
  by (cases r) simp_all

lemmas kw_rules = keeps_wf_locked keeps_wf_if keeps_wf_option keeps_wf_kbind keeps_wf_same

lemma table_wf_update:
  assumes "table_wf ds" "f \<noteq> None \<or> kd_rawname (ds ! i) \<noteq> None"
  shows "table_wf (ds[i := (ds ! i)\<lparr>kd_fs := f\<rparr>])"
proof (cases "i < length ds")
  case True
  have names: "kd_names (kd\<lparr>kd_fs := f\<rparr>) = kd_names kd" for kd
    by (simp add: kd_names_def)
  have "kd_wf (ds ! i)"
    using assms(1) True by (simp add: table_wf_def)
  then have "kd_wf ((ds ! i)\<lparr>kd_fs := f\<rparr>)"
    using assms(2) by (auto simp: kd_wf_def)
  moreover have "kd_names (ds[i := (ds ! i)\<lparr>kd_fs := f\<rparr>] ! j) = kd_names (ds ! j)" if "j < length ds" for j
    using that True names by (simp add: nth_list_update)
  ultimately show ?thesis
    using assms(1) unfolding table_wf_def by (auto dest!: subsetD [OF set_update_subset_insert])
qed (use assms in \<open>simp add: list_update_beyond\<close>)

lemma badnames_loop_names:
  assumes "\<not> badnames_loop V w (Some n) r v ds" "kd \<in> set ds"
  shows "n \<notin> kd_names kd" "\<And>r'. r = Some r' \<Longrightarrow> r' \<notin> kd_names kd"
  using assms by (induction ds) (auto simp: samestring3_def samestring_def kd_names_def elem_set)

lemma table_wf_add:
  assumes "table_wf ds" "\<not> badnames_loop V w (Some (kd_name kd)) (kd_rawname kd) v ds" "kd_wf kd"
  shows "table_wf (ds @ [kd])"
proof -
  have new: "kd_names kd \<inter> kd_names kd' = {}" if "kd' \<in> set ds" for kd'
    using badnames_loop_names [OF assms(2) that] by (auto simp: kd_names_def elem_set)
  have old: "kd_names (ds ! i) \<inter> kd_names (ds ! j) = {}" if "i < length ds" "j < length ds" "i \<noteq> j" for i j
    using assms(1) that by (simp add: table_wf_def)
  have "kd_names ((ds @ [kd]) ! i) \<inter> kd_names ((ds @ [kd]) ! j) = {}" if "i < Suc (length ds)" "j < Suc (length ds)" "i \<noteq> j" for i j
    using that old [of i j] new [OF nth_mem, of i] new [OF nth_mem, of j]
    by (cases "i = length ds"; cases "j = length ds") (simp_all add: nth_append Int_commute)
  then show ?thesis
    using assms(1,3) by (auto simp: table_wf_def)
qed

lemma set_kd_fs_wf:
  "table_wf (knowndevs s) \<Longrightarrow> f \<noteq> None \<or> kd_rawname (knowndevs s ! i) \<noteq> None \<Longrightarrow>
    wlp (set_kd_fs i f) (\<lambda>_ s'. table_wf (knowndevs s')) E s"
  by (simp add: set_kd_fs_def wlp_simps table_wf_update)

lemma st_findmount: "same_table (findmount n)"
  unfolding findmount_def biglock_held_def by (intro st_intros)

lemma vfs_doadd_entry_wf:
  assumes "\<And>v. kd_wf \<lparr>kd_name = name, kd_rawname = raw, kd_device = dev, kd_vnode = v, kd_fs = fs\<rparr>"
  shows "keeps_wf (vfs_doadd_entry V kd_ok add_ok name raw dev fs v)"
proof -
  let ?kd = "\<lambda>v. \<lparr>kd_name = name, kd_rawname = raw, kd_device = dev, kd_vnode = v, kd_fs = fs\<rparr>"
  have add: "table_wf (ds @ [?kd v])" if "table_wf ds" "\<not> badnames_loop V w (Some name) raw vol ds" for ds v vol w
    using table_wf_add [OF that(1) _ assms [of v], of V w vol] that(2) by simp
  have num: "keeps_wf (case dev of None \<Rightarrow> kret () | Some d \<Rightarrow> on_world (dev_setnumber V d k))" for k
    by (intro keeps_wf_same st_intros)
  have tail: "keeps_wf (kbind (badnames V (Some name) raw vol) (\<lambda>bad.
      if bad then kerr EEXIST else if \<not> add_ok then kerr ENOMEM
      else kbind (kget (\<lambda>s. length (knowndevs s))) (\<lambda>index.
        kbind (kmod (\<lambda>s. s\<lparr>knowndevs := knowndevs s @ [?kd v]\<rparr>)) (\<lambda>_.
        case dev of None \<Rightarrow> kret () | Some d \<Rightarrow> on_world (dev_setnumber V d (Suc index))))))" for v vol
    using num add unfolding keeps_wf_def badnames_def biglock_held_def by (auto simp: wlp_simps)
  show ?thesis
    unfolding vfs_doadd_entry_def by (rule tail kw_rules st_basic)+
qed

lemma vfs_doadd_wf:
  assumes "mountable \<longrightarrow> dev \<noteq> None" "fs = None \<longrightarrow> dev \<noteq> None"
  shows "keeps_wf (vfs_doadd V name_ok raw_ok kd_ok add_ok dname mountable dev fs)"
proof -
  have entry: "keeps_wf (vfs_doadd_entry V kd_ok add_ok dname (if mountable then Some (mkrawname dname) else None) dev fs v)" for v
    by (rule vfs_doadd_entry_wf) (use assms in \<open>auto simp: kd_wf_def\<close>)
  show ?thesis
    unfolding vfs_doadd_def Let_def by (rule entry kw_rules st_basic)+
qed

lemma vfs_mount_wf: "keeps_wf (vfs_mount V n)"
proof -
  have set: "keeps_wf (set_kd_fs i (Some f))" for i f
    by (simp add: keeps_wf_def set_kd_fs_wf)
  show ?thesis
    unfolding vfs_mount_def by (rule set kw_rules st_findmount st_basic)+
qed

lemma vfs_unmount_wf: "keeps_wf (vfs_unmount V n)"
proof -
  have "wlp (case kd_fs (knowndevs s ! i) of None \<Rightarrow> kerr EINVAL
      | Some f \<Rightarrow> kbind (kassert (kd_rawname (knowndevs s ! i) \<noteq> None)) (\<lambda>_. kbind (kassert (kd_device (knowndevs s ! i) \<noteq> None)) (\<lambda>_.
          kbind (on_world (fsop_sync V f)) (\<lambda>_. kbind (on_world (fsop_unmount V f)) (\<lambda>_. set_kd_fs i None)))))
      (\<lambda>_ s'. table_wf (knowndevs s')) (\<lambda>_ s'. table_wf (knowndevs s')) s" if "table_wf (knowndevs s)" for s i
    using that by (auto simp: wlp_simps split: option.split intro!: st_wlp [OF st_basic(6)] set_kd_fs_wf)
  then have "keeps_wf (kbind (kget (\<lambda>s. knowndevs s ! i)) (\<lambda>kd. case kd_fs kd of None \<Rightarrow> kerr EINVAL
      | Some f \<Rightarrow> kbind (kassert (kd_rawname kd \<noteq> None)) (\<lambda>_. kbind (kassert (kd_device kd \<noteq> None)) (\<lambda>_.
          kbind (on_world (fsop_sync V f)) (\<lambda>_. kbind (on_world (fsop_unmount V f)) (\<lambda>_. set_kd_fs i None))))))" for i
    by (simp add: keeps_wf_def wlp_kbind wlp_kget)
  then show ?thesis
    unfolding vfs_unmount_def by (intro keeps_wf_locked keeps_wf_kbind [OF keeps_wf_same [OF st_findmount]])
qed

lemma vfs_unmount_loop_wf: "keeps_wf (vfs_unmount_loop V ks)"
proof (induction ks)
  case (Cons i ks)
  let ?P = "\<lambda>_ s'. table_wf (knowndevs s')"
  have IH: "wlp (vfs_unmount_loop V ks) ?P ?P s" if "table_wf (knowndevs s)" for s
    using Cons.IH that unfolding keeps_wf_def by blast
  have drop: "wlp (set_kd_fs i None) (\<lambda>_. wlp (vfs_unmount_loop V ks) ?P ?P) ?P s"
    if "table_wf (knowndevs s)" "kd_rawname (knowndevs s ! i) = Some r" for s r
    using that IH by (simp add: set_kd_fs_def wlp_simps table_wf_update)
  have "wlp (vfs_unmount_loop V (i # ks)) ?P ?P s" if wf: "table_wf (knowndevs s)" for s
    using wf IH drop
    by (auto simp: wlp_simps split: option.split sum.split intro!: st_wlp [OF st_basic(6)])
  then show ?case
    unfolding keeps_wf_def by blast
qed (intro kw_rules st_basic, simp add: st_basic)

lemma vfs_unmountall_wf: "keeps_wf (vfs_unmountall V)"
  unfolding vfs_unmountall_def by (rule vfs_unmount_loop_wf kw_rules st_basic)+

lemma st_curdir [st_intros]:
  "same_table (vfs_getcurdir V)" "same_table (drop_old V old)" "same_table biglock_held"
  unfolding vfs_getcurdir_def drop_old_def biglock_held_def by (intro st_intros)+

lemma st_setcurdir [st_intros]: "same_table (vfs_setcurdir V dir)" "same_table (vfs_clearcurdir V)" "same_table (change_bootfs V vn)"
  unfolding vfs_setcurdir_def vfs_clearcurdir_def change_bootfs_def by (intro st_intros, simp)+

lemma st_start [st_intros]: "same_table (start_vnode V st)" "same_table (vfs_getdevname f)"
  unfolding start_vnode_def vfs_getdevname_def vfs_getroot_def by (auto intro!: st_intros split: start.split)

lemma st_getdevice [st_intros]: "same_table (getdevice V path)"
  unfolding getdevice_def Let_def vfs_getroot_def by (intro st_intros)

lemma st_lookups [st_intros]: "same_table (vfs_lookparent V path n)" "same_table (vfs_lookup V path)"
  unfolding vfs_lookparent_def vfs_lookup_def by (intro st_intros)+

lemma st_in_parent [st_intros]: "same_table (in_parent V path m)" "same_table (vfs_chdir V path)"
  unfolding in_parent_def vfs_chdir_def by (intro st_intros)+

lemma st_path_ops [st_intros]:
  "same_table (vfs_open V p fl mode)" "same_table (vfs_close V v)" "same_table (vfs_remove V p)" "same_table (vfs_rename V p q)"
  "same_table (vfs_link V p q)" "same_table (vfs_symlink V q p)" "same_table (vfs_readlink V p)" "same_table (vfs_mkdir V p mode)"
  "same_table (vfs_rmdir V p)" "same_table (vfs_getcwd V b)" "same_table (vfs_setbootfs V p)"
  "same_table (vfs_clearbootfs V)" "same_table (vfs_sync V)"
  unfolding vfs_open_def vfs_close_def vfs_remove_def vfs_rename_def vfs_link_def vfs_symlink_def vfs_readlink_def
    vfs_mkdir_def vfs_rmdir_def vfs_getcwd_def vfs_setbootfs_def vfs_clearbootfs_def vfs_sync_def Let_def
  by (intro st_intros)+

text \<open>
  C18: the table of devices is well typed and its names are unambiguous, and every call of the layer keeps it so, whatever the vnode operations behind it do and
  whether the call succeeds or fails: an entry without a file system has a device, only entries with a device are mountable, the raw name of an entry
  is its name followed by \<open>raw\<close>, and no name of an entry is a name of another one.
\<close>

theorem vfs_table_well_formed:
  assumes "table_wf (knowndevs s)"
  shows "case vfs_do V c s of Ok r s' \<Rightarrow> table_wf (knowndevs s') | Err e s' \<Rightarrow> table_wf (knowndevs s') | Panic \<Rightarrow> True"
proof -
  have "keeps_wf (vfs_do V c)"
  proof (cases c)
    case (Vadddev a b k d n dev m)
    then show ?thesis
      by (simp add: no_vnode_def vfs_adddev_def keeps_wf_kbind vfs_doadd_wf keeps_wf_same st_basic)
  next
    case (Vaddfs a k d n f)
    then show ?thesis
      by (simp add: no_vnode_def vfs_addfs_def keeps_wf_kbind vfs_doadd_wf keeps_wf_same st_basic)
  qed (auto simp: no_vnode_def a_vnode_def keeps_wf_same st_basic split_def
      intro!: keeps_wf_kbind keeps_wf_same [OF st_in_parent(2)] keeps_wf_same [OF st_curdir(1)] keeps_wf_same [OF st_setcurdir(2)]
        keeps_wf_same [OF st_lookups(1)] keeps_wf_same [OF st_lookups(2)] st_path_ops [THEN keeps_wf_same]
        vfs_mount_wf vfs_unmount_wf vfs_unmountall_wf)
  then show ?thesis
    using assms unfolding keeps_wf_def wlp_def by blast
qed

definition demo_table :: "knowndev list" where
  "demo_table =
    [\<lparr>kd_name = ''null'', kd_rawname = None, kd_device = Some 0, kd_vnode = 0, kd_fs = None\<rparr>,
     \<lparr>kd_name = ''lhd0'', kd_rawname = Some ''lhd0raw'', kd_device = Some 1, kd_vnode = 1, kd_fs = None\<rparr>,
     \<lparr>kd_name = ''emu0'', kd_rawname = None, kd_device = None, kd_vnode = 2, kd_fs = Some 0\<rparr>]"

definition demo_vfs :: "unit vfs" where
  "demo_vfs = \<lparr>knowndevs = demo_table, vfs_depth = 1, p_cwd = None, bootfs_vnode = None, vfs_world = ()\<rparr>"

lemma demo_table_wf: "table_wf demo_table"
  by (auto simp: table_wf_def demo_table_def kd_wf_def mkrawname_def kd_names_def less_Suc_eq)

theorem vfs_table_well_formed_witness:
  "table_wf (knowndevs demo_vfs) \<and>
   (\<forall>V c. case vfs_do V c demo_vfs of Ok r s' \<Rightarrow> table_wf (knowndevs s') | Err e s' \<Rightarrow> table_wf (knowndevs s') | Panic \<Rightarrow> True)"
proof -
  have "table_wf (knowndevs demo_vfs)"
    by (simp add: demo_vfs_def demo_table_wf)
  then show ?thesis
    using vfs_table_well_formed [of demo_vfs] by blast
qed

section \<open>Names of devices\<close>

definition the_device :: "'w vops \<Rightarrow> knowndev \<Rightarrow> ('w vfs, nat) kfun" where
  "the_device V kd = kbind (on_world (vop_incref V (kd_vnode kd))) (\<lambda>_. kret (kd_vnode kd))"

definition volume_named :: "'w vops \<Rightarrow> 'w \<Rightarrow> string \<Rightarrow> knowndev \<Rightarrow> bool" where
  "volume_named V w n kd \<longleftrightarrow> (\<exists>f. kd_fs kd = Some f \<and> fsop_getvolname V f w = Some n)"

lemma getroot_skip:
  assumes "n \<notin> kd_names kd" "\<not> volume_named V (vfs_world s) n kd"
  shows "vfs_getroot_loop V n (kd # ds) s = vfs_getroot_loop V n ds s"
  using assms by (auto simp: kd_names_def volume_named_def kget_def kbind_def Let_def elem_set split: option.split)

lemma getroot_hit:
  assumes "n \<in> kd_names kd \<or> volume_named V (vfs_world s) n kd" "kd_wf kd"
  shows "vfs_getroot_loop V n (kd # ds) s =
    (case kd_fs kd of
       Some f \<Rightarrow> if kd_name kd = n \<or> volume_named V (vfs_world s) n kd then on_world (fsop_getroot V f) s else the_device V kd s
     | None \<Rightarrow> if kd_rawname kd \<noteq> None \<and> kd_name kd = n then kerr ENXIO s else the_device V kd s)"
  using assms
  by (auto simp: kd_names_def kd_wf_def volume_named_def the_device_def kget_def kassert_def kbind_def Let_def elem_set split: option.split)

lemma getroot_prefix:
  assumes "\<forall>kd \<in> set ds. n \<notin> kd_names kd \<and> \<not> volume_named V (vfs_world s) n kd"
  shows "vfs_getroot_loop V n (ds @ ds') s = vfs_getroot_loop V n ds' s"
  using assms by (induction ds) (simp_all add: getroot_skip del: vfs_getroot_loop.simps)

lemma table_wf_names_unique:
  assumes "table_wf (ds @ kd # ds')" "n \<in> kd_names kd" "kd' \<in> set ds"
  shows "n \<notin> kd_names kd'"
proof -
  obtain i where i: "i < length ds" "ds ! i = kd'"
    using assms(3) by (auto simp: in_set_conv_nth)
  then have "kd_names ((ds @ kd # ds') ! i) \<inter> kd_names ((ds @ kd # ds') ! length ds) = {}"
    using assms(1) unfolding table_wf_def by (metis length_append length_greater_0_conv less_add_same_cancel1 list.distinct(1) nat_neq_iff trans_less_add1)
  then show ?thesis
    using i assms(2) by (auto simp: nth_append)
qed



text \<open>A name of a boot file system that has a colon is refused wherever the colon is, also at the end.\<close>

lemma vfs_setbootfs_colon:
  assumes "CHR '':'' \<in> set (take (NAME_MAX - 1) fsname)"
  shows "vfs_setbootfs V fsname s = Err EINVAL s"
proof -
  have "dropWhile (\<lambda>x. x \<noteq> CHR '':'') (take (NAME_MAX - 1) fsname) \<noteq> []"
    using assms by (simp only: dropWhile_eq_Nil_conv) blast
  then show ?thesis
    by (simp add: vfs_setbootfs_def locked_def biglock_acquire_def biglock_release_def kfun_defs Let_def)
qed

end
