(* ===== verification/Vfs_Refs.thy ===== *)
theory Vfs_Refs
  imports Vfs
begin

text \<open>
  The contract between the virtual file system layer and the vnodes and file systems below it, and what the layer makes of it: no call panics, and the
  references and open counts that the calls take are the ones they give settled or hand over.

  The contract speaks of a view of the state below: the references and the open count of each vnode, the vnodes that exist
  as long as their device (\<open>g_pin\<close>), the file systems that are mounted (\<open>g_live\<close>) and the states that can occur (\<open>g_good\<close>). For a device vnode the references
  are those beyond the first, which its creation made and nobody gives settled.
\<close>

section \<open>The contract\<close>

record 'w vview =
  g_good :: "'w \<Rightarrow> bool"
  g_refs :: "'w \<Rightarrow> nat \<Rightarrow> nat"
  g_opens :: "'w \<Rightarrow> nat \<Rightarrow> nat"
  g_pin :: "'w \<Rightarrow> nat \<Rightarrow> bool"
  g_live :: "'w \<Rightarrow> nat \<Rightarrow> bool"

definition plus1 :: "(nat \<Rightarrow> nat) \<Rightarrow> nat \<Rightarrow> nat \<Rightarrow> nat" where
  "plus1 x v = x(v := Suc (x v))"

definition minus1 :: "(nat \<Rightarrow> nat) \<Rightarrow> nat \<Rightarrow> nat \<Rightarrow> nat" where
  "minus1 x v = x(v := x v - 1)"

definition usable :: "'w vview \<Rightarrow> 'w \<Rightarrow> nat \<Rightarrow> bool" where
  "usable G w v \<longleftrightarrow> 0 < g_refs G w v \<or> g_pin G w v"

text \<open>From \<open>w\<close> to \<open>w'\<close> the vnodes in use keep their file system, and devices and file systems stay; the counts become \<open>r\<close> and \<open>n\<close>.\<close>

definition becomes :: "'w vops \<Rightarrow> 'w vview \<Rightarrow> (nat \<Rightarrow> nat) \<Rightarrow> (nat \<Rightarrow> nat) \<Rightarrow> 'w \<Rightarrow> 'w \<Rightarrow> bool" where
  "becomes V G r n w w' \<longleftrightarrow> g_good G w' \<and> g_refs G w' = r \<and> g_opens G w' = n \<and>
    (\<forall>v. g_pin G w v \<longrightarrow> g_pin G w' v) \<and> (\<forall>f. g_live G w f \<longrightarrow> g_live G w' f) \<and>
    (\<forall>v. 0 < g_refs G w v \<and> 0 < g_refs G w' v \<longrightarrow> vn_fs V v w' = vn_fs V v w)"

abbreviation stays :: "'w vops \<Rightarrow> 'w vview \<Rightarrow> 'w \<Rightarrow> 'w \<Rightarrow> bool" where
  "stays V G w \<equiv> becomes V G (g_refs G w) (g_opens G w) w"

abbreviation gains :: "'w vops \<Rightarrow> 'w vview \<Rightarrow> nat \<Rightarrow> 'w \<Rightarrow> 'w \<Rightarrow> bool" where
  "gains V G v w \<equiv> becomes V G (plus1 (g_refs G w) v) (g_opens G w) w"

text \<open>The operations that return nothing and leave the counts alone.\<close>

inductive plain_op :: "'w vops \<Rightarrow> 'w vview \<Rightarrow> 'w \<Rightarrow> ('w, unit) kfun \<Rightarrow> bool" for V G w where
  "usable G w v \<Longrightarrow> plain_op V G w (vop_open V v fl)"
| "usable G w v \<Longrightarrow> plain_op V G w (vop_truncate V v len)"
| "usable G w v \<Longrightarrow> plain_op V G w (vop_readlink V v)"
| "usable G w v \<Longrightarrow> plain_op V G w (vop_namefile V v)"
| "usable G w v \<Longrightarrow> plain_op V G w (vop_symlink V v n c)"
| "usable G w v \<Longrightarrow> plain_op V G w (vop_mkdir V v n m)"
| "usable G w v \<Longrightarrow> usable G w u \<Longrightarrow> plain_op V G w (vop_link V v n u)"
| "usable G w v \<Longrightarrow> plain_op V G w (vop_remove V v n)"
| "usable G w v \<Longrightarrow> plain_op V G w (vop_rmdir V v n)"
| "usable G w v \<Longrightarrow> usable G w u \<Longrightarrow> plain_op V G w (vop_rename V v n u n')"
| "g_live G w f \<Longrightarrow> plain_op V G w (fsop_sync V f)"
| "plain_op V G w (dev_setnumber V d k)"
| "plain_op V G w (uio_put V t)"

locale vnode_layer =
  fixes V :: "'w vops" and G :: "'w vview"
  assumes pinned: "g_good G w \<Longrightarrow> g_pin G w v \<Longrightarrow> vn_fs V v w = None"
    and plain: "g_good G w \<Longrightarrow> plain_op V G w m \<Longrightarrow> wp m (\<lambda>_. stays V G w) (\<lambda>_. stays V G w) w"
    and gettype: "g_good G w \<Longrightarrow> usable G w v \<Longrightarrow>
      wp (vop_gettype V v) (\<lambda>t w'. stays V G w w' \<and> (t = S_IFDIR \<longrightarrow> vn_fs V v w \<noteq> None)) (\<lambda>_. stays V G w) w"
    and incref: "g_good G w \<Longrightarrow> usable G w v \<Longrightarrow> wp (vop_incref V v) (\<lambda>_. gains V G v w) (\<lambda>_ _. False) w"
    and decref: "g_good G w \<Longrightarrow> g_opens G w v < g_refs G w v \<Longrightarrow>
      wp (vop_decref V v) (\<lambda>_. becomes V G (minus1 (g_refs G w) v) (g_opens G w) w) (\<lambda>_ _. False) w"
    and incopen: "g_good G w \<Longrightarrow> g_opens G w v < g_refs G w v \<Longrightarrow>
      wp (vop_incopen V v) (\<lambda>_. becomes V G (g_refs G w) (plus1 (g_opens G w) v) w) (\<lambda>_ _. False) w"
    and decopen: "g_good G w \<Longrightarrow> 0 < g_opens G w v \<Longrightarrow> g_opens G w v \<le> g_refs G w v \<Longrightarrow>
      wp (vop_decopen V v) (\<lambda>_. becomes V G (g_refs G w) (minus1 (g_opens G w) v) w) (\<lambda>_ _. False) w"
    and lookup: "g_good G w \<Longrightarrow> usable G w v \<Longrightarrow>
      wp (vop_lookup V v p) (\<lambda>u w'. gains V G u w w' \<and> vn_fs V u w' = vn_fs V v w) (\<lambda>_. stays V G w) w"
    and creat: "g_good G w \<Longrightarrow> usable G w v \<Longrightarrow>
      wp (vop_creat V v n ex mode) (\<lambda>u w'. gains V G u w w' \<and> vn_fs V u w' = vn_fs V v w) (\<lambda>_. stays V G w) w"
    and lookparent: "g_good G w \<Longrightarrow> usable G w v \<Longrightarrow>
      wp (vop_lookparent V v p len) (\<lambda>r w'. gains V G (fst r) w w' \<and> vn_fs V (fst r) w' = vn_fs V v w) (\<lambda>_. stays V G w) w"
    and getroot: "g_good G w \<Longrightarrow> g_live G w f \<Longrightarrow>
      wp (fsop_getroot V f) (\<lambda>u w'. gains V G u w w' \<and> vn_fs V u w' = Some f) (\<lambda>_ _. False) w"
    and unmount: "g_good G w \<Longrightarrow> g_live G w f \<Longrightarrow>
      wp (fsop_unmount V f)
        (\<lambda>_ w'. becomes V (G\<lparr>g_live := \<lambda>w g. g \<noteq> f \<and> g_live G w g\<rparr>) (g_refs G w) (g_opens G w) w w' \<and>
          (\<forall>v. 0 < g_refs G w v \<longrightarrow> vn_fs V v w \<noteq> Some f))
        (\<lambda>_. stays V G w) w"
    and mount: "g_good G w \<Longrightarrow> wp (mountfunc V d) (\<lambda>f w'. stays V G w w' \<and> \<not> g_live G w f \<and> g_live G w' f) (\<lambda>_. stays V G w) w"
    and create_vnode: "g_good G w \<Longrightarrow>
      wp (dev_create_vnode V dev)
        (\<lambda>r w'. stays V G w w' \<and> (\<forall>v. r = Some v \<longrightarrow> \<not> usable G w v \<and> (dev \<noteq> None \<longrightarrow> g_pin G w' v) \<and>
          wp (dev_free_vnode V v) (\<lambda>_. becomes V (G\<lparr>g_pin := \<lambda>w u. u \<noteq> v \<and> g_pin G w u\<rparr>) (g_refs G w') (g_opens G w') w') (\<lambda>_ _. False) w'))
        (\<lambda>_ _. False) w"

section \<open>The invariant\<close>

definition holds :: "nat option \<Rightarrow> nat \<Rightarrow> nat" where
  "holds p v = (if p = Some v then 1 else 0)"

text \<open>
  The references of a vnode are the ones of the current directory and of the boot file system, one for each time it is open, and those in the
  hands of callers (\<open>x\<close>).
\<close>

definition vfs_inv :: "'w vops \<Rightarrow> 'w vview \<Rightarrow> (nat \<Rightarrow> nat) \<Rightarrow> (nat \<Rightarrow> nat) \<Rightarrow> 'w vfs \<Rightarrow> bool" where
  "vfs_inv V G x n s \<longleftrightarrow> g_good G (vfs_world s) \<and> g_opens G (vfs_world s) = n \<and>
    (\<forall>v. g_refs G (vfs_world s) v = holds (p_cwd s) v + holds (bootfs_vnode s) v + n v + x v) \<and>
    (\<forall>v f. 0 < g_refs G (vfs_world s) v \<longrightarrow> vn_fs V v (vfs_world s) = Some f \<longrightarrow> (\<exists>kd \<in> set (knowndevs s). kd_fs kd = Some f)) \<and>
    (\<forall>v. p_cwd s = Some v \<longrightarrow> vn_fs V v (vfs_world s) \<noteq> None) \<and>
    (\<forall>kd \<in> set (knowndevs s). kd_wf kd \<and> (kd_device kd \<noteq> None \<longrightarrow> g_pin G (vfs_world s) (kd_vnode kd)) \<and> (\<forall>f. kd_fs kd = Some f \<longrightarrow> g_live G (vfs_world s) f)) \<and>
    (\<forall>i < length (knowndevs s). \<forall>j < length (knowndevs s). i \<noteq> j \<longrightarrow>
      kd_fs (knowndevs s ! i) \<noteq> None \<longrightarrow> kd_fs (knowndevs s ! i) \<noteq> kd_fs (knowndevs s ! j))"

text \<open>The invariant again, at the same depth of the lock.\<close>

definition settled :: "'w vops \<Rightarrow> 'w vview \<Rightarrow> 'w vfs \<Rightarrow> (nat \<Rightarrow> nat) \<Rightarrow> (nat \<Rightarrow> nat) \<Rightarrow> 'w vfs \<Rightarrow> bool" where
  "settled V G s x n s' \<longleftrightarrow> vfs_inv V G x n s' \<and> vfs_depth s' = vfs_depth s"

lemma vfs_inv_depth [simp]: "vfs_inv V G x n (s\<lparr>vfs_depth := d\<rparr>) = vfs_inv V G x n s"
  by (simp add: vfs_inv_def)

lemma inv_good: "vfs_inv V G x n s \<Longrightarrow> g_good G (vfs_world s)"
  by (simp add: vfs_inv_def)

lemma inv_usable: "vfs_inv V G x n s \<Longrightarrow> 0 < x v \<Longrightarrow> usable G (vfs_world s) v"
  by (simp add: vfs_inv_def usable_def)

lemma inv_refs: "vfs_inv V G x n s \<Longrightarrow> 0 < x v \<Longrightarrow> 0 < g_refs G (vfs_world s) v"
  by (simp add: vfs_inv_def)

lemma inv_pin: "vfs_inv V G x n s \<Longrightarrow> kd \<in> set (knowndevs s) \<Longrightarrow> kd_device kd \<noteq> None \<Longrightarrow> usable G (vfs_world s) (kd_vnode kd)"
  by (simp add: vfs_inv_def usable_def)

lemma inv_cwd: "vfs_inv V G x n s \<Longrightarrow> p_cwd s = Some v \<Longrightarrow> 0 < g_refs G (vfs_world s) v \<and> vn_fs V v (vfs_world s) \<noteq> None"
  by (simp add: vfs_inv_def holds_def)

lemma inv_boot: "vfs_inv V G x n s \<Longrightarrow> bootfs_vnode s = Some v \<Longrightarrow> 0 < g_refs G (vfs_world s) v"
  by (simp add: vfs_inv_def holds_def)

lemma inv_live:
  assumes "vfs_inv V G x n s" "0 < g_refs G (vfs_world s) v" "vn_fs V v (vfs_world s) = Some f"
  shows "g_live G (vfs_world s) f" "\<exists>kd \<in> set (knowndevs s). kd_fs kd = Some f"
  using assms unfolding vfs_inv_def by blast+

lemma plus1_simps [simp]: "0 < plus1 x v v" "0 < x u \<Longrightarrow> 0 < plus1 x v u" "minus1 (plus1 x v) v = x" "plus1 x v v = Suc (x v)"
  by (simp_all add: plus1_def minus1_def)

text \<open>A step below the layer in which the counts change by as much as those of the callers.\<close>

lemma inv_becomes:
  assumes inv: "vfs_inv V G x n s" and w': "becomes V G r m (vfs_world s) w'"
    and counts: "\<forall>v. r v = holds (p_cwd s) v + holds (bootfs_vnode s) v + m v + y v"
    and new: "\<And>v f. g_refs G (vfs_world s) v = 0 \<Longrightarrow> 0 < r v \<Longrightarrow> vn_fs V v w' = Some f \<Longrightarrow> \<exists>kd \<in> set (knowndevs s). kd_fs kd = Some f"
  shows "vfs_inv V G y m (s\<lparr>vfs_world := w'\<rparr>)"
proof -
  have fs: "vn_fs V v w' = vn_fs V v (vfs_world s)" if "0 < g_refs G (vfs_world s) v" "0 < r v" for v
    using w' that unfolding becomes_def by blast
  have ext: "\<exists>kd \<in> set (knowndevs s). kd_fs kd = Some f" if "0 < r v" "vn_fs V v w' = Some f" for v f
  proof (cases "0 < g_refs G (vfs_world s) v")
    case True
    then show ?thesis
      using inv_live(2) [OF inv True] fs [OF True that(1)] that(2) by metis
  next
    case False
    then show ?thesis
      using new that by simp
  qed
  moreover have "vn_fs V v w' \<noteq> None" if "p_cwd s = Some v" for v
  proof -
    have "0 < r v"
      using counts that by (simp add: holds_def)
    then show ?thesis
      using inv_cwd [OF inv that] fs by simp
  qed
  moreover have "kd_wf kd \<and> (kd_device kd \<noteq> None \<longrightarrow> g_pin G w' (kd_vnode kd)) \<and> (\<forall>f. kd_fs kd = Some f \<longrightarrow> g_live G w' f)" if "kd \<in> set (knowndevs s)" for kd
    using inv w' that unfolding vfs_inv_def becomes_def by blast
  ultimately show ?thesis
    using inv w' counts unfolding vfs_inv_def becomes_def by simp
qed

lemma inv_stays: "vfs_inv V G x n s \<Longrightarrow> stays V G (vfs_world s) w' \<Longrightarrow> vfs_inv V G x n (s\<lparr>vfs_world := w'\<rparr>)"
proof -
  assume inv: "vfs_inv V G x n s" and w': "stays V G (vfs_world s) w'"
  have n: "g_opens G (vfs_world s) = n"
    using inv by (simp add: vfs_inv_def)
  show ?thesis
    by (rule inv_becomes [OF inv w' [unfolded n]]) (use inv in \<open>simp_all add: vfs_inv_def\<close>)
qed

lemma inv_gains:
  assumes inv: "vfs_inv V G x n s" and w': "gains V G v (vfs_world s) w'"
    and new: "\<And>f. g_refs G (vfs_world s) v = 0 \<Longrightarrow> vn_fs V v w' = Some f \<Longrightarrow> \<exists>kd \<in> set (knowndevs s). kd_fs kd = Some f"
  shows "vfs_inv V G (plus1 x v) n (s\<lparr>vfs_world := w'\<rparr>)"
proof -
  have n: "g_opens G (vfs_world s) = n"
    using inv by (simp add: vfs_inv_def)
  show ?thesis
    by (rule inv_becomes [OF inv w' [unfolded n]])
      (use inv new in \<open>auto simp: vfs_inv_def plus1_def split: if_splits\<close>)
qed

lemma wp_fun:
  shows wp_kret_fun: "wp (kret x) Q E = Q x" and wp_kerr_fun: "wp (kerr e) Q E = E e"
    and wp_kbind_fun: "wp (kbind m f) Q E = wp m (\<lambda>x. wp (f x) Q E) E"
    and wp_kget_fun: "wp (kget g) Q E = (\<lambda>s. Q (g s) s)"
    and wp_kmod_fun: "wp (kmod h) P E = (\<lambda>s. P () (h s))"
    and wp_ktry_fun: "wp (ktry k) R E = wp k (\<lambda>x. R (Inr x)) (\<lambda>e. R (Inl e))"
  by (rule ext, simp add: wp_simps)+

lemma ret_unit: "(case r of Inl e \<Rightarrow> kerr e | Inr u \<Rightarrow> kret u) = (case r of Inl e \<Rightarrow> kerr e | Inr (_ :: unit) \<Rightarrow> kret ())"
  by (cases r) simp_all

lemma plus1_commute: "plus1 (plus1 x v) u = plus1 (plus1 x u) v"
  by (rule ext) (simp add: plus1_def)

lemma settled_trans: "settled V G s x n s' \<Longrightarrow> settled V G s' y m s'' \<Longrightarrow> settled V G s y m s''"
  by (simp add: settled_def)

lemma settledD: "settled V G s x n s' \<Longrightarrow> vfs_inv V G x n s'"
  by (simp add: settled_def)

lemma settled_refl: "vfs_inv V G x n s \<Longrightarrow> settled V G s x n s"
  by (simp add: settled_def)

lemma settled_world: "vfs_inv V G x n (s\<lparr>vfs_world := w\<rparr>) \<Longrightarrow> settled V G s x n (s\<lparr>vfs_world := w\<rparr>)"
  by (simp add: settled_def)

lemma settled_locked:
  assumes "wp m (\<lambda>r s'. settled V G (s\<lparr>vfs_depth := Suc (vfs_depth s)\<rparr>) (f r) (g r) s') (\<lambda>e s'. settled V G (s\<lparr>vfs_depth := Suc (vfs_depth s)\<rparr>) y k s')
    (s\<lparr>vfs_depth := Suc (vfs_depth s)\<rparr>)"
  shows "wp (locked m) (\<lambda>r. settled V G s (f r) (g r)) (\<lambda>_. settled V G s y k) s"
  unfolding wp_locked by (rule wp_mono [OF assms]) (simp_all add: settled_def)

context vnode_layer
begin

lemma on_plain:
  assumes "vfs_inv V G x n s" "plain_op V G (vfs_world s) m"
  shows "wp (on_world m) (\<lambda>_. settled V G s x n) (\<lambda>_. settled V G s x n) s"
  unfolding wp_on_world
  by (rule wp_mono [OF plain [OF inv_good [OF assms(1)] assms(2)]]) (simp_all add: settled_world inv_stays [OF assms(1)])

lemma on_incref:
  assumes inv: "vfs_inv V G x n s" and v: "usable G (vfs_world s) v"
  shows "wp (on_world (vop_incref V v))
    (\<lambda>_ s'. settled V G s (plus1 x v) n s' \<and> (0 < g_refs G (vfs_world s) v \<longrightarrow> vn_fs V v (vfs_world s') = vn_fs V v (vfs_world s)) \<and> p_cwd s' = p_cwd s)
    (\<lambda>_ _. False) s"
  unfolding wp_on_world
proof (rule wp_mono [OF incref [OF inv_good [OF inv] v]], goal_cases)
  case (1 u w')
  have "vn_fs V v w' = None" if "g_refs G (vfs_world s) v = 0"
    using 1 v that pinned unfolding becomes_def usable_def by auto
  moreover have "0 < g_refs G (vfs_world s) v \<longrightarrow> vn_fs V v w' = vn_fs V v (vfs_world s)"
    using 1 unfolding becomes_def by simp
  ultimately show ?case
    using inv_gains [OF inv 1] by (simp add: settled_world)
qed simp

lemma on_decref:
  assumes inv: "vfs_inv V G (plus1 x v) n s"
  shows "wp (on_world (vop_decref V v)) (\<lambda>_. settled V G s x n) (\<lambda>_ _. False) s"
  unfolding wp_on_world
proof -
  have n: "g_opens G (vfs_world s) = n" and refs: "\<forall>u. g_refs G (vfs_world s) u = holds (p_cwd s) u + holds (bootfs_vnode s) u + n u + plus1 x v u"
    using inv by (simp_all add: vfs_inv_def)
  have lt: "g_opens G (vfs_world s) v < g_refs G (vfs_world s) v"
    using refs n by simp
  show "wp (vop_decref V v) (\<lambda>u w. settled V G s x n (s\<lparr>vfs_world := w\<rparr>)) (\<lambda>e w. False) (vfs_world s)"
  proof (rule wp_mono [OF decref [OF inv_good [OF inv] lt]], goal_cases)
    case (1 u w')
    have "vfs_inv V G x n (s\<lparr>vfs_world := w'\<rparr>)"
      by (rule inv_becomes [OF inv 1 [unfolded n]]) (use refs in \<open>auto simp: minus1_def plus1_def split: if_splits\<close>)
    then show ?case
      by (rule settled_world)
  qed simp
qed

lemma on_opens:
  assumes inv: "vfs_inv V G (plus1 x v) n s"
  shows "wp (on_world (vop_incopen V v)) (\<lambda>_. settled V G s x (plus1 n v)) (\<lambda>_ _. False) s"
  unfolding wp_on_world
proof -
  have n: "g_opens G (vfs_world s) = n" and refs: "\<forall>u. g_refs G (vfs_world s) u = holds (p_cwd s) u + holds (bootfs_vnode s) u + n u + plus1 x v u"
    using inv by (simp_all add: vfs_inv_def)
  have lt: "g_opens G (vfs_world s) v < g_refs G (vfs_world s) v"
    using refs n by simp
  show "wp (vop_incopen V v) (\<lambda>u w. settled V G s x (plus1 n v) (s\<lparr>vfs_world := w\<rparr>)) (\<lambda>e w. False) (vfs_world s)"
  proof (rule wp_mono [OF incopen [OF inv_good [OF inv] lt]], goal_cases)
    case (1 u w')
    have "vfs_inv V G x (plus1 n v) (s\<lparr>vfs_world := w'\<rparr>)"
      by (rule inv_becomes [OF inv 1 [unfolded n]]) (use refs in \<open>auto simp: plus1_def split: if_splits\<close>)
    then show ?case
      by (rule settled_world)
  qed simp
qed

lemma on_decopen:
  assumes inv: "vfs_inv V G x (plus1 n v) s"
  shows "wp (on_world (vop_decopen V v)) (\<lambda>_. settled V G s (plus1 x v) n) (\<lambda>_ _. False) s"
  unfolding wp_on_world
proof -
  have n: "g_opens G (vfs_world s) = plus1 n v" and refs: "\<forall>u. g_refs G (vfs_world s) u = holds (p_cwd s) u + holds (bootfs_vnode s) u + plus1 n v u + x u"
    using inv by (simp_all add: vfs_inv_def)
  have lt: "0 < g_opens G (vfs_world s) v" "g_opens G (vfs_world s) v \<le> g_refs G (vfs_world s) v"
    using refs n by simp_all
  show "wp (vop_decopen V v) (\<lambda>u w. settled V G s (plus1 x v) n (s\<lparr>vfs_world := w\<rparr>)) (\<lambda>e w. False) (vfs_world s)"
  proof (rule wp_mono [OF decopen [OF inv_good [OF inv] lt]], goal_cases)
    case (1 u w')
    have "vfs_inv V G (plus1 x v) n (s\<lparr>vfs_world := w'\<rparr>)"
      by (rule inv_becomes [OF inv 1 [unfolded n plus1_simps(3)]]) (use refs in \<open>auto simp: plus1_def split: if_splits\<close>)
    then show ?case
      by (rule settled_world)
  qed simp
qed

lemma on_gaining:
  assumes inv: "vfs_inv V G x n s"
    and m: "wp m (\<lambda>r w'. gains V G (g r) (vfs_world s) w' \<and> vn_fs V (g r) w' = vn_fs V v (vfs_world s)) (\<lambda>_. stays V G (vfs_world s)) (vfs_world s)"
    and v: "0 < g_refs G (vfs_world s) v"
  shows "wp (on_world m) (\<lambda>r. settled V G s (plus1 x (g r)) n) (\<lambda>_. settled V G s x n) s"
  unfolding wp_on_world
proof (rule wp_mono [OF m], goal_cases)
  case (1 r w')
  have "\<exists>kd \<in> set (knowndevs s). kd_fs kd = Some f" if "vn_fs V (g r) w' = Some f" for f
    using inv_live(2) [OF inv v] 1 that by metis
  then show ?case
    using inv_gains [OF inv conjunct1 [OF 1]] by (simp add: settled_world)
next
  case (2 e w')
  then show ?case
    by (simp add: settled_world inv_stays [OF inv])
qed

lemma on_getroot:
  assumes inv: "vfs_inv V G x n s" and f: "kd \<in> set (knowndevs s)" "kd_fs kd = Some f"
  shows "wp (on_world (fsop_getroot V f)) (\<lambda>v. settled V G s (plus1 x v) n) (\<lambda>_ _. False) s"
  unfolding wp_on_world
proof -
  have live: "g_live G (vfs_world s) f"
    using inv f unfolding vfs_inv_def by blast
  show "wp (fsop_getroot V f) (\<lambda>v w. settled V G s (plus1 x v) n (s\<lparr>vfs_world := w\<rparr>))
      (\<lambda>e w. False) (vfs_world s)"
  proof (rule wp_mono [OF getroot [OF inv_good [OF inv] live]], goal_cases)
    case (1 v w')
    have "vfs_inv V G (plus1 x v) n (s\<lparr>vfs_world := w'\<rparr>)"
      by (rule inv_gains [OF inv conjunct1 [OF 1]]) (use f 1 in auto)
    then show ?case
      by (rule settled_world)
  qed simp
qed

lemma getcurdir_ok:
  assumes inv: "vfs_inv V G x n s"
  shows "wp (vfs_getcurdir V) (\<lambda>v s'. settled V G s (plus1 x v) n s' \<and> vn_fs V v (vfs_world s') \<noteq> None) (\<lambda>_. settled V G s x n) s"
proof (cases "p_cwd s")
  case None
  then show ?thesis
    using inv by (simp add: vfs_getcurdir_def wp_simps settled_refl)
next
  case (Some v)
  have refs: "0 < g_refs G (vfs_world s) v" "vn_fs V v (vfs_world s) \<noteq> None"
    using inv_cwd [OF inv Some] by blast+
  have "usable G (vfs_world s) v"
    using refs(1) by (simp add: usable_def)
  note wp = on_incref [OF inv this]
  show ?thesis
    unfolding vfs_getcurdir_def wp_fun Some option.case
    by (rule wp_mono [OF wp]) (use refs in simp_all)
qed

lemma getroot_loop_ok:
  assumes "vfs_inv V G x n s" "set ds \<subseteq> set (knowndevs s)"
  shows "wp (vfs_getroot_loop V name ds) (\<lambda>v. settled V G s (plus1 x v) n) (\<lambda>_. settled V G s x n) s"
  using assms(2)
proof (induction ds)
  case Nil
  then show ?case
    using assms(1) by (simp add: wp_simps settled_refl)
next
  case (Cons kd kds)
  then have kd: "kd \<in> set (knowndevs s)" and IH: "wp (vfs_getroot_loop V name kds) (\<lambda>v. settled V G s (plus1 x v) n) (\<lambda>_. settled V G s x n) s"
    by simp_all
  have wf: "kd_wf kd"
    using assms(1) kd unfolding vfs_inv_def by blast
  have "wp (on_world (vop_incref V (kd_vnode kd))) (\<lambda>_. settled V G s (plus1 x (kd_vnode kd)) n) (\<lambda>_. settled V G s x n) s" if "kd_device kd \<noteq> None"
    by (rule wp_mono [OF on_incref [OF assms(1) inv_pin [OF assms(1) kd that]]]) simp_all
  then have dev: "wp (the_device V kd) (\<lambda>v. settled V G s (plus1 x v) n) (\<lambda>_. settled V G s x n) s" if "kd_device kd \<noteq> None"
    using that by (simp add: the_device_def wp_fun)
  have err: "wp (kerr ENXIO) (\<lambda>v. settled V G s (plus1 x v) n) (\<lambda>_. settled V G s x n) s"
    using assms(1) by (simp add: wp_simps settled_refl)
  have root: "wp (on_world (fsop_getroot V f)) (\<lambda>v. settled V G s (plus1 x v) n) (\<lambda>_. settled V G s x n) s" if "kd_fs kd = Some f" for f
    by (rule wp_mono [OF on_getroot [OF assms(1) kd that]]) simp_all
  show ?case
  proof (cases "name \<in> kd_names kd \<or> volume_named V (vfs_world s) name kd")
    case True
    then show ?thesis
      using dev err root wf
      unfolding wp_def getroot_hit [OF True wf] kd_wf_def kd_names_def by (cases "kd_fs kd") (auto simp: elem_set)
  next
    case False
    then have "vfs_getroot_loop V name (kd # kds) s = vfs_getroot_loop V name kds s"
      by (intro getroot_skip) simp_all
    then show ?thesis
      using IH by (simp add: wp_def)
  qed
qed

lemma start_ok:
  assumes inv: "vfs_inv V G x n s" and d: "0 < vfs_depth s"
  shows "wp (start_vnode V st) (\<lambda>v. settled V G s (plus1 x v) n) (\<lambda>_. settled V G s x n) s"
proof (cases st)
  case From_cwd
  then show ?thesis
    unfolding start_vnode_def by (auto intro: wp_mono [OF getcurdir_ok [OF inv]])
next
  case (From_device name)
  then show ?thesis
    using d getroot_loop_ok [OF inv subset_refl] by (simp add: start_vnode_def vfs_getroot_def wp_simps)
next
  case From_boot
  have "wp (on_world (vop_incref V v)) (\<lambda>_. settled V G s (plus1 x v) n) (\<lambda>_. settled V G s x n) s" if "bootfs_vnode s = Some v" for v
  proof -
    have "usable G (vfs_world s) v"
      using inv_boot [OF inv that] by (simp add: usable_def)
    then show ?thesis
      by (rule wp_mono [OF on_incref [OF inv]]) simp_all
  qed
  then show ?thesis
    using From_boot inv by (auto simp: start_vnode_def wp_fun settled_refl split: option.split)
next
  case From_cwdfs
  let ?Q = "\<lambda>v. settled V G s (plus1 x v) n" and ?E = "\<lambda>_::errno. settled V G s x n"
  have step: "wp (case vn_fs V v (vfs_world t) of None \<Rightarrow> kpanic
      | Some f \<Rightarrow> kbind (on_world (fsop_getroot V f)) (\<lambda>root. kbind (on_world (vop_decref V v)) (\<lambda>_. kret root))) ?Q ?E t"
    if t: "settled V G s (plus1 x v) n t" "vn_fs V v (vfs_world t) \<noteq> None" for v t
  proof -
    obtain f kd where f: "vn_fs V v (vfs_world t) = Some f" "kd \<in> set (knowndevs t)" "kd_fs kd = Some f"
      using t inv_live(2) [OF settledD [OF t(1)] inv_refs [OF settledD [OF t(1)]], of v] by fastforce
    have drop: "wp (on_world (vop_decref V v)) (\<lambda>_. settled V G s (plus1 x root) n) ?E t'"
      if "settled V G t (plus1 (plus1 x v) root) n t'" for root t'
    proof -
      have t': "settled V G s (plus1 (plus1 x root) v) n t'"
        using settled_trans [OF t(1) that] by (simp add: plus1_commute)
      show ?thesis
        by (rule wp_mono [OF on_decref [OF settledD [OF t']]]) (auto intro: settled_trans [OF t'])
    qed
    show ?thesis
      unfolding f(1) option.case wp_fun
      by (rule wp_mono [OF on_getroot [OF settledD [OF t(1)] f(2,3)]]) (use drop in simp_all)
  qed
  show ?thesis
    unfolding From_cwdfs start_vnode_def start.case wp_fun
    by (rule wp_mono [OF getcurdir_ok [OF inv]]) (use step in auto)
qed

lemma getdevice_ok:
  assumes inv: "vfs_inv V G x n s" and d: "0 < vfs_depth s"
  shows "wp (getdevice V path) (\<lambda>r. settled V G s (plus1 x (snd r)) n) (\<lambda>_. settled V G s x n) s"
  unfolding getdevice_eq wp_fun wp_biglock_held using start_ok [OF inv d] d by (simp add: wp_fun split: prod.split)

text \<open>Work that is followed by giving up a reference, whatever its outcome is.\<close>

lemma then_decref:
  assumes m: "wp m (\<lambda>r. settled V G s (plus1 (f r) v) n) (\<lambda>_. settled V G s (plus1 x v) n) t"
  shows "wp (kbind (ktry m) (\<lambda>result. kbind (on_world (vop_decref V v)) (\<lambda>_. case result of Inl e \<Rightarrow> kerr e | Inr r \<Rightarrow> kret r)))
    (\<lambda>r. settled V G s (f r) n) (\<lambda>_. settled V G s x n) t"
proof -
  have drop: "wp (on_world (vop_decref V v)) (\<lambda>_. settled V G s y n) E t'" if t': "settled V G s (plus1 y v) n t'" for y E t'
    by (rule wp_mono [OF on_decref [OF settledD [OF t']]]) (auto intro: settled_trans [OF t'])
  show ?thesis
    unfolding wp_fun sum.case by (rule wp_mono [OF m]) (simp_all add: drop)
qed

lemma settled_plus: "settled V G s (plus1 (plus1 x v) u) n = settled V G s (plus1 (plus1 x u) v) n"
  by (simp add: plus1_commute)

lemma lookparent_ok:
  assumes inv: "vfs_inv V G x n s"
  shows "wp (vfs_lookparent V path len) (\<lambda>r. settled V G s (plus1 x (fst r)) n) (\<lambda>_. settled V G s x n) s"
  unfolding vfs_lookparent_def
proof (rule settled_locked, goal_cases)
  case 1
  let ?s = "s\<lparr>vfs_depth := Suc (vfs_depth s)\<rparr>"
  have dev: "wp (getdevice V path) (\<lambda>r. settled V G ?s (plus1 x (snd r)) n) (\<lambda>_. settled V G ?s x n) ?s"
    by (rule getdevice_ok) (use inv in simp_all)
  have "wp (if length sub = 0 then kerr EINVAL else on_world (vop_lookparent V v sub len))
      (\<lambda>r. settled V G ?s (plus1 (plus1 x (fst r)) v) n) (\<lambda>_. settled V G ?s (plus1 x v) n) t"
    if t: "settled V G ?s (plus1 x v) n t" for sub v t
  proof -
    note inv' = settledD [OF t]
    have v: "0 < g_refs G (vfs_world t) v" "usable G (vfs_world t) v"
      using inv_refs [OF inv'] inv_usable [OF inv'] by simp_all
    have "wp (on_world (vop_lookparent V v sub len)) (\<lambda>r. settled V G t (plus1 (plus1 x v) (fst r)) n) (\<lambda>_. settled V G t (plus1 x v) n) t"
      by (rule on_gaining [OF inv' lookparent [OF inv_good [OF inv'] v(2)] v(1)])
    then have "wp (on_world (vop_lookparent V v sub len)) (\<lambda>r. settled V G ?s (plus1 (plus1 x (fst r)) v) n) (\<lambda>_. settled V G ?s (plus1 x v) n) t"
      by (rule wp_mono) (auto intro: settled_trans [OF t] simp: plus1_commute)
    then show ?thesis
      using t by (simp add: wp_fun)
  qed
  note look = then_decref [OF this]
  show ?case
    unfolding wp_kbind [of "getdevice V path"] by (rule wp_mono [OF dev]) (use look in \<open>simp_all only: split_def\<close>)
qed

lemma lookup_ok:
  assumes inv: "vfs_inv V G x n s"
  shows "wp (vfs_lookup V path) (\<lambda>v. settled V G s (plus1 x v) n) (\<lambda>_. settled V G s x n) s"
  unfolding vfs_lookup_def
proof (rule settled_locked, goal_cases)
  case 1
  let ?s = "s\<lparr>vfs_depth := Suc (vfs_depth s)\<rparr>"
  have dev: "wp (getdevice V path) (\<lambda>r. settled V G ?s (plus1 x (snd r)) n) (\<lambda>_. settled V G ?s x n) ?s"
    by (rule getdevice_ok) (use inv in simp_all)
  have "wp (on_world (vop_lookup V v sub))
      (\<lambda>r. settled V G ?s (plus1 (plus1 x r) v) n) (\<lambda>_. settled V G ?s (plus1 x v) n) t"
    if t: "settled V G ?s (plus1 x v) n t" for sub v t
  proof -
    note inv' = settledD [OF t]
    have v: "0 < g_refs G (vfs_world t) v" "usable G (vfs_world t) v"
      using inv_refs [OF inv'] inv_usable [OF inv'] by simp_all
    have "wp (on_world (vop_lookup V v sub)) (\<lambda>r. settled V G t (plus1 (plus1 x v) r) n) (\<lambda>_. settled V G t (plus1 x v) n) t"
      by (rule on_gaining [OF inv' lookup [OF inv_good [OF inv'] v(2)] v(1)])
    then show ?thesis
      by (rule wp_mono) (auto intro: settled_trans [OF t] simp: plus1_commute)
  qed
  note look = then_decref [OF this]
  show ?case
    unfolding wp_kbind [of "getdevice V path"]
    by (rule wp_mono [OF dev]) (use look in \<open>simp_all only: split_def wp_if wp_kret if_split if_cancel simp_thms\<close>)
qed

lemma in_parent_ok:
  assumes inv: "vfs_inv V G x n s"
    and m: "\<And>v name t. vfs_inv V G (plus1 x v) n t \<Longrightarrow>
      wp (on_world (m v name)) (\<lambda>r. settled V G t (plus1 (f r) v) n) (\<lambda>_. settled V G t (plus1 x v) n) t"
  shows "wp (in_parent V path m) (\<lambda>r. settled V G s (f r) n) (\<lambda>_. settled V G s x n) s"
proof -
  have "wp (on_world (m v name)) (\<lambda>r. settled V G s (plus1 (f r) v) n) (\<lambda>_. settled V G s (plus1 x v) n) t"
    if t: "settled V G s (plus1 x v) n t" for v name t
    by (rule wp_mono [OF m [OF settledD [OF t]]]) (blast intro: settled_trans [OF t])+
  note body = then_decref [OF this]
  show ?thesis
    unfolding in_parent_def wp_kbind [of "vfs_lookparent V path (NAME_MAX + 1)"]
    by (rule wp_mono [OF lookparent_ok [OF inv]]) (use body in \<open>simp_all only: split_def\<close>)
qed

lemma in_parent_plain:
  assumes inv: "vfs_inv V G x n s" and m: "\<And>v name w. usable G w v \<Longrightarrow> plain_op V G w (m v name)"
  shows "wp (in_parent V path m) (\<lambda>_. settled V G s x n) (\<lambda>_. settled V G s x n) s"
  by (rule in_parent_ok [OF inv]) (blast intro: on_plain m inv_usable plus1_simps)

lemma creat_ok:
  assumes inv: "vfs_inv V G x n s"
  shows "wp (in_parent V path (\<lambda>dir name. vop_creat V dir name ex mode)) (\<lambda>v. settled V G s (plus1 x v) n) (\<lambda>_. settled V G s x n) s"
proof (rule in_parent_ok [OF inv])
  fix v name t
  assume inv': "vfs_inv V G (plus1 x v) n t"
  have v: "0 < g_refs G (vfs_world t) v" "usable G (vfs_world t) v"
    using inv_refs [OF inv'] inv_usable [OF inv'] by simp_all
  have "wp (on_world (vop_creat V v name ex mode)) (\<lambda>r. settled V G t (plus1 (plus1 x v) r) n) (\<lambda>_. settled V G t (plus1 x v) n) t"
    by (rule on_gaining [OF inv' creat [OF inv_good [OF inv'] v(2)] v(1)])
  then show "wp (on_world (vop_creat V v name ex mode)) (\<lambda>r. settled V G t (plus1 (plus1 x r) v) n) (\<lambda>_. settled V G t (plus1 x v) n) t"
    by (simp add: plus1_commute)
qed

lemma decref_err:
  assumes "settled V G s (plus1 x v) n t"
  shows "wp (kbind (on_world (vop_decref V v)) (\<lambda>_. kerr e)) Q (\<lambda>_. settled V G s x n) t"
  unfolding wp_fun by (rule wp_mono [OF on_decref [OF settledD [OF assms]]]) (auto intro: settled_trans [OF assms])

lemma open_vnode_ok:
  assumes inv: "settled V G s (plus1 x v) n t"
  shows "wp (kbind (ktry (on_world (vop_open V v fl))) (\<lambda>result.
       case result of
         Inl e \<Rightarrow> kbind (on_world (vop_decref V v)) (\<lambda>_. kerr e)
       | Inr _ \<Rightarrow>
           kbind (on_world (vop_incopen V v)) (\<lambda>_.
           if trunc then
             kbind (ktry (if \<not> canwrite then kerr EINVAL else on_world (vop_truncate V v 0))) (\<lambda>result.
             case result of
               Inl e \<Rightarrow>
                 kbind (on_world (vop_decopen V v)) (\<lambda>_.
                 kbind (on_world (vop_decref V v)) (\<lambda>_. kerr e))
             | Inr _ \<Rightarrow> kret v)
           else kret v)))
    (\<lambda>u. settled V G s x (plus1 n u)) (\<lambda>_. settled V G s x n) t"
proof -
  have op: "wp (on_world (vop_open V v fl)) (\<lambda>_. settled V G s (plus1 x v) n) (\<lambda>_. settled V G s (plus1 x v) n) t"
    by (rule wp_mono [OF on_plain [OF settledD [OF inv] plain_op.intros(1) [OF inv_usable [OF settledD [OF inv]]]]])
      (auto intro: settled_trans [OF inv])
  have shut: "wp (kbind (on_world (vop_decopen V v)) (\<lambda>_. kbind (on_world (vop_decref V v)) (\<lambda>_. kerr e))) Q (\<lambda>_. settled V G s x n) t'"
    if t': "settled V G s x (plus1 n v) t'" for e t' Q
    unfolding wp_kbind [of "on_world (vop_decopen V v)"]
    by (rule wp_mono [OF on_decopen [OF settledD [OF t']]]) (auto intro: decref_err settled_trans [OF t'])
  have tr: "wp (if \<not> canwrite then kerr EINVAL else on_world (vop_truncate V v 0)) (\<lambda>_. settled V G s x (plus1 n v)) (\<lambda>_. settled V G s x (plus1 n v)) t'"
    if t': "settled V G s x (plus1 n v) t'" for t'
  proof -
    have "usable G (vfs_world t') v"
      using settledD [OF t'] by (simp add: usable_def vfs_inv_def)
    from on_plain [OF settledD [OF t'] plain_op.intros(2) [OF this]]
    have "wp (on_world (vop_truncate V v 0)) (\<lambda>_. settled V G s x (plus1 n v)) (\<lambda>_. settled V G s x (plus1 n v)) t'"
      by (rule wp_mono) (auto intro: settled_trans [OF t'])
    then show ?thesis
      using t' by (simp add: wp_fun)
  qed
  have inc: "wp (on_world (vop_incopen V v)) (\<lambda>_. settled V G s x (plus1 n v)) (\<lambda>_ _. False) t'"
    if t': "settled V G s (plus1 x v) n t'" for t'
    by (rule wp_mono [OF on_opens [OF settledD [OF t']]]) (auto intro: settled_trans [OF t'])
  have rest: "wp (if trunc then kbind (ktry (if \<not> canwrite then kerr EINVAL else on_world (vop_truncate V v 0))) (\<lambda>result.
             case result of Inl e \<Rightarrow> kbind (on_world (vop_decopen V v)) (\<lambda>_. kbind (on_world (vop_decref V v)) (\<lambda>_. kerr e)) | Inr _ \<Rightarrow> kret v)
           else kret v) (\<lambda>u. settled V G s x (plus1 n u)) (\<lambda>_. settled V G s x n) t'"
    if t': "settled V G s x (plus1 n v) t'" for t'
  proof (cases trunc)
    case True
    show ?thesis
      unfolding if_P [OF True] wp_kbind_fun [of "ktry _"] wp_ktry_fun sum.case wp_kret_fun
      by (rule wp_mono [OF tr [OF t']]) (use shut in auto)
  qed (use t' in \<open>simp add: wp_fun\<close>)
  have opened: "wp (kbind (on_world (vop_incopen V v)) (\<lambda>_. if trunc then kbind (ktry (if \<not> canwrite then kerr EINVAL else on_world (vop_truncate V v 0))) (\<lambda>result.
             case result of Inl e \<Rightarrow> kbind (on_world (vop_decopen V v)) (\<lambda>_. kbind (on_world (vop_decref V v)) (\<lambda>_. kerr e)) | Inr _ \<Rightarrow> kret v)
           else kret v)) (\<lambda>u. settled V G s x (plus1 n u)) (\<lambda>_. settled V G s x n) t'"
    if t': "settled V G s (plus1 x v) n t'" for t'
    unfolding wp_kbind_fun [of "on_world (vop_incopen V v)"] by (rule wp_mono [OF inc [OF t']]) (use rest in auto)
  show ?thesis
    unfolding wp_kbind_fun [of "ktry _"] wp_ktry_fun sum.case
    by (rule wp_mono [OF op]) (use opened decref_err in blast)+
qed

lemma open_ok:
  assumes inv: "vfs_inv V G x n s"
  shows "wp (vfs_open V path fl mode) (\<lambda>v. settled V G s x (plus1 n v)) (\<lambda>_. settled V G s x n) s"
proof -
  have find: "wp (if fl AND O_CREAT \<noteq> 0 then in_parent V path (\<lambda>dir name. vop_creat V dir name (fl AND O_EXCL \<noteq> 0) mode) else vfs_lookup V path)
      (\<lambda>v. settled V G s (plus1 x v) n) (\<lambda>_. settled V G s x n) s"
    using creat_ok [OF inv] lookup_ok [OF inv] by simp
  show ?thesis
  proof (cases "fl AND O_ACCMODE \<noteq> O_RDONLY \<and> fl AND O_ACCMODE \<noteq> O_WRONLY \<and> fl AND O_ACCMODE \<noteq> O_RDWR")
    case True
    then show ?thesis
      using settled_refl [OF inv] by (simp add: vfs_open_def wp_fun)
  next
    case False
    show ?thesis
      unfolding vfs_open_def Let_def if_not_P [OF False] wp_kbind_fun [of "if _ then _ else _"]
      by (rule wp_mono [OF find]) (rule open_vnode_ok, assumption+)
  qed
qed

lemma close_ok:
  assumes inv: "vfs_inv V G x (plus1 n v) s"
  shows "wp (vfs_close V v) (\<lambda>_. settled V G s x n) (\<lambda>_ _. False) s"
  unfolding vfs_close_def wp_fun
proof (rule wp_mono [OF on_decopen [OF inv]], goal_cases)
  case (1 u t)
  show ?case
    by (rule wp_mono [OF on_decref [OF settledD [OF 1]]]) (auto intro: settled_trans [OF 1])
qed simp

text \<open>The second half of \<^verbatim>\<open>vfs_rename\<close> and \<^verbatim>\<open>vfs_link\<close>, with two vnodes in hand.\<close>

lemma cross_ok:
  assumes inv: "vfs_inv V G x n s" and t: "settled V G s (plus1 x a) n t"
    and m: "\<And>w b name. usable G w a \<Longrightarrow> usable G w b \<Longrightarrow> plain_op V G w (m b name)"
  shows "wp (kbind (ktry (vfs_lookparent V path (NAME_MAX + 1))) (\<lambda>r.
    case r of
      Inl e \<Rightarrow> kbind (on_world (vop_decref V a)) (\<lambda>_. kerr e)
    | Inr (b, name) \<Rightarrow>
        kbind (kget (\<lambda>s. (vn_fs V a (vfs_world s), vn_fs V b (vfs_world s)))) (\<lambda>(f, g).
        kbind (ktry (if f = None \<or> g = None \<or> f \<noteq> g then kerr EXDEV else on_world (m b name))) (\<lambda>result.
        kbind (on_world (vop_decref V b)) (\<lambda>_.
        kbind (on_world (vop_decref V a)) (\<lambda>_.
        case result of Inl e \<Rightarrow> kerr e | Inr _ \<Rightarrow> kret ()))))))
    (\<lambda>_. settled V G s x n) (\<lambda>_. settled V G s x n) t"
proof -
  have drop: "wp (on_world (vop_decref V v)) (\<lambda>_. settled V G s y n) (\<lambda>_ _. False) t'" if t': "settled V G s (plus1 y v) n t'" for y v t'
    by (rule wp_mono [OF on_decref [OF settledD [OF t']]]) (auto intro: settled_trans [OF t'])
  have drops: "wp (kbind (on_world (vop_decref V b)) (\<lambda>_. kbind (on_world (vop_decref V a)) (\<lambda>_. case r of Inl e \<Rightarrow> kerr e | Inr _ \<Rightarrow> kret ())))
      (\<lambda>_. settled V G s x n) (\<lambda>_. settled V G s x n) t'"
    if t': "settled V G s (plus1 (plus1 x a) b) n t'" for b t' and r :: "errno + unit"
  proof -
    have one: "wp (on_world (vop_decref V a)) (\<lambda>_. wp (case r of Inl e \<Rightarrow> kerr e | Inr _ \<Rightarrow> kret ()) (\<lambda>_. settled V G s x n) (\<lambda>_. settled V G s x n))
        (\<lambda>_. settled V G s x n) t''" if t'': "settled V G s (plus1 x a) n t''" for t''
      by (rule wp_mono [OF drop [OF t'']]) (auto simp: wp_fun split: sum.split)
    show ?thesis
      unfolding wp_kbind_fun by (rule wp_mono [OF drop [OF t']]) (use one in auto)
  qed
  have work: "wp (if C then kerr EXDEV else on_world (m b name)) (\<lambda>_. settled V G s (plus1 (plus1 x a) b) n) (\<lambda>_. settled V G s (plus1 (plus1 x a) b) n) t'"
    if t': "settled V G s (plus1 (plus1 x a) b) n t'" for b name t' C
  proof -
    have "plain_op V G (vfs_world t') (m b name)"
      by (rule m) (use inv_usable [OF settledD [OF t']] in simp_all)
    then have "wp (on_world (m b name)) (\<lambda>_. settled V G s (plus1 (plus1 x a) b) n) (\<lambda>_. settled V G s (plus1 (plus1 x a) b) n) t'"
      by (rule wp_mono [OF on_plain [OF settledD [OF t']]]) (auto intro: settled_trans [OF t'])
    then show ?thesis
      using t' by (simp add: wp_fun)
  qed
  have both: "wp (kbind (kget (\<lambda>s. (vn_fs V a (vfs_world s), vn_fs V b (vfs_world s)))) (\<lambda>(f, g).
        kbind (ktry (if f = None \<or> g = None \<or> f \<noteq> g then kerr EXDEV else on_world (m b name))) (\<lambda>result.
        kbind (on_world (vop_decref V b)) (\<lambda>_.
        kbind (on_world (vop_decref V a)) (\<lambda>_.
        case result of Inl e \<Rightarrow> kerr e | Inr _ \<Rightarrow> kret ())))))
      (\<lambda>_. settled V G s x n) (\<lambda>_. settled V G s x n) t'"
    if t': "settled V G s (plus1 (plus1 x a) b) n t'" for b name t'
    unfolding wp_kbind_fun [of "kget _"] wp_kget_fun prod.case wp_kbind_fun [of "ktry _"] wp_ktry_fun
    by (rule wp_mono [OF work [OF t']]) (rule drops, assumption)+
  have err: "wp (kbind (on_world (vop_decref V a)) (\<lambda>_. kerr e)) (\<lambda>_. settled V G s x n) (\<lambda>_. settled V G s x n) t'"
    if "settled V G s (plus1 x a) n t'" for e t'
    by (rule decref_err [OF that])
  show ?thesis
    unfolding wp_kbind_fun [of "ktry _"] wp_ktry_fun sum.case
  proof (rule wp_mono [OF lookparent_ok [OF settledD [OF t]]], goal_cases)
    case (1 r t')
    from both [OF settled_trans [OF t 1], of "snd r"] show ?case
      by (simp add: split_def)
  next
    case (2 e t')
    show ?case
      by (rule err [OF settled_trans [OF t 2]])
  qed
qed

lemma rename_ok:
  assumes inv: "vfs_inv V G x n s"
  shows "wp (vfs_rename V p q) (\<lambda>_. settled V G s x n) (\<lambda>_. settled V G s x n) s"
  unfolding vfs_rename_def wp_kbind [of "vfs_lookparent V p (NAME_MAX + 1)"]
proof (rule wp_mono [OF lookparent_ok [OF inv]], goal_cases)
  case (1 r t)
  obtain dir name where r: "r = (dir, name)"
    by (cases r)
  show ?case
    using 1 unfolding r prod.case fst_conv by (rule cross_ok [OF inv]) (rule plain_op.intros)
qed

lemma link_ok:
  assumes inv: "vfs_inv V G x n s"
  shows "wp (vfs_link V p q) (\<lambda>_. settled V G s x n) (\<lambda>_. settled V G s x n) s"
  unfolding vfs_link_def wp_kbind [of "vfs_lookup V p"]
proof (rule wp_mono [OF lookup_ok [OF inv]], goal_cases)
  case (1 r t)
  show ?case
    by (rule cross_ok [OF inv 1]) (rule plain_op.intros)
qed

lemma readlink_ok:
  assumes inv: "vfs_inv V G x n s"
  shows "wp (vfs_readlink V p) (\<lambda>_. settled V G s x n) (\<lambda>_. settled V G s x n) s"
  unfolding vfs_readlink_def wp_kbind [of "vfs_lookup V p"]
proof (rule wp_mono [OF lookup_ok [OF inv]], goal_cases)
  case (1 v t)
  have "plain_op V G (vfs_world t) (vop_readlink V v)"
    by (rule plain_op.intros) (use inv_usable [OF settledD [OF 1]] in simp)
  then have "wp (on_world (vop_readlink V v)) (\<lambda>_. settled V G s (plus1 x v) n) (\<lambda>_. settled V G s (plus1 x v) n) t"
    by (rule wp_mono [OF on_plain [OF settledD [OF 1]]]) (auto intro: settled_trans [OF 1])
  from then_decref [OF this] show ?case
    unfolding ret_unit .
qed

lemma drop_old_ok:
  assumes "settled V G s (case old of None \<Rightarrow> x | Some v \<Rightarrow> plus1 x v) n t"
  shows "wp (drop_old V old) (\<lambda>_. settled V G s x n) (\<lambda>_ _. False) t"
proof (cases old)
  case None
  then show ?thesis
    using assms by (simp add: drop_old_def wp_fun)
next
  case (Some v)
  then have t: "settled V G s (plus1 x v) n t"
    using assms by simp
  show ?thesis
    unfolding drop_old_def Some option.case
    by (rule wp_mono [OF on_decref [OF settledD [OF t]]]) (auto intro: settled_trans [OF t])
qed

text \<open>The current directory or the boot file system takes over a reference, and the one it had is free.\<close>

lemma inv_new_cwd:
  assumes "vfs_inv V G (plus1 x v) n s" "vn_fs V v (vfs_world s) \<noteq> None"
  shows "vfs_inv V G (case p_cwd s of None \<Rightarrow> x | Some u \<Rightarrow> plus1 x u) n (s\<lparr>p_cwd := Some v\<rparr>)"
  using assms by (auto simp: vfs_inv_def holds_def plus1_def split: option.split)

lemma inv_no_cwd:
  assumes "vfs_inv V G x n s"
  shows "vfs_inv V G (case p_cwd s of None \<Rightarrow> x | Some u \<Rightarrow> plus1 x u) n (s\<lparr>p_cwd := None\<rparr>)"
  using assms by (auto simp: vfs_inv_def holds_def plus1_def split: option.split)

lemma inv_new_boot:
  assumes "vfs_inv V G (case b of None \<Rightarrow> x | Some v \<Rightarrow> plus1 x v) n s"
  shows "vfs_inv V G (case bootfs_vnode s of None \<Rightarrow> x | Some u \<Rightarrow> plus1 x u) n (s\<lparr>bootfs_vnode := b\<rparr>)"
  using assms by (auto simp: vfs_inv_def holds_def plus1_def split: option.split_asm option.split)

lemma change_bootfs_ok:
  assumes "settled V G s (case b of None \<Rightarrow> x | Some v \<Rightarrow> plus1 x v) n t"
  shows "wp (change_bootfs V b) (\<lambda>_. settled V G s x n) (\<lambda>_ _. False) t"
proof -
  have "settled V G s (case bootfs_vnode t of None \<Rightarrow> x | Some u \<Rightarrow> plus1 x u) n (t\<lparr>bootfs_vnode := b\<rparr>)"
    using assms inv_new_boot unfolding settled_def by fastforce
  then show ?thesis
    unfolding change_bootfs_def by (simp add: wp_simps drop_old_ok)
qed

lemma clearcurdir_ok:
  assumes inv: "vfs_inv V G x n s"
  shows "wp (vfs_clearcurdir V) (\<lambda>_. settled V G s x n) (\<lambda>_. settled V G s x n) s"
proof -
  have "settled V G s (case p_cwd s of None \<Rightarrow> x | Some u \<Rightarrow> plus1 x u) n (s\<lparr>p_cwd := None\<rparr>)"
    using inv_no_cwd [OF inv] by (simp add: settled_def)
  from drop_old_ok [OF this] have "wp (drop_old V (p_cwd s)) (\<lambda>_. settled V G s x n) (\<lambda>_. settled V G s x n) (s\<lparr>p_cwd := None\<rparr>)"
    by (rule wp_mono) simp_all
  then show ?thesis
    unfolding vfs_clearcurdir_def by (simp add: wp_simps)
qed

lemma setcurdir_ok:
  assumes t: "settled V G s (plus1 x v) n t"
  shows "wp (vfs_setcurdir V v) (\<lambda>_. settled V G s (plus1 x v) n) (\<lambda>_. settled V G s (plus1 x v) n) t"
proof -
  note inv = settledD [OF t]
  have refs: "0 < g_refs G (vfs_world t) v" "usable G (vfs_world t) v"
    using inv_refs [OF inv] inv_usable [OF inv] by simp_all
  have "wp (kbind (on_world (vop_incref V v)) (\<lambda>_. kbind (kget p_cwd) (\<lambda>old. kbind (kmod (\<lambda>s. s\<lparr>p_cwd := Some v\<rparr>)) (\<lambda>_. drop_old V old))))
      (\<lambda>_. settled V G s (plus1 x v) n) E t'"
    if t': "settled V G s (plus1 x v) n t'" "vn_fs V v (vfs_world t') \<noteq> None" for t' E
    unfolding wp_kbind
  proof (rule wp_mono [OF on_incref [OF settledD [OF t'(1)] inv_usable [OF settledD [OF t'(1)]]]], goal_cases)
    case (2 u t'')
    then have t'': "settled V G s (plus1 (plus1 x v) v) n t''" "vn_fs V v (vfs_world t'') \<noteq> None"
      using settled_trans [OF t'(1)] t'(2) inv_refs [OF settledD [OF t'(1)], of v] by auto
    have "settled V G s (case p_cwd t'' of None \<Rightarrow> plus1 x v | Some u \<Rightarrow> plus1 (plus1 x v) u) n (t''\<lparr>p_cwd := Some v\<rparr>)"
      using t'' inv_new_cwd [OF settledD [OF t''(1)] t''(2)] by (simp add: settled_def)
    from drop_old_ok [OF this] have "wp (drop_old V (p_cwd t'')) (\<lambda>_. settled V G s (plus1 x v) n) E (t''\<lparr>p_cwd := Some v\<rparr>)"
      by (rule wp_mono) simp_all
    then show ?case
      by (simp add: wp_simps)
  qed simp_all
  note dir = this
  show ?thesis
    unfolding vfs_setcurdir_def wp_kbind [of "on_world (vop_gettype V v)"] wp_on_world
  proof (rule wp_mono [OF gettype [OF inv_good [OF inv] refs(2)]], goal_cases)
    case (1 ty w')
    have st: "settled V G s (plus1 x v) n (t\<lparr>vfs_world := w'\<rparr>)"
      using settled_trans [OF t settled_world [OF inv_stays [OF inv conjunct1 [OF 1]]]] .
    have "vn_fs V v w' = vn_fs V v (vfs_world t)"
      using 1 refs(1) unfolding becomes_def by simp
    then show ?case
      using 1 st dir [OF st] by (simp add: wp_kerr_fun)
  next
    case (2 e w')
    then show ?case
      using settled_trans [OF t settled_world [OF inv_stays [OF inv 2]]] by simp
  qed
qed

lemma chdir_ok:
  assumes inv: "vfs_inv V G x n s"
  shows "wp (vfs_chdir V path) (\<lambda>_. settled V G s x n) (\<lambda>_. settled V G s x n) s"
  unfolding vfs_chdir_def wp_kbind [of "vfs_lookup V path"]
proof (rule wp_mono [OF lookup_ok [OF inv]], goal_cases)
  case (1 v t)
  from then_decref [OF setcurdir_ok [OF 1]] show ?case
    unfolding ret_unit .
qed

lemma setbootfs_ok:
  assumes inv: "vfs_inv V G x n s"
  shows "wp (vfs_setbootfs V name) (\<lambda>_. settled V G s x n) (\<lambda>_. settled V G s x n) s"
  unfolding vfs_setbootfs_def Let_def
proof (rule settled_locked, goal_cases)
  case 1
  let ?s = "s\<lparr>vfs_depth := Suc (vfs_depth s)\<rparr>"
  have inv': "vfs_inv V G x n ?s"
    using inv by simp
  have boot: "wp (change_bootfs V (Some v)) (\<lambda>_. settled V G ?s x n) (\<lambda>_. settled V G ?s x n) t" if "settled V G ?s (plus1 x v) n t" for v t
    by (rule wp_mono [OF change_bootfs_ok]) (use that in simp_all)
  have "wp (kbind (vfs_getcurdir V) (\<lambda>newguy. change_bootfs V (Some newguy))) (\<lambda>_. settled V G ?s x n) (\<lambda>_. settled V G ?s x n) t"
    if t: "settled V G ?s x n t" for t
    unfolding wp_kbind by (rule wp_mono [OF getcurdir_ok [OF settledD [OF t]]]) (auto intro: boot settled_trans [OF t])
  then have "wp (kbind (vfs_chdir V tmp) (\<lambda>_. kbind (vfs_getcurdir V) (\<lambda>newguy. change_bootfs V (Some newguy))))
      (\<lambda>_. settled V G ?s x n) (\<lambda>_. settled V G ?s x n) ?s" for tmp
    unfolding wp_kbind [of "vfs_chdir V tmp"] by (intro wp_mono [OF chdir_ok [OF inv']])
  then show ?case
    using settled_refl [OF inv'] by (simp add: wp_kerr_fun)
qed

lemma clearbootfs_ok:
  assumes inv: "vfs_inv V G x n s"
  shows "wp (vfs_clearbootfs V) (\<lambda>_. settled V G s x n) (\<lambda>_. settled V G s x n) s"
  unfolding vfs_clearbootfs_def
proof (rule settled_locked, goal_cases)
  case 1
  show ?case
    by (rule wp_mono [OF change_bootfs_ok]) (use inv in \<open>simp_all add: settled_refl\<close>)
qed

lemma on_world_kbind: "on_world (kbind m f) = kbind (on_world m) (\<lambda>x. on_world (f x))"
  by (rule ext) (simp add: on_world_def kbind_def split: kres.split)

lemma getdevname_found: "\<exists>kd \<in> set ds. kd_fs kd = Some f \<Longrightarrow> \<exists>name. vfs_getdevname_loop f ds = Some name"
  by (induction ds) auto

lemma put_name_ok:
  assumes t: "settled V G s (plus1 x v) n t"
  shows "wp (on_world (kbind (uio_put V a) (\<lambda>_. kbind (uio_put V b) (\<lambda>_. vop_namefile V v))))
    (\<lambda>_. settled V G s (plus1 x v) n) (\<lambda>_. settled V G s (plus1 x v) n) t"
proof -
  have plain: "wp (on_world m) (\<lambda>_. settled V G s (plus1 x v) n) (\<lambda>_. settled V G s (plus1 x v) n) t'"
    if t': "settled V G s (plus1 x v) n t'" and "\<And>w. usable G w v \<Longrightarrow> plain_op V G w m" for t' m
    by (rule wp_mono [OF on_plain [OF settledD [OF t'] that(2) [OF inv_usable [OF settledD [OF t']]]]]) (auto intro: settled_trans [OF t'])
  have name: "wp (on_world (vop_namefile V v)) (\<lambda>_. settled V G s (plus1 x v) n) (\<lambda>_. settled V G s (plus1 x v) n) t'"
    if "settled V G s (plus1 x v) n t'" for t'
    by (rule plain [OF that]) (rule plain_op.intros)
  have put: "wp (on_world (uio_put V c)) (\<lambda>_. settled V G s (plus1 x v) n) (\<lambda>_. settled V G s (plus1 x v) n) t'"
    if "settled V G s (plus1 x v) n t'" for c t'
    by (rule plain [OF that]) (rule plain_op.intros)
  have "wp (kbind (on_world (uio_put V b)) (\<lambda>_. on_world (vop_namefile V v))) (\<lambda>_. settled V G s (plus1 x v) n) (\<lambda>_. settled V G s (plus1 x v) n) t'"
    if "settled V G s (plus1 x v) n t'" for t'
    unfolding wp_kbind by (rule wp_mono [OF put [OF that]]) (auto intro: name)
  then show ?thesis
    unfolding on_world_kbind wp_kbind [of "on_world (uio_put V a)"] by (intro wp_mono [OF put [OF t]])
qed

lemma getcwd_ok:
  assumes inv: "vfs_inv V G x n s"
  shows "wp (vfs_getcwd V True) (\<lambda>_. settled V G s x n) (\<lambda>_. settled V G s x n) s"
  unfolding vfs_getcwd_def kassert_True wp_kbind [of "vfs_getcurdir V"]
proof (rule wp_mono [OF getcurdir_ok [OF inv]], goal_cases)
  case (1 v t)
  then obtain f where t: "settled V G s (plus1 x v) n t" and f: "vn_fs V v (vfs_world t) = Some f"
    by blast
  have "\<exists>kd \<in> set (knowndevs t). kd_fs kd = Some f"
    using inv_live(2) [OF settledD [OF t] inv_refs [OF settledD [OF t]] f] by simp
  then obtain dname where dname: "vfs_getdevname_loop f (knowndevs t) = Some dname"
    using getdevname_found by blast
  have out: "wp (kbind (ktry (on_world (kbind (uio_put V a) (\<lambda>_. kbind (uio_put V '':'') (\<lambda>_. vop_namefile V v))))) (\<lambda>result.
            kbind (on_world (vop_decref V v)) (\<lambda>_.
            case result of Inl e \<Rightarrow> kerr e | Inr _ \<Rightarrow> kret ())))
      (\<lambda>_. settled V G s x n) (\<lambda>_. settled V G s x n) t" for a
    using then_decref [OF put_name_ok [OF t]] unfolding ret_unit .
  have dev: "wp (locked (vfs_getdevname f)) (\<lambda>r t'. r = Some dname \<and> t' = t) E t" for E
    unfolding vfs_getdevname_def by (simp add: wp_simps dname)
  show ?case
  proof (cases "fsop_getvolname V f (vfs_world t)")
    case None
    show ?thesis
      unfolding wp_kbind_fun [of "kget _"] wp_kget_fun f None option.case wp_kbind_fun [of "locked _"]
      by (rule wp_mono [OF dev]) (use out in auto)
  next
    case (Some a)
    show ?thesis
      unfolding wp_kbind_fun [of "kget _"] wp_kget_fun f Some option.case wp_kbind_fun [of "kret _"] wp_kret_fun by (rule out)
  qed
qed simp

lemma sync_all_ok:
  assumes "vfs_inv V G x n s" "\<forall>kd \<in> set ds. \<forall>f. kd_fs kd = Some f \<longrightarrow> g_live G (vfs_world s) f"
  shows "wp (vfs_sync_all V ds) (\<lambda>_. settled V G s x n) (\<lambda>_. settled V G s x n) s"
  using assms
proof (induction ds arbitrary: s)
  case Nil
  then show ?case
    by (simp add: wp_simps settled_refl)
next
  case (Cons d ds)
  show ?case
  proof (cases "kd_fs d")
    case None
    then show ?thesis
      using Cons by (simp add: wp_simps)
  next
    case (Some f)
    have live: "g_live G (vfs_world s) f"
      using Cons.prems(2) Some by simp
    have rest: "wp (vfs_sync_all V ds) (\<lambda>_. settled V G s x n) (\<lambda>_. settled V G s x n) (s\<lparr>vfs_world := w\<rparr>)"
      if w: "stays V G (vfs_world s) w" for w
    proof -
      have t: "settled V G s x n (s\<lparr>vfs_world := w\<rparr>)"
        by (rule settled_world [OF inv_stays [OF Cons.prems(1) w]])
      have "\<forall>kd \<in> set ds. \<forall>f. kd_fs kd = Some f \<longrightarrow> g_live G w f"
        using Cons.prems(2) w unfolding becomes_def by simp
      then have "wp (vfs_sync_all V ds) (\<lambda>_. settled V G (s\<lparr>vfs_world := w\<rparr>) x n) (\<lambda>_. settled V G (s\<lparr>vfs_world := w\<rparr>) x n) (s\<lparr>vfs_world := w\<rparr>)"
        by (intro Cons.IH [OF settledD [OF t]]) simp
      then show ?thesis
        by (rule wp_mono) (auto intro: settled_trans [OF t])
    qed
    have "wp (fsop_sync V f) (\<lambda>_. stays V G (vfs_world s)) (\<lambda>_. stays V G (vfs_world s)) (vfs_world s)"
      by (rule plain [OF inv_good [OF Cons.prems(1)] plain_op.intros(11) [OF live]])
    then have "wp (fsop_sync V f) (\<lambda>_ w. wp (vfs_sync_all V ds) (\<lambda>_. settled V G s x n) (\<lambda>_. settled V G s x n) (s\<lparr>vfs_world := w\<rparr>))
        (\<lambda>_ w. wp (vfs_sync_all V ds) (\<lambda>_. settled V G s x n) (\<lambda>_. settled V G s x n) (s\<lparr>vfs_world := w\<rparr>)) (vfs_world s)"
      by (rule wp_mono) (use rest in blast)+
    then show ?thesis
      using Some by (simp add: wp_fun wp_on_world)
  qed
qed

lemma sync_ok:
  assumes inv: "vfs_inv V G x n s"
  shows "wp (vfs_sync V) (\<lambda>_. settled V G s x n) (\<lambda>_. settled V G s x n) s"
  unfolding vfs_sync_def
proof (rule settled_locked, goal_cases)
  case 1
  show ?case
    unfolding wp_fun by (rule sync_all_ok) (use inv in \<open>auto simp: vfs_inv_def\<close>)
qed

end

lemma inv_table_live:
  assumes inv: "vfs_inv V G x n s"
    and fs: "\<And>v f. 0 < g_refs G (vfs_world s) v \<Longrightarrow> vn_fs V v (vfs_world s) = Some f \<Longrightarrow> \<exists>kd \<in> set ds. kd_fs kd = Some f"
    and kd: "\<And>kd. kd \<in> set ds \<Longrightarrow> kd_wf kd \<and> (kd_device kd \<noteq> None \<longrightarrow> P (vfs_world s) (kd_vnode kd)) \<and> (\<forall>f. kd_fs kd = Some f \<longrightarrow> L (vfs_world s) f)"
    and dist: "\<And>i j. i < length ds \<Longrightarrow> j < length ds \<Longrightarrow> i \<noteq> j \<Longrightarrow> kd_fs (ds ! i) \<noteq> None \<Longrightarrow> kd_fs (ds ! i) \<noteq> kd_fs (ds ! j)"
  shows "vfs_inv V (G\<lparr>g_pin := P, g_live := L\<rparr>) x n (s\<lparr>knowndevs := ds\<rparr>)"
proof -
  have "g_good G (vfs_world s) \<and> g_opens G (vfs_world s) = n \<and>
    (\<forall>v. g_refs G (vfs_world s) v = holds (p_cwd s) v + holds (bootfs_vnode s) v + n v + x v) \<and>
    (\<forall>v. p_cwd s = Some v \<longrightarrow> vn_fs V v (vfs_world s) \<noteq> None)"
    using inv unfolding vfs_inv_def by blast
  moreover have sel: "knowndevs (s\<lparr>knowndevs := ds\<rparr>) = ds" "vfs_world (s\<lparr>knowndevs := ds\<rparr>) = vfs_world s"
      "p_cwd (s\<lparr>knowndevs := ds\<rparr>) = p_cwd s" "bootfs_vnode (s\<lparr>knowndevs := ds\<rparr>) = bootfs_vnode s"
      "g_live (G\<lparr>g_pin := P, g_live := L\<rparr>) = L" "g_good (G\<lparr>g_pin := P, g_live := L\<rparr>) = g_good G" "g_refs (G\<lparr>g_pin := P, g_live := L\<rparr>) = g_refs G"
      "g_opens (G\<lparr>g_pin := P, g_live := L\<rparr>) = g_opens G" "g_pin (G\<lparr>g_pin := P, g_live := L\<rparr>) = P"
    by simp_all
  ultimately show ?thesis
    using fs kd dist unfolding vfs_inv_def sel by blast
qed

lemma inv_table:
  assumes inv: "vfs_inv V G x n s"
    and fs: "\<And>v f. 0 < g_refs G (vfs_world s) v \<Longrightarrow> vn_fs V v (vfs_world s) = Some f \<Longrightarrow> \<exists>kd \<in> set ds. kd_fs kd = Some f"
    and kd: "\<And>kd. kd \<in> set ds \<Longrightarrow> kd_wf kd \<and> (kd_device kd \<noteq> None \<longrightarrow> g_pin G (vfs_world s) (kd_vnode kd)) \<and> (\<forall>f. kd_fs kd = Some f \<longrightarrow> g_live G (vfs_world s) f)"
    and dist: "\<And>i j. i < length ds \<Longrightarrow> j < length ds \<Longrightarrow> i \<noteq> j \<Longrightarrow> kd_fs (ds ! i) \<noteq> None \<Longrightarrow> kd_fs (ds ! i) \<noteq> kd_fs (ds ! j)"
  shows "vfs_inv V G x n (s\<lparr>knowndevs := ds\<rparr>)"
  using inv_table_live [where P = "g_pin G" and L = "g_live G", OF inv fs kd dist] by simp

lemma inv_weaken:
  assumes "vfs_inv V (G\<lparr>g_pin := P, g_live := L\<rparr>) x n s"
    and "\<And>v. P (vfs_world s) v \<Longrightarrow> g_pin G (vfs_world s) v" "\<And>f. L (vfs_world s) f \<Longrightarrow> g_live G (vfs_world s) f"
  shows "vfs_inv V G x n s"
  using assms unfolding vfs_inv_def by simp

lemma inv_add:
  assumes inv: "vfs_inv V G x n s" and kd: "kd_wf kd" "kd_device kd \<noteq> None \<longrightarrow> g_pin G (vfs_world s) (kd_vnode kd)"
    and fs: "\<And>f. kd_fs kd = Some f \<Longrightarrow> g_live G (vfs_world s) f \<and> (\<forall>kd' \<in> set (knowndevs s). kd_fs kd' \<noteq> Some f)"
  shows "vfs_inv V G x n (s\<lparr>knowndevs := knowndevs s @ [kd]\<rparr>)"
proof -
  have "kd_fs ((knowndevs s @ [kd]) ! i) \<noteq> kd_fs ((knowndevs s @ [kd]) ! j)"
    if "i < Suc (length (knowndevs s))" "j < Suc (length (knowndevs s))" "i \<noteq> j" "kd_fs ((knowndevs s @ [kd]) ! i) \<noteq> None" for i j
  proof -
    note ij = that
    have new: "kd_fs (knowndevs s ! k) \<noteq> kd_fs kd" if "k < length (knowndevs s)" "kd_fs kd \<noteq> None" for k
      using that fs nth_mem [OF that(1)] by fastforce
    have old: "kd_fs (knowndevs s ! i) \<noteq> kd_fs (knowndevs s ! j)"
      if "i < length (knowndevs s)" "j < length (knowndevs s)" "i \<noteq> j" "kd_fs (knowndevs s ! i) \<noteq> None" for i j
      using inv that by (simp add: vfs_inv_def)
    consider "i = length (knowndevs s)" "j < length (knowndevs s)" | "i < length (knowndevs s)" "j = length (knowndevs s)"
      | "i < length (knowndevs s)" "j < length (knowndevs s)"
      using ij(1-3) by linarith
    then show ?thesis
    proof cases
      case 1
      then show ?thesis
        using new [of j] ij(4) by (auto simp: nth_append)
    next
      case 2
      then show ?thesis
        using new [of i] ij(4) by (auto simp: nth_append)
    next
      case 3
      then show ?thesis
        using old [of i j] ij(3,4) by (simp add: nth_append)
    qed
  qed
  then show ?thesis
    using inv kd fs unfolding vfs_inv_def by auto
qed

lemma inv_set_fs:
  assumes inv: "vfs_inv V G x n s" and i: "i < length (knowndevs s)" "kd_fs (knowndevs s ! i) = None"
    and f: "g_live G (vfs_world s) f" "\<forall>kd' \<in> set (knowndevs s). kd_fs kd' \<noteq> Some f"
  shows "vfs_inv V G x n (s\<lparr>knowndevs := (knowndevs s)[i := (knowndevs s ! i)\<lparr>kd_fs := Some f\<rparr>]\<rparr>)"
proof -
  let ?ds = "knowndevs s" and ?ds' = "(knowndevs s)[i := (knowndevs s ! i)\<lparr>kd_fs := Some f\<rparr>]"
  have at: "kd_fs (?ds' ! j) = (if j = i then Some f else kd_fs (?ds ! j))" if "j < length ?ds" for j
    using that by (simp add: nth_list_update)
  have dist: "kd_fs (?ds' ! k) \<noteq> kd_fs (?ds' ! j)" if "k < length ?ds" "j < length ?ds" "k \<noteq> j" "kd_fs (?ds' ! k) \<noteq> None" for j k
    using that inv f(2) nth_mem [of j ?ds] nth_mem [of k ?ds] unfolding vfs_inv_def at [OF that(1)] at [OF that(2)] by auto metis+
  have keep: "\<exists>kd \<in> set ?ds'. kd_fs kd = Some g" if kd: "kd \<in> set ?ds" "kd_fs kd = Some g" for kd g
  proof -
    obtain j where j: "j < length ?ds" "?ds ! j = kd"
      using kd(1) by (auto simp: in_set_conv_nth)
    then have "kd_fs (?ds' ! j) = Some g"
      using kd(2) i(2) at [OF j(1)] by auto
    then show ?thesis
      using j(1) by (metis length_list_update nth_mem)
  qed
  have each: "kd_wf kd \<and> (kd_device kd \<noteq> None \<longrightarrow> g_pin G (vfs_world s) (kd_vnode kd)) \<and> (\<forall>g. kd_fs kd = Some g \<longrightarrow> g_live G (vfs_world s) g)" if "kd \<in> set ?ds'" for kd
  proof -
    have old: "kd_wf kd \<and> (kd_device kd \<noteq> None \<longrightarrow> g_pin G (vfs_world s) (kd_vnode kd)) \<and> (\<forall>g. kd_fs kd = Some g \<longrightarrow> g_live G (vfs_world s) g)" if "kd \<in> set ?ds" for kd
      using inv that unfolding vfs_inv_def by blast
    from that consider "kd \<in> set ?ds" | "kd = (?ds ! i)\<lparr>kd_fs := Some f\<rparr>"
      using set_update_subset_insert by fastforce
    then show ?thesis
      using old old [OF nth_mem [OF i(1)]] f(1) by cases (auto simp: kd_wf_def)
  qed
  show ?thesis
  proof (rule inv_table [OF inv])
    show "\<exists>kd \<in> set ?ds'. kd_fs kd = Some g" if "0 < g_refs G (vfs_world s) v" "vn_fs V v (vfs_world s) = Some g" for v g
      using inv_live(2) [OF inv that] keep by blast
  qed (use dist each in simp_all)
qed

lemma inv_distinct:
  assumes "vfs_inv V G x n s" "i < length (knowndevs s)" "kd_fs (knowndevs s ! i) = Some f" "j < length (knowndevs s)" "j \<noteq> i"
  shows "kd_fs (knowndevs s ! j) \<noteq> Some f"
proof -
  have "\<forall>i < length (knowndevs s). \<forall>j < length (knowndevs s). i \<noteq> j \<longrightarrow>
      kd_fs (knowndevs s ! i) \<noteq> None \<longrightarrow> kd_fs (knowndevs s ! i) \<noteq> kd_fs (knowndevs s ! j)"
    using assms(1) unfolding vfs_inv_def by blast
  then show ?thesis
    using assms(2-) by (metis option.distinct(1))
qed

lemma inv_drop_fs:
  assumes inv: "vfs_inv V G x n s" and i: "i < length (knowndevs s)" "kd_fs (knowndevs s ! i) = Some f" "kd_rawname (knowndevs s ! i) \<noteq> None"
    and w': "becomes V (G\<lparr>g_live := \<lambda>w g. g \<noteq> f \<and> g_live G w g\<rparr>) (g_refs G (vfs_world s)) (g_opens G (vfs_world s)) (vfs_world s) w'"
    and unref: "\<forall>v. 0 < g_refs G (vfs_world s) v \<longrightarrow> vn_fs V v (vfs_world s) \<noteq> Some f"
  shows "vfs_inv V G x n (s\<lparr>vfs_world := w', knowndevs := (knowndevs s)[i := (knowndevs s ! i)\<lparr>kd_fs := None\<rparr>]\<rparr>)"
proof -
  let ?ds = "knowndevs s" and ?ds' = "(knowndevs s)[i := (knowndevs s ! i)\<lparr>kd_fs := None\<rparr>]"
  let ?G = "G\<lparr>g_pin := g_pin G, g_live := \<lambda>w g. g \<noteq> f \<and> g_live G w g\<rparr>"
  have at: "?ds' ! j = (if j = i then (?ds ! i)\<lparr>kd_fs := None\<rparr> else ?ds ! j)" if "j < length ?ds" for j
    using that by (simp add: nth_list_update)
  have old: "kd_wf (?ds ! j) \<and> (kd_device (?ds ! j) \<noteq> None \<longrightarrow> g_pin G (vfs_world s) (kd_vnode (?ds ! j))) \<and> (\<forall>g. kd_fs (?ds ! j) = Some g \<longrightarrow> g_live G (vfs_world s) g)"
    if "j < length ?ds" for j
    using inv nth_mem [OF that] unfolding vfs_inv_def by blast
  have "vfs_inv V ?G x n (s\<lparr>knowndevs := ?ds'\<rparr>)"
  proof (rule inv_table_live [OF inv], goal_cases)
    case (1 v g)
    obtain j where j: "j < length ?ds" "kd_fs (?ds ! j) = Some g"
      using inv_live(2) [OF inv 1] by (auto simp: in_set_conv_nth)
    have "g \<noteq> f"
      using 1 unref by blast
    then have "?ds' ! j = ?ds ! j"
      using at [OF j(1)] j(2) i(2) by auto
    then show ?case
      using j by (metis length_list_update nth_mem)
  next
    case (2 kd)
    then obtain j where j: "j < length ?ds" "?ds' ! j = kd"
      by (auto simp: in_set_conv_nth)
    then show ?case
      using old [OF j(1)] at [OF j(1)] inv_distinct [OF inv i(1,2) j(1)] i(3) by (auto simp: kd_wf_def split: if_splits)
  next
    case (3 k j)
    then have kj: "k < length ?ds" "j < length ?ds" "k \<noteq> i" "kd_fs (?ds ! k) \<noteq> None"
      using at by (auto split: if_splits)
    then obtain g where g: "kd_fs (?ds ! k) = Some g"
      by blast
    show ?case
      using inv_distinct [OF inv kj(1) g kj(2)] g at [OF kj(1)] at [OF kj(2)] kj(3) 3(3) by auto
  qed
  moreover have "becomes V ?G (g_refs ?G (vfs_world s)) (g_opens ?G (vfs_world s)) (vfs_world s) w'"
    using w' by simp
  ultimately have "vfs_inv V ?G x n (s\<lparr>knowndevs := ?ds', vfs_world := w'\<rparr>)"
    using inv_stays [of V ?G x n "s\<lparr>knowndevs := ?ds'\<rparr>" w'] by simp
  moreover have "s\<lparr>knowndevs := ?ds', vfs_world := w'\<rparr> = s\<lparr>vfs_world := w', knowndevs := ?ds'\<rparr>"
    by (rule vfs.equality) simp_all
  ultimately have "vfs_inv V ?G x n (s\<lparr>vfs_world := w', knowndevs := ?ds'\<rparr>)"
    by (simp only:)
  then show ?thesis
    by (rule inv_weaken) simp_all
qed

lemma inv_free:
  assumes inv: "vfs_inv V G x n s" and v: "\<forall>kd \<in> set (knowndevs s). kd_device kd \<noteq> None \<longrightarrow> kd_vnode kd \<noteq> v"
    and w': "becomes V (G\<lparr>g_pin := \<lambda>w u. u \<noteq> v \<and> g_pin G w u\<rparr>) (g_refs G (vfs_world s)) (g_opens G (vfs_world s)) (vfs_world s) w'"
  shows "vfs_inv V G x n (s\<lparr>vfs_world := w'\<rparr>)"
proof -
  let ?G = "G\<lparr>g_pin := \<lambda>w u. u \<noteq> v \<and> g_pin G w u, g_live := g_live G\<rparr>"
  have "vfs_inv V ?G x n (s\<lparr>knowndevs := knowndevs s\<rparr>)"
    by (rule inv_table_live [OF inv]) (use inv v in \<open>auto simp: vfs_inv_def\<close>)
  moreover have "becomes V ?G (g_refs ?G (vfs_world s)) (g_opens ?G (vfs_world s)) (vfs_world s) w'"
    using w' by simp
  ultimately have "vfs_inv V ?G x n (s\<lparr>vfs_world := w'\<rparr>)"
    using inv_stays [of V ?G x n s w'] by simp
  then show ?thesis
    by (rule inv_weaken) simp_all
qed

lemma findmount_loop_at:
  "findmount_loop name ds k = Some i \<Longrightarrow> \<exists>j < length ds. i = k + j \<and> kd_rawname (ds ! j) \<noteq> None \<and> kd_name (ds ! j) = name"
proof (induction ds arbitrary: k)
  case (Cons d ds)
  show ?case
  proof (cases "kd_rawname d \<noteq> None \<and> name = kd_name d")
    case True
    with Cons.prems show ?thesis
      by auto
  next
    case False
    then have "findmount_loop name ds (Suc k) = Some i"
      using Cons.prems by (auto split: if_splits)
    from Cons.IH [OF this] obtain j where "j < length ds" "i = Suc k + j" "kd_rawname (ds ! j) \<noteq> None" "kd_name (ds ! j) = name"
      by blast
    then show ?thesis
      by (intro exI [of _ "Suc j"]) auto
  qed
qed simp

lemma findmount_ok:
  assumes "0 < vfs_depth s" "settled V G s0 x n s"
  shows "wp (findmount name) (\<lambda>i t. t = s \<and> i < length (knowndevs s) \<and> kd_rawname (knowndevs s ! i) \<noteq> None) (\<lambda>_. settled V G s0 x n) s"
  using assms findmount_loop_at [of name "knowndevs s" 0]
  by (auto simp: findmount_def wp_simps wp_fun split: option.split)

context vnode_layer
begin

lemma set_number_ok:
  assumes "settled V G s x n t"
  shows "wp (case dev of None \<Rightarrow> kret () | Some d \<Rightarrow> on_world (dev_setnumber V d k)) (\<lambda>_. settled V G s x n) (\<lambda>_. settled V G s x n) t"
proof -
  have "wp (on_world (dev_setnumber V d k)) (\<lambda>_. settled V G s x n) (\<lambda>_. settled V G s x n) t" for d
    by (rule wp_mono [OF on_plain [OF settledD [OF assms] plain_op.intros(12)]]) (auto intro: settled_trans [OF assms])
  then show ?thesis
    using assms by (auto simp: wp_fun split: option.split)
qed

lemma doadd_entry_ok:
  assumes st: "settled V G s x n t" and pin: "dev \<noteq> None \<longrightarrow> g_pin G (vfs_world t) v" and new: "\<forall>kd \<in> set (knowndevs t). kd_device kd \<noteq> None \<longrightarrow> kd_vnode kd \<noteq> v"
    and free: "wp (dev_free_vnode V v) (\<lambda>_. becomes V (G\<lparr>g_pin := \<lambda>w u. u \<noteq> v \<and> g_pin G w u\<rparr>) (g_refs G (vfs_world t)) (g_opens G (vfs_world t)) (vfs_world t))
      (\<lambda>_ _. False) (vfs_world t)" and depth: "0 < vfs_depth t"
    and wf: "kd_wf \<lparr>kd_name = name, kd_rawname = raw, kd_device = dev, kd_vnode = v, kd_fs = fs\<rparr>"
    and fs: "\<And>f. fs = Some f \<Longrightarrow> g_live G (vfs_world t) f \<and> (\<forall>kd \<in> set (knowndevs t). kd_fs kd \<noteq> Some f)"
  shows "wp (vfs_doadd_entry V kd_ok add_ok name raw dev fs v) (\<lambda>_. settled V G s x n) (\<lambda>_. settled V G s x n) t"
proof (cases kd_ok)
  case False
  have "wp (on_world (dev_free_vnode V v)) (\<lambda>_. settled V G s x n) (\<lambda>_. settled V G s x n) t"
    unfolding wp_on_world
    by (rule wp_mono [OF free])
      (auto intro: settled_trans [OF st settled_world [OF inv_free [OF settledD [OF st] new]]])
  with False show ?thesis
    by (simp add: vfs_doadd_entry_def wp_fun)
next
  case True
  let ?kd = "\<lparr>kd_name = name, kd_rawname = raw, kd_device = dev, kd_vnode = v, kd_fs = fs\<rparr>"
  have if_rest: "(if \<not> kd_ok then a else c) = c" for a c :: "('w vfs, unit) kfun"
    using True by simp
  have "vfs_inv V G x n (t\<lparr>knowndevs := knowndevs t @ [?kd]\<rparr>)"
    by (rule inv_add [OF settledD [OF st] wf]) (use pin fs in simp_all)
  then have "settled V G s x n (t\<lparr>knowndevs := knowndevs t @ [?kd]\<rparr>)"
    using st by (simp add: settled_def)
  note number = set_number_ok [OF this]
  have tail: "wp (if bad then kerr EEXIST else if \<not> add_ok then kerr ENOMEM
      else kbind (kget (\<lambda>s. length (knowndevs s))) (\<lambda>index.
        kbind (kmod (\<lambda>s. s\<lparr>knowndevs := knowndevs s @ [?kd]\<rparr>)) (\<lambda>_.
        case dev of None \<Rightarrow> kret () | Some d \<Rightarrow> on_world (dev_setnumber V d (Suc index)))))
      (\<lambda>_. settled V G s x n) (\<lambda>_. settled V G s x n) t" for bad
    using number st by (cases bad; cases add_ok) (simp_all only: wp_fun if_True if_False simp_thms)
  have vol: "wp (case fs of None \<Rightarrow> kret None | Some f \<Rightarrow> kget (\<lambda>s. fsop_getvolname V f (vfs_world s))) Q E t =
      Q (case fs of None \<Rightarrow> None | Some f \<Rightarrow> fsop_getvolname V f (vfs_world t)) t" for Q E
    by (simp add: wp_simps split: option.split)
  have bad: "wp (badnames V (Some name) raw vol) Q E t = Q (badnames_loop V (vfs_world t) (Some name) raw vol (knowndevs t)) t" for vol Q E
    using depth by (simp add: badnames_def wp_simps)
  show ?thesis
    unfolding vfs_doadd_entry_def if_rest wp_kbind_fun [of "case fs of None \<Rightarrow> _ | Some f \<Rightarrow> _ f"] vol wp_kbind_fun [of "badnames _ _ _ _"] bad
    by (rule tail)
qed

lemma doadd_ok:
  assumes inv: "vfs_inv V G x n s" and wf: "mountable \<longrightarrow> dev \<noteq> None" "fs = None \<longrightarrow> dev \<noteq> None"
    and fs: "\<And>f. fs = Some f \<Longrightarrow> g_live G (vfs_world s) f \<and> (\<forall>kd \<in> set (knowndevs s). kd_fs kd \<noteq> Some f)"
  shows "wp (vfs_doadd V name_ok raw_ok kd_ok add_ok dname mountable dev fs) (\<lambda>_. settled V G s x n) (\<lambda>_. settled V G s x n) s"
  unfolding vfs_doadd_def
proof (rule settled_locked, goal_cases)
  case 1
  let ?s = "s\<lparr>vfs_depth := Suc (vfs_depth s)\<rparr>" and ?raw = "if mountable then Some (mkrawname dname) else None"
  have inv': "vfs_inv V G x n ?s"
    using inv by simp
  have "wp (kbind (on_world (dev_create_vnode V dev)) (\<lambda>vnode.
      case vnode of None \<Rightarrow> kerr ENOMEM | Some v \<Rightarrow> vfs_doadd_entry V kd_ok add_ok dname ?raw dev fs v))
      (\<lambda>_. settled V G ?s x n) (\<lambda>_. settled V G ?s x n) ?s"
    unfolding wp_kbind_fun [of "on_world (dev_create_vnode V dev)"] wp_on_world
  proof (rule wp_mono [OF create_vnode [OF inv_good [OF inv']]], goal_cases)
    case (1 r w)
    then have w: "stays V G (vfs_world s) w"
      by simp
    have st: "settled V G ?s x n (?s\<lparr>vfs_world := w\<rparr>)"
      using settled_world [OF inv_stays [OF inv', of w]] w by simp
    show ?case
    proof (cases r)
      case None
      then show ?thesis
        using st by (simp add: wp_fun)
    next
      case (Some v)
      then have v: "\<not> usable G (vfs_world s) v" "dev \<noteq> None \<longrightarrow> g_pin G w v"
          "wp (dev_free_vnode V v) (\<lambda>_. becomes V (G\<lparr>g_pin := \<lambda>w u. u \<noteq> v \<and> g_pin G w u\<rparr>) (g_refs G w) (g_opens G w) w) (\<lambda>_ _. False) w"
        using 1 by simp_all
      have live: "g_live G w f" if "g_live G (vfs_world s) f" for f
        using w that unfolding becomes_def by blast
      show ?thesis
        unfolding Some option.case
        by (rule doadd_entry_ok [OF st]) (use v inv_pin [OF inv] fs wf live in \<open>auto simp: kd_wf_def\<close>)
    qed
  qed simp
  then show ?case
    using settled_refl [OF inv'] by (simp only: Let_def wp_if wp_kerr if_split simp_thms if_cancel)
qed

lemma mount_ok:
  assumes inv: "vfs_inv V G x n s"
  shows "wp (vfs_mount V name) (\<lambda>_. settled V G s x n) (\<lambda>_. settled V G s x n) s"
  unfolding vfs_mount_def
proof (rule settled_locked, goal_cases)
  case 1
  let ?s = "s\<lparr>vfs_depth := Suc (vfs_depth s)\<rparr>"
  have inv': "vfs_inv V G x n ?s"
    using inv by simp
  have mnt: "wp (on_world (mountfunc V d)) (\<lambda>f t. wp (set_kd_fs i (Some f)) (\<lambda>_. settled V G ?s x n) (\<lambda>_. settled V G ?s x n) t) (\<lambda>_. settled V G ?s x n) ?s"
    if i: "i < length (knowndevs ?s)" "kd_fs (knowndevs ?s ! i) = None" for i d
    unfolding wp_on_world
  proof (rule wp_mono [OF mount [OF inv_good [OF inv']]], goal_cases)
    case (1 f w)
    then have w: "stays V G (vfs_world ?s) w" and f: "\<not> g_live G (vfs_world s) f" "g_live G w f"
      by simp_all
    have t: "vfs_inv V G x n (?s\<lparr>vfs_world := w\<rparr>)"
      by (rule inv_stays [OF inv' w])
    have "\<forall>kd \<in> set (knowndevs s). kd_fs kd \<noteq> Some f"
      using inv f(1) unfolding vfs_inv_def by blast
    then have "vfs_inv V G x n (?s\<lparr>vfs_world := w, knowndevs := (knowndevs s)[i := (knowndevs s ! i)\<lparr>kd_fs := Some f\<rparr>]\<rparr>)"
      using inv_set_fs [OF t, of i f] i f(2) by simp
    then show ?case
      by (simp add: set_kd_fs_def wp_simps settled_def)
  qed (simp add: settled_world inv_stays [OF inv'])
  have dev: "\<exists>d. kd_device (knowndevs ?s ! i) = Some d" if "i < length (knowndevs ?s)" "kd_rawname (knowndevs ?s ! i) \<noteq> None" for i
    using inv that nth_mem [of i "knowndevs s"] unfolding vfs_inv_def kd_wf_def by auto
  show ?case
    unfolding wp_kbind_fun [of "findmount name"]
  proof (rule wp_mono [OF findmount_ok [OF _ settled_refl [OF inv']]], goal_cases)
    case (2 i t)
    then obtain d where "kd_device (knowndevs ?s ! i) = Some d"
      using dev by blast
    then show ?case
      using 2 mnt [of i d] settled_refl [OF inv'] by (auto simp: wp_fun wp_kassert)
  qed simp_all
qed

text \<open>Unmounting a file system and forgetting it.\<close>

lemma drop_fs_ok:
  assumes st: "settled V G s x n t" and i: "i < length (knowndevs t)" "kd_fs (knowndevs t ! i) = Some f" "kd_rawname (knowndevs t ! i) \<noteq> None"
  shows "wp (on_world (fsop_unmount V f))
    (\<lambda>_ u. settled V G s x n (u\<lparr>knowndevs := (knowndevs u)[i := (knowndevs u ! i)\<lparr>kd_fs := None\<rparr>]\<rparr>) \<and> knowndevs u = knowndevs t) (\<lambda>_ u. settled V G s x n u \<and> knowndevs u = knowndevs t) t"
  unfolding wp_on_world
proof -
  note inv = settledD [OF st]
  have live: "g_live G (vfs_world t) f"
    using inv i(2) nth_mem [OF i(1)] unfolding vfs_inv_def by blast
  show "wp (fsop_unmount V f)
    (\<lambda>_ w. settled V G s x n (t\<lparr>vfs_world := w, knowndevs := (knowndevs (t\<lparr>vfs_world := w\<rparr>))[i := (knowndevs (t\<lparr>vfs_world := w\<rparr>) ! i)\<lparr>kd_fs := None\<rparr>]\<rparr>) \<and>
       knowndevs (t\<lparr>vfs_world := w\<rparr>) = knowndevs t)
    (\<lambda>_ w. settled V G s x n (t\<lparr>vfs_world := w\<rparr>) \<and> knowndevs (t\<lparr>vfs_world := w\<rparr>) = knowndevs t) (vfs_world t)"
  proof (rule wp_mono [OF unmount [OF inv_good [OF inv] live]], goal_cases)
    case (1 u w)
    then show ?case
      using inv_drop_fs [OF inv i, of w] st by (simp add: settled_def)
  next
    case (2 e w)
    then show ?case
      using settled_trans [OF st settled_world [OF inv_stays [OF inv, of w]]] by simp
  qed
qed

lemma fs_sync_ok:
  assumes st: "settled V G s x n t" and f: "kd \<in> set (knowndevs t)" "kd_fs kd = Some f"
  shows "wp (on_world (fsop_sync V f)) (\<lambda>_ u. settled V G s x n u \<and> knowndevs u = knowndevs t) (\<lambda>_ u. settled V G s x n u \<and> knowndevs u = knowndevs t) t"
  unfolding wp_on_world
proof -
  note inv = settledD [OF st]
  have live: "g_live G (vfs_world t) f"
    using inv f unfolding vfs_inv_def by blast
  show "wp (fsop_sync V f) (\<lambda>_ w. settled V G s x n (t\<lparr>vfs_world := w\<rparr>) \<and> knowndevs (t\<lparr>vfs_world := w\<rparr>) = knowndevs t)
    (\<lambda>_ w. settled V G s x n (t\<lparr>vfs_world := w\<rparr>) \<and> knowndevs (t\<lparr>vfs_world := w\<rparr>) = knowndevs t) (vfs_world t)"
    by (rule wp_mono [OF plain [OF inv_good [OF inv] plain_op.intros(11) [OF live]]])
      (auto intro: settled_trans [OF st settled_world [OF inv_stays [OF inv]]])
qed

lemma unmount_ok:
  assumes inv: "vfs_inv V G x n s"
  shows "wp (vfs_unmount V name) (\<lambda>_. settled V G s x n) (\<lambda>_. settled V G s x n) s"
  unfolding vfs_unmount_def
proof (rule settled_locked, goal_cases)
  case 1
  let ?s = "s\<lparr>vfs_depth := Suc (vfs_depth s)\<rparr>"
  have st: "settled V G ?s x n ?s"
    using inv by (simp add: settled_refl)
  have dev: "kd_device (knowndevs ?s ! i) \<noteq> None" if "i < length (knowndevs ?s)" "kd_rawname (knowndevs ?s ! i) \<noteq> None" for i
    using inv that nth_mem [of i "knowndevs s"] unfolding vfs_inv_def kd_wf_def by auto
  have drop: "wp (on_world (fsop_unmount V f)) (\<lambda>_. wp (set_kd_fs i None) (\<lambda>_. settled V G ?s x n) (\<lambda>_. settled V G ?s x n)) (\<lambda>_. settled V G ?s x n) t"
    if "settled V G ?s x n t \<and> knowndevs t = knowndevs s" "i < length (knowndevs s)" "kd_fs (knowndevs s ! i) = Some f" "kd_rawname (knowndevs s ! i) \<noteq> None" for t i f
    by (rule wp_mono [OF drop_fs_ok [OF conjunct1 [OF that(1)], of i f]]) (use that in \<open>auto simp: set_kd_fs_def wp_fun\<close>)
  have both: "wp (on_world (fsop_sync V f)) (\<lambda>_. wp (on_world (fsop_unmount V f)) (\<lambda>_. wp (set_kd_fs i None) (\<lambda>_. settled V G ?s x n) (\<lambda>_. settled V G ?s x n)) (\<lambda>_. settled V G ?s x n))
      (\<lambda>_. settled V G ?s x n) ?s"
    if "i < length (knowndevs s)" "kd_fs (knowndevs s ! i) = Some f" "kd_rawname (knowndevs s ! i) \<noteq> None" for i f
    by (rule wp_mono [OF fs_sync_ok [OF st, of "knowndevs s ! i" f]]) (use that drop in simp_all)
  show ?case
    unfolding wp_kbind_fun [of "findmount name"]
  proof (rule wp_mono [OF findmount_ok [OF _ st]], goal_cases)
    case (2 i t)
    then show ?case
      using both [of i] dev [of i] st by (auto simp: wp_fun wp_kassert split: option.split)
  qed simp_all
qed

lemma unmount_loop_ok:
  assumes "settled V G s x n t" "\<forall>k \<in> set ks. k < length (knowndevs t)"
  shows "wp (vfs_unmount_loop V ks) (\<lambda>_. settled V G s x n) (\<lambda>_. settled V G s x n) t"
  using assms
proof (induction ks arbitrary: t)
  case Nil
  then show ?case
    by (simp add: wp_fun)
next
  case (Cons i ks)
  let ?Q = "\<lambda>_. settled V G s x n"
  have rest: "wp (vfs_unmount_loop V ks) ?Q ?Q u" if "settled V G s x n u" "length (knowndevs u) = length (knowndevs t)" for u
    by (rule Cons.IH [OF that(1)]) (use Cons.prems(2) that(2) in simp)
  show ?case
  proof (cases "kd_rawname (knowndevs t ! i) \<noteq> None \<and> kd_fs (knowndevs t ! i) \<noteq> None")
    case False
    then have "vfs_unmount_loop V (i # ks) t = vfs_unmount_loop V ks t"
      by (auto simp: kbind_def kget_def split: option.split)
    then show ?thesis
      using rest [OF Cons.prems(1) refl] by (simp add: wp_def)
  next
    case True
    then obtain r f where f: "kd_rawname (knowndevs t ! i) = Some r" "kd_fs (knowndevs t ! i) = Some f"
      by blast
    have i: "i < length (knowndevs t)"
      using Cons.prems(2) by simp
    let ?S = "\<lambda>u. settled V G s x n u \<and> knowndevs u = knowndevs t"
    have drop: "wp (kbind (ktry (on_world (fsop_unmount V f))) (\<lambda>r3. case r3 of Inl _ \<Rightarrow> vfs_unmount_loop V ks
        | Inr _ \<Rightarrow> kbind (set_kd_fs i None) (\<lambda>_. vfs_unmount_loop V ks))) ?Q ?Q u" if u: "?S u" for u
      unfolding wp_kbind_fun wp_ktry_fun sum.case
      by (rule wp_mono [OF drop_fs_ok [OF conjunct1 [OF u], of i f]])
        (use u i f rest in \<open>auto simp: set_kd_fs_def wp_kmod_fun\<close>)
    have sync: "wp (on_world (fsop_sync V f)) (\<lambda>_. ?S) (\<lambda>_. ?S) u" if u: "?S u" for u
      by (rule wp_mono [OF fs_sync_ok [OF conjunct1 [OF u], of "knowndevs t ! i" f]]) (use u i f in auto)
    have second: "wp (case r1 of Inr _ \<Rightarrow> kret r1 | Inl _ \<Rightarrow> ktry (on_world (fsop_sync V f))) (\<lambda>_. ?S) (\<lambda>_ _. False) u" if u: "?S u" for r1 u
      using sync [OF u] u by (cases r1) (simp_all add: wp_fun)
    have after: "wp (case r2 of Inl _ \<Rightarrow> vfs_unmount_loop V ks
        | Inr _ \<Rightarrow> kbind (ktry (on_world (fsop_unmount V f))) (\<lambda>r3. case r3 of Inl _ \<Rightarrow> vfs_unmount_loop V ks
            | Inr _ \<Rightarrow> kbind (set_kd_fs i None) (\<lambda>_. vfs_unmount_loop V ks))) ?Q ?Q u" if u: "?S u" for r2 u
      using drop [OF u] rest u by (cases r2) simp_all
    have again: "wp (kbind (case r1 of Inr _ \<Rightarrow> kret r1 | Inl _ \<Rightarrow> ktry (on_world (fsop_sync V f))) (\<lambda>r2. case r2 of Inl _ \<Rightarrow> vfs_unmount_loop V ks
        | Inr _ \<Rightarrow> kbind (ktry (on_world (fsop_unmount V f))) (\<lambda>r3. case r3 of Inl _ \<Rightarrow> vfs_unmount_loop V ks
            | Inr _ \<Rightarrow> kbind (set_kd_fs i None) (\<lambda>_. vfs_unmount_loop V ks)))) ?Q ?Q u" if u: "?S u" for r1 u
      unfolding wp_kbind_fun [of "case r1 of Inl _ \<Rightarrow> _ | Inr _ \<Rightarrow> _"] by (rule wp_mono [OF second [OF u]]) (use after in auto)
    show ?thesis
      unfolding vfs_unmount_loop.simps wp_kbind_fun [of "kget _"] wp_kget_fun f prod.case option.case wp_kbind_fun [of "ktry (on_world (fsop_sync V f))"] wp_ktry_fun
      by (rule wp_mono [OF sync]) (use Cons.prems(1) in simp, rule again, assumption, rule again, assumption)
  qed
qed

lemma unmountall_ok:
  assumes inv: "vfs_inv V G x n s"
  shows "wp (vfs_unmountall V) (\<lambda>_. settled V G s x n) (\<lambda>_. settled V G s x n) s"
  unfolding vfs_unmountall_def
proof (rule settled_locked, goal_cases)
  case 1
  show ?case
    unfolding wp_fun by (rule unmount_loop_ok) (use inv in \<open>simp_all add: settled_refl\<close>)
qed

end

section \<open>Every call of the layer\<close>

text \<open>What the caller owes: a file that is closed is open, a reference that is given up is held, and a file system that is added is new.\<close>

fun vfs_can :: "'w vview \<Rightarrow> (nat \<Rightarrow> nat) \<Rightarrow> (nat \<Rightarrow> nat) \<Rightarrow> vfs_call \<Rightarrow> 'w vfs \<Rightarrow> bool" where
  "vfs_can G x n (Vclose v) s \<longleftrightarrow> 0 < n v"
| "vfs_can G x n (Vdecref v) s \<longleftrightarrow> 0 < x v"
| "vfs_can G x n (Vgetcwd r) s \<longleftrightarrow> r"
| "vfs_can G x n (Vaddfs a b c name f) s \<longleftrightarrow> g_live G (vfs_world s) f \<and> (\<forall>kd \<in> set (knowndevs s). kd_fs kd \<noteq> Some f)"
| "vfs_can G x n c s \<longleftrightarrow> True"

text \<open>The references in the hands of callers and the open counts after a successful call.\<close>

fun refs_after :: "vfs_call \<Rightarrow> nat option \<Rightarrow> (nat \<Rightarrow> nat) \<Rightarrow> nat \<Rightarrow> nat" where
  "refs_after (Vlookup p) (Some v) x = plus1 x v"
| "refs_after (Vlookparent p k) (Some v) x = plus1 x v"
| "refs_after Vgetcurdir (Some v) x = plus1 x v"
| "refs_after (Vdecref v) r x = minus1 x v"
| "refs_after c r x = x"

fun opens_after :: "vfs_call \<Rightarrow> nat option \<Rightarrow> (nat \<Rightarrow> nat) \<Rightarrow> nat \<Rightarrow> nat" where
  "opens_after (Vopen p fl m) (Some v) n = plus1 n v"
| "opens_after (Vclose v) r n = minus1 n v"
| "opens_after c r n = n"

lemma plus1_minus1: "0 < x v \<Longrightarrow> plus1 (minus1 x v) v = x"
  by (rule ext) (simp add: plus1_def minus1_def)

lemma wp_no_vnode: "wp (no_vnode m) Q E s = wp m (\<lambda>_. Q None) E s"
  by (simp add: no_vnode_def wp_fun)

lemma wp_a_vnode: "wp (a_vnode m) Q E s = wp m (\<lambda>v. Q (Some v)) E s"
  by (simp add: a_vnode_def wp_fun)

context vnode_layer
begin

lemma in_parent_calls_ok:
  assumes inv: "vfs_inv V G x n s"
  shows "wp (vfs_remove V p) (\<lambda>_. settled V G s x n) (\<lambda>_. settled V G s x n) s"
    and "wp (vfs_symlink V c p) (\<lambda>_. settled V G s x n) (\<lambda>_. settled V G s x n) s"
    and "wp (vfs_mkdir V p m) (\<lambda>_. settled V G s x n) (\<lambda>_. settled V G s x n) s"
    and "wp (vfs_rmdir V p) (\<lambda>_. settled V G s x n) (\<lambda>_. settled V G s x n) s"
  unfolding vfs_remove_def vfs_symlink_def vfs_mkdir_def vfs_rmdir_def
  by (rule in_parent_plain [OF inv]; rule plain_op.intros; assumption)+

lemma adddev_ok:
  assumes inv: "vfs_inv V G x n s"
  shows "wp (vfs_adddev V a b c d name dev m) (\<lambda>_. settled V G s x n) (\<lambda>_. settled V G s x n) s"
  unfolding vfs_adddev_def by (rule doadd_ok [OF inv]) simp_all

lemma vfs_do_ok:
  assumes inv: "vfs_inv V G x n s" and can: "vfs_can G x n c s"
  shows "wp (vfs_do V c) (\<lambda>r. settled V G s (refs_after c r x) (opens_after c r n)) (\<lambda>_. settled V G s x n) s"
proof (cases c)
  case (Vclose v)
  have "vfs_inv V G x (plus1 (minus1 n v) v) s"
    using inv can Vclose by (simp add: plus1_minus1)
  from close_ok [OF this] show ?thesis
    unfolding Vclose vfs_do.simps wp_no_vnode refs_after.simps opens_after.simps by (rule wp_mono) simp_all
next
  case (Vdecref v)
  have "vfs_inv V G (plus1 (minus1 x v) v) n s"
    using inv can Vdecref by (simp add: plus1_minus1)
  from on_decref [OF this] show ?thesis
    unfolding Vdecref vfs_do.simps wp_no_vnode refs_after.simps opens_after.simps by (rule wp_mono) simp_all
next
  case (Vgetcwd r)
  then show ?thesis
    using can getcwd_ok [OF inv] by (simp add: wp_no_vnode)
next
  case (Vaddfs a b k name f)
  then show ?thesis
    using can doadd_ok [OF inv, of False None "Some f"] by (simp add: wp_no_vnode vfs_addfs_def)
next
  case (Vlookparent p k)
  have "wp (kbind (vfs_lookparent V p k) (\<lambda>(v, _). kret v)) (\<lambda>v. settled V G s (plus1 x v) n) (\<lambda>_. settled V G s x n) s"
    unfolding wp_kbind by (rule wp_mono [OF lookparent_ok [OF inv]]) (auto simp: wp_fun)
  then show ?thesis
    unfolding Vlookparent by (simp add: wp_a_vnode)
next
  case Vgetcurdir
  have "wp (vfs_getcurdir V) (\<lambda>v. settled V G s (plus1 x v) n) (\<lambda>_. settled V G s x n) s"
    by (rule wp_mono [OF getcurdir_ok [OF inv]]) simp_all
  then show ?thesis
    unfolding Vgetcurdir by (simp add: wp_a_vnode)
qed (use open_ok [OF inv] in_parent_calls_ok [OF inv] rename_ok [OF inv] link_ok [OF inv] readlink_ok [OF inv] chdir_ok [OF inv] clearcurdir_ok [OF inv]
    lookup_ok [OF inv] setbootfs_ok [OF inv] clearbootfs_ok [OF inv] sync_ok [OF inv] adddev_ok [OF inv] mount_ok [OF inv] unmount_ok [OF inv] unmountall_ok [OF inv]
    in \<open>simp_all add: wp_no_vnode wp_a_vnode\<close>)

end

end
