(* ===== verification/Device.thy ===== *)
theory Device
  imports Vfs_Refs Uio
begin

text \<open>
  Devices as files (\<^verbatim>\<open>vfs/device.c\<close>, with the counts of \<^verbatim>\<open>vfs/vnode.c\<close> on device vnodes), the null device
  (\<^verbatim>\<open>vfs/devnull.c\<close>) and the start of the virtual file system (\<^verbatim>\<open>vfs_bootstrap\<close>). The device vnodes are shown to keep the
  contract \<open>vnode_layer\<close>.

  A vnode and a \<^verbatim>\<open>struct device\<close> are known by their addresses. The functions of a device are fields of it, as in the source, and work on the
  state \<open>'d\<close> of the drivers. \<open>dv_kmalloc\<close> is the address that \<^verbatim>\<open>kmalloc\<close> returns for a new vnode, given the addresses in use. Vnodes of devices have
  no file system, so the operations of file systems do not occur here.
\<close>

section \<open>State\<close>

record 'd device =
  d_open :: "u32 \<Rightarrow> ('d, unit) kfun"
  d_close :: "('d, unit) kfun"
  d_io :: "('d \<times> uio, unit) kfun"
  d_ioctl :: "nat \<Rightarrow> nat \<Rightarrow> ('d, unit) kfun"
  d_blocks :: nat
  d_blocksize :: nat
  d_devnumber :: nat

record dvnode =
  dv_refcount :: nat
  dv_opencount :: nat
  dv_data :: "nat option"

record 'd devs =
  dv_vnodes :: "nat \<rightharpoonup> dvnode"
  dv_devices :: "nat \<Rightarrow> 'd device"
  dv_driver :: 'd
  dv_uio :: uio
  dv_kmalloc :: "(nat \<Rightarrow> bool) \<Rightarrow> nat option"

record dstat =
  st_size :: int
  st_mode :: nat
  st_nlink :: nat
  st_blocks :: nat
  st_blksize :: nat
  st_dev :: nat
  st_rdev :: nat

definition dv_get :: "nat \<Rightarrow> ('d devs, dvnode) kfun" where
  "dv_get v = kbind (kget (\<lambda>w. dv_vnodes w v)) (\<lambda>r. case r of None \<Rightarrow> kpanic | Some dv \<Rightarrow> kret dv)"

definition dv_put :: "nat \<Rightarrow> dvnode \<Rightarrow> ('d devs, unit) kfun" where
  "dv_put v dv = kmod (\<lambda>w. w\<lparr>dv_vnodes := (dv_vnodes w)(v \<mapsto> dv)\<rparr>)"

text \<open>The device of a vnode; \<^verbatim>\<open>vn_data\<close> of the vnode of a file system added by \<^verbatim>\<open>vfs_addfs\<close> is a null pointer.\<close>

definition dv_device :: "nat \<Rightarrow> ('d devs, 'd device) kfun" where
  "dv_device v =
    kbind (dv_get v) (\<lambda>dv.
    case dv_data dv of
      None \<Rightarrow> kpanic
    | Some d \<Rightarrow> kget (\<lambda>w. dv_devices w d))"

definition on_driver :: "('d, 'a) kfun \<Rightarrow> ('d devs, 'a) kfun" where
  "on_driver m w = (case m (dv_driver w) of Ok x s \<Rightarrow> Ok x (w\<lparr>dv_driver := s\<rparr>) | Err e s \<Rightarrow> Err e (w\<lparr>dv_driver := s\<rparr>) | Panic \<Rightarrow> Panic)"

section \<open>The counts of a vnode\<close>

definition dv_check :: "string \<Rightarrow> nat \<Rightarrow> ('d devs, unit) kfun" where
  "dv_check opstr v = kbind (dv_get v) (\<lambda>dv. if dv_refcount dv = 0 \<and> opstr \<noteq> ''reclaim'' then kpanic else kret ())"

text \<open>\<^verbatim>\<open>VOP_x(vn, ...)\<close>.\<close>

definition dv_op :: "string \<Rightarrow> nat \<Rightarrow> ('d devs, 'a) kfun \<Rightarrow> ('d devs, 'a) kfun" where
  "dv_op opstr v m = kbind (dv_check opstr v) (\<lambda>_. m)"

definition dv_incref :: "nat \<Rightarrow> ('d devs, unit) kfun" where
  "dv_incref v = kbind (dv_get v) (\<lambda>dv. dv_put v (dv\<lparr>dv_refcount := Suc (dv_refcount dv)\<rparr>))"

definition dev_reclaim :: "nat \<Rightarrow> ('d devs, unit) kfun" where
  "dev_reclaim v = kret ()"

definition dv_decref :: "nat \<Rightarrow> ('d devs, unit) kfun" where
  "dv_decref v =
    kbind (dv_get v) (\<lambda>dv.
    kbind (kassert (0 < dv_refcount dv)) (\<lambda>_.
    if 1 < dv_refcount dv then dv_put v (dv\<lparr>dv_refcount := dv_refcount dv - 1\<rparr>)
    else kbind (ktry (dv_op ''reclaim'' v (dev_reclaim v))) (\<lambda>_. kret ())))"

definition dv_incopen :: "nat \<Rightarrow> ('d devs, unit) kfun" where
  "dv_incopen v = kbind (dv_get v) (\<lambda>dv. dv_put v (dv\<lparr>dv_opencount := Suc (dv_opencount dv)\<rparr>))"

definition dev_close :: "nat \<Rightarrow> ('d devs, unit) kfun" where
  "dev_close v = kbind (dv_device v) (\<lambda>d. on_driver (d_close d))"

definition dv_decopen :: "nat \<Rightarrow> ('d devs, unit) kfun" where
  "dv_decopen v =
    kbind (dv_get v) (\<lambda>dv.
    kbind (kassert (0 < dv_opencount dv)) (\<lambda>_.
    kbind (dv_put v (dv\<lparr>dv_opencount := dv_opencount dv - 1\<rparr>)) (\<lambda>_.
    if 0 < dv_opencount dv - 1 then kret ()
    else kbind (ktry (dv_op ''close'' v (dev_close v))) (\<lambda>_. kret ()))))"

section \<open>Operations of device vnodes\<close>

definition dev_open :: "nat \<Rightarrow> u32 \<Rightarrow> ('d devs, unit) kfun" where
  "dev_open v flags =
    kbind (dv_device v) (\<lambda>d.
    if flags AND (O_CREAT OR O_TRUNC OR O_EXCL OR O_APPEND) \<noteq> 0 then kerr EINVAL
    else on_driver (d_open d flags))"

text \<open>The transfer descriptor is passed through the call.\<close>

definition dev_io :: "'d device \<Rightarrow> uio \<Rightarrow> ('d devs, uio) kfun" where
  "dev_io d u w =
    (case d_io d (dv_driver w, u) of
       Ok _ (s, u') \<Rightarrow> Ok u' (w\<lparr>dv_driver := s\<rparr>)
     | Err e (s, u') \<Rightarrow> Err e (w\<lparr>dv_driver := s\<rparr>)
     | Panic \<Rightarrow> Panic)"

definition dev_read :: "nat \<Rightarrow> uio \<Rightarrow> ('d devs, uio) kfun" where
  "dev_read v u = kbind (dv_device v) (\<lambda>d. kbind (kassert (uio_rw u = UIO_READ)) (\<lambda>_. dev_io d u))"

definition dev_write :: "nat \<Rightarrow> uio \<Rightarrow> ('d devs, uio) kfun" where
  "dev_write v u = kbind (dv_device v) (\<lambda>d. kbind (kassert (uio_rw u = UIO_WRITE)) (\<lambda>_. dev_io d u))"

definition null_io :: "nat \<Rightarrow> ('d devs, unit) kfun" where
  "null_io v = kerr EINVAL"

definition dev_ioctl :: "nat \<Rightarrow> nat \<Rightarrow> nat \<Rightarrow> ('d devs, unit) kfun" where
  "dev_ioctl v op data = kbind (dv_device v) (\<lambda>d. on_driver (d_ioctl d op data))"

definition dev_gettype :: "nat \<Rightarrow> ('d devs, nat) kfun" where
  "dev_gettype v = kbind (dv_device v) (\<lambda>d. kret (if d_blocks d > 0 then S_IFBLK else S_IFCHR))"

text \<open>
  \<^verbatim>\<open>d_blocks\<close> and \<^verbatim>\<open>d_blocksize\<close> are 32 bits wide and so is their product. \<open>0o600\<close> is 384 and disjoint from the bits of a file type.
\<close>

definition dev_stat :: "nat \<Rightarrow> ('d devs, dstat) kfun" where
  "dev_stat v =
    kbind (dv_device v) (\<lambda>d.
    kbind (dv_op ''gettype'' v (dev_gettype v)) (\<lambda>mode.
    kret \<lparr>st_size = (if d_blocks d > 0 then int (mul32 (d_blocks d) (d_blocksize d)) else 0),
      st_mode = or mode 384, st_nlink = 1, st_blocks = d_blocks d,
      st_blksize = (if d_blocks d > 0 then d_blocksize d else 0), st_dev = 0, st_rdev = d_devnumber d\<rparr>))"

definition dev_tryseek :: "nat \<Rightarrow> int \<Rightarrow> ('d devs, unit) kfun" where
  "dev_tryseek v pos =
    kbind (dv_device v) (\<lambda>d.
    if d_blocks d > 0 then
      kbind (kassert (d_blocksize d \<noteq> 0)) (\<lambda>_.
      if pos mod int (d_blocksize d) \<noteq> 0 then kerr EINVAL
      else if pos < 0 then kerr EINVAL
      else if pos div int (d_blocksize d) \<ge> int (d_blocks d) then kerr EINVAL
      else kret ())
    else kerr ESPIPE)"

definition null_fsync :: "nat \<Rightarrow> ('d devs, unit) kfun" where
  "null_fsync v = kret ()"

definition dev_mmap :: "nat \<Rightarrow> ('d devs, unit) kfun" where
  "dev_mmap v = kerr EUNIMP"

definition dev_truncate :: "nat \<Rightarrow> int \<Rightarrow> ('d devs, unit) kfun" where
  "dev_truncate v len =
    kbind (dv_device v) (\<lambda>d.
    if d_blocks d > 0 \<and> int (mul32 (d_blocks d) (d_blocksize d)) = len then kret () else kerr EINVAL)"

definition dev_namefile :: "nat \<Rightarrow> ('d devs, unit) kfun" where
  "dev_namefile v = kret ()"

definition null_creat :: "nat \<Rightarrow> string \<Rightarrow> bool \<Rightarrow> nat \<Rightarrow> ('d devs, nat) kfun" where
  "null_creat v name excl mode = kerr ENOTDIR"

definition null_mkdir :: "nat \<Rightarrow> string \<Rightarrow> nat \<Rightarrow> ('d devs, unit) kfun" where
  "null_mkdir v name mode = kerr ENOTDIR"

definition null_symlink :: "nat \<Rightarrow> string \<Rightarrow> string \<Rightarrow> ('d devs, unit) kfun" where
  "null_symlink v contents name = kerr ENOTDIR"

definition null_nameop :: "nat \<Rightarrow> string \<Rightarrow> ('d devs, unit) kfun" where
  "null_nameop v name = kerr ENOTDIR"

definition null_link :: "nat \<Rightarrow> string \<Rightarrow> nat \<Rightarrow> ('d devs, unit) kfun" where
  "null_link v name file = kerr ENOTDIR"

definition null_rename :: "nat \<Rightarrow> string \<Rightarrow> nat \<Rightarrow> string \<Rightarrow> ('d devs, unit) kfun" where
  "null_rename v n1 v2 n2 = kerr ENOTDIR"

definition dev_lookup :: "nat \<Rightarrow> string \<Rightarrow> ('d devs, nat) kfun" where
  "dev_lookup dir pathname = (if length pathname > 0 then kerr ENOENT else kbind (dv_incref dir) (\<lambda>_. kret dir))"

definition dev_lookparent :: "nat \<Rightarrow> string \<Rightarrow> nat \<Rightarrow> ('d devs, nat \<times> string) kfun" where
  "dev_lookparent dir pathname buflen = kerr ENOTDIR"

definition dev_vnode_create :: "nat option \<Rightarrow> ('d devs, nat option) kfun" where
  "dev_vnode_create dev =
    kbind (kget (\<lambda>w. dv_kmalloc w (\<lambda>a. dv_vnodes w a \<noteq> None))) (\<lambda>r.
    case r of
      None \<Rightarrow> kret None
    | Some v \<Rightarrow> kbind (dv_put v \<lparr>dv_refcount = 1, dv_opencount = 0, dv_data = dev\<rparr>) (\<lambda>_. kret (Some v)))"

definition dv_free :: "nat \<Rightarrow> ('d devs, unit) kfun" where
  "dv_free v = kmod (\<lambda>w. w\<lparr>dv_vnodes := (dv_vnodes w)(v := None)\<rparr>)"

definition dv_setnumber :: "nat \<Rightarrow> nat \<Rightarrow> ('d devs, unit) kfun" where
  "dv_setnumber d k = kmod (\<lambda>w. w\<lparr>dv_devices := (dv_devices w)(d := (dv_devices w d)\<lparr>d_devnumber := k\<rparr>)\<rparr>)"

text \<open>\<^verbatim>\<open>uiomove\<close> of a string into the caller's buffer.\<close>

definition dv_uio_put :: "uenv \<Rightarrow> string \<Rightarrow> ('d devs, unit) kfun" where
  "dv_uio_put env t w =
    (case uiomove env 0 (length t) \<lparr>u_uio = dv_uio w, u_buf = map (\<lambda>c. word_of_nat (of_char c)) t\<rparr> of
       Ok _ st \<Rightarrow> Ok () (w\<lparr>dv_uio := u_uio st\<rparr>)
     | Err e st \<Rightarrow> Err e (w\<lparr>dv_uio := u_uio st\<rparr>)
     | Panic \<Rightarrow> Panic)"

definition dev_vnode_ops :: "uenv \<Rightarrow> 'd devs vops" where
  "dev_vnode_ops env =
    \<lparr>vop_incref = dv_incref, vop_decref = dv_decref, vop_incopen = dv_incopen, vop_decopen = dv_decopen,
     vop_open = (\<lambda>v fl. dv_op ''open'' v (dev_open v fl)),
     vop_truncate = (\<lambda>v len. dv_op ''truncate'' v (dev_truncate v len)),
     vop_gettype = (\<lambda>v. dv_op ''gettype'' v (dev_gettype v)),
     vop_readlink = (\<lambda>v. dv_op ''readlink'' v (null_io v)),
     vop_namefile = (\<lambda>v. dv_op ''namefile'' v (dev_namefile v)),
     vop_creat = (\<lambda>v n e m. dv_op ''creat'' v (null_creat v n e m)),
     vop_symlink = (\<lambda>v n c. dv_op ''symlink'' v (null_symlink v n c)),
     vop_mkdir = (\<lambda>v n m. dv_op ''mkdir'' v (null_mkdir v n m)),
     vop_link = (\<lambda>v n f. dv_op ''link'' v (null_link v n f)),
     vop_remove = (\<lambda>v n. dv_op ''remove'' v (null_nameop v n)),
     vop_rmdir = (\<lambda>v n. dv_op ''rmdir'' v (null_nameop v n)),
     vop_rename = (\<lambda>v n u m. dv_op ''rename'' v (null_rename v n u m)),
     vop_lookup = (\<lambda>v p. dv_op ''lookup'' v (dev_lookup v p)),
     vop_lookparent = (\<lambda>v p k. dv_op ''lookparent'' v (dev_lookparent v p k)),
     vn_fs = (\<lambda>_ _. None),
     fsop_getroot = (\<lambda>_. kpanic), fsop_getvolname = (\<lambda>_ _. None), fsop_sync = (\<lambda>_. kpanic), fsop_unmount = (\<lambda>_. kpanic),
     dev_create_vnode = dev_vnode_create, dev_free_vnode = dv_free, dev_setnumber = dv_setnumber,
     uio_put = dv_uio_put env, mountfunc = (\<lambda>_. kerr ENODEV)\<rparr>"

section \<open>The null device\<close>

definition nullopen :: "u32 \<Rightarrow> ('d, unit) kfun" where
  "nullopen openflags = kret ()"

definition nullclose :: "('d, unit) kfun" where
  "nullclose = kret ()"

definition nullio :: "('d \<times> uio, unit) kfun" where
  "nullio = kmod (\<lambda>(s, u). (s, if uio_rw u = UIO_WRITE then u\<lparr>uio_resid := 0\<rparr> else u))"

definition nullioctl :: "nat \<Rightarrow> nat \<Rightarrow> ('d, unit) kfun" where
  "nullioctl op data = kerr EINVAL"

definition null_device :: "'d device" where
  "null_device = \<lparr>d_open = nullopen, d_close = nullclose, d_io = nullio, d_ioctl = nullioctl, d_blocks = 0, d_blocksize = 1, d_devnumber = 0\<rparr>"

text \<open>\<open>mem\<close> is what \<^verbatim>\<open>kmalloc\<close> returns for the device, the flags are the outcomes of the allocations in \<^verbatim>\<open>vfs_adddev\<close>.\<close>

definition devnull_create :: "'d devs vops \<Rightarrow> nat option \<Rightarrow> bool \<Rightarrow> bool \<Rightarrow> bool \<Rightarrow> ('d devs vfs, unit) kfun" where
  "devnull_create V mem name_ok kd_ok add_ok =
    (case mem of
       None \<Rightarrow> kpanic
     | Some d \<Rightarrow>
         kbind (on_world (kmod (\<lambda>w. w\<lparr>dv_devices := (dv_devices w)(d := null_device)\<rparr>))) (\<lambda>_.
         kbind (ktry (vfs_adddev V name_ok True kd_ok add_ok ''null'' d False)) (\<lambda>result.
         case result of Inl e \<Rightarrow> kpanic | Inr _ \<Rightarrow> kret ())))"

definition vfs_bootstrap :: "'d devs vops \<Rightarrow> bool \<Rightarrow> bool \<Rightarrow> nat option \<Rightarrow> bool \<Rightarrow> bool \<Rightarrow> bool \<Rightarrow> ('d devs vfs, unit) kfun" where
  "vfs_bootstrap V array_ok lock_ok mem name_ok kd_ok add_ok =
    kbind (kmod (\<lambda>s. s\<lparr>knowndevs := []\<rparr>)) (\<lambda>_.
    kbind (kassert array_ok) (\<lambda>_.
    kbind (kassert lock_ok) (\<lambda>_.
    kbind (kmod (\<lambda>s. s\<lparr>vfs_depth := 0\<rparr>)) (\<lambda>_.
    devnull_create V mem name_ok kd_ok add_ok))))"

section \<open>Device vnodes keep the contract\<close>

text \<open>The caller's buffer: one region of kernel memory, as \<^verbatim>\<open>uio_kinit\<close> makes it, of which all is left to be filled.\<close>

definition one_region :: "uio \<Rightarrow> bool" where
  "one_region u \<longleftrightarrow> uio_iovix u = 0 \<and> uio_segflg u = UIO_SYSSPACE \<and> uio_space u = None \<and>
    (\<exists>iov. uio_iov u = [iov] \<and> uio_resid u = length (iov_buf iov)) \<and> uio_resid u < 2 ^ 32"

lemma one_region_seg:
  assumes u: "one_region (u_uio st)" and sz: "0 < sz" "sz \<le> uio_resid (u_uio st)" "ptr + sz \<le> length (u_buf st)"
  shows "\<exists>st'. uiomove_seg env ptr sz st = Ok () st' \<and> one_region (u_uio (uio_account sz st')) \<and>
    uio_resid (u_uio (uio_account sz st')) = uio_resid (u_uio st) - sz"
proof -
  obtain iov where iov: "uio_iov (u_uio st) = [iov]" "uio_resid (u_uio st) = length (iov_buf iov)" "uio_iovix (u_uio st) = 0"
      "uio_segflg (u_uio st) = UIO_SYSSPACE" "uio_space (u_uio st) = None" "length (iov_buf iov) < 2 ^ 32"
    using u unfolding one_region_def by auto
  then have "sub32 (length (iov_buf iov)) sz = length (iov_buf iov) - sz"
    using sz(2) by (simp add: sub32_id)
  then show ?thesis
    using iov sz by (auto simp: uiomove_seg_def set_iov_def iov_advance_def uio_account_def one_region_def Let_def)
qed

lemma one_region_move:
  assumes "one_region (u_uio st)" "n \<le> length (u_buf st)"
  shows "\<exists>st'. uiomove env 0 n st = Ok () st' \<and> one_region (u_uio st')"
proof -
  obtain iov where iov: "uio_iov (u_uio st) = [iov]" "uio_resid (u_uio st) = length (iov_buf iov)" "uio_iovix (u_uio st) = 0"
      "uio_segflg (u_uio st) = UIO_SYSSPACE" "uio_space (u_uio st) = None"
    using assms(1) unfolding one_region_def by auto
  have "\<exists>st'. uiomove_loop env 0 n st = Ok () st' \<and> one_region (u_uio st')"
  proof (cases "n > 0 \<and> uio_resid (u_uio st) > 0")
    case False
    then show ?thesis
      using assms(1) by (subst uiomove_loop.simps) auto
  next
    case True
    define sz where "sz = (if iov_len iov > n then n else iov_len iov)"
    have sz: "0 < sz" "sz \<le> uio_resid (u_uio st)" "sz \<le> n" "sz = n \<or> sz = uio_resid (u_uio st)"
      using True iov(2) by (auto simp: sz_def iov_len_def)
    obtain st' where st': "uiomove_seg env 0 sz st = Ok () st'" "one_region (u_uio (uio_account sz st'))"
        "uio_resid (u_uio (uio_account sz st')) = uio_resid (u_uio st) - sz"
      using one_region_seg [OF assms(1) sz(1,2), of 0 env] sz(3) assms(2) by auto
    have "uiomove_loop env sz (n - sz) (uio_account sz st') = Ok () (uio_account sz st')"
      using sz(4) st'(3) by (subst uiomove_loop.simps) auto
    then have "uiomove_loop env 0 n st = Ok () (uio_account sz st')"
      using True iov sz(1) st'(1) by (subst uiomove_loop.simps) (simp add: sz_def [symmetric] Let_def)
    then show ?thesis
      using st'(2) by blast
  qed
  then show ?thesis
    using iov by (simp add: uiomove_def)
qed

definition dev_good :: "'d devs \<Rightarrow> bool" where
  "dev_good w \<longleftrightarrow> (\<forall>d fl s. d_open (dv_devices w d) fl s \<noteq> Panic) \<and> (\<forall>d s. d_close (dv_devices w d) s \<noteq> Panic) \<and>
    (\<forall>v dv. dv_vnodes w v = Some dv \<longrightarrow> 0 < dv_refcount dv \<and> (dv_data dv = None \<longrightarrow> dv_refcount dv = 1 \<and> dv_opencount dv = 0)) \<and>
    (\<forall>used a. dv_kmalloc w used = Some a \<longrightarrow> \<not> used a) \<and> one_region (dv_uio w)"

definition dev_view :: "'d devs vview" where
  "dev_view =
    \<lparr>g_good = dev_good,
     g_refs = (\<lambda>w v. case dv_vnodes w v of None \<Rightarrow> 0 | Some dv \<Rightarrow> dv_refcount dv - 1),
     g_opens = (\<lambda>w v. case dv_vnodes w v of None \<Rightarrow> 0 | Some dv \<Rightarrow> dv_opencount dv),
     g_pin = (\<lambda>w v. case dv_vnodes w v of None \<Rightarrow> False | Some dv \<Rightarrow> dv_data dv \<noteq> None),
     g_live = (\<lambda>_ _. False)\<rparr>"

lemma dev_ops_sel [simp]:
  "vop_incref (dev_vnode_ops env) = dv_incref" "vop_decref (dev_vnode_ops env) = dv_decref"
  "vop_incopen (dev_vnode_ops env) = dv_incopen" "vop_decopen (dev_vnode_ops env) = dv_decopen"
  "vop_open (dev_vnode_ops env) v fl = dv_op ''open'' v (dev_open v fl)"
  "vop_truncate (dev_vnode_ops env) v len = dv_op ''truncate'' v (dev_truncate v len)"
  "vop_gettype (dev_vnode_ops env) v = dv_op ''gettype'' v (dev_gettype v)"
  "vop_readlink (dev_vnode_ops env) v = dv_op ''readlink'' v (null_io v)"
  "vop_namefile (dev_vnode_ops env) v = dv_op ''namefile'' v (dev_namefile v)"
  "vop_creat (dev_vnode_ops env) v name e m = dv_op ''creat'' v (null_creat v name e m)"
  "vop_symlink (dev_vnode_ops env) v name c = dv_op ''symlink'' v (null_symlink v name c)"
  "vop_mkdir (dev_vnode_ops env) v name m = dv_op ''mkdir'' v (null_mkdir v name m)"
  "vop_link (dev_vnode_ops env) v name f = dv_op ''link'' v (null_link v name f)"
  "vop_remove (dev_vnode_ops env) v name = dv_op ''remove'' v (null_nameop v name)"
  "vop_rmdir (dev_vnode_ops env) v name = dv_op ''rmdir'' v (null_nameop v name)"
  "vop_rename (dev_vnode_ops env) v name u name' = dv_op ''rename'' v (null_rename v name u name')"
  "vop_lookup (dev_vnode_ops env) v p = dv_op ''lookup'' v (dev_lookup v p)"
  "vop_lookparent (dev_vnode_ops env) v p k = dv_op ''lookparent'' v (dev_lookparent v p k)"
  "vn_fs (dev_vnode_ops env) v w = None" "dev_create_vnode (dev_vnode_ops env) = dev_vnode_create"
  "dev_free_vnode (dev_vnode_ops env) = dv_free" "dev_setnumber (dev_vnode_ops env) = dv_setnumber"
  "uio_put (dev_vnode_ops env) = dv_uio_put env" "mountfunc (dev_vnode_ops env) d = kerr ENODEV"
  by (simp_all add: dev_vnode_ops_def)

lemma dev_view_sel [simp]: "g_good dev_view = dev_good" "\<not> g_live dev_view w f"
  by (simp_all add: dev_view_def)

lemma dev_usable:
  assumes "dev_good w" "usable dev_view w v"
  obtains dv d where "dv_vnodes w v = Some dv" "dv_data dv = Some d" "0 < dv_refcount dv"
proof -
  from assms obtain dv where dv: "dv_vnodes w v = Some dv" "0 < dv_refcount dv"
    by (auto simp: usable_def dev_view_def dev_good_def split: option.splits)
  moreover have "dv_data dv = None \<longrightarrow> dv_refcount dv = 1"
    using assms(1) dv unfolding dev_good_def by blast
  then have "dv_data dv \<noteq> None"
    using assms(2) dv by (auto simp: usable_def dev_view_def)
  ultimately show ?thesis
    using that by blast
qed

text \<open>A change of one count of a vnode.\<close>

lemma dev_becomes:
  assumes good: "dev_good w" and v: "dv_vnodes w v = Some dv" "dv_data dv = Some d"
    and dv': "0 < dv_refcount dv'" "dv_data dv' = Some d"
    and r: "r = (g_refs dev_view w)(v := dv_refcount dv' - 1)" and n: "n = (g_opens dev_view w)(v := dv_opencount dv')"
  shows "becomes (dev_vnode_ops env) dev_view r n w (w\<lparr>dv_vnodes := (dv_vnodes w)(v \<mapsto> dv')\<rparr>)"
  using assms unfolding becomes_def
  by (auto simp: dev_view_def dev_good_def dev_vnode_ops_def fun_eq_iff split: option.splits if_splits)

lemma dev_stays_driver: "dev_good w \<Longrightarrow> becomes (dev_vnode_ops env) dev_view (g_refs dev_view w) (g_opens dev_view w) w (w\<lparr>dv_driver := s\<rparr>)"
  by (auto simp: becomes_def dev_view_def dev_good_def)

lemma dev_becomes_driver:
  "becomes (dev_vnode_ops env) dev_view r n w w' \<Longrightarrow> becomes (dev_vnode_ops env) dev_view r n w (w'\<lparr>dv_driver := s\<rparr>)"
proof -
  assume w': "becomes (dev_vnode_ops env) dev_view r n w w'"
  have "g_refs dev_view (w'\<lparr>dv_driver := s\<rparr>) = g_refs dev_view w'" "g_opens dev_view (w'\<lparr>dv_driver := s\<rparr>) = g_opens dev_view w'"
      "g_pin dev_view (w'\<lparr>dv_driver := s\<rparr>) = g_pin dev_view w'" "dev_good (w'\<lparr>dv_driver := s\<rparr>) = dev_good w'"
    by (simp_all add: dev_view_def dev_good_def)
  with w' show ?thesis
    by (simp add: becomes_def)
qed

lemma dev_stays: "dev_good w \<Longrightarrow> becomes (dev_vnode_ops env) dev_view (g_refs dev_view w) (g_opens dev_view w) w w"
  by (simp add: becomes_def dev_view_def)

lemma wp_dv_get: "wp (dv_get v) Q E w = (case dv_vnodes w v of None \<Rightarrow> False | Some dv \<Rightarrow> Q dv w)"
  by (simp add: dv_get_def wp_simps split: option.split)

lemma wp_dv_op: "dv_vnodes w v = Some dv \<Longrightarrow> 0 < dv_refcount dv \<Longrightarrow> wp (dv_op opstr v m) Q E w = wp m Q E w"
  by (simp add: dv_op_def dv_check_def wp_fun wp_dv_get wp_if)

lemma wp_dv_device: "dv_vnodes w v = Some dv \<Longrightarrow> dv_data dv = Some d \<Longrightarrow> wp (dv_device v) Q E w = Q (dv_devices w d) w"
  by (simp add: dv_device_def wp_fun wp_dv_get)

lemma wp_on_driver:
  "wp (on_driver m) Q E w = wp m (\<lambda>x s. Q x (w\<lparr>dv_driver := s\<rparr>)) (\<lambda>e s. E e (w\<lparr>dv_driver := s\<rparr>)) (dv_driver w)"
  by (simp add: wp_def on_driver_def split: kres.splits)

lemma wp_dv_uio_put:
  assumes "dev_good w"
  shows "wp (dv_uio_put env t) (\<lambda>_. becomes (dev_vnode_ops env') dev_view (g_refs dev_view w) (g_opens dev_view w) w) E w"
proof -
  have "one_region (dv_uio w)"
    using assms by (simp add: dev_good_def)
  then obtain st where "uiomove env 0 (length t) \<lparr>u_uio = dv_uio w, u_buf = map (\<lambda>c. word_of_nat (of_char c)) t\<rparr> = Ok () st" "one_region (u_uio st)"
    using one_region_move [of "\<lparr>u_uio = dv_uio w, u_buf = map (\<lambda>c. word_of_nat (of_char c)) t\<rparr>" "length t" env] by auto
  then show ?thesis
    using assms by (auto simp: wp_def dv_uio_put_def becomes_def dev_view_def dev_good_def)
qed

lemma wp_total: "m s \<noteq> Panic \<Longrightarrow> (\<And>x s'. Q x s') \<Longrightarrow> (\<And>e s'. E e s') \<Longrightarrow> wp m Q E s"
  by (auto simp: wp_def split: kres.split)

lemma dev_answers:
  assumes good: "dev_good w" and v: "usable dev_view w v"
  shows "wp (dv_op opstr v (kerr e)) Q (\<lambda>_. stays (dev_vnode_ops env) dev_view w) w"
    and "wp (dv_op opstr v (kret x)) (\<lambda>_. stays (dev_vnode_ops env) dev_view w) E w"
  using dev_stays [OF good] by (auto intro: dev_usable [OF good v] simp: wp_dv_op wp_fun)

lemma dev_plain:
  assumes good: "dev_good w" and op: "plain_op (dev_vnode_ops env) dev_view w m"
  shows "wp m (\<lambda>_. stays (dev_vnode_ops env) dev_view w) (\<lambda>_. stays (dev_vnode_ops env) dev_view w) w"
  using op
proof cases
  case (1 v fl)
  obtain dv d where dv: "dv_vnodes w v = Some dv" "dv_data dv = Some d" "0 < dv_refcount dv"
    using dev_usable [OF good 1(2)] .
  have "d_open (dv_devices w d) fl (dv_driver w) \<noteq> Panic"
    using good by (simp add: dev_good_def)
  then show ?thesis
    using dv dev_stays [OF good] dev_stays_driver [OF good]
    by (auto simp: 1 wp_dv_op dev_open_def wp_fun wp_dv_device wp_if wp_on_driver intro!: wp_total)
next
  case (2 v len)
  obtain dv d where dv: "dv_vnodes w v = Some dv" "dv_data dv = Some d" "0 < dv_refcount dv"
    using dev_usable [OF good 2(2)] .
  then show ?thesis
    using dev_stays [OF good] by (auto simp: 2 wp_dv_op dev_truncate_def wp_fun wp_dv_device wp_if)
next
  case (12 d k)
  then show ?thesis
    using good by (auto simp: dv_setnumber_def wp_simps becomes_def dev_view_def dev_good_def)
next
  case (13 t)
  then show ?thesis
    using wp_dv_uio_put [OF good] by simp
qed (use dev_answers [OF good] in
    \<open>simp_all add: null_io_def dev_namefile_def null_symlink_def null_mkdir_def null_link_def null_nameop_def null_rename_def\<close>)

lemma dev_gains:
  assumes good: "dev_good w" and v: "usable dev_view w v"
  shows "wp (dv_incref v) (\<lambda>_. gains (dev_vnode_ops env) dev_view v w) E w"
proof -
  obtain dv d where dv: "dv_vnodes w v = Some dv" "dv_data dv = Some d" "0 < dv_refcount dv"
    using dev_usable [OF good v] .
  have "gains (dev_vnode_ops env) dev_view v w (w\<lparr>dv_vnodes := (dv_vnodes w)(v \<mapsto> dv\<lparr>dv_refcount := Suc (dv_refcount dv)\<rparr>)\<rparr>)"
    by (rule dev_becomes [OF good dv(1,2)]) (use dv in \<open>auto simp: dev_view_def plus1_def fun_eq_iff\<close>)
  then show ?thesis
    by (simp add: dv_incref_def wp_fun wp_dv_get dv dv_put_def)
qed

lemma dev_counts:
  assumes good: "dev_good w"
  shows "g_opens dev_view w v < g_refs dev_view w v \<Longrightarrow>
      wp (dv_decref v) (\<lambda>_. becomes (dev_vnode_ops env) dev_view (minus1 (g_refs dev_view w) v) (g_opens dev_view w) w) E w"
    and "g_opens dev_view w v < g_refs dev_view w v \<Longrightarrow>
      wp (dv_incopen v) (\<lambda>_. becomes (dev_vnode_ops env) dev_view (g_refs dev_view w) (plus1 (g_opens dev_view w) v) w) E w"
proof -
  assume lt: "g_opens dev_view w v < g_refs dev_view w v"
  then have "usable dev_view w v"
    by (simp add: usable_def)
  then obtain dv d where dv: "dv_vnodes w v = Some dv" "dv_data dv = Some d" "0 < dv_refcount dv"
    using dev_usable [OF good] by blast
  have "1 < dv_refcount dv"
    using lt dv by (simp add: dev_view_def)
  moreover have "becomes (dev_vnode_ops env) dev_view (minus1 (g_refs dev_view w) v) (g_opens dev_view w) w
      (w\<lparr>dv_vnodes := (dv_vnodes w)(v \<mapsto> dv\<lparr>dv_refcount := dv_refcount dv - 1\<rparr>)\<rparr>)"
    by (rule dev_becomes [OF good dv(1,2)]) (use dv \<open>1 < dv_refcount dv\<close> in \<open>auto simp: dev_view_def minus1_def fun_eq_iff\<close>)
  ultimately show "wp (dv_decref v) (\<lambda>_. becomes (dev_vnode_ops env) dev_view (minus1 (g_refs dev_view w) v) (g_opens dev_view w) w) E w"
    by (simp add: dv_decref_def wp_fun wp_dv_get dv dv_put_def wp_kassert)
  have "becomes (dev_vnode_ops env) dev_view (g_refs dev_view w) (plus1 (g_opens dev_view w) v) w
      (w\<lparr>dv_vnodes := (dv_vnodes w)(v \<mapsto> dv\<lparr>dv_opencount := Suc (dv_opencount dv)\<rparr>)\<rparr>)"
    by (rule dev_becomes [OF good dv(1,2)]) (use dv in \<open>auto simp: dev_view_def plus1_def fun_eq_iff\<close>)
  then show "wp (dv_incopen v) (\<lambda>_. becomes (dev_vnode_ops env) dev_view (g_refs dev_view w) (plus1 (g_opens dev_view w) v) w) E w"
    by (simp add: dv_incopen_def wp_fun wp_dv_get dv dv_put_def)
qed

lemma dev_decopens:
  assumes good: "dev_good w" and v: "0 < g_opens dev_view w v"
  shows "wp (dv_decopen v) (\<lambda>_. becomes (dev_vnode_ops env) dev_view (g_refs dev_view w) (minus1 (g_opens dev_view w) v) w) E w"
proof -
  obtain dv where dv: "dv_vnodes w v = Some dv" "0 < dv_opencount dv" "0 < dv_refcount dv"
    using v good by (auto simp: dev_view_def dev_good_def split: option.splits)
  have "dv_data dv = None \<longrightarrow> dv_opencount dv = 0"
    using good dv(1) unfolding dev_good_def by blast
  then obtain d where d: "dv_data dv = Some d"
    using dv(2) by auto
  let ?w = "w\<lparr>dv_vnodes := (dv_vnodes w)(v \<mapsto> dv\<lparr>dv_opencount := dv_opencount dv - 1\<rparr>)\<rparr>"
  have w': "becomes (dev_vnode_ops env) dev_view (g_refs dev_view w) (minus1 (g_opens dev_view w) v) w ?w"
    by (rule dev_becomes [OF good dv(1) d]) (use dv d in \<open>auto simp: dev_view_def minus1_def fun_eq_iff\<close>)
  then have w'': "becomes (dev_vnode_ops env) dev_view (g_refs dev_view w) (minus1 (g_opens dev_view w) v) w (?w\<lparr>dv_driver := s\<rparr>)" for s
    by (rule dev_becomes_driver)
  have "d_close (dv_devices w d) s \<noteq> Panic" for s
    using good by (simp add: dev_good_def)
  then have "wp (dv_op ''close'' v (dev_close v)) (\<lambda>_. becomes (dev_vnode_ops env) dev_view (g_refs dev_view w) (minus1 (g_opens dev_view w) v) w)
      (\<lambda>_. becomes (dev_vnode_ops env) dev_view (g_refs dev_view w) (minus1 (g_opens dev_view w) v) w) ?w"
    using w'' dv(3) d by (auto simp: wp_dv_op dev_close_def wp_fun wp_dv_device wp_on_driver intro!: wp_total)
  then show ?thesis
    using w' by (auto simp: dv_decopen_def wp_fun wp_dv_get dv dv_put_def wp_kassert wp_if)
qed

lemma dev_lookups:
  assumes good: "dev_good w" and v: "usable dev_view w v"
  shows "wp (dv_op ''lookup'' v (dev_lookup v p)) (\<lambda>u w'. gains (dev_vnode_ops env) dev_view u w w' \<and> vn_fs (dev_vnode_ops env) u w' = vn_fs (dev_vnode_ops env) v w)
    (\<lambda>_. stays (dev_vnode_ops env) dev_view w) w"
proof -
  obtain dv d where dv: "dv_vnodes w v = Some dv" "dv_data dv = Some d" "0 < dv_refcount dv"
    using dev_usable [OF good v] .
  show ?thesis
    using dev_gains [OF good v] dev_stays [OF good] dv by (simp add: wp_dv_op dev_lookup_def wp_fun wp_if)
qed

lemma dev_creates:
  assumes good: "dev_good w"
  shows "wp (dev_vnode_create dev)
    (\<lambda>r w'. stays (dev_vnode_ops env) dev_view w w' \<and> (\<forall>v. r = Some v \<longrightarrow> \<not> usable dev_view w v \<and> (dev \<noteq> None \<longrightarrow> g_pin dev_view w' v) \<and>
      wp (dv_free v) (\<lambda>_. becomes (dev_vnode_ops env) (dev_view\<lparr>g_pin := \<lambda>w u. u \<noteq> v \<and> g_pin dev_view w u\<rparr>) (g_refs dev_view w') (g_opens dev_view w') w') (\<lambda>_ _. False) w'))
    E w"
proof (cases "dv_kmalloc w (\<lambda>a. dv_vnodes w a \<noteq> None)")
  case None
  then show ?thesis
    using dev_stays [OF good] by (simp add: dev_vnode_create_def wp_fun)
next
  case (Some v)
  then have v: "dv_vnodes w v = None"
    using good unfolding dev_good_def by blast
  let ?w = "w\<lparr>dv_vnodes := (dv_vnodes w)(v \<mapsto> \<lparr>dv_refcount = 1, dv_opencount = 0, dv_data = dev\<rparr>)\<rparr>"
  have "stays (dev_vnode_ops env) dev_view w ?w"
    using good v by (auto simp: becomes_def dev_view_def dev_good_def fun_eq_iff split: option.splits)
  moreover have "becomes (dev_vnode_ops env) (dev_view\<lparr>g_pin := \<lambda>w u. u \<noteq> v \<and> g_pin dev_view w u\<rparr>) (g_refs dev_view ?w) (g_opens dev_view ?w) ?w
      (?w\<lparr>dv_vnodes := (dv_vnodes ?w)(v := None)\<rparr>)"
    using good v by (auto simp: becomes_def dev_view_def dev_good_def fun_eq_iff split: option.splits)
  ultimately show ?thesis
    using v Some by (simp add: dev_vnode_create_def wp_fun dv_put_def dv_free_def usable_def dev_view_def)
qed

text \<open>Device vnodes are a layer under the virtual file system, whatever the drivers are.\<close>

interpretation dv: vnode_layer "dev_vnode_ops env" dev_view for env
proof (unfold_locales, goal_cases)
  case (3 w v)
  then have "dev_good w" "usable dev_view w v"
    by simp_all
  then obtain dv d where "dv_vnodes w v = Some dv" "dv_data dv = Some d" "0 < dv_refcount dv"
    by (rule dev_usable)
  then show ?case
    using dev_stays 3(1) by (auto simp: wp_dv_op dev_gettype_def wp_fun wp_dv_device S_IFDIR_def S_IFBLK_def S_IFCHR_def)
qed (use dev_plain dev_gains dev_counts dev_decopens dev_lookups dev_creates dev_answers dev_stays in
    \<open>simp_all add: null_creat_def dev_lookparent_def wp_fun\<close>)

text \<open>The size that \<^verbatim>\<open>dev_stat\<close> reports is a 32-bit product: a device of \<open>2 ^ 23\<close> blocks of 512 bytes, 4 GB, has size 0.\<close>

lemma dev_stat_wraps:
  assumes "dv_vnodes w v = Some dv" "0 < dv_refcount dv" "dv_data dv = Some d" "d_blocks (dv_devices w d) = 2 ^ 23" "d_blocksize (dv_devices w d) = 512"
  shows "\<exists>st. dev_stat v w = Ok st w \<and> st_size st = 0 \<and> st_blocks st = 2 ^ 23"
  using assms by (simp add: dev_stat_def dv_op_def dv_check_def dev_gettype_def dv_device_def dv_get_def kfun_defs mul32_def)

section \<open>The layer is balanced\<close>

text \<open>The start of the layer: with memory for the null device, it comes up with the invariant and one device.\<close>

lemma vfs_bootstrap_ok:
  assumes good: "dev_good w" and w: "dv_vnodes w = Map.empty" "dv_kmalloc w (\<lambda>_. False) = Some v"
  shows "\<exists>s. vfs_bootstrap (dev_vnode_ops env) True True (Some d) True True True
      \<lparr>knowndevs = ds, vfs_depth = k, p_cwd = None, bootfs_vnode = None, vfs_world = w\<rparr> = Ok () s \<and>
    knowndevs s = [\<lparr>kd_name = ''null'', kd_rawname = None, kd_device = Some d, kd_vnode = v, kd_fs = None\<rparr>] \<and> vfs_depth s = 0 \<and>
    vfs_inv (dev_vnode_ops env) dev_view (\<lambda>_. 0) (\<lambda>_. 0) s"
proof -
  let ?w = "w\<lparr>dv_devices := (dv_devices w)(d := null_device\<lparr>d_devnumber := 1\<rparr>), dv_vnodes := [v \<mapsto> \<lparr>dv_refcount = 1, dv_opencount = 0, dv_data = Some d\<rparr>]\<rparr>"
  let ?s = "\<lparr>knowndevs = [\<lparr>kd_name = ''null'', kd_rawname = None, kd_device = Some d, kd_vnode = v, kd_fs = None\<rparr>], vfs_depth = 0, p_cwd = None,
    bootfs_vnode = None, vfs_world = ?w\<rparr>"
  have "vfs_bootstrap (dev_vnode_ops env) True True (Some d) True True True
      \<lparr>knowndevs = ds, vfs_depth = k, p_cwd = None, bootfs_vnode = None, vfs_world = w\<rparr> = Ok () ?s"
    using w by (simp add: vfs_bootstrap_def devnull_create_def vfs_adddev_def vfs_doadd_def vfs_doadd_entry_def locked_def biglock_acquire_def biglock_release_def
        badnames_def biglock_held_def on_world_def dev_vnode_create_def dv_put_def dv_setnumber_def kfun_defs)
  moreover have "dev_good ?w"
    using good by (auto simp: dev_good_def null_device_def nullopen_def nullclose_def kret_def)
  then have "vfs_inv (dev_vnode_ops env) dev_view (\<lambda>_. 0) (\<lambda>_. 0) ?s"
    by (auto simp: vfs_inv_def dev_view_def kd_wf_def holds_def fun_eq_iff split: option.split)
  ultimately show ?thesis
    by simp
qed


definition booted :: "unit devs vfs" where
  "booted =
    \<lparr>knowndevs = [\<lparr>kd_name = ''null'', kd_rawname = None, kd_device = Some 0, kd_vnode = 0, kd_fs = None\<rparr>], vfs_depth = 0, p_cwd = None, bootfs_vnode = None,
     vfs_world =
       \<lparr>dv_vnodes = [0 \<mapsto> \<lparr>dv_refcount = 1, dv_opencount = 0, dv_data = Some 0\<rparr>],
        dv_devices = (\<lambda>_. null_device\<lparr>d_devnumber := 1\<rparr>), dv_driver = (), dv_uio = uio_kinit 0 [] 0 UIO_READ, dv_kmalloc = (\<lambda>_. None)\<rparr>\<rparr>"

definition booted_env :: uenv where
  "booted_env = \<lparr>curproc_as = None, uvalid = (\<lambda>_. False)\<rparr>"

lemma booted_inv: "vfs_inv (dev_vnode_ops booted_env) dev_view (\<lambda>_. 0) (\<lambda>_. 0) booted"
  by (auto simp: vfs_inv_def booted_def dev_view_def dev_good_def kd_wf_def holds_def null_device_def nullopen_def nullclose_def kret_def one_region_def uio_kinit_def
      split: option.split)


end
