(* ===== verification/Spec2Isabelle.thy ===== *)
theory Spec2Isabelle
  imports Sfs_Fs Sfs_Trunc Thread_Sys Synch_Cv Kern_Array Kern_Queue Bswap Device
begin

text \<open>
  A model of the OS/161 kernel of this repository, with the properties that make its parts correct. All paths are under
  \<^verbatim>\<open>src/\<close>.

  \<^bold>\<open>The program.\<close> The kernel has a library of containers and transfer functions (\<^verbatim>\<open>lib\<close>, \<^verbatim>\<open>vm/copyinout.c\<close>), a thread system for
  several processors with spinlocks, wait channels and synchronization primitives (\<^verbatim>\<open>thread\<close>), a disk driver
  (\<^verbatim>\<open>dev/lamebus/lhd.c\<close>), the file system SFS (\<^verbatim>\<open>fs/sfs\<close>), and the virtual file system layer (\<^verbatim>\<open>vfs\<close>) that finds files by
  name and calls file systems and devices through tables of functions. SFS moves data with \<^verbatim>\<open>uiomove\<close>, allocates blocks from
  a bitmap and reaches the disk through the driver; the synchronization primitives and the driver sleep on wait channels; the
  thread system keeps its threads on thread lists guarded by spinlocks.

  \<^bold>\<open>How functions are modelled.\<close> \<open>Kernel_Base\<close> has the outcome of a kernel function: a value (\<open>Ok\<close>), an error number
  (\<open>Err\<close>), each with the state after it, or \<open>Panic\<close> for a failed assertion, a call of \<^verbatim>\<open>panic\<close> or an access outside an
  object. Functions are composed with \<open>kbind\<close>; \<open>ktry\<close> hands an error to the code that cleans up after it. The outcomes of
  memory allocations are arguments or part of the state, so that every failure path is a branch. 32-bit arithmetic wraps
  where the source can overflow (\<open>add32\<close>, \<open>sub32\<close>, \<open>mul32\<close>, or machine words). Code that interleaves is modelled
  statement by statement, with a program counter for every thread or processor and a step relation in which any of them may
  move next.

  \<^bold>\<open>Library.\<close>
  \<^item> \<open>Bitmap\<close> (\<^verbatim>\<open>lib/bitmap.c\<close>): allocation returns the least free index, and a new map gives out each index once. The
    contract of a free-block map is the locale \<open>block_map\<close>.
  \<^item> \<open>Kern_Array\<close> (\<^verbatim>\<open>lib/array.c\<close>): resizing keeps the elements, fails cleanly, and does not return for sizes above
    \<open>2 ^ 31\<close>. The contract of a sequence is \<open>sequence_store\<close>.
  \<^item> \<open>Fifo\<close>, \<open>Kern_Queue\<close> (\<^verbatim>\<open>lib/queue.c\<close>) and \<open>Threadlist\<close> (\<^verbatim>\<open>thread/threadlist.c\<close>): the circular buffer and the
    doubly linked lists over a store of nodes implement lists; both are instances of the locale \<open>fifo\<close>.
  \<^item> \<open>Copyinout\<close> (\<^verbatim>\<open>vm/copyinout.c\<close>) and \<open>Uio\<close> (\<^verbatim>\<open>lib/uio.c\<close>): which user regions are accepted, and that transfers move the
    bytes they should. Which user addresses can be accessed is a parameter.
  \<^item> \<open>Bswap\<close> (\<^verbatim>\<open>lib/bswap.c\<close>): the 16- and 32-bit swaps reverse the bytes, and the 64-bit one does not.

  \<^bold>\<open>Disk and SFS.\<close>
  \<^item> \<open>Lhd\<close>: the driver transfers the sectors of a request, or refuses it. The disk is a parameter. What file systems rely on is the
    locale \<open>block_device\<close>, which the driver satisfies on every working disk (\<open>working_disk\<close>).
  \<^item> \<open>Sfs_Disk\<close>: the structures on disk and their bytes, with their round trips.
  \<^item> \<open>Sfs_Core\<close>: the state of a volume, block transfers with their retries, allocation and the block map. \<open>sfs_inv\<close> is the
    invariant of a volume, and a file is abstracted to its bytes.
  \<^item> \<open>Sfs_File\<close>: \<^verbatim>\<open>sfs_io\<close> reads and writes a region of the abstract file. \<open>Sfs_Dir\<close>: a directory is a map from names to inode
    numbers, and link, unlink and search implement its operations.
  \<^item> \<open>Sfs_Vnode\<close>: the entries of the two tables of vnode operations. \<open>Sfs_Trunc\<close>: which blocks truncation frees.
    \<open>Sfs_Fs\<close>: sync and mount; a volume that was synced is recovered by a mount.

  \<^bold>\<open>Threads and synchronization.\<close>
  \<^item> \<open>Spl\<close> (\<^verbatim>\<open>thread/spl.c\<close>, \<^verbatim>\<open>thread/spinlock.c\<close>): interrupt levels, and the exclusion of spinlocks under every interleaving
    of processors.
  \<^item> \<open>Thread\<close> (\<^verbatim>\<open>thread/thread.c\<close>, the membership functions of \<^verbatim>\<open>proc/proc.c\<close>): the operations on the store of lists and
    locks, with the processor that executes them as argument. \<open>Thread_Inv\<close> has the invariant and its preservation,
    \<open>Thread_Sys\<close> the steps of all processors: each live thread is in one place, no operation whose precondition holds
    panics, the interrupt counters account for the locks held, and the run queue is served in turn. A function of this model
    is one step: interleaving is between functions, while \<open>Spl\<close>, \<open>Synch\<close> and \<open>Synch_Cv\<close> interleave single statements.
  \<^item> \<open>Synch\<close> (\<^verbatim>\<open>thread/synch.c\<close>): semaphores and locks are one machine with different parameters, and its lemmas are proved in
    the locale \<open>waitable\<close>: mutual exclusion, conservation of the count, and no lost wakeup. \<open>Synch_Cv\<close>: condition
    variables on top of the lock; \<^verbatim>\<open>cv_wait\<close> returns with the lock, and an interleaving loses a signal.

  \<^bold>\<open>Virtual file system.\<close>
  \<^item> \<open>Vfs\<close> (\<^verbatim>\<open>vfs/vfslist.c\<close>, \<^verbatim>\<open>vfs/vfslookup.c\<close>, \<^verbatim>\<open>vfs/vfspath.c\<close>, \<^verbatim>\<open>vfs/vfscwd.c\<close>): the device table stays well formed,
    pathnames start where they are documented to start, device names resolve. The vnodes and file systems below are the record
    \<open>vops\<close> of functions.
  \<^item> \<open>Vfs_Refs\<close>: the contract \<open>vnode_layer\<close> of that record, and the balance of references and open counts of all calls.
    \<open>Device\<close> (\<^verbatim>\<open>vfs/device.c\<close>, \<^verbatim>\<open>vfs/devnull.c\<close>) has the vnodes of devices and shows that they keep the contract.

  \<^bold>\<open>Bounds and fuel.\<close> The loops of the source are recursive functions with termination proofs, apart from these.
  \<open>array_newmax\<close> and \<open>q_len_loop\<close> are partial functions with \<open>None\<close> for a loop that does not end; that they return is part
  of the statements about them. \<open>q_copy\<close> has the length of the data block as fuel, which is one more than the number of elements a queue can hold, and
  \<open>q_addtail_depth\<close> bounds by 2 the recursion of \<^verbatim>\<open>q_addtail\<close> through \<^verbatim>\<open>q_grow\<close>; running out of either is \<open>Panic\<close>, and the theorem on
  sessions of a queue shows that this does not happen. The loops that empty a thread list (\<open>exorcise_loop\<close>, \<open>wakeall_move\<close>,
  \<open>wakeall_run\<close>) take at most one turn more than the list has threads, and running out is \<open>Panic\<close>, which the theorem that no operation
  of the thread system panics excludes. The busy loop of a spinlock is a statement that leaves its processor where it is.

  \<^bold>\<open>Not modelled.\<close> The start of the kernel and its menu (\<^verbatim>\<open>startup\<close>), the tests (\<^verbatim>\<open>test\<close>) and the synchronization exercises
  (\<^verbatim>\<open>synchprobs\<close>), which print and call the rest; the emulator file system, the bus, the console and the small drivers, whose state is in the
  simulator; traps, assembly and context frames, which are machine registers; address spaces, the translation buffer and the
  kernel heap, which work on raw memory; system calls, processes and program loading, which rest on those; the clock; and the
  generated configuration. SFS volumes and VFS are not joined: SFS has its own heap of vnodes, and the contract of the VFS is
  shown for device vnodes. The names of locks, semaphores and channels, debugging output and the spinlock of the current process
  around single statements are left out.
\<close>

end
